(* ===== verification/Kernel_Prelude.thy ===== *)
theory Kernel_Prelude
  imports Main "HOL-Library.Word"
begin

text \<open>
  What the component theories share: the C integer types as words, the ways the kernel can
  stop (\<open>fault\<close>) and the result type of fallible code with its sequencing function, the
  byte-addressed memory with little-endian loads and stores (the kernel is built for
  \<^verbatim>\<open>mips64el\<close>), and the generic facts about lists and words the proofs use.
\<close>

unbundle bit_operations_syntax

named_theorems kernel_simps \<open>unfolding rules of the small accessors and macros\<close>
named_theorems ring_intros \<open>rules that build a ring of list nodes\<close>

section \<open>C types\<close>

type_synonym u8 = "8 word"
type_synonym u16 = "16 word"
type_synonym u32 = "32 word"
type_synonym u64 = "64 word"
type_synonym addr_t = u64
type_synonym size_t = u64

lemma unat_less_u64: "unat (v :: u64) < 2 ^ 64"
proof -
  have "unat v < 2 ^ LENGTH(64)" by (rule unsigned_less)
  then show ?thesis by simp
qed

lemma unat_less_u32: "unat (v :: u32) < 2 ^ 32"
proof -
  have "unat v < 2 ^ LENGTH(32)" by (rule unsigned_less)
  then show ?thesis by simp
qed

lemma unat_of_nat_u64: "n < 2 ^ 64 \<Longrightarrow> unat (of_nat n :: u64) = n"
  by (simp add: unat_of_nat)

lemma unat_of_nat_u32: "n < 2 ^ 32 \<Longrightarrow> unat (of_nat n :: u32) = n"
  by (simp add: unat_of_nat)

lemma unat_ucast_u32: "unat (ucast (x :: u64) :: u32) = unat x mod 2 ^ 32"
proof -
  have "unat (ucast x :: u32) = take_bit LENGTH(32) (unat x)" by (rule unsigned_ucast_eq)
  then show ?thesis by (simp add: take_bit_eq_mod)
qed

lemma unat_ucast_u64: "unat (ucast (x :: u32) :: u64) = unat x"
proof -
  have "unat (ucast x :: u64) = take_bit LENGTH(64) (unat x)" by (rule unsigned_ucast_eq)
  then show ?thesis using unat_less_u32 [of x] by (simp add: take_bit_eq_mod)
qed

lemma not_bit_ge:
  assumes "unat (x :: 'a::len word) < 2 ^ k" "k \<le> n"
  shows "\<not> bit x n"
proof
  assume "bit x n"
  then have "odd (unat x div 2 ^ n)"
    using bit_imp_le_length [of x n] by (simp add: bit_unsigned_iff flip: bit_iff_odd)
  moreover have "unat x < 2 ^ n"
    using assms less_le_trans power_increasing [of k n "2::nat"] by fastforce
  ultimately show False by simp
qed

section \<open>Faults and results\<close>

text \<open>
  Kernel code stops in four ways: \<^verbatim>\<open>panic()\<close> (which never returns), a failed
  \<^verbatim>\<open>assert\<close> (which executes a trapping instruction), an access through a null pointer
  and an access through a pointer that does not point to an object of its type. \<open>Hang\<close>
  is the value of a loop that has used up its fuel.
\<close>

datatype fault = Panic string | Assertion string | NullPointer | BadPointer string | Hang

type_synonym 'a result = "fault + 'a"

definition rbind :: "'a result \<Rightarrow> ('a \<Rightarrow> 'b result) \<Rightarrow> 'b result" where
  "rbind m f = (case m of Inl e \<Rightarrow> Inl e | Inr x \<Rightarrow> f x)"

lemma rbind_Inl [simp]: "rbind (Inl e) f = Inl e"
  by (simp add: rbind_def)

lemma rbind_Inr [simp]: "rbind (Inr x) f = f x"
  by (simp add: rbind_def)

lemma rbind_cong [fundef_cong]:
  "m = m' \<Longrightarrow> (\<And>x. m' = Inr x \<Longrightarrow> f x = f' x) \<Longrightarrow> rbind m f = rbind m' f'"
  by (cases m') auto

lemma rbind_eq_Inr: "rbind m f = Inr y \<longleftrightarrow> (\<exists>x. m = Inr x \<and> f x = Inr y)"
  by (cases m) auto

lemma rbindE:
  assumes "rbind m f = Inr y" obtains x where "m = Inr x" "f x = Inr y"
  using assms by (auto simp: rbind_eq_Inr)

lemma rbind_split:
  "P (rbind m f) \<longleftrightarrow> (\<forall>e. m = Inl e \<longrightarrow> P (Inl e)) \<and> (\<forall>x. m = Inr x \<longrightarrow> P (f x))"
  by (cases m) auto

text \<open>\<^verbatim>\<open>assert(x)\<close> of \<^verbatim>\<open>include/assert.h\<close>.\<close>

definition assert_that :: "string \<Rightarrow> bool \<Rightarrow> unit result" where
  "assert_that msg b = (if b then Inr () else Inl (Assertion msg))"

lemma assert_that_True [simp]: "assert_that msg True = Inr ()"
  by (simp add: assert_that_def)

lemma assert_that_False [simp]: "assert_that msg False = Inl (Assertion msg)"
  by (simp add: assert_that_def)

section \<open>Bytes of words\<close>

primrec bytes_of_word :: "nat \<Rightarrow> 'a::len word \<Rightarrow> u8 list" where
  "bytes_of_word 0 w = []"
| "bytes_of_word (Suc n) w = ucast w # bytes_of_word n (drop_bit 8 w)"

primrec word_of_bytes :: "u8 list \<Rightarrow> 'a::len word" where
  "word_of_bytes [] = 0"
| "word_of_bytes (b # bs) = ucast b OR push_bit 8 (word_of_bytes bs)"

lemma length_bytes_of_word [simp]: "length (bytes_of_word n w) = n"
  by (induction n arbitrary: w) auto

lemma bit_word_of_bytes_of_word:
  "bit (word_of_bytes (bytes_of_word n w) :: 'a::len word) i \<longleftrightarrow> i < 8 * n \<and> bit (w :: 'a word) i"
proof (induction n arbitrary: w i)
  case 0
  then show ?case by simp
next
  case (Suc n)
  show ?case
  proof (cases "i < 8")
    case True
    then show ?thesis
      using bit_imp_le_length [of w i] by (auto simp: bit_simps)
  next
    case False
    then have "\<not> bit (ucast (ucast w :: u8) :: 'a word) i"
      by (simp add: bit_simps)
    then show ?thesis
      using False Suc [of "drop_bit 8 w" "i - 8"] bit_imp_le_length [of w i]
      by (auto simp: bit_simps)
  qed
qed

lemma word_of_bytes_of_word:
  "LENGTH('a::len) \<le> 8 * n \<Longrightarrow> word_of_bytes (bytes_of_word n w) = (w :: 'a word)"
  by (rule bit_word_eqI) (simp add: bit_word_of_bytes_of_word)

lemma bytes_of_word_nth: "i < n \<Longrightarrow> bytes_of_word n w ! i = ucast (drop_bit (8 * i) w)"
proof (induction n arbitrary: i w)
  case (Suc n) then show ?case by (cases i) (auto simp: drop_bit_drop_bit add.commute)
qed simp

lemma bit_word_of_bytes:
  "bit (word_of_bytes bs :: 'a::len word) i \<longleftrightarrow>
     i < LENGTH('a) \<and> i div 8 < length bs \<and> bit (bs ! (i div 8)) (i mod 8)"
proof (induction bs arbitrary: i)
  case Nil then show ?case by simp
next
  case (Cons b bs)
  show ?case
  proof (cases "i < 8")
    case True then show ?thesis by (auto simp: bit_simps)
  next
    case False
    have "bit (word_of_bytes (b # bs) :: 'a word) i \<longleftrightarrow>
        i < LENGTH('a) \<and> bit (word_of_bytes bs :: 'a word) (i - 8)"
      using False bit_imp_le_length [of b i] by (auto simp: bit_simps)
    moreover have "i div 8 = Suc ((i - 8) div 8)" "i mod 8 = (i - 8) mod 8" 
      using False by (simp_all add: le_div_geq le_mod_geq)
    ultimately show ?thesis using Cons [of "i - 8"] by auto
  qed
qed

lemma bytes_of_word_of_bytes:
  assumes "8 * length bs \<le> LENGTH('a::len)"
  shows "bytes_of_word (length bs) (word_of_bytes bs :: 'a word) = bs"
proof (rule nth_equalityI)
  fix i assume i: "i < length (bytes_of_word (length bs) (word_of_bytes bs :: 'a word))"
  have "ucast (drop_bit (8 * i) (word_of_bytes bs :: 'a word)) = bs ! i"
  proof (rule bit_word_eqI)
    fix j assume "j < LENGTH(8)"
    moreover have "8 * i + j < LENGTH('a)" using assms i \<open>j < LENGTH(8)\<close> by simp
    moreover have "(8 * i + j) div 8 = i" "(8 * i + j) mod 8 = j" using \<open>j < LENGTH(8)\<close> by auto
    ultimately show "bit (ucast (drop_bit (8 * i) (word_of_bytes bs :: 'a word)) :: u8) j = bit (bs ! i) j"
      using i by (simp add: bit_simps bit_word_of_bytes)
  qed
  then show "bytes_of_word (length bs) (word_of_bytes bs :: 'a word) ! i = bs ! i"
    using i by (simp add: bytes_of_word_nth)
qed simp

section \<open>Byte-addressed memory\<close>

type_synonym memory = "addr_t \<Rightarrow> u8"

primrec store_bytes :: "addr_t \<Rightarrow> u8 list \<Rightarrow> memory \<Rightarrow> memory" where
  "store_bytes a [] m = m"
| "store_bytes a (b # bs) m = store_bytes (a + 1) bs (m(a := b))"

definition load_bytes :: "addr_t \<Rightarrow> nat \<Rightarrow> memory \<Rightarrow> u8 list" where
  "load_bytes a n m = map (\<lambda>i. m (a + of_nat i)) [0..<n]"

definition load32 :: "addr_t \<Rightarrow> memory \<Rightarrow> u32" where
  "load32 a m = word_of_bytes (load_bytes a 4 m)"

definition store32 :: "addr_t \<Rightarrow> u32 \<Rightarrow> memory \<Rightarrow> memory" where
  "store32 a w m = store_bytes a (bytes_of_word 4 w) m"

definition load64 :: "addr_t \<Rightarrow> memory \<Rightarrow> u64" where
  "load64 a m = word_of_bytes (load_bytes a 8 m)"

definition store64 :: "addr_t \<Rightarrow> u64 \<Rightarrow> memory \<Rightarrow> memory" where
  "store64 a w m = store_bytes a (bytes_of_word 8 w) m"

lemma length_load_bytes [simp]: "length (load_bytes a n m) = n"
  by (simp add: load_bytes_def)

text \<open>
  The offset of \<open>x\<close> from \<open>a\<close> in the circular address space decides whether a store of
  \<open>length bs\<close> bytes at \<open>a\<close> touches \<open>x\<close>.
\<close>

lemma unat_diff_Suc:
  fixes x a :: addr_t
  shows "x \<noteq> a \<Longrightarrow> unat (x - a) = Suc (unat (x - (a + 1)))"
proof -
  assume "x \<noteq> a"
  then have "x - a \<noteq> 0" by simp
  moreover have "x - (a + 1) = (x - a) - 1" by simp
  ultimately show ?thesis
    by (metis Suc_pred' unat_eq_zero unat_minus_one not_gr_zero)
qed

lemma store_bytes_apply:
  "length bs \<le> 2 ^ 64 \<Longrightarrow>
   store_bytes a bs m x = (if unat (x - a) < length bs then bs ! unat (x - a) else m x)"
proof (induction bs arbitrary: a m)
  case Nil
  then show ?case by simp
next
  case (Cons b bs)
  then have IH: "store_bytes (a + 1) bs (m(a := b)) x =
      (if unat (x - (a + 1)) < length bs then bs ! unat (x - (a + 1)) else (m(a := b)) x)"
    by simp
  show ?case
  proof (cases "x = a")
    case True
    have "unat (a - (a + 1)) = 2 ^ 64 - 1" by (simp add: unsigned_minus_1_eq_mask mask_eq_exp_minus_1)
    then have "\<not> unat (a - (a + 1)) < length bs" using Cons.prems by simp
    with True IH show ?thesis by simp
  next
    case False
    then show ?thesis using IH by (simp add: unat_diff_Suc)
  qed
qed

lemma store_bytes_outside:
  "length bs \<le> 2 ^ 64 \<Longrightarrow> length bs \<le> unat (x - a) \<Longrightarrow> store_bytes a bs m x = m x"
  by (simp add: store_bytes_apply)

lemma load_bytes_store_bytes_same:
  "length bs \<le> 2 ^ 64 \<Longrightarrow> n = length bs \<Longrightarrow> load_bytes a n (store_bytes a bs m) = bs"
proof -
  assume len: "length bs \<le> 2 ^ 64" "n = length bs"
  have "store_bytes a bs m (a + of_nat i) = bs ! i" if "i < length bs" for i
  proof -
    have "unat (of_nat i :: addr_t) = i"
      using that len by (simp add: unat_of_nat)
    then show ?thesis using that len by (simp add: store_bytes_apply)
  qed
  then show ?thesis using len by (auto simp: load_bytes_def intro!: nth_equalityI)
qed

lemma load32_store32 [simp]: "load32 a (store32 a w m) = w"
  by (simp add: load32_def store32_def load_bytes_store_bytes_same word_of_bytes_of_word)

lemma load64_store64 [simp]: "load64 a (store64 a w m) = w"
  by (simp add: load64_def store64_def load_bytes_store_bytes_same word_of_bytes_of_word)

text \<open>Two accesses are apart when neither reaches into the other.\<close>

definition apart :: "addr_t \<Rightarrow> nat \<Rightarrow> addr_t \<Rightarrow> nat \<Rightarrow> bool" where
  "apart a n b k \<longleftrightarrow> n \<le> unat (b - a) \<and> unat (b - a) + k \<le> 2 ^ 64"

lemma unat_add_offset:
  fixes d :: addr_t
  shows "unat d + i < 2 ^ 64 \<Longrightarrow> unat (d + of_nat i) = unat d + i"
  by (simp add: unat_word_ariths unat_of_nat)

lemma load_bytes_store_bytes_apart:
  assumes "apart a (length bs) b k" "length bs \<le> 2 ^ 64"
  shows "load_bytes b k (store_bytes a bs m) = load_bytes b k m"
proof -
  have "store_bytes a bs m (b + of_nat i) = m (b + of_nat i)" if "i < k" for i
  proof (rule store_bytes_outside [OF assms(2)])
    have "b + of_nat i - a = (b - a) + of_nat i" by (simp add: algebra_simps)
    moreover have "unat (b - a) + i < 2 ^ 64"
      using assms(1) that by (simp add: apart_def)
    ultimately have "unat (b + of_nat i - a) = unat (b - a) + i"
      by (simp only: unat_add_offset)
    then show "length bs \<le> unat (b + of_nat i - a)"
      using assms(1) by (simp add: apart_def)
  qed
  then show ?thesis by (simp add: load_bytes_def)
qed

lemma load32_store32_apart: "apart a 4 b 4 \<Longrightarrow> load32 b (store32 a w m) = load32 b m"
  by (simp add: load32_def store32_def load_bytes_store_bytes_apart)

lemma load64_store64_apart: "apart a 8 b 8 \<Longrightarrow> load64 b (store64 a w m) = load64 b m"
  by (simp add: load64_def store64_def load_bytes_store_bytes_apart)

section \<open>Lists\<close>

lemma sorted_wrt_less_distinct: "sorted_wrt (<) (xs :: 'a::linorder list) \<Longrightarrow> distinct xs"
  by (induction xs) auto

lemma sorted_wrt_less_unique:
  fixes xs ys :: "'a::linorder list"
  assumes "sorted_wrt (<) xs" "sorted_wrt (<) ys" "set xs = set ys"
  shows "xs = ys"
  using assms strict_sorted_equal by blast

lemma drop_eq_Cons_nth: "drop n xs = y # ys \<Longrightarrow> n < length xs \<and> xs ! n = y"
  by (metis drop_all hd_drop_conv_nth list.distinct(1) list.sel(1) not_le_imp_less)

end
