(* ===== verification/Linked_List.thy ===== *)
theory Linked_List
  imports Kernel_Prelude
begin

text \<open>
  The cyclic doubly linked list of \<^verbatim>\<open>include/ds/list.h\<close>. A heap of list nodes gives every
  node its two links; the operations write them in the order of the source. The \<open>sync()\<close>
  barriers between the writes order the stores for other processors and have no effect on the
  state of one processor.

  The abstraction \<open>ring h xs\<close> says that the nodes \<open>xs\<close>, all different, form one cycle
  in this order. Every operation is shown to act on rings as the list operation it stands for,
  and to leave the links of all other nodes alone.
\<close>

section \<open>Nodes and operations\<close>

record 'n list_heap =
  node_prev :: "'n \<Rightarrow> 'n"
  node_next :: "'n \<Rightarrow> 'n"

definition set_prev :: "'n \<Rightarrow> 'n \<Rightarrow> 'n list_heap \<Rightarrow> 'n list_heap" where
  "set_prev n v h = h\<lparr>node_prev := (node_prev h)(n := v)\<rparr>"

definition set_next :: "'n \<Rightarrow> 'n \<Rightarrow> 'n list_heap \<Rightarrow> 'n list_heap" where
  "set_next n v h = h\<lparr>node_next := (node_next h)(n := v)\<rparr>"

definition list_init :: "'n \<Rightarrow> 'n list_heap \<Rightarrow> 'n list_heap" where
  "list_init l h = set_prev l l (set_next l l h)"

definition list_add_before :: "'n \<Rightarrow> 'n \<Rightarrow> 'n list_heap \<Rightarrow> 'n list_heap" where
  "list_add_before l node h =
     (let p = node_prev h l;
          h = set_prev node p h;
          h = set_next node l h;
          h = set_next p node h
      in set_prev l node h)"

definition list_add_after :: "'n \<Rightarrow> 'n \<Rightarrow> 'n list_heap \<Rightarrow> 'n list_heap" where
  "list_add_after l node h =
     (let n = node_next h l;
          h = set_next node n h;
          h = set_prev node l h;
          h = set_prev n node h
      in set_next l node h)"

definition list_del :: "'n \<Rightarrow> 'n list_heap \<Rightarrow> 'n list_heap" where
  "list_del node h =
     (let p = node_prev h node; n = node_next h node;
          h = set_next p n h
      in set_prev n p h)"

definition list_del_init :: "'n \<Rightarrow> 'n list_heap \<Rightarrow> 'n list_heap" where
  "list_del_init node h =
     (let p = node_prev h node; n = node_next h node;
          h = set_next p n h;
          h = set_prev n p h;
          h = set_next node node h
      in set_prev node node h)"

definition list_split :: "'n \<Rightarrow> 'n \<Rightarrow> 'n \<Rightarrow> 'n list_heap \<Rightarrow> 'n list_heap result" where
  "list_split first prv nxt h =
     rbind (assert_that ''prev->next == next'' (node_next h prv = nxt)) (\<lambda>_.
     rbind (assert_that ''next->prev == prev'' (node_prev h nxt = prv)) (\<lambda>_.
     let last_node = node_prev h first;
         h = set_prev first prv h;
         h = set_next prv first h;
         h = set_prev nxt last_node h
     in Inr (set_next last_node nxt h)))"

definition list_prev :: "'n list_heap \<Rightarrow> 'n \<Rightarrow> 'n" where
  "list_prev h node = node_prev h node"

definition list_next :: "'n list_heap \<Rightarrow> 'n \<Rightarrow> 'n" where
  "list_next h node = node_next h node"

definition list_concat_headless :: "'n \<Rightarrow> 'n \<Rightarrow> 'n list_heap \<Rightarrow> 'n list_heap" where
  "list_concat_headless list1 list2 h =
     (let list1_last = node_prev h list1;
          list2_last = node_prev h list2;
          h = set_next list1_last list2 h;
          h = set_prev list2 list1_last h;
          h = set_next list2_last list1 h
      in set_prev list1 list2_last h)"

definition list_empty :: "'n list_heap \<Rightarrow> 'n \<Rightarrow> bool" where
  "list_empty h l \<longleftrightarrow> l = node_next h l \<and> l = node_prev h l"

lemma node_set_simps [simp]:
  "node_prev (set_prev n v h) = (node_prev h)(n := v)"
  "node_next (set_prev n v h) = node_next h"
  "node_next (set_next n v h) = (node_next h)(n := v)"
  "node_prev (set_next n v h) = node_prev h"
  by (simp_all add: set_prev_def set_next_def)

lemmas list_op_defs =
  list_init_def list_add_before_def list_add_after_def list_del_def list_del_init_def
  list_concat_headless_def list_prev_def list_next_def

section \<open>Chains and rings\<close>

fun chain :: "'n list_heap \<Rightarrow> 'n list \<Rightarrow> bool" where
  "chain h (x # y # zs) = (node_next h x = y \<and> node_prev h y = x \<and> chain h (y # zs))"
| "chain h _ = True"

definition ring :: "'n list_heap \<Rightarrow> 'n list \<Rightarrow> bool" where
  "ring h xs \<longleftrightarrow> xs \<noteq> [] \<and> distinct xs \<and> chain h (xs @ [hd xs])"

text \<open>\<open>same_links A h h'\<close>: the two heaps agree on the links of every node of \<open>A\<close>.\<close>

definition same_links :: "'n set \<Rightarrow> 'n list_heap \<Rightarrow> 'n list_heap \<Rightarrow> bool" where
  "same_links A h h' \<longleftrightarrow>
     (\<forall>n \<in> A. node_next h' n = node_next h n \<and> node_prev h' n = node_prev h n)"

lemma chain_append:
  "chain h (xs @ x # ys) \<longleftrightarrow> chain h (xs @ [x]) \<and> chain h (x # ys)"
  by (induction h xs rule: chain.induct) (auto simp: Cons_eq_append_conv)

lemma chain_cong:
  "(\<And>n. n \<in> set (butlast xs) \<Longrightarrow> node_next h' n = node_next h n) \<Longrightarrow>
   (\<And>n. n \<in> set (tl xs) \<Longrightarrow> node_prev h' n = node_prev h n) \<Longrightarrow>
   chain h' xs = chain h xs"
  by (induction h xs rule: chain.induct) auto

lemma ring_nonempty: "ring h xs \<Longrightarrow> xs \<noteq> []"
  by (simp add: ring_def)

lemma ring_distinct: "ring h xs \<Longrightarrow> distinct xs"
  by (simp add: ring_def)

lemma ring_same_links:
  "same_links (set xs) h h' \<Longrightarrow> ring h' xs = ring h xs"
proof -
  assume same: "same_links (set xs) h h'"
  have "chain h' (xs @ [hd xs]) = chain h (xs @ [hd xs])" if "xs \<noteq> []"
  proof (rule chain_cong)
    fix n assume "n \<in> set (butlast (xs @ [hd xs]))"
    then show "node_next h' n = node_next h n" using same by (simp add: same_links_def)
  next
    fix n assume "n \<in> set (tl (xs @ [hd xs]))"
    then have "n \<in> set xs" using that by (cases xs) auto
    then show "node_prev h' n = node_prev h n" using same by (simp add: same_links_def)
  qed
  then show ?thesis by (auto simp: ring_def)
qed

lemma same_links_refl [simp]: "same_links A h h"
  by (simp add: same_links_def)

lemma same_links_trans:
  "same_links A h h' \<Longrightarrow> same_links A h' h'' \<Longrightarrow> same_links A h h''"
  by (simp add: same_links_def)

lemma same_links_subset: "same_links A h h' \<Longrightarrow> B \<subseteq> A \<Longrightarrow> same_links B h h'"
  by (auto simp: same_links_def)

text \<open>A ring may be read from any of its nodes.\<close>

lemma ring_rotate: "ring h (xs @ ys) = ring h (ys @ xs)"
proof (cases "xs = [] \<or> ys = []")
  case False
  then obtain x xs' y ys' where eq: "xs = x # xs'" "ys = y # ys'"
    by (meson neq_Nil_conv)
  have "chain h ((xs @ ys) @ [hd (xs @ ys)]) \<longleftrightarrow> chain h (xs @ [y]) \<and> chain h (ys @ [x])"
    using chain_append [of h xs y "ys' @ [x]"] eq by simp
  moreover have "chain h ((ys @ xs) @ [hd (ys @ xs)]) \<longleftrightarrow> chain h (ys @ [x]) \<and> chain h (xs @ [y])"
    using chain_append [of h ys x "xs' @ [y]"] eq by simp
  ultimately show ?thesis using False by (auto simp: ring_def)
qed auto

lemma ring_single: "ring h [x] \<longleftrightarrow> node_next h x = x \<and> node_prev h x = x"
  by (auto simp: ring_def)

lemma ring_Cons_Cons:
  "ring h (x # y # zs) \<longleftrightarrow>
     distinct (x # y # zs) \<and> node_next h x = y \<and> node_prev h y = x \<and> chain h ((y # zs) @ [x])"
  by (auto simp: ring_def)

lemma ring_next_hd: "ring h (x # xs) \<Longrightarrow> node_next h x = hd (xs @ [x])"
  by (cases xs) (auto simp: ring_def)

lemma ring_prev_hd: "ring h (x # xs) \<Longrightarrow> node_prev h x = last (x # xs)"
proof (cases xs rule: rev_cases)
  case (snoc ys y)
  moreover assume "ring h (x # xs)"
  ultimately have "chain h ((x # ys) @ y # [x])" by (simp add: ring_def)
  then have "chain h (y # [x])" using chain_append [of h "x # ys" y "[x]"] by simp
  then show ?thesis using snoc by simp
qed (simp add: ring_def)

lemma ring_next_middle: "ring h (xs @ x # y # ys) \<Longrightarrow> node_next h x = y"
  using ring_rotate [of h xs "x # y # ys"] by (simp add: ring_Cons_Cons)

lemma ring_prev_middle: "ring h (xs @ x # y # ys) \<Longrightarrow> node_prev h y = x"
  using ring_rotate [of h xs "x # y # ys"] by (simp add: ring_Cons_Cons)

lemma ring_next_last: "ring h (xs @ [x]) \<Longrightarrow> node_next h x = hd (xs @ [x])"
  using ring_rotate [of h xs "[x]"] ring_next_hd [of h x xs] by simp

section \<open>The operations on rings\<close>

lemma list_init_ring: "ring (list_init l h) [l]"
  by (simp add: list_init_def ring_single)

lemma list_init_frame: "l \<notin> A \<Longrightarrow> same_links A h (list_init l h)"
  by (auto simp: list_init_def same_links_def)

text \<open>
  A ring is a chain whose ends are linked, and a chain of two parts is two linked chains. With
  these two facts an operation is verified by the links it writes at the ends of the chains;
  inside, the old links stand.
\<close>

lemma chain_append_iff:
  "xs \<noteq> [] \<Longrightarrow> ys \<noteq> [] \<Longrightarrow>
   chain h (xs @ ys) \<longleftrightarrow>
     chain h xs \<and> chain h ys \<and> node_next h (last xs) = hd ys \<and> node_prev h (hd ys) = last xs"
proof (induction xs)
  case (Cons x xs)
  then show ?case by (cases xs; cases ys) auto
qed simp

lemma ring_iff:
  "ring h xs \<longleftrightarrow> xs \<noteq> [] \<and> distinct xs \<and> chain h xs \<and>
     node_next h (last xs) = hd xs \<and> node_prev h (hd xs) = last xs"
  by (cases "xs = []") (auto simp: ring_def chain_append_iff)

lemma chain_frame:
  "chain h xs \<Longrightarrow>
   (\<And>n. n \<in> set (butlast xs) \<Longrightarrow> node_next h' n = node_next h n) \<Longrightarrow>
   (\<And>n. n \<in> set (tl xs) \<Longrightarrow> node_prev h' n = node_prev h n) \<Longrightarrow> chain h' xs"
  using chain_cong [of xs h' h] by blast

lemma distinct_last_notin_butlast: "distinct xs \<Longrightarrow> xs \<noteq> [] \<Longrightarrow> last xs \<notin> set (butlast xs)"
  by (metis append_butlast_last_id distinct_butlast not_distinct_conv_prefix)

lemma distinct_hd_notin_tl: "distinct xs \<Longrightarrow> xs \<noteq> [] \<Longrightarrow> hd xs \<notin> set (tl xs)"
  by (cases xs) auto

lemmas in_set_ends = in_set_butlastD list.set_sel(2)

lemma list_add_before_ring:
  assumes "ring h (l # xs)" "node \<notin> set (l # xs)"
  shows "ring (list_add_before l node h) (l # xs @ [node])"
proof -
  let ?h' = "list_add_before l node h"
  have p: "node_prev h l = last (l # xs)" using assms(1) by (rule ring_prev_hd)
  have "chain ?h' (l # xs)"
  proof (rule chain_frame [of h])
    show "chain h (l # xs)" using assms(1) by (simp add: ring_iff)
    fix n assume n: "n \<in> set (butlast (l # xs))"
    moreover have "last (l # xs) \<notin> set (butlast (l # xs))"
      using assms(1) distinct_last_notin_butlast [of "l # xs"] by (simp add: ring_def del: last.simps butlast.simps)
    ultimately have "n \<noteq> last (l # xs)" "n \<noteq> node"
      using assms(2) in_set_butlastD [OF n] by auto
    then show "node_next ?h' n = node_next h n"
      by (simp add: list_add_before_def p Let_def del: last.simps)
  next
    fix n assume "n \<in> set (tl (l # xs))"
    then show "node_prev ?h' n = node_prev h n"
      using assms by (auto simp: list_add_before_def Let_def ring_def)
  qed
  moreover have "node_next ?h' (last (l # xs)) = node" "node_prev ?h' node = last (l # xs)"
    "node_next ?h' node = l" "node_prev ?h' l = node"
    using assms p by (auto simp: list_add_before_def Let_def)
  ultimately show ?thesis
    using assms chain_append_iff [of "l # xs" "[node]" ?h'] by (auto simp: ring_iff)
qed

lemma list_add_before_frame:
  "ring h (l # xs) \<Longrightarrow> A \<inter> set (l # xs @ [node]) = {} \<Longrightarrow>
   same_links A h (list_add_before l node h)"
  using last_in_set [of "l # xs"]
  by (auto simp: list_add_before_def Let_def same_links_def ring_prev_hd simp del: last.simps)

lemma list_add_after_ring:
  assumes "ring h (l # xs)" "node \<notin> set (l # xs)"
  shows "ring (list_add_after l node h) (l # node # xs)"
proof -
  let ?h' = "list_add_after l node h"
  have n: "node_next h l = hd (xs @ [l])" using assms(1) by (rule ring_next_hd)
  have "chain ?h' (xs @ [l])"
  proof (rule chain_frame [of h])
    show "chain h (xs @ [l])"
      using assms(1) ring_rotate [of h "[l]" xs] by (simp add: ring_iff)
    fix m assume "m \<in> set (butlast (xs @ [l]))"
    then show "node_next ?h' m = node_next h m"
      using assms by (auto simp: list_add_after_def Let_def ring_def)
  next
    fix m assume m: "m \<in> set (tl (xs @ [l]))"
    moreover have "hd (xs @ [l]) \<notin> set (tl (xs @ [l]))"
      using assms(1) distinct_hd_notin_tl [of "xs @ [l]"] by (simp add: ring_def)
    moreover have "m \<in> set (xs @ [l])" using m by (cases xs) auto
    ultimately have "m \<noteq> hd (xs @ [l])" "m \<noteq> node" using assms(2) by auto
    then show "node_prev ?h' m = node_prev h m"
      by (simp add: list_add_after_def Let_def n)
  qed
  moreover have "node_next ?h' l = node" "node_prev ?h' node = l"
    "node_next ?h' node = hd (xs @ [l])" "node_prev ?h' (hd (xs @ [l])) = node"
    using assms n by (auto simp: list_add_after_def Let_def hd_append)
  ultimately show ?thesis
    using assms chain_append_iff [of "[node]" "xs @ [l]" ?h'] chain_append_iff [of "[l]" "node # xs" ?h']
      ring_rotate [of ?h' "[l]" "node # xs"]
    by (auto simp: ring_iff)
qed

lemma list_del_init_ring:
  assumes "ring h (node # xs)" "xs \<noteq> []"
  shows "ring (list_del_init node h) xs" "ring (list_del_init node h) [node]"
proof -
  let ?h' = "list_del_init node h"
  have n: "node_next h node = hd xs" using ring_next_hd [OF assms(1)] assms(2) by simp
  have p: "node_prev h node = last xs" using ring_prev_hd [OF assms(1)] assms(2) by simp
  have notin: "node \<notin> set xs" "distinct xs" using assms(1) by (auto simp: ring_def)
  have "chain ?h' xs"
  proof (rule chain_frame [of h])
    show "chain h xs" using assms chain_append_iff [of "[node]" xs h] by (auto simp: ring_iff)
    fix m assume m: "m \<in> set (butlast xs)"
    then have "m \<noteq> last xs" "m \<noteq> node"
      using notin assms(2) in_set_butlastD [OF m] distinct_last_notin_butlast [of xs] by auto
    then show "node_next ?h' m = node_next h m"
      by (simp add: list_del_init_def Let_def n p)
  next
    fix m assume m: "m \<in> set (tl xs)"
    then have "m \<noteq> hd xs" "m \<noteq> node"
      using notin assms(2) list.set_sel(2) [OF assms(2) m] distinct_hd_notin_tl [of xs] by auto
    then show "node_prev ?h' m = node_prev h m"
      by (simp add: list_del_init_def Let_def n p)
  qed
  moreover have "node_next ?h' (last xs) = hd xs" "node_prev ?h' (hd xs) = last xs"
    using assms(2) notin n p by (auto simp: list_del_init_def Let_def)
  ultimately show "ring ?h' xs" using assms(2) notin by (simp add: ring_iff)
  show "ring ?h' [node]" by (simp add: ring_single list_del_init_def Let_def)
qed

lemma list_del_init_single: "ring h [node] \<Longrightarrow> ring (list_del_init node h) [node]"
  by (auto simp: ring_single list_del_init_def Let_def)

lemma list_del_init_frame:
  "ring h (node # xs) \<Longrightarrow> A \<inter> set (node # xs) = {} \<Longrightarrow> same_links A h (list_del_init node h)"
  using last_in_set [of "node # xs"]
  by (cases xs)
     (auto simp: list_del_init_def Let_def same_links_def ring_prev_hd ring_next_hd
           simp del: last.simps)

lemma list_split_ring:
  assumes "ring h (xs @ ys)" "xs \<noteq> []" "ys \<noteq> []"
  shows "\<exists>h'. list_split (hd xs) (last xs) (hd ys) h = Inr h' \<and> ring h' xs \<and> ring h' ys \<and>
    (\<forall>A. A \<inter> set (xs @ ys) = {} \<longrightarrow> same_links A h h')"
proof -
  have ends: "node_next h (last xs) = hd ys" "node_prev h (hd ys) = last xs"
    "node_prev h (hd xs) = last ys" "chain h xs" "chain h ys"
    using assms by (auto simp: ring_iff chain_append_iff)
  have dist: "distinct xs" "distinct ys" "set xs \<inter> set ys = {}"
    using assms(1) by (auto simp: ring_def)
  have mem: "hd xs \<in> set xs" "last xs \<in> set xs" "hd ys \<in> set ys" "last ys \<in> set ys"
    using assms by auto
  let ?h' = "set_next (last ys) (hd ys) (set_prev (hd ys) (last ys)
      (set_next (last xs) (hd xs) (set_prev (hd xs) (last xs) h)))"
  have eq: "list_split (hd xs) (last xs) (hd ys) h = Inr ?h'"
    by (simp add: list_split_def ends Let_def)
  have "chain ?h' zs" if "zs = xs \<or> zs = ys" for zs
  proof (rule chain_frame [of h])
    show "chain h zs" using that ends by auto
    fix m assume m: "m \<in> set (butlast zs)"
    then have "m \<noteq> last zs" "m \<in> set zs"
      using that assms dist distinct_last_notin_butlast in_set_butlastD [OF m] by auto
    then show "node_next ?h' m = node_next h m"
      using that dist mem by auto
  next
    fix m assume m: "m \<in> set (tl zs)"
    have "zs \<noteq> []" using that assms by auto
    then have "m \<noteq> hd zs" "m \<in> set zs"
      using m that dist distinct_hd_notin_tl list.set_sel(2) by fastforce+
    then show "node_prev ?h' m = node_prev h m"
      using that dist mem by auto
  qed
  moreover have "hd xs \<noteq> hd ys" "last xs \<noteq> last ys" using dist mem by auto
  ultimately have "ring ?h' xs" "ring ?h' ys"
    using assms dist by (auto simp: ring_iff)
  moreover have "same_links A h ?h'" if "A \<inter> set (xs @ ys) = {}" for A
    using that mem by (auto simp: same_links_def)
  ultimately show ?thesis using eq by blast
qed

lemma list_concat_ring:
  assumes "ring h xs" "ring h ys" "set xs \<inter> set ys = {}"
  shows "ring (list_concat_headless (hd xs) (hd ys) h) (xs @ ys)"
proof -
  let ?h' = "list_concat_headless (hd xs) (hd ys) h"
  have ne: "xs \<noteq> []" "ys \<noteq> []" using assms by (auto simp: ring_def)
  have ends: "node_prev h (hd xs) = last xs" "node_prev h (hd ys) = last ys" "chain h xs" "chain h ys"
    using assms by (auto simp: ring_iff)
  have dist: "distinct xs" "distinct ys" using assms by (auto simp: ring_def)
  have mem: "hd xs \<in> set xs" "last xs \<in> set xs" "hd ys \<in> set ys" "last ys \<in> set ys"
    using ne by auto
  have "chain ?h' zs" if "zs = xs \<or> zs = ys" for zs
  proof (rule chain_frame [of h])
    show "chain h zs" using that ends by auto
    fix m assume m: "m \<in> set (butlast zs)"
    then have "m \<noteq> last zs" "m \<in> set zs"
      using that ne dist distinct_last_notin_butlast in_set_butlastD [OF m] by auto
    then show "node_next ?h' m = node_next h m"
      using that assms(3) mem by (auto simp: list_concat_headless_def Let_def ends)
  next
    fix m assume m: "m \<in> set (tl zs)"
    have "zs \<noteq> []" using that ne by auto
    then have "m \<noteq> hd zs" "m \<in> set zs"
      using m that dist distinct_hd_notin_tl list.set_sel(2) by fastforce+
    then show "node_prev ?h' m = node_prev h m"
      using that assms(3) mem by (auto simp: list_concat_headless_def Let_def ends)
  qed
  moreover have "node_next ?h' (last xs) = hd ys" "node_prev ?h' (hd ys) = last xs"
    "node_next ?h' (last ys) = hd xs" "node_prev ?h' (hd xs) = last ys"
    using assms(3) mem by (auto simp: list_concat_headless_def Let_def ends)
  ultimately show ?thesis
    using ne dist assms(3) by (auto simp: ring_iff chain_append_iff)
qed

lemma list_concat_frame:
  assumes "ring h xs" "ring h ys" "A \<inter> set (xs @ ys) = {}"
  shows "same_links A h (list_concat_headless (hd xs) (hd ys) h)"
proof -
  have "node_prev h (hd xs) = last xs" "node_prev h (hd ys) = last ys" "xs \<noteq> []" "ys \<noteq> []"
    using assms by (auto simp: ring_iff)
  then show ?thesis
    using assms(3) last_in_set [of xs] last_in_set [of ys] hd_in_set [of xs] hd_in_set [of ys]
    by (auto simp: list_concat_headless_def Let_def same_links_def)
qed

lemma list_empty_ring: "ring h (l # xs) \<Longrightarrow> list_empty h l \<longleftrightarrow> xs = []"
  by (cases xs) (auto simp: list_empty_def ring_iff)

section \<open>The interface the clients use\<close>

text \<open>
  The page allocator, the slab queues, the memory area list, the run queues and the task lists
  all keep lists with a head node (or, for allocated pages and siblings, without one). They use
  four operations and two laws of each: what the ring becomes, and that other nodes keep their
  links. The facts derived from the laws are stated once, in this locale.
\<close>

locale cyclic_list =
  fixes init :: "'n \<Rightarrow> 'h \<Rightarrow> 'h"
    and add_before :: "'n \<Rightarrow> 'n \<Rightarrow> 'h \<Rightarrow> 'h"
    and del_init :: "'n \<Rightarrow> 'h \<Rightarrow> 'h"
    and nxt :: "'h \<Rightarrow> 'n \<Rightarrow> 'n"
    and prv :: "'h \<Rightarrow> 'n \<Rightarrow> 'n"
    and rep :: "'h \<Rightarrow> 'n list \<Rightarrow> bool"
    and same :: "'n set \<Rightarrow> 'h \<Rightarrow> 'h \<Rightarrow> bool"
  assumes rep_nonempty: "rep h xs \<Longrightarrow> xs \<noteq> []"
    and rep_distinct: "rep h xs \<Longrightarrow> distinct xs"
    and rep_rotate: "rep h (xs @ ys) = rep h (ys @ xs)"
    and rep_same: "same (set xs) h h' \<Longrightarrow> rep h xs \<Longrightarrow> rep h' xs"
    and same_mono: "same A h h' \<Longrightarrow> B \<subseteq> A \<Longrightarrow> same B h h'"
    and rep_init: "rep (init l h) [l]"
    and same_init: "l \<notin> A \<Longrightarrow> same A h (init l h)"
    and rep_nxt: "rep h (x # xs) \<Longrightarrow> nxt h x = hd (xs @ [x])"
    and rep_prv: "rep h (x # xs) \<Longrightarrow> prv h x = last (x # xs)"
    and rep_add_before: "rep h (l # xs) \<Longrightarrow> n \<notin> set (l # xs) \<Longrightarrow> rep (add_before l n h) (l # xs @ [n])"
    and same_add_before: "rep h (l # xs) \<Longrightarrow> A \<inter> set (l # xs @ [n]) = {} \<Longrightarrow> same A h (add_before l n h)"
    and rep_del_init: "rep h (n # xs) \<Longrightarrow> xs \<noteq> [] \<Longrightarrow> rep (del_init n h) xs"
    and rep_del_init_self: "rep h (n # xs) \<Longrightarrow> rep (del_init n h) [n]"
    and same_del_init: "rep h (n # xs) \<Longrightarrow> A \<inter> set (n # xs) = {} \<Longrightarrow> same A h (del_init n h)"
begin

lemma nxt_middle: "rep h (xs @ x # ys) \<Longrightarrow> nxt h x = hd (ys @ xs @ [x])"
  using rep_rotate [of h xs "x # ys"] rep_nxt [of h x "ys @ xs"] by simp

lemma prv_middle: "rep h (xs @ x # ys) \<Longrightarrow> prv h x = last (x # ys @ xs)"
  using rep_rotate [of h xs "x # ys"] rep_prv [of h x "ys @ xs"] by simp

text \<open>Insertion in front of an inner node, as the sorted insertions do.\<close>

lemma insert_middle:
  assumes "rep h (xs @ y # ys)" "n \<notin> set (xs @ y # ys)"
  shows "rep (add_before y n h) (xs @ n # y # ys)"
proof -
  have "rep h (y # ys @ xs)" using assms(1) rep_rotate [of h xs "y # ys"] by simp
  then have "rep (add_before y n h) ((y # ys) @ (xs @ [n]))"
    using rep_add_before [of h y "ys @ xs" n] assms(2) by simp
  then show ?thesis using rep_rotate [of "add_before y n h" "y # ys" "xs @ [n]"] by simp
qed

lemma insert_middle_same:
  assumes "rep h (xs @ y # ys)" "A \<inter> set (xs @ n # y # ys) = {}"
  shows "same A h (add_before y n h)"
  using assms rep_rotate [of h xs "y # ys"] same_add_before [of h y "ys @ xs" A n] by auto

text \<open>Removal of an inner node: the list closes over it and the node is on its own.\<close>

lemma delete_middle:
  assumes "rep h (xs @ n # ys)" "xs @ ys \<noteq> []"
  shows "rep (del_init n h) (xs @ ys)"
proof -
  have "rep h (n # ys @ xs)" using assms(1) rep_rotate [of h xs "n # ys"] by simp
  then have "rep (del_init n h) (ys @ xs)" using assms(2) rep_del_init by auto
  then show ?thesis using rep_rotate [of _ xs ys] by simp
qed

lemma delete_middle_self: "rep h (xs @ n # ys) \<Longrightarrow> rep (del_init n h) [n]"
  using rep_rotate [of h xs "n # ys"] rep_del_init_self [of h n "ys @ xs"] by simp

lemma delete_middle_same:
  assumes "rep h (xs @ n # ys)" "A \<inter> set (xs @ n # ys) = {}"
  shows "same A h (del_init n h)"
  using assms rep_rotate [of h xs "n # ys"] same_del_init [of h n "ys @ xs" A] by auto

text \<open>
  Moving a node: taken out of one list and put in front of a node of another. Both lists and
  every third one are described.
\<close>

lemma move_node:
  assumes "rep h (xs @ n # ys)" "xs @ ys \<noteq> []" "rep h (us @ v # vs)"
    and "set (xs @ n # ys) \<inter> set (us @ v # vs) = {}"
  shows "rep (add_before v n (del_init n h)) (xs @ ys)"
    and "rep (add_before v n (del_init n h)) (us @ n # v # vs)"
proof -
  have dis: "set (us @ v # vs) \<inter> set (xs @ n # ys) = {}" "distinct (xs @ n # ys)"
    using assms(4) rep_distinct [OF assms(1)] by auto
  have 1: "rep (del_init n h) (us @ v # vs)"
    using rep_same [OF delete_middle_same [OF assms(1) dis(1)] assms(3)] .
  have 2: "rep (del_init n h) (xs @ ys)"
    using delete_middle [OF assms(1,2)] .
  have "n \<notin> set (us @ v # vs)" using assms(4) by auto
  then show "rep (add_before v n (del_init n h)) (us @ n # v # vs)"
    by (rule insert_middle [OF 1])
  have "set (xs @ ys) \<inter> set (us @ n # v # vs) = {}" using assms(4) dis(2) by auto
  then show "rep (add_before v n (del_init n h)) (xs @ ys)"
    using rep_same [OF insert_middle_same [OF 1] 2] by blast
qed

end

interpretation ll: cyclic_list list_init list_add_before list_del_init list_next list_prev ring same_links
proof unfold_locales
  fix h n xs assume "ring h (n # xs)"
  then show "ring (list_del_init n h) [n]"
    by (cases xs) (simp_all add: list_del_init_ring list_del_init_single)
qed (auto simp: ring_distinct ring_nonempty ring_same_links same_links_subset list_init_ring
       list_init_frame list_next_def list_prev_def ring_next_hd ring_prev_hd list_add_before_ring
       list_add_before_frame list_del_init_ring list_del_init_frame intro: ring_rotate [THEN iffD1]
       simp del: last.simps)

end
