(* ===== verification/C_Macros.thy ===== *)
theory C_Macros
  imports Kernel_Prelude
begin

text \<open>
  The arithmetic macros the kernel is written with: rounding (\<^verbatim>\<open>include/mathop.h\<close>), bit
  operations (\<^verbatim>\<open>asm/bitops.h\<close>), page sizes and the split of a virtual address
  (\<^verbatim>\<open>asm/mm/page.h\<close>, in the configuration \<^verbatim>\<open>CONFIG_16KPAGES\<close>,
  \<^verbatim>\<open>CONFIG_3LEVEL_PT\<close> that \<^verbatim>\<open>include/config.h\<close> selects), page counts
  (\<^verbatim>\<open>include/mm/mmap.h\<close>) and the address spaces (\<^verbatim>\<open>asm/addrspace.h\<close>).
  All of them compute on 64-bit words, so they wrap as the code does.
\<close>

section \<open>Rounding\<close>

definition LOWBITS :: "nat \<Rightarrow> u64" where
  "LOWBITS ord = push_bit ord 1 - 1"

definition DIV_ROUNDDOWN :: "u64 \<Rightarrow> u64 \<Rightarrow> u64" where
  "DIV_ROUNDDOWN x d = x div d"

definition DIV_ROUNDUP :: "u64 \<Rightarrow> u64 \<Rightarrow> u64" where
  "DIV_ROUNDUP x d = DIV_ROUNDDOWN (x + d - 1) d"

definition ROUNDDOWN :: "u64 \<Rightarrow> u64 \<Rightarrow> u64" where
  "ROUNDDOWN x d = DIV_ROUNDDOWN x d * d"

definition ROUNDUP :: "u64 \<Rightarrow> u64 \<Rightarrow> u64" where
  "ROUNDUP x d = DIV_ROUNDUP x d * d"

definition RSHIFT_ROUNDDOWN :: "u64 \<Rightarrow> nat \<Rightarrow> u64" where
  "RSHIFT_ROUNDDOWN x ord = drop_bit ord x"

definition RSHIFT_ROUNDUP :: "u64 \<Rightarrow> nat \<Rightarrow> u64" where
  "RSHIFT_ROUNDUP x ord = RSHIFT_ROUNDDOWN (x + LOWBITS ord) ord"

definition POW2_ROUNDDOWN :: "u64 \<Rightarrow> nat \<Rightarrow> u64" where
  "POW2_ROUNDDOWN x ord = x AND NOT (LOWBITS ord)"

definition POW2_ROUNDUP :: "u64 \<Rightarrow> nat \<Rightarrow> u64" where
  "POW2_ROUNDUP x ord = POW2_ROUNDDOWN (x + LOWBITS ord) ord"

section \<open>Bit operations\<close>

text \<open>
  The \<^verbatim>\<open>clz\<close> instruction counts leading zeros; \<open>fls\<close> is the position of the
  highest set bit, counted from 1.
\<close>

definition clz :: "u32 \<Rightarrow> nat" where
  "clz x = length (takeWhile (\<lambda>i. \<not> bit x i) (rev [0..<32]))"

definition fls :: "u32 \<Rightarrow> nat" where
  "fls x = 32 - clz x"

definition roundup_to_pow2 :: "u64 \<Rightarrow> u64" where
  "roundup_to_pow2 x = push_bit (fls (ucast (x - 1))) 1"

text \<open>
  The atomic bit operations address bit \<open>pos\<close> of an array of 32-bit words; every caller
  passes the address of one word and a position below 32, so \<open>m\<close> is that word. The
  load-linked/store-conditional loop repeats until the update is written in one piece, so its
  effect is the plain update.
\<close>

definition atomic_get_bit :: "nat \<Rightarrow> u32 \<Rightarrow> bool" where
  "atomic_get_bit pos m = (m AND push_bit (pos mod 32) 1 \<noteq> 0)"

definition atomic_set_bit :: "nat \<Rightarrow> u32 \<Rightarrow> u32" where
  "atomic_set_bit pos m = m OR push_bit (pos mod 32) 1"

definition atomic_clear_bit :: "nat \<Rightarrow> u32 \<Rightarrow> u32" where
  "atomic_clear_bit pos m = m AND NOT (push_bit (pos mod 32) 1)"

definition atomic_change_bit :: "nat \<Rightarrow> u32 \<Rightarrow> u32" where
  "atomic_change_bit pos m = m XOR push_bit (pos mod 32) 1"

section \<open>Pages and the split of a virtual address\<close>

abbreviation (input) PGSHIFT :: nat where "PGSHIFT \<equiv> 14"

definition PGSIZE :: u64 where "PGSIZE = push_bit PGSHIFT 1"

abbreviation (input) PDE_BITS :: nat where "PDE_BITS \<equiv> PGSHIFT - 3"

definition PDE_MASK :: u64 where "PDE_MASK = push_bit PDE_BITS 1 - 1"

abbreviation (input) PTE_OFFSET :: nat where "PTE_OFFSET \<equiv> PGSHIFT"
abbreviation (input) PMD_OFFSET :: nat where "PMD_OFFSET \<equiv> PTE_OFFSET + PDE_BITS"
abbreviation (input) PGD_OFFSET :: nat where "PGD_OFFSET \<equiv> PMD_OFFSET + PDE_BITS"

definition PGX :: "addr_t \<Rightarrow> u64" where
  "PGX vaddr = drop_bit PGD_OFFSET (vaddr AND push_bit PGD_OFFSET PDE_MASK)"

definition PMX :: "addr_t \<Rightarrow> u64" where
  "PMX vaddr = drop_bit PMD_OFFSET (vaddr AND push_bit PMD_OFFSET PDE_MASK)"

definition PTX :: "addr_t \<Rightarrow> u64" where
  "PTX vaddr = drop_bit PTE_OFFSET (vaddr AND push_bit PTE_OFFSET PDE_MASK)"

definition PAGE_OFF :: "addr_t \<Rightarrow> u64" where
  "PAGE_OFF vaddr = vaddr AND (push_bit PTE_OFFSET 1 - 1)"

section \<open>Page counts\<close>

definition NR_PAGES_NEEDED :: "u64 \<Rightarrow> u64" where
  "NR_PAGES_NEEDED bytes = RSHIFT_ROUNDUP bytes PGSHIFT"

definition NR_PAGES_AVAIL :: "u64 \<Rightarrow> u64" where
  "NR_PAGES_AVAIL bytes = RSHIFT_ROUNDDOWN bytes PGSHIFT"

definition nr_pages_spanned :: "addr_t \<Rightarrow> size_t \<Rightarrow> size_t" where
  "nr_pages_spanned addr sz =
     drop_bit PGSHIFT (addr + sz - 1) - drop_bit PGSHIFT addr + 1"

definition PGROUNDDOWN :: "addr_t \<Rightarrow> addr_t" where
  "PGROUNDDOWN addr = POW2_ROUNDDOWN addr PGSHIFT"

definition PGROUNDUP :: "addr_t \<Rightarrow> addr_t" where
  "PGROUNDUP addr = POW2_ROUNDUP addr PGSHIFT"

definition PGEND :: "addr_t \<Rightarrow> addr_t" where
  "PGEND addr = PGROUNDDOWN addr + PGSIZE"

definition MB_TO_BYTES :: "u64 \<Rightarrow> u64" where
  "MB_TO_BYTES x = push_bit 20 x"

section \<open>Address spaces\<close>

definition KERNBASE :: addr_t where
  "KERNBASE = 0x8000000000000000 + 0x1800000000000000"

definition userspace :: "addr_t \<Rightarrow> bool" where
  "userspace vaddr \<longleftrightarrow> vaddr \<le> 0x0000ffffffffffff"

definition superspace :: "addr_t \<Rightarrow> bool" where
  "superspace vaddr \<longleftrightarrow>
     (vaddr \<ge> 0x4000000000000000 \<and> vaddr \<le> 0x4000ffffffffffff) \<or>
     (vaddr \<ge> 0xffffffffc0000000 \<and> vaddr \<le> 0xffffffffdfffffff)"

definition kernspace :: "addr_t \<Rightarrow> bool" where
  "kernspace vaddr \<longleftrightarrow>
     (vaddr \<ge> 0x8000000000000000 \<and> vaddr \<le> 0xbfffffffffffffff) \<or>
     (vaddr \<ge> 0xc000000000000000 \<and> vaddr \<le> 0xc00000ff7fffffff) \<or>
     (vaddr \<ge> 0xffffffff80000000 \<and> vaddr \<le> 0xffffffffbfffffff) \<or>
     (vaddr \<ge> 0xffffffffe0000000 \<and> vaddr \<le> 0xffffffffffffffff)"

definition SUPERSPACE :: "addr_t \<Rightarrow> bool" where
  "SUPERSPACE vaddr \<longleftrightarrow> userspace vaddr \<or> superspace vaddr"

definition KERNSPACE :: "addr_t \<Rightarrow> bool" where
  "KERNSPACE vaddr \<longleftrightarrow> SUPERSPACE vaddr \<or> kernspace vaddr"

section \<open>What the macros compute\<close>

lemma LOWBITS_mask: "LOWBITS ord = mask ord"
  by (simp add: LOWBITS_def mask_eq_exp_minus_1)

lemma POW2_ROUNDDOWN_eq: "POW2_ROUNDDOWN x ord = push_bit ord (drop_bit ord x)"
  by (rule bit_word_eqI) (auto simp: POW2_ROUNDDOWN_def LOWBITS_mask bit_simps)

lemma push_bit_1_minus_1: "push_bit n 1 - 1 = (mask n :: u64)"
  by (simp add: mask_eq_exp_minus_1)

lemma PAGE_OFF_take_bit: "PAGE_OFF v = take_bit PGSHIFT v"
  unfolding PAGE_OFF_def push_bit_1_minus_1 by (rule bit_word_eqI) (auto simp: bit_simps)

lemma PDE_MASK_mask: "PDE_MASK = mask 11"
  unfolding PDE_MASK_def push_bit_1_minus_1 by simp

lemma unat_drop_bit: "unat (drop_bit n (x :: u64)) = unat x div 2 ^ n"
  by (metis drop_bit_eq_div unat_drop_bit_eq)

lemma PGX_alt: "PGX v = take_bit 11 (drop_bit 36 v)"
  by (rule bit_word_eqI) (auto simp: PGX_def PDE_MASK_mask bit_simps)

lemma PMX_alt: "PMX v = take_bit 11 (drop_bit 25 v)"
  by (rule bit_word_eqI) (auto simp: PMX_def PDE_MASK_mask bit_simps)

lemma PTX_alt: "PTX v = take_bit 11 (drop_bit 14 v)"
  by (rule bit_word_eqI) (auto simp: PTX_def PDE_MASK_mask bit_simps)

lemmas split_alt = PGX_alt PMX_alt PTX_alt PAGE_OFF_take_bit

lemma take_bit_word_less: "n < 64 \<Longrightarrow> unat (take_bit n (x :: u64)) < 2 ^ n"
  by (metis take_bit_nat_less_exp unsigned_take_bit_eq)

lemma split_bounds:
  "unat (PGX v) < 2048" "unat (PMX v) < 2048" "unat (PTX v) < 2048" "unat (PAGE_OFF v) < 2 ^ 14"
  using take_bit_word_less [of 11] take_bit_word_less [of 14] by (simp_all add: split_alt)

lemma vaddr_split_join:
  "push_bit PGD_OFFSET (PGX v) OR push_bit PMD_OFFSET (PMX v) OR push_bit PTE_OFFSET (PTX v)
     OR PAGE_OFF v = take_bit 47 v"
proof (rule bit_word_eqI)
  fix n assume "n < LENGTH(64)"
  then show "bit (push_bit PGD_OFFSET (PGX v) OR push_bit PMD_OFFSET (PMX v) OR
      push_bit PTE_OFFSET (PTX v) OR PAGE_OFF v) n = bit (take_bit 47 v) n"
    by (cases "36 \<le> n"; cases "25 \<le> n"; cases "14 \<le> n") (auto simp: split_alt bit_simps)
qed

lemma PGROUNDDOWN_eq: "PGROUNDDOWN v = push_bit PGSHIFT (drop_bit PGSHIFT v)"
  by (simp add: PGROUNDDOWN_def POW2_ROUNDDOWN_eq)

lemma PAGE_OFF_eq_0_iff: "PAGE_OFF v = 0 \<longleftrightarrow> PGROUNDDOWN v = v"
  by (auto simp: PAGE_OFF_take_bit PGROUNDDOWN_eq bit_eq_iff bit_simps dest: bit_imp_le_length)

lemma unat_PGROUNDDOWN: "unat (PGROUNDDOWN v) = unat v div 2 ^ 14 * 2 ^ 14"
proof -
  have "unat (push_bit 14 (drop_bit 14 v)) = take_bit 64 (push_bit 14 (unat (drop_bit 14 v)))"
    by (simp only: unsigned_push_bit_eq) simp
  then have "unat (push_bit 14 (drop_bit 14 v)) = unat v div 2 ^ 14 * 2 ^ 14 mod 2 ^ 64"
    by (simp only: push_bit_eq_mult [where 'a = nat] take_bit_eq_mod [where 'a = nat] unat_drop_bit)
  also have "\<dots> = unat v div 2 ^ 14 * 2 ^ 14"
    using unat_less_u64 [of v] by (intro mod_less) (simp add: le_less_trans [OF div_times_less_eq_dividend])
  finally show ?thesis by (simp add: PGROUNDDOWN_eq)
qed

lemma fls_bound: "fls x \<le> 32"
  by (simp add: fls_def)

lemma takeWhile_rev_upt:
  "(\<forall>j. i < j \<longrightarrow> j < n \<longrightarrow> \<not> P j) \<Longrightarrow> i < n \<Longrightarrow> P i \<Longrightarrow>
   length (takeWhile (\<lambda>j. \<not> P j) (rev [0..<n])) = n - Suc i"
proof (induction n)
  case (Suc n)
  then show ?case by (cases "i = n") (auto simp: less_Suc_eq)
qed simp

lemma fls_eq:
  assumes "bit (x :: u32) i" "\<forall>j. i < j \<longrightarrow> \<not> bit x j"
  shows "fls x = Suc i"
proof -
  have "i < 32" using bit_imp_le_length [OF assms(1)] by simp
  then have "clz x = 32 - Suc i"
    unfolding clz_def using assms by (intro takeWhile_rev_upt) auto
  then show ?thesis using \<open>i < 32\<close> by (simp add: fls_def)
qed

lemma highest_bit_exists:
  "x \<noteq> (0 :: u32) \<Longrightarrow> \<exists>i. bit x i \<and> (\<forall>j. i < j \<longrightarrow> \<not> bit x j)"
proof -
  assume "x \<noteq> 0"
  then have "\<exists>i. bit x i" using bit_eq_iff [of x 0] by auto
  moreover have fin: "finite {i. bit x i}"
    by (rule finite_subset [of _ "{..<32}"]) (auto dest: bit_imp_le_length)
  ultimately show ?thesis
    using Max_in [OF fin] Max_ge [OF fin] by (metis emptyE mem_Collect_eq not_le)
qed

lemma fls_spec:
  assumes "x \<noteq> (0 :: u32)"
  shows "2 ^ (fls x - 1) \<le> unat x \<and> unat x < 2 ^ fls x"
proof -
  obtain i where i: "bit x i" "\<forall>j. i < j \<longrightarrow> \<not> bit x j"
    using highest_bit_exists [OF assms] by blast
  have "take_bit (Suc i) x = x"
    by (rule bit_word_eqI) (use i in \<open>auto simp: bit_simps not_less_eq\<close>)
  then have "take_bit (Suc i) (unat x) = unat x"
    by (metis unsigned_take_bit_eq)
  then have upper: "unat x < 2 ^ Suc i" by (metis take_bit_nat_less_exp)
  have "bit (unat x) i" using i by (simp add: bit_unsigned_iff)
  then have "odd (unat x div 2 ^ i)" by (simp add: bit_iff_odd)
  then have "1 \<le> unat x div 2 ^ i" by (cases "unat x div 2 ^ i") auto
  then have "2 ^ i \<le> unat x" by (metis One_nat_def div_less leD le_less_linear zero_less_Suc not_one_le_zero)
  then show ?thesis using upper fls_eq [OF i] by simp
qed

lemma fls_0 [simp]: "fls 0 = 0"
  by (simp add: fls_def clz_def takeWhile_eq_all_conv [THEN iffD2])

end
