(* ===== verification/Libc_Memory.thy ===== *)
theory Libc_Memory
  imports C_Macros
begin

text \<open>
  \<^verbatim>\<open>memset\<close> and \<^verbatim>\<open>memcpy\<close> of \<^verbatim>\<open>lib/libc/string\<close>, on the
  byte-addressed memory. The counters are turned into natural numbers where a loop runs on
  them; the addresses stay 64-bit words, so an access wraps at the end of the address space as
  the machine's does. \<open>memcpy\<close> is the word-wise routine of the source (align, copy words,
  mop up), shown equal to one block store for operands that do not overlap.
\<close>

section \<open>memset\<close>

text \<open>\<^verbatim>\<open>do *d++ = (unsigned char)c; while (--n != 0);\<close> with \<open>Suc n\<close> rounds.\<close>

fun memset_loop :: "nat \<Rightarrow> addr_t \<Rightarrow> u8 \<Rightarrow> memory \<Rightarrow> memory" where
  "memset_loop 0 d c m = m"
| "memset_loop (Suc n) d c m = memset_loop n (d + 1) c (m(d := c))"

definition memset :: "addr_t \<Rightarrow> u32 \<Rightarrow> size_t \<Rightarrow> memory \<Rightarrow> memory" where
  "memset dst c n m = (if n \<noteq> 0 then memset_loop (unat n) dst (ucast c) m else m)"

section \<open>memcpy\<close>

text \<open>\<^verbatim>\<open>TLOOP(*dst++ = *src++)\<close>: \<open>t\<close> rounds of a byte copy.\<close>

fun copy_bytes :: "nat \<Rightarrow> addr_t \<Rightarrow> addr_t \<Rightarrow> memory \<Rightarrow> memory" where
  "copy_bytes 0 dst src m = m"
| "copy_bytes (Suc t) dst src m = copy_bytes t (dst + 1) (src + 1) (m(dst := m src))"

text \<open>\<^verbatim>\<open>TLOOP(*(word *)dst = *(word *)src; src += wsize; dst += wsize)\<close>.\<close>

fun copy_words :: "nat \<Rightarrow> addr_t \<Rightarrow> addr_t \<Rightarrow> memory \<Rightarrow> memory" where
  "copy_words 0 dst src m = m"
| "copy_words (Suc t) dst src m = copy_words t (dst + 8) (src + 8) (store64 dst (load64 src m) m)"

definition memcpy_head :: "addr_t \<Rightarrow> addr_t \<Rightarrow> size_t \<Rightarrow> size_t" where
  "memcpy_head dst src len =
     (if (src OR dst) AND 7 \<noteq> 0
      then (if (src XOR dst) AND 7 \<noteq> 0 \<or> len < 8 then len else 8 - (src AND 7))
      else 0)"

definition memcpy :: "addr_t \<Rightarrow> addr_t \<Rightarrow> size_t \<Rightarrow> memory \<Rightarrow> memory" where
  "memcpy dst src len m =
     (if len = 0 \<or> dst = src then m
      else
        let t = memcpy_head dst src len;
            m = copy_bytes (unat t) dst src m;
            dst = dst + t; src = src + t; len = len - t;
            t = len div 8;
            m = copy_words (unat t) dst src m;
            dst = dst + 8 * t; src = src + 8 * t;
            t = len AND 7
        in copy_bytes (unat t) dst src m)"

section \<open>memset stores a block of equal bytes\<close>

lemma memset_loop_store_bytes: "memset_loop n d c m = store_bytes d (replicate n c) m"
  by (induction n arbitrary: d m) auto

lemma memset_store_bytes: "memset dst c n m = store_bytes dst (replicate (unat n) (ucast c)) m"
  by (simp add: memset_def memset_loop_store_bytes unat_eq_0)

lemma memset_apply:
  "memset dst c n m x = (if unat (x - dst) < unat n then ucast c else m x)"
  using unat_less_u64 [of n] by (simp add: memset_store_bytes store_bytes_apply)

section \<open>memcpy copies the source block\<close>

text \<open>
  A forward copy is right when the destination does not start inside the source block: the
  distance from \<open>src\<close> up to \<open>dst\<close> (in the circular address space) is at least the
  length. This covers blocks that do not overlap and a destination below the source.
\<close>

definition forward_safe :: "addr_t \<Rightarrow> addr_t \<Rightarrow> nat \<Rightarrow> bool" where
  "forward_safe dst src n \<longleftrightarrow> n \<le> unat (dst - src)"

lemma load_bytes_Suc: "load_bytes a (Suc n) m = m a # load_bytes (a + 1) n m"
  by (simp add: load_bytes_def upt_conv_Cons map_Suc_upt [symmetric] comp_def algebra_simps
      del: upt_Suc)

lemma load_bytes_append:
  "load_bytes a (i + j) m = load_bytes a i m @ load_bytes (a + of_nat i) j m"
proof (induction i arbitrary: a)
  case 0
  then show ?case by (simp add: load_bytes_def)
next
  case (Suc i)
  then show ?case by (simp add: load_bytes_Suc algebra_simps)
qed

lemma store_bytes_append:
  "store_bytes a (bs @ cs) m = store_bytes (a + of_nat (length bs)) cs (store_bytes a bs m)"
  by (induction bs arbitrary: a m) (auto simp: algebra_simps)

lemma unat_neg:
  fixes d :: addr_t
  shows "d \<noteq> 0 \<Longrightarrow> unat (- d) = 2 ^ 64 - unat d"
proof -
  assume "d \<noteq> 0"
  then have "0 < unat d" by (simp add: unat_gt_0)
  have "(unat d + unat (- d)) mod 2 ^ 64 = unat (d + - d)" by (simp only: unat_word_ariths) simp
  then have "2 ^ 64 dvd unat d + unat (- d)" by (simp add: mod_eq_0_iff_dvd)
  then obtain k where k: "unat d + unat (- d) = 2 ^ 64 * k" by blast
  have "k = 1"
    using k \<open>0 < unat d\<close> unat_less_u64 [of d] unat_less_u64 [of "- d"] by (cases k) auto
  then show ?thesis using k by simp
qed

text \<open>Bytes of the source past the first \<open>k\<close> are not touched by a store of \<open>k\<close> bytes.\<close>

lemma load_bytes_after_store:
  assumes "forward_safe dst src (k + j)" "length bs = k"
  shows "load_bytes (src + of_nat k) j (store_bytes dst bs m) = load_bytes (src + of_nat k) j m"
proof (cases "j = 0")
  case True
  then show ?thesis by (simp add: load_bytes_def)
next
  case False
  let ?d = "dst - src"
  have kj: "k + j \<le> unat ?d" using assms(1) by (simp add: forward_safe_def)
  then have "?d \<noteq> 0" using False by auto
  then have neg: "unat (- ?d) = 2 ^ 64 - unat ?d" by (rule unat_neg)
  have less: "unat ?d < 2 ^ 64" by (rule unat_less_u64)
  have "unat (- ?d + of_nat k) = 2 ^ 64 - unat ?d + k"
    using unat_add_offset [of "- ?d" k] neg kj less False by simp
  moreover have "src + of_nat k - dst = - ?d + of_nat k" by simp
  ultimately have "unat (src + of_nat k - dst) = 2 ^ 64 - unat ?d + k" by (simp only:)
  then have "apart dst k (src + of_nat k) j"
    using kj less unfolding apart_def by arith
  moreover have "k \<le> 2 ^ 64" using kj less by simp
  ultimately show ?thesis using assms(2) by (simp add: load_bytes_store_bytes_apart)
qed

lemma forward_safe_mono: "forward_safe dst src n \<Longrightarrow> k \<le> n \<Longrightarrow> forward_safe dst src k"
  by (simp add: forward_safe_def)

lemma forward_safe_shift: "forward_safe (dst + a) (src + a) n = forward_safe dst src n"
  by (simp add: forward_safe_def)

text \<open>Two adjacent block copies are one.\<close>

lemma block_copy_append:
  assumes "forward_safe dst src (i + j)"
  shows "store_bytes (dst + of_nat i)
      (load_bytes (src + of_nat i) j (store_bytes dst (load_bytes src i m) m))
      (store_bytes dst (load_bytes src i m) m) =
    store_bytes dst (load_bytes src (i + j) m) m"
proof -
  have "load_bytes (src + of_nat i) j (store_bytes dst (load_bytes src i m) m) =
      load_bytes (src + of_nat i) j m"
    using assms by (rule load_bytes_after_store) simp
  then show ?thesis by (simp add: load_bytes_append store_bytes_append)
qed

lemma copy_bytes_block:
  "forward_safe dst src n \<Longrightarrow> copy_bytes n dst src m = store_bytes dst (load_bytes src n m) m"
proof (induction n arbitrary: dst src m)
  case 0
  then show ?case by (simp add: load_bytes_def)
next
  case (Suc n)
  have "copy_bytes (Suc n) dst src m =
      store_bytes (dst + 1) (load_bytes (src + 1) n (m(dst := m src))) (m(dst := m src))"
    using Suc.IH [of "dst + 1" "src + 1"] Suc.prems forward_safe_shift [of dst 1 src n]
      forward_safe_mono [of dst src "Suc n" n] by simp
  also have "\<dots> = store_bytes dst (load_bytes src (1 + n) m) m"
    using block_copy_append [of dst src 1 n m] Suc.prems by (simp add: load_bytes_Suc load_bytes_def)
  finally show ?case by simp
qed

lemma store64_load64: "store64 dst (load64 src m) m = store_bytes dst (load_bytes src 8 m) m"
  using bytes_of_word_of_bytes [where bs = "load_bytes src 8 m" and 'a = 64]
  by (simp add: store64_def load64_def)

lemma copy_words_block:
  "forward_safe dst src (8 * n) \<Longrightarrow>
   copy_words n dst src m = store_bytes dst (load_bytes src (8 * n) m) m"
proof (induction n arbitrary: dst src m)
  case 0
  then show ?case by (simp add: load_bytes_def)
next
  case (Suc n)
  let ?m = "store_bytes dst (load_bytes src 8 m) m"
  have "copy_words (Suc n) dst src m =
      store_bytes (dst + 8) (load_bytes (src + 8) (8 * n) ?m) ?m"
    using Suc.IH [of "dst + 8" "src + 8"] Suc.prems forward_safe_shift [of dst 8 src "8 * n"]
      forward_safe_mono [of dst src "8 * Suc n" "8 * n"] by (simp add: store64_load64)
  also have "\<dots> = store_bytes dst (load_bytes src (8 + 8 * n) m) m"
    using block_copy_append [of dst src 8 "8 * n" m] Suc.prems by simp
  finally show ?case by simp
qed

lemma and_7: "(x :: u64) AND 7 = take_bit 3 x"
  by (simp add: take_bit_eq_mask mask_eq_exp_minus_1)

lemma unat_and_7: "unat (x AND 7 :: u64) = unat x mod 8"
proof -
  have "unat (take_bit 3 x) = take_bit 3 (unat x)" by (rule unsigned_take_bit_eq)
  then show ?thesis by (simp only: and_7 take_bit_eq_mod [where 'a = nat]) simp
qed

lemma memcpy_head_le: "unat (memcpy_head dst src len) \<le> unat len"
proof -
  have "unat (8 - (src AND 7)) \<le> 8"
    by (simp add: unat_sub_if' word_le_nat_alt unat_and_7)
  moreover have "\<not> len < 8 \<Longrightarrow> 8 \<le> unat len" by (simp add: word_less_nat_alt)
  ultimately show ?thesis by (auto simp: memcpy_head_def)
qed

lemma unat_div_8: "unat (x div 8 :: u64) = unat x div 8"
  by (simp add: unat_div)

lemma memcpy_block:
  assumes "forward_safe dst src (unat len) \<or> dst = src"
  shows "memcpy dst src len m = store_bytes dst (load_bytes src (unat len) m) m"
proof (cases "len = 0 \<or> dst = src")
  case True
  have "store_bytes a (load_bytes a n m) m = m" if "n \<le> 2 ^ 64" for a n
  proof
    fix x show "store_bytes a (load_bytes a n m) m x = m x"
      using that by (auto simp: store_bytes_apply load_bytes_def)
  qed
  then show ?thesis using True unat_less_u64 [of len] by (auto simp: memcpy_def load_bytes_def)
next
  case False
  define t where "t = memcpy_head dst src len"
  define r where "r = len - t"
  have tlen: "unat t \<le> unat len" using memcpy_head_le t_def by simp
  then have r: "unat r = unat len - unat t" by (simp add: r_def unat_sub word_le_nat_alt)
  define q where "q = r div 8"
  have q: "unat (8 * q) = 8 * unat q" "unat q = unat r div 8"
    using unat_less_u64 [of r] by (simp_all add: q_def unat_div_8 unat_word_ariths)
  have parts: "unat t + 8 * unat q + unat (r AND 7) = unat len"
    using tlen r q by (simp add: unat_and_7)
  have safe: "forward_safe dst src (unat len)" using assms False by simp
  let ?n1 = "unat t" and ?n2 = "8 * unat q" and ?n3 = "unat (r AND 7)"
  let ?B = "\<lambda>n. store_bytes dst (load_bytes src n m) m"
  have s1: "copy_bytes ?n1 dst src m = ?B ?n1"
    using copy_bytes_block forward_safe_mono [OF safe] tlen by blast
  have "copy_words (unat q) (dst + of_nat ?n1) (src + of_nat ?n1) (?B ?n1) = ?B (?n1 + ?n2)"
    using copy_words_block [of "dst + of_nat ?n1" "src + of_nat ?n1" "unat q" "?B ?n1"]
      block_copy_append [of dst src ?n1 ?n2 m] forward_safe_mono [OF safe] parts
    by (simp add: forward_safe_shift)
  moreover have "copy_bytes ?n3 (dst + of_nat (?n1 + ?n2)) (src + of_nat (?n1 + ?n2)) (?B (?n1 + ?n2)) =
      ?B (?n1 + ?n2 + ?n3)"
    using copy_bytes_block [of "dst + of_nat (?n1 + ?n2)" "src + of_nat (?n1 + ?n2)" ?n3 "?B (?n1 + ?n2)"]
      block_copy_append [of dst src "?n1 + ?n2" ?n3 m] forward_safe_mono [OF safe] parts
    by (simp add: forward_safe_shift)
  moreover have "(of_nat ?n1 :: u64) = t" "(of_nat (?n1 + ?n2) :: u64) = t + 8 * q" by simp_all
  ultimately show ?thesis
    using False s1 parts
    by (simp add: memcpy_def Let_def t_def [symmetric] r_def [symmetric] q_def [symmetric] add.assoc)
qed

section \<open>Properties\<close>

text \<open>
  Property C16. For operands that do not overlap forwards, \<^verbatim>\<open>memcpy\<close> (alignment loop, word loop
  and tail loop) leaves in the destination the bytes the source had before the call and changes
  no byte outside the destination, at every alignment and length.
\<close>
theorem memcpy_correct:
  assumes "forward_safe dst src (unat len)"
  shows "load_bytes dst (unat len) (memcpy dst src len m) = load_bytes src (unat len) m \<and>
    (\<forall>x. unat len \<le> unat (x - dst) \<longrightarrow> memcpy dst src len m x = m x)"
proof -
  have n: "length (load_bytes src (unat len) m) \<le> 2 ^ 64" using unat_less_u64 [of len] by simp
  show ?thesis
    using memcpy_block [of dst src len m] assms load_bytes_store_bytes_same [OF n]
      store_bytes_outside [OF n] by simp
qed

theorem memcpy_correct_witness:
  "load_bytes 0x2001 5 (memcpy 0x2001 0x1003 5 (\<lambda>a. ucast a)) = load_bytes 0x1003 5 (\<lambda>a. ucast a)"
  using memcpy_correct [of "0x2001" "0x1003" 5 "\<lambda>a. ucast a"] by (simp add: forward_safe_def)

end
