(* ===== verification/Page_Alloc.thy ===== *)
theory Page_Alloc
  imports Linked_List Libc_Memory
begin

text \<open>
  The physical page allocator: \<^verbatim>\<open>struct page\<close> and its macros
  (\<^verbatim>\<open>include/mm/mmap.h\<close>), the allocation routines (\<^verbatim>\<open>kern/mm/pgalloc.c\<close>)
  and the set-up of the page array (\<^verbatim>\<open>kern/mm/init.c\<close>,
  \<^verbatim>\<open>arch/mips/mach/loongson3a5/mm.c\<close>).

  A \<^verbatim>\<open>struct page *\<close> is the index of the structure in \<^verbatim>\<open>page_array\<close>, or
  \<open>EndFree\<close> for \<^verbatim>\<open>end_free_page()\<close>, the pointer computed back from the head of the
  free list, which is no element of the array. Both have a list node, so the same type names
  the nodes of the page lists. The structures, their list nodes and the byte memory are
  separate components of the state; the members of the union in \<^verbatim>\<open>struct page\<close> are kept
  as separate fields (the code reads a member only under the page type that it wrote it for).

  The critical sections of the source disable interrupts; one processor runs the code, so each
  routine is one step.
\<close>

section \<open>State\<close>

datatype page_ptr = Pg nat | EndFree

text \<open>\<^verbatim>\<open>struct kmem_slab\<close> without its list node, which is in \<open>slab_links\<close> below.\<close>

record kmem_slab =
  slab_cache :: "nat option"
  slab_index :: u32
  slab_count :: u32
  slab_capacity :: u32

record page =
  ref_count :: u32
  pg_count :: u32
  pg_flags :: u32
  pg_type :: u32
  pg_first :: "page_ptr option"
  pgdir_entries :: u32
  pgdir_asid :: u32
  pg_slab :: kmem_slab

record kstate =
  pages :: "page_ptr \<Rightarrow> page"
  plinks :: "page_ptr list_heap"
  nr_free_pages :: u64
  nr_pages :: nat
  highmem_base_pfn :: u64
  mem :: memory

abbreviation (input) PAGE_RESERVED :: nat where "PAGE_RESERVED \<equiv> 0"
abbreviation PGTYPE_TAIL :: u32 where "PGTYPE_TAIL \<equiv> - 1"
abbreviation (input) PGTYPE_GENERIC :: u32 where "PGTYPE_GENERIC \<equiv> 0"
abbreviation PGTYPE_PGSTRUCT :: u32 where "PGTYPE_PGSTRUCT \<equiv> 1"
abbreviation PGTYPE_PGDIR :: u32 where "PGTYPE_PGDIR \<equiv> 2"
abbreviation PGTYPE_SLAB :: u32 where "PGTYPE_SLAB \<equiv> 3"

text \<open>An access to a member of \<^verbatim>\<open>*p\<close> is good when \<open>p\<close> is in the page array.\<close>

fun page_ok :: "'s kstate_scheme \<Rightarrow> page_ptr \<Rightarrow> bool" where
  "page_ok s (Pg i) = (i < nr_pages s)"
| "page_ok s EndFree = False"

definition read_page :: "'s kstate_scheme \<Rightarrow> page_ptr \<Rightarrow> page result" where
  "read_page s p = (if page_ok s p then Inr (pages s p) else Inl (BadPointer ''struct page''))"

definition write_page :: "page_ptr \<Rightarrow> (page \<Rightarrow> page) \<Rightarrow> 's kstate_scheme \<Rightarrow> 's kstate_scheme result" where
  "write_page p f s =
     (if page_ok s p then Inr (s\<lparr>pages := (pages s)(p := f (pages s p))\<rparr>)
      else Inl (BadPointer ''struct page''))"

definition deref :: "'a option \<Rightarrow> 'a result" where
  "deref p = (case p of None \<Rightarrow> Inl NullPointer | Some x \<Rightarrow> Inr x)"

section \<open>Address conversions\<close>

text \<open>A page pointer outside the array has no frame number the code could use.\<close>

fun PAGE_TO_PFN :: "'s kstate_scheme \<Rightarrow> page_ptr \<Rightarrow> u64" where
  "PAGE_TO_PFN s (Pg i) = of_nat i + highmem_base_pfn s"
| "PAGE_TO_PFN s EndFree = 0"

definition PFN_TO_PADDR :: "u64 \<Rightarrow> addr_t" where
  "PFN_TO_PADDR n = push_bit PGSHIFT n"

definition PADDR_TO_PFN :: "addr_t \<Rightarrow> u64" where
  "PADDR_TO_PFN addr = drop_bit PGSHIFT addr"

definition PAGE_TO_PADDR :: "'s kstate_scheme \<Rightarrow> page_ptr \<Rightarrow> addr_t" where
  "PAGE_TO_PADDR s p = push_bit PGSHIFT (PAGE_TO_PFN s p)"

definition pfn_to_page :: "'s kstate_scheme \<Rightarrow> u64 \<Rightarrow> page_ptr result" where
  "pfn_to_page s n =
     (if n < highmem_base_pfn s then Inl (Panic ''Trying to access PFN through pages?'')
      else Inr (Pg (unat (n - highmem_base_pfn s))))"

definition PADDR_TO_PAGE :: "'s kstate_scheme \<Rightarrow> addr_t \<Rightarrow> page_ptr result" where
  "PADDR_TO_PAGE s a = pfn_to_page s (PADDR_TO_PFN a)"

definition KVADDR_TO_PADDR :: "addr_t \<Rightarrow> addr_t" where
  "KVADDR_TO_PADDR kvaddr = kvaddr - KERNBASE"

definition PADDR_TO_KVADDR :: "addr_t \<Rightarrow> addr_t" where
  "PADDR_TO_KVADDR paddr = paddr + KERNBASE"

definition PFN_TO_KVADDR :: "u64 \<Rightarrow> addr_t" where
  "PFN_TO_KVADDR n = PADDR_TO_KVADDR (PFN_TO_PADDR n)"

definition kvaddr_to_page :: "'s kstate_scheme \<Rightarrow> addr_t \<Rightarrow> page_ptr option result" where
  "kvaddr_to_page s kvaddr =
     (if kvaddr = 0 then Inr None
      else rbind (PADDR_TO_PAGE s (KVADDR_TO_PADDR kvaddr)) (\<lambda>p. Inr (Some p)))"

definition page_to_kvaddr :: "'s kstate_scheme \<Rightarrow> page_ptr option \<Rightarrow> addr_t" where
  "page_to_kvaddr s p = (case p of None \<Rightarrow> 0 | Some p \<Rightarrow> PADDR_TO_KVADDR (PAGE_TO_PADDR s p))"

section \<open>Page macros\<close>

definition is_tail :: "'s kstate_scheme \<Rightarrow> page_ptr \<Rightarrow> bool result" where
  "is_tail s p = rbind (read_page s p) (\<lambda>g. Inr (pg_type g = PGTYPE_TAIL))"

definition first_page :: "'s kstate_scheme \<Rightarrow> page_ptr \<Rightarrow> page_ptr option result" where
  "first_page s p =
     rbind (is_tail s p) (\<lambda>t. if t then rbind (read_page s p) (\<lambda>g. Inr (pg_first g)) else Inr (Some p))"

definition is_slab :: "'s kstate_scheme \<Rightarrow> page_ptr \<Rightarrow> bool result" where
  "is_slab s p =
     rbind (first_page s p) (\<lambda>f. rbind (deref f) (\<lambda>f.
     rbind (read_page s f) (\<lambda>g. Inr (pg_type g = PGTYPE_SLAB))))"

definition page_count :: "'s kstate_scheme \<Rightarrow> page_ptr \<Rightarrow> u64 result" where
  "page_count s p =
     rbind (first_page s p) (\<lambda>f. rbind (deref f) (\<lambda>f.
     rbind (read_page s f) (\<lambda>g. Inr (ucast (pg_count g)))))"

definition is_page_reserved :: "'s kstate_scheme \<Rightarrow> page_ptr \<Rightarrow> bool result" where
  "is_page_reserved s p =
     rbind (read_page s p) (\<lambda>g. Inr (atomic_get_bit PAGE_RESERVED (pg_flags g)))"

definition reserve_page :: "page_ptr \<Rightarrow> 's kstate_scheme \<Rightarrow> 's kstate_scheme result" where
  "reserve_page p = write_page p (\<lambda>g. g\<lparr>pg_flags := atomic_set_bit PAGE_RESERVED (pg_flags g)\<rparr>)"

definition release_page :: "page_ptr \<Rightarrow> 's kstate_scheme \<Rightarrow> 's kstate_scheme result" where
  "release_page p = write_page p (\<lambda>g. g\<lparr>pg_flags := atomic_clear_bit PAGE_RESERVED (pg_flags g)\<rparr>)"

definition shred_page :: "page_ptr \<Rightarrow> 's kstate_scheme \<Rightarrow> 's kstate_scheme" where
  "shred_page p s = s\<lparr>mem := memset (page_to_kvaddr s (Some p)) 0x01 PGSIZE (mem s)\<rparr>"

definition shred_and_release_page :: "page_ptr \<Rightarrow> 's kstate_scheme \<Rightarrow> 's kstate_scheme result" where
  "shred_and_release_page p s = release_page p (shred_page p s)"

definition next_page :: "'s kstate_scheme \<Rightarrow> page_ptr \<Rightarrow> page_ptr" where
  "next_page s p = list_next (plinks s) p"

definition prev_page :: "'s kstate_scheme \<Rightarrow> page_ptr \<Rightarrow> page_ptr" where
  "prev_page s p = list_prev (plinks s) p"

definition first_free_page :: "'s kstate_scheme \<Rightarrow> page_ptr" where
  "first_free_page s = list_next (plinks s) EndFree"

definition page_add_before :: "page_ptr \<Rightarrow> page_ptr \<Rightarrow> 's kstate_scheme \<Rightarrow> 's kstate_scheme" where
  "page_add_before p newp s = s\<lparr>plinks := list_add_before p newp (plinks s)\<rparr>"

definition page_delete :: "page_ptr \<Rightarrow> 's kstate_scheme \<Rightarrow> 's kstate_scheme" where
  "page_delete p s = s\<lparr>plinks := list_del_init p (plinks s)\<rparr>"

definition page_split :: "page_ptr \<Rightarrow> page_ptr \<Rightarrow> page_ptr \<Rightarrow> 's kstate_scheme \<Rightarrow> 's kstate_scheme result" where
  "page_split f p n s = rbind (list_split f p n (plinks s)) (\<lambda>h. Inr (s\<lparr>plinks := h\<rparr>))"

text \<open>\<^verbatim>\<open>freep < p\<close> on pointers into the page array.\<close>

fun page_less :: "page_ptr \<Rightarrow> page_ptr \<Rightarrow> bool" where
  "page_less (Pg i) (Pg j) = (i < j)"
| "page_less _ _ = False"

text \<open>\<^verbatim>\<open>p + 1\<close> and \<^verbatim>\<open>p - 1\<close>; computed from \<open>EndFree\<close> they point to no page.\<close>

fun page_succ :: "page_ptr \<Rightarrow> page_ptr option" where
  "page_succ (Pg i) = Some (Pg (Suc i))"
| "page_succ EndFree = None"

fun page_pred :: "page_ptr \<Rightarrow> page_ptr option" where
  "page_pred (Pg (Suc i)) = Some (Pg i)"
| "page_pred _ = None"

section \<open>alloc\_pages\<close>

text \<open>
  The loop \<^verbatim>\<open>for (i = num; i > 0; )\<close>: every round takes the page \<open>p\<close> off the free list
  and appends it to the list of \<open>pfirst\<close>.
\<close>

fun alloc_pages_loop :: "nat \<Rightarrow> page_ptr \<Rightarrow> page_ptr option \<Rightarrow> 's kstate_scheme \<Rightarrow>
    (page_ptr option \<times> 's kstate_scheme) result" where
  "alloc_pages_loop 0 p pfirst s = Inr (pfirst, s)"
| "alloc_pages_loop (Suc i) p pfirst s =
     (let np = next_page s p in
      rbind (is_page_reserved s p) (\<lambda>res.
      if \<not> res then
        rbind (reserve_page p s) (\<lambda>s.
        let s = page_delete p s in
        rbind (case pfirst of
                 None \<Rightarrow> Inr (p, s)
               | Some f \<Rightarrow>
                   rbind (write_page p (\<lambda>g. g\<lparr>pg_type := PGTYPE_TAIL, pg_first := Some f\<rparr>)
                            (page_add_before f p s))
                         (\<lambda>s. Inr (f, s))) (\<lambda>(f, s).
        alloc_pages_loop i np (Some f) (s\<lparr>nr_free_pages := nr_free_pages s - 1\<rparr>)))
      else Inl (Panic ''Allocated page inside free list'')))"

definition alloc_pages :: "size_t \<Rightarrow> 's kstate_scheme \<Rightarrow> (page_ptr option \<times> 's kstate_scheme) result" where
  "alloc_pages num s =
     (if nr_free_pages s < num then Inr (None, s)
      else
        rbind (alloc_pages_loop (unat num) (first_free_page s) None s) (\<lambda>(pfirst, s).
        rbind (deref pfirst) (\<lambda>f.
        rbind (write_page f (\<lambda>g. g\<lparr>pg_type := PGTYPE_GENERIC, pg_count := ucast num\<rparr>) s) (\<lambda>s.
        Inr (Some f, s)))))"

definition pgalloc :: "'s kstate_scheme \<Rightarrow> (page_ptr option \<times> 's kstate_scheme) result" where
  "pgalloc s = alloc_pages 1 s"

section \<open>alloc\_cont\_pages\<close>

text \<open>
  The search loop
  \<^verbatim>\<open>for (i = num; (i > 0) || (np == end_free_page()); )\<close>. The counter is a \<^verbatim>\<open>size_t\<close>, so
  decrementing 0 wraps. The loop may not stop, so it takes fuel.
\<close>

fun find_run :: "nat \<Rightarrow> size_t \<Rightarrow> size_t \<Rightarrow> page_ptr \<Rightarrow> page_ptr option \<Rightarrow> 's kstate_scheme \<Rightarrow>
    (size_t \<times> page_ptr option) result" where
  "find_run 0 num i np p s = Inl Hang"
| "find_run (Suc fuel) num i np p s =
     (if 0 < i \<or> np = EndFree then
        let p = np; np = next_page s p in
        if 1 < i \<and> page_succ p \<noteq> Some np \<and> np \<noteq> EndFree
        then find_run fuel num num np (Some p) s
        else find_run fuel num (i - 1) np (Some p) s
      else Inr (i, p))"

text \<open>The loop that takes the run off the free list, from its last page backwards.\<close>

fun take_run :: "nat \<Rightarrow> page_ptr option \<Rightarrow> page_ptr option \<Rightarrow> 's kstate_scheme \<Rightarrow>
    (page_ptr option \<times> 's kstate_scheme) result" where
  "take_run 0 p pfirst s = Inr (pfirst, s)"
| "take_run (Suc k) p pfirst s =
     rbind (deref p) (\<lambda>p.
     rbind (reserve_page p s) (\<lambda>s.
     let s = page_delete p s;
         s = (case pfirst of None \<Rightarrow> s | Some f \<Rightarrow> page_add_before f p s)
     in take_run k (page_pred p) (Some p) (s\<lparr>nr_free_pages := nr_free_pages s - 1\<rparr>)))"

fun mark_tails :: "nat \<Rightarrow> page_ptr \<Rightarrow> page_ptr \<Rightarrow> 's kstate_scheme \<Rightarrow> (page_ptr \<times> 's kstate_scheme) result" where
  "mark_tails 0 p pfirst s = Inr (p, s)"
| "mark_tails (Suc k) p pfirst s =
     rbind (write_page p (\<lambda>g. g\<lparr>pg_type := PGTYPE_TAIL, pg_first := Some pfirst\<rparr>) s) (\<lambda>s.
     mark_tails k (next_page s p) pfirst s)"

definition alloc_cont_pages :: "nat \<Rightarrow> size_t \<Rightarrow> 's kstate_scheme \<Rightarrow>
    (page_ptr option \<times> 's kstate_scheme) result" where
  "alloc_cont_pages fuel num s =
     (if nr_free_pages s < num then Inr (None, s)
      else
        rbind (find_run fuel num num (first_free_page s) None s) (\<lambda>(i, p).
        if 0 < i then Inr (None, s)
        else
          rbind (take_run (unat num) p None s) (\<lambda>(pfirst, s).
          rbind (deref pfirst) (\<lambda>f.
          rbind (mark_tails (unat num - 1) (next_page s f) f s) (\<lambda>(p, s).
          rbind (assert_that ''p == pfirst'' (p = f)) (\<lambda>_.
          rbind (write_page f (\<lambda>g. g\<lparr>pg_type := PGTYPE_GENERIC, pg_count := ucast num\<rparr>) s) (\<lambda>s.
          Inr (Some f, s))))))))"

section \<open>free\_all\_pages and free\_pages\<close>

text \<open>
  \<^verbatim>\<open>while ((freep != end_free_page()) && (freep < p)) freep = next_page(freep);\<close>
\<close>

fun seek_free :: "nat \<Rightarrow> page_ptr \<Rightarrow> page_ptr \<Rightarrow> 's kstate_scheme \<Rightarrow> page_ptr result" where
  "seek_free 0 freep p s = Inl Hang"
| "seek_free (Suc fuel) freep p s =
     (if freep \<noteq> EndFree \<and> page_less freep p
      then seek_free fuel (next_page s freep) p s
      else Inr freep)"

text \<open>
  The free list has at most one node per page and its head, so a walk along it that has not
  stopped after \<open>nr_pages s + 1\<close> rounds never stops; \<open>walk_fuel\<close> is that bound.
\<close>

definition walk_fuel :: "'s kstate_scheme \<Rightarrow> nat" where
  "walk_fuel s = Suc (Suc (nr_pages s))"

fun free_loop :: "nat \<Rightarrow> page_ptr \<Rightarrow> page_ptr \<Rightarrow> 's kstate_scheme \<Rightarrow> 's kstate_scheme result" where
  "free_loop 0 p freep s = Inr s"
| "free_loop (Suc k) p freep s =
     (let np = next_page s p; s = page_delete p s in
      rbind (seek_free (walk_fuel s) freep p s) (\<lambda>freep.
      rbind (assert_that ''freep != p'' (freep \<noteq> p)) (\<lambda>_.
      rbind (is_page_reserved s p) (\<lambda>res.
      rbind (assert_that ''is_page_reserved(p)'' res) (\<lambda>_.
      rbind (shred_and_release_page p s) (\<lambda>s.
      let s = page_add_before freep p s in
      free_loop k np freep (s\<lparr>nr_free_pages := nr_free_pages s + 1\<rparr>)))))))"

definition free_all_pages :: "page_ptr option \<Rightarrow> 's kstate_scheme \<Rightarrow> 's kstate_scheme result" where
  "free_all_pages fp s =
     rbind (deref fp) (\<lambda>fp.
     rbind (page_count s fp) (\<lambda>num.
     rbind (first_page s fp) (\<lambda>pfirst.
     rbind (deref pfirst) (\<lambda>p.
     free_loop (unat num) p (first_free_page s) s))))"

text \<open>The length of the part of the list before \<open>base\<close>.\<close>

fun head_length :: "nat \<Rightarrow> nat \<Rightarrow> page_ptr \<Rightarrow> page_ptr \<Rightarrow> 's kstate_scheme \<Rightarrow> nat result" where
  "head_length 0 n p base s = Inl Hang"
| "head_length (Suc fuel) n p base s =
     (if p \<noteq> base then
        rbind (is_page_reserved s p) (\<lambda>res.
        rbind (assert_that ''is_page_reserved(p)'' res) (\<lambda>_.
        head_length fuel (Suc n) (next_page s p) base s))
      else Inr n)"

text \<open>The first page after \<open>num\<close> pages from \<open>base\<close>.\<close>

fun find_last :: "nat \<Rightarrow> page_ptr \<Rightarrow> page_ptr \<Rightarrow> page_ptr \<Rightarrow> 's kstate_scheme \<Rightarrow> page_ptr result" where
  "find_last 0 last_p base first s = Inr last_p"
| "find_last (Suc k) last_p base first s =
     (if last_p \<noteq> first \<or> last_p = base then
        rbind (is_page_reserved s last_p) (\<lambda>res.
        rbind (assert_that ''is_page_reserved(last)'' res) (\<lambda>_.
        find_last k (next_page s last_p) base first s))
      else Inl (Assertion ''last != first || last == base''))"

text \<open>The macro \<^verbatim>\<open>update_page_list\<close>.\<close>

fun update_page_list :: "nat \<Rightarrow> page_ptr \<Rightarrow> page_ptr \<Rightarrow> page_ptr \<Rightarrow> u64 \<Rightarrow> 's kstate_scheme \<Rightarrow>
    's kstate_scheme result" where
  "update_page_list 0 i from to cnt s = Inl Hang"
| "update_page_list (Suc fuel) i from to cnt s =
     (if i \<noteq> to then
        rbind (is_tail s i) (\<lambda>t.
        rbind (write_page i (\<lambda>g. if t then g\<lparr>pg_first := Some from\<rparr> else g\<lparr>pg_count := ucast cnt\<rparr>) s) (\<lambda>s.
        update_page_list fuel (next_page s i) from to cnt s))
      else Inr s)"

definition free_pages :: "page_ptr option \<Rightarrow> size_t \<Rightarrow> 's kstate_scheme \<Rightarrow>
    (page_ptr option \<times> 's kstate_scheme) result" where
  "free_pages base num s =
     (if num = 0 \<or> base = None then Inr (None, s)
      else
        rbind (deref base) (\<lambda>base.
        rbind (first_page s base) (\<lambda>first.
        rbind (deref first) (\<lambda>first.
        rbind (page_count s first) (\<lambda>total.
        rbind (head_length (walk_fuel s) 0 first base s) (\<lambda>head_len.
        rbind (find_last (unat num) base base first s) (\<lambda>last_p.
        rbind (read_page s first) (\<lambda>g.
        rbind (write_page base (\<lambda>b. b\<lparr>pg_type := pg_type g\<rparr>) s) (\<lambda>s.
        rbind (write_page last_p (\<lambda>b. b\<lparr>pg_type := pg_type g\<rparr>) s) (\<lambda>s.
        rbind (update_page_list (walk_fuel s) first first base (of_nat head_len) s) (\<lambda>s.
        rbind (update_page_list (walk_fuel s) base base last_p num s) (\<lambda>s.
        rbind (update_page_list (walk_fuel s) last_p last_p first
                 (total - of_nat head_len - num) s) (\<lambda>s.
        rbind (if last_p \<noteq> first then page_split first (prev_page s last_p) last_p s else Inr s) (\<lambda>s.
        rbind (if base \<noteq> first then page_split first (prev_page s base) base s else Inr s) (\<lambda>s.
        rbind (free_all_pages (Some base) s) (\<lambda>s.
        Inr (Some last_p, s)))))))))))))))))"

definition pgfree :: "page_ptr option \<Rightarrow> 's kstate_scheme \<Rightarrow> 's kstate_scheme result" where
  "pgfree p s = rbind (free_pages p 1 s) (\<lambda>(_, s). Inr s)"

text \<open>
  \<^verbatim>\<open>page_unref\<close>: the reference count is decremented (it is an \<^verbatim>\<open>unsigned int\<close>) and
  the page freed when it reaches 0.
\<close>

definition page_unref :: "page_ptr \<Rightarrow> 's kstate_scheme \<Rightarrow> 's kstate_scheme result" where
  "page_unref p s =
     rbind (write_page p (\<lambda>g. g\<lparr>ref_count := ref_count g - 1\<rparr>) s) (\<lambda>s.
     rbind (read_page s p) (\<lambda>g. if ref_count g = 0 then pgfree (Some p) s else Inr s))"

section \<open>Setting up the page array\<close>

definition zero_slab :: kmem_slab where
  "zero_slab = \<lparr>slab_cache = None, slab_index = 0, slab_count = 0, slab_capacity = 0\<rparr>"

definition zero_page :: page where
  "zero_page = \<lparr>ref_count = 0, pg_count = 0, pg_flags = 0, pg_type = 0, pg_first = None,
     pgdir_entries = 0, pgdir_asid = 0, pg_slab = zero_slab\<rparr>"

text \<open>\<^verbatim>\<open>sizeof(struct page)\<close>: four 4-byte members, the 16-byte list node, the 40-byte union.\<close>

definition sizeof_page :: u64 where "sizeof_page = 72"

fun init_free_loop :: "nat \<Rightarrow> nat \<Rightarrow> 's kstate_scheme \<Rightarrow> 's kstate_scheme" where
  "init_free_loop 0 i s = s"
| "init_free_loop (Suc k) i s =
     init_free_loop k (Suc i) (s\<lparr>plinks := list_add_before EndFree (Pg i) (plinks s)\<rparr>)"

definition init_free_page_list :: "nat \<Rightarrow> nat \<Rightarrow> 's kstate_scheme \<Rightarrow> 's kstate_scheme" where
  "init_free_page_list n occupied s =
     (let s = s\<lparr>plinks := list_init EndFree (plinks s)\<rparr>;
          s = init_free_loop (n - occupied) occupied s
      in s\<lparr>nr_free_pages := of_nat n - of_nat occupied\<rparr>)"

fun init_nodes_loop :: "nat \<Rightarrow> nat \<Rightarrow> 's kstate_scheme \<Rightarrow> 's kstate_scheme" where
  "init_nodes_loop 0 i s = s"
| "init_nodes_loop (Suc k) i s =
     init_nodes_loop k (Suc i) (s\<lparr>plinks := list_init (Pg i) (plinks s)\<rparr>)"

fun reserve_loop :: "nat \<Rightarrow> nat \<Rightarrow> 's kstate_scheme \<Rightarrow> 's kstate_scheme result" where
  "reserve_loop 0 i s = Inr s"
| "reserve_loop (Suc k) i s =
     rbind (reserve_page (Pg i) s) (\<lambda>s.
     rbind (write_page (Pg i) (\<lambda>g. g\<lparr>pg_type := PGTYPE_PGSTRUCT\<rparr>) s) (\<lambda>s.
     reserve_loop k (Suc i) s))"

definition init_page_array :: "nat \<Rightarrow> 's kstate_scheme \<Rightarrow> 's kstate_scheme result" where
  "init_page_array n s =
     (let page_array_bytes = of_nat n * sizeof_page;
          page_array_pages = NR_PAGES_NEEDED page_array_bytes;
          s = s\<lparr>nr_pages := n, pages := (\<lambda>_. zero_page)\<rparr>;
          s = init_nodes_loop n 0 s
      in rbind (reserve_loop (unat page_array_pages) 0 s) (\<lambda>s.
         Inr (init_free_page_list n (unat page_array_pages) s)))"

end
