(* ===== verification/Page_Alloc_Lemmas.thy ===== *)
theory Page_Alloc_Lemmas
  imports Page_Alloc
begin

text \<open>
  Lemmas on the page allocator: what the macros do on pages of the array, how a page moves
  between the free list and an allocated set, and the loops of \<open>alloc_pages\<close>,
  \<open>free_all_pages\<close> and \<open>free_pages\<close> on rings of pages.
\<close>

section \<open>Pages\<close>

definition reserved :: "page \<Rightarrow> bool" where
  "reserved g = atomic_get_bit PAGE_RESERVED (pg_flags g)"

definition reserve :: "page \<Rightarrow> page" where
  "reserve g = g\<lparr>pg_flags := atomic_set_bit PAGE_RESERVED (pg_flags g)\<rparr>"

definition release :: "page \<Rightarrow> page" where
  "release g = g\<lparr>pg_flags := atomic_clear_bit PAGE_RESERVED (pg_flags g)\<rparr>"

lemma and_1_eq: "(m :: u32) AND 1 = (if bit m 0 then 1 else 0)"
  by (simp add: and_one_eq odd_iff_mod_2_eq_one bit_0)

lemma get_set_bit [simp]: "atomic_get_bit 0 (atomic_set_bit 0 m)"
  by (simp add: atomic_get_bit_def atomic_set_bit_def and_1_eq bit_simps)

lemma get_clear_bit [simp]: "\<not> atomic_get_bit 0 (atomic_clear_bit 0 m)"
  by (simp add: atomic_get_bit_def atomic_clear_bit_def and_1_eq bit_simps)

lemma reserved_reserve [simp]: "reserved (reserve g)"
  by (simp add: reserved_def reserve_def)

lemma reserved_release [simp]: "\<not> reserved (release g)"
  by (simp add: reserved_def release_def)

lemma reserve_release_fields [simp]:
  "pg_type (reserve g) = pg_type g" "pg_first (reserve g) = pg_first g" "pg_count (reserve g) = pg_count g"
  "pg_type (release g) = pg_type g" "pg_first (release g) = pg_first g" "pg_count (release g) = pg_count g"
  by (simp_all add: reserve_def release_def)

lemma reserved_update [simp]:
  "reserved (g\<lparr>pg_type := t\<rparr>) = reserved g" "reserved (g\<lparr>pg_first := f\<rparr>) = reserved g"
  "reserved (g\<lparr>pg_count := c\<rparr>) = reserved g" "reserved (g\<lparr>ref_count := r\<rparr>) = reserved g"
  "reserved (g\<lparr>pg_slab := sl\<rparr>) = reserved g" "reserved (g\<lparr>pgdir_entries := e\<rparr>) = reserved g"
  "reserved (g\<lparr>pgdir_asid := a\<rparr>) = reserved g"
  by (simp_all add: reserved_def)

lemma page_ok_update [simp]:
  "page_ok (s\<lparr>pages := P\<rparr>) = page_ok s" "page_ok (s\<lparr>plinks := L\<rparr>) = page_ok s"
  "page_ok (s\<lparr>nr_free_pages := n\<rparr>) = page_ok s" "page_ok (s\<lparr>mem := m\<rparr>) = page_ok s"
proof -
  show "page_ok (s\<lparr>pages := P\<rparr>) = page_ok s" by (rule ext, case_tac x) auto
  show "page_ok (s\<lparr>plinks := L\<rparr>) = page_ok s" by (rule ext, case_tac x) auto
  show "page_ok (s\<lparr>nr_free_pages := n\<rparr>) = page_ok s" by (rule ext, case_tac x) auto
  show "page_ok (s\<lparr>mem := m\<rparr>) = page_ok s" by (rule ext, case_tac x) auto
qed

text \<open>Updates of different components of the state commute; simp puts them in one order.\<close>

lemma kstate_update_order [simp]:
  "s\<lparr>plinks := L, pages := P\<rparr> = s\<lparr>pages := P, plinks := L\<rparr>"
  "s\<lparr>nr_free_pages := n, pages := P\<rparr> = s\<lparr>pages := P, nr_free_pages := n\<rparr>"
  "s\<lparr>nr_free_pages := n, plinks := L\<rparr> = s\<lparr>plinks := L, nr_free_pages := n\<rparr>"
  "s\<lparr>mem := m, pages := P\<rparr> = s\<lparr>pages := P, mem := m\<rparr>"
  "s\<lparr>mem := m, plinks := L\<rparr> = s\<lparr>plinks := L, mem := m\<rparr>"
  "s\<lparr>mem := m, nr_free_pages := n\<rparr> = s\<lparr>nr_free_pages := n, mem := m\<rparr>"
  by simp_all

lemma page_ok_not_EndFree: "page_ok s q \<Longrightarrow> q \<noteq> EndFree"
  by (cases q) auto

lemma page_access [simp]:
  "page_ok s p \<Longrightarrow> read_page s p = Inr (pages s p)"
  "page_ok s p \<Longrightarrow> write_page p f s = Inr (s\<lparr>pages := (pages s)(p := f (pages s p))\<rparr>)"
  "page_ok s p \<Longrightarrow> is_page_reserved s p = Inr (reserved (pages s p))"
  "page_ok s p \<Longrightarrow> reserve_page p s = Inr (s\<lparr>pages := (pages s)(p := reserve (pages s p))\<rparr>)"
  "page_ok s p \<Longrightarrow> release_page p s = Inr (s\<lparr>pages := (pages s)(p := release (pages s p))\<rparr>)"
  "page_ok s p \<Longrightarrow> is_tail s p = Inr (pg_type (pages s p) = PGTYPE_TAIL)"
  "page_ok s p \<Longrightarrow> first_page s p =
     Inr (if pg_type (pages s p) = PGTYPE_TAIL then pg_first (pages s p) else Some p)"
  by (simp_all add: read_page_def write_page_def is_page_reserved_def reserve_page_def
      release_page_def is_tail_def first_page_def reserved_def reserve_def release_def)

lemma deref_Some [simp]: "deref (Some x) = Inr x"
  by (simp add: deref_def)

lemma deref_None [simp]: "deref None = Inl NullPointer"
  by (simp add: deref_def)

section \<open>alloc\_pages\<close>

text \<open>
  One round of the loop on the links: the node \<open>x\<close> leaves the free list and becomes the last
  node of the list \<open>as\<close>, or the only one.
\<close>

definition take_links :: "'n list \<Rightarrow> 'n \<Rightarrow> 'n list_heap \<Rightarrow> 'n list_heap" where
  "take_links as x h =
     (if as = [] then list_del_init x h else list_add_before (hd as) x (list_del_init x h))"

lemma take_links_rings:
  assumes "ring h (e # x # zs)" "as \<noteq> [] \<Longrightarrow> ring h as" "set as \<inter> set (e # x # zs) = {}"
  shows "ring (take_links as x h) (e # zs)" "ring (take_links as x h) (as @ [x])"
    "same_links (- set (e # x # zs @ as)) h (take_links as x h)"
proof -
  have r: "ring h ([e] @ x # zs)" using assms(1) by simp
  have del: "ring (list_del_init x h) (e # zs)" "ring (list_del_init x h) [x]"
    using ll.delete_middle [OF r] ll.delete_middle_self [OF r] by auto
  have same: "same_links A h (list_del_init x h)" if "A \<inter> set (e # x # zs) = {}" for A
    using ll.delete_middle_same [OF r] that by simp
  show "ring (take_links as x h) (e # zs)" "ring (take_links as x h) (as @ [x])"
    "same_links (- set (e # x # zs @ as)) h (take_links as x h)"
  proof -
    consider "as = []" | a as' where "as = a # as'" by (cases as) auto
    then have "ring (take_links as x h) (e # zs) \<and> ring (take_links as x h) (as @ [x]) \<and>
      same_links (- set (e # x # zs @ as)) h (take_links as x h)"
    proof cases
      case 1
      then show ?thesis using del same [of "- set (e # x # zs)"] by (simp add: take_links_def)
    next
      case (2 a as')
      have "ring (list_del_init x h) (a # as')"
        using ll.rep_same [OF same [of "set as"]] assms(2,3) 2 by auto
      moreover have "x \<notin> set (a # as')" using assms(3) 2 by auto
      ultimately have "ring (take_links as x h) (as @ [x])"
        and s2: "A \<inter> set (a # as' @ [x]) = {} \<Longrightarrow>
          same_links A (list_del_init x h) (take_links as x h)" for A
        using ll.rep_add_before [of _ a as' x] ll.same_add_before [of _ a as' A x] 2
        by (simp_all add: take_links_def)
      moreover have "distinct (e # x # zs)" using assms(1) by (rule ring_distinct)
      then have "ring (take_links as x h) (e # zs)"
        using ll.rep_same [OF s2 [of "set (e # zs)"] del(1)] assms(3) 2 by auto
      moreover have "same_links (- set (e # x # zs @ as)) h (take_links as x h)"
        using same_links_trans [OF same [of "- set (e # x # zs @ as)"] s2] 2 by auto
      ultimately show ?thesis by blast
    qed
    then show "ring (take_links as x h) (e # zs)" "ring (take_links as x h) (as @ [x])"
      "same_links (- set (e # x # zs @ as)) h (take_links as x h)" by blast+
  qed
qed

text \<open>The page structure of a page taken by \<open>alloc_pages\<close> into the set that starts with \<open>f\<close>.\<close>

definition taken :: "page_ptr \<Rightarrow> page_ptr \<Rightarrow> page \<Rightarrow> page" where
  "taken f q g =
     (if q = f then reserve g else (reserve g)\<lparr>pg_type := PGTYPE_TAIL, pg_first := Some f\<rparr>)"

definition take_pages :: "page_ptr \<Rightarrow> page_ptr list \<Rightarrow> (page_ptr \<Rightarrow> page) \<Rightarrow> page_ptr \<Rightarrow> page" where
  "take_pages f xs P = (\<lambda>q. if q \<in> set xs then taken f q (P q) else P q)"

lemma take_pages_Nil [simp]: "take_pages f [] P = P"
  by (simp add: take_pages_def)

lemma take_pages_Cons:
  "x \<notin> set xs \<Longrightarrow> take_pages f xs (P(x := taken f x (P x))) = take_pages f (x # xs) P"
  by (auto simp: take_pages_def)

lemma alloc_pages_loop_rings:
  assumes "ring (plinks s) (EndFree # xs @ ys)" "p = hd (xs @ ys @ [EndFree])"
    and "pfirst = (if as = [] then None else Some (hd as))"
    and "as \<noteq> [] \<Longrightarrow> ring (plinks s) as" "set as \<inter> set (EndFree # xs @ ys) = {}"
    and "\<And>q. q \<in> set xs \<Longrightarrow> page_ok s q \<and> \<not> reserved (pages s q)"
  shows "\<exists>L. alloc_pages_loop (length xs) p pfirst s =
      Inr (if as @ xs = [] then None else Some (hd (as @ xs)),
           s\<lparr>pages := take_pages (hd (as @ xs)) xs (pages s), plinks := L,
             nr_free_pages := nr_free_pages s - of_nat (length xs)\<rparr>) \<and>
    ring L (EndFree # ys) \<and> (as @ xs \<noteq> [] \<longrightarrow> ring L (as @ xs)) \<and>
    same_links (- set (EndFree # as @ xs @ ys)) (plinks s) L"
  using assms
proof (induction xs arbitrary: s p pfirst as)
  case Nil
  then show ?case
    by (intro exI [of _ "plinks s"]) auto
next
  case (Cons x xs)
  have p: "p = x" and ok: "page_ok s x" "\<not> reserved (pages s x)" using Cons.prems(2,6) by auto
  have ring0: "ring (plinks s) (EndFree # x # xs @ ys)" using Cons.prems(1) by simp
  have np: "next_page s x = hd (xs @ ys @ [EndFree])"
    using ll.nxt_middle [of "plinks s" "[EndFree]" x "xs @ ys"] ring0
    by (simp add: next_page_def hd_append)
  have dist: "distinct (EndFree # x # xs @ ys)" using ring0 by (rule ring_distinct)
  let ?L = "take_links as x (plinks s)" and ?f = "hd (as @ [x])"
  let ?s = "s\<lparr>pages := (pages s)(x := taken ?f x (pages s x)), plinks := ?L,
    nr_free_pages := nr_free_pages s - 1\<rparr>"
  have disj: "set as \<inter> set (EndFree # x # xs @ ys) = {}" using Cons.prems(5) by simp
  have rings: "ring ?L (EndFree # xs @ ys)" "ring ?L (as @ [x])"
    "same_links (- set (EndFree # x # (xs @ ys) @ as)) (plinks s) ?L"
    using take_links_rings [OF ring0 Cons.prems(4) disj] by auto
  have step: "alloc_pages_loop (length (x # xs)) p pfirst s =
      alloc_pages_loop (length xs) (hd (xs @ ys @ [EndFree])) (Some ?f) ?s"
    using ok Cons.prems(3,5) np
    by (cases as) (auto simp: p Let_def page_delete_def page_add_before_def take_links_def taken_def)
  have "\<exists>L. alloc_pages_loop (length xs) (hd (xs @ ys @ [EndFree])) (Some ?f) ?s =
      Inr (if (as @ [x]) @ xs = [] then None else Some (hd ((as @ [x]) @ xs)),
           ?s\<lparr>pages := take_pages (hd ((as @ [x]) @ xs)) xs (pages ?s), plinks := L,
              nr_free_pages := nr_free_pages ?s - of_nat (length xs)\<rparr>) \<and>
    ring L (EndFree # ys) \<and> ((as @ [x]) @ xs \<noteq> [] \<longrightarrow> ring L ((as @ [x]) @ xs)) \<and>
    same_links (- set (EndFree # (as @ [x]) @ xs @ ys)) (plinks ?s) L"
    by (rule Cons.IH) (use rings Cons.prems(5,6) dist in auto)
  moreover have "hd ((as @ [x]) @ xs) = ?f" "x \<notin> set xs" using dist by (auto simp: hd_append)
  ultimately obtain L where IH: "alloc_pages_loop (length xs) (hd (xs @ ys @ [EndFree])) (Some ?f) ?s =
      Inr (Some ?f, s\<lparr>pages := take_pages ?f (x # xs) (pages s), plinks := L,
           nr_free_pages := nr_free_pages s - 1 - of_nat (length xs)\<rparr>)"
    "ring L (EndFree # ys)" "ring L (as @ x # xs)"
    "same_links (- set (EndFree # as @ x # xs @ ys)) ?L L"
    by (auto simp: take_pages_Cons)
  have "same_links (- set (EndFree # as @ x # xs @ ys)) (plinks s) L"
    using same_links_trans [OF rings(3)] IH(4) by (simp add: insert_commute Un_ac)
  then show ?case
    using step IH(1-3)
    by (intro exI [of _ L]) (simp add: algebra_simps hd_append del: alloc_pages_loop.simps)
qed

section \<open>free\_all\_pages\<close>

text \<open>
  One round of \<open>free_loop\<close> on the links: the node \<open>x\<close> leaves the list \<open>x # bs\<close> and enters
  the free list between \<open>us\<close> and \<open>vs\<close>.
\<close>

definition give_links :: "'n \<Rightarrow> 'n \<Rightarrow> 'n list_heap \<Rightarrow> 'n list_heap" where
  "give_links y x h = list_add_before y x (list_del_init x h)"

lemma ring_at_hd:
  assumes "ring h (e # us @ vs)"
  obtains qs where "ring h (hd (vs @ [e]) # qs)" "set (hd (vs @ [e]) # qs) = set (e # us @ vs)"
proof (cases vs)
  case Nil
  then show ?thesis using that [of us] assms by simp
next
  case (Cons v vs')
  then show ?thesis
    using that [of "vs' @ e # us"] assms ll.rep_rotate [of h "e # us" vs] by auto
qed

lemma insert_at_hd:
  assumes "ring h (e # us @ vs)" "x \<notin> set (e # us @ vs)"
  shows "ring (list_add_before (hd (vs @ [e])) x h) (e # us @ x # vs)"
proof (cases vs)
  case Nil
  then show ?thesis using ll.rep_add_before [of h e us x] assms by simp
next
  case (Cons v vs')
  then show ?thesis using ll.insert_middle [of h "e # us" v vs' x] assms by simp
qed

lemma give_links_rings:
  assumes "ring h (x # bs)" "ring h (e # us @ vs)" "set (x # bs) \<inter> set (e # us @ vs) = {}"
  shows "ring (give_links (hd (vs @ [e])) x h) (e # us @ x # vs)"
    "bs \<noteq> [] \<Longrightarrow> ring (give_links (hd (vs @ [e])) x h) bs"
    "same_links (- set (e # us @ vs @ x # bs)) h (give_links (hd (vs @ [e])) x h)"
proof -
  let ?h1 = "list_del_init x h" and ?y = "hd (vs @ [e])"
  have same1: "same_links A h ?h1" if "A \<inter> set (x # bs) = {}" for A
    using ll.same_del_init [OF assms(1)] that by blast
  have r1: "ring ?h1 (e # us @ vs)"
    using ll.rep_same [OF same1 assms(2)] assms(3) by (auto simp: Int_commute)
  have rb: "ring ?h1 bs" if "bs \<noteq> []" using ll.rep_del_init [OF assms(1) that] .
  have "x \<notin> set (e # us @ vs)" using assms(3) by auto
  then show "ring (give_links ?y x h) (e # us @ x # vs)"
    using insert_at_hd [OF r1] by (simp add: give_links_def)
  obtain qs where qs: "ring ?h1 (?y # qs)" "set (?y # qs) = set (e # us @ vs)"
    using ring_at_hd [OF r1] .
  have same2: "same_links A ?h1 (give_links ?y x h)" if "A \<inter> set (e # us @ vs @ [x]) = {}" for A
  proof -
    have "set (?y # qs @ [x]) = set (e # us @ vs @ [x])" using qs(2) by auto
    then show ?thesis using ll.same_add_before [OF qs(1), of A x] that by (metis give_links_def)
  qed
  show "ring (give_links ?y x h) bs" if "bs \<noteq> []"
    using ll.rep_same [OF same2 rb [OF that]] assms(3) ring_distinct [OF assms(1)] by auto
  show "same_links (- set (e # us @ vs @ x # bs)) h (give_links ?y x h)"
    by (rule same_links_trans [OF same1 same2]) auto
qed

text \<open>The walk along the free list stops at the first page that is not below \<open>p\<close>.\<close>

lemma seek_free_stops:
  assumes "ring (plinks s) (EndFree # us @ map Pg vs)" "length vs < fuel"
  shows "seek_free fuel (hd (map Pg vs @ [EndFree])) (Pg i) s =
    Inr (hd (map Pg (dropWhile (\<lambda>j. j < i) vs) @ [EndFree]))"
  using assms
proof (induction vs arbitrary: us fuel)
  case Nil
  then show ?case by (cases fuel) auto
next
  case (Cons v vs)
  then obtain f where f: "fuel = Suc f" "length vs < f" by (cases fuel) auto
  have "next_page s (Pg v) = hd (map Pg vs @ [EndFree])"
    using ll.nxt_middle [of "plinks s" "EndFree # us" "Pg v" "map Pg vs"] Cons.prems(1)
    by (simp add: next_page_def hd_append)
  moreover have "ring (plinks s) (EndFree # (us @ [Pg v]) @ map Pg vs)" using Cons.prems(1) by simp
  ultimately show ?case using Cons.IH [of "us @ [Pg v]" f] f by simp
qed

definition shred_mem :: "u64 \<Rightarrow> nat list \<Rightarrow> memory \<Rightarrow> memory" where
  "shred_mem base xs m =
     fold (\<lambda>i. memset (PADDR_TO_KVADDR (push_bit PGSHIFT (of_nat i + base))) 0x01 PGSIZE) xs m"

definition release_pages :: "nat list \<Rightarrow> (page_ptr \<Rightarrow> page) \<Rightarrow> page_ptr \<Rightarrow> page" where
  "release_pages xs P = (\<lambda>q. if q \<in> Pg ` set xs then release (P q) else P q)"

lemma release_pages_Nil [simp]: "release_pages [] P = P"
  by (simp add: release_pages_def)

lemma release_pages_Cons:
  "x \<notin> set xs \<Longrightarrow> release_pages xs (P(Pg x := release (P (Pg x)))) = release_pages (x # xs) P"
  by (auto simp: release_pages_def)

lemma shred_mem_Nil [simp]: "shred_mem base [] m = m"
  by (simp add: shred_mem_def)

lemma length_le_bound: "distinct xs \<Longrightarrow> \<forall>x\<in>set xs. x < (n::nat) \<Longrightarrow> length xs \<le> n"
  using card_mono [of "{..<n}" "set xs"] by (simp add: distinct_card subset_iff)

text \<open>One round of \<open>free_loop\<close>.\<close>

lemma free_loop_step:
  assumes "ring (plinks s) (EndFree # map Pg (F1 @ F2))" "ring (plinks s) (map Pg (b # B))"
    and "set (b # B) \<inter> set (F1 @ F2) = {}" "\<forall>j\<in>set (b # B @ F1 @ F2). j < nr_pages s"
    and "reserved (pages s (Pg b))"
  shows "free_loop (Suc k) (Pg b) (hd (map Pg F2 @ [EndFree])) s =
    free_loop k (hd (map Pg (B @ [b]))) (hd (map Pg (dropWhile (\<lambda>j. j < b) F2) @ [EndFree]))
      (s\<lparr>pages := (pages s)(Pg b := release (pages s (Pg b))),
         plinks := give_links (hd (map Pg (dropWhile (\<lambda>j. j < b) F2) @ [EndFree])) (Pg b) (plinks s),
         nr_free_pages := nr_free_pages s + 1,
         mem := shred_mem (highmem_base_pfn s) [b] (mem s)\<rparr>)"
proof -
  let ?h1 = "list_del_init (Pg b) (plinks s)"
  let ?freep = "hd (map Pg (dropWhile (\<lambda>j. j < b) F2) @ [EndFree])"
  have "same_links (set (EndFree # map Pg (F1 @ F2))) (plinks s) ?h1"
    by (rule ll.same_del_init [OF assms(2) [simplified]]) (use assms(3) in auto)
  then have r1: "ring ?h1 (EndFree # map Pg F1 @ map Pg F2)"
    using ll.rep_same assms(1) by fastforce
  have "distinct (F1 @ F2)" using ring_distinct [OF assms(1)] by (auto simp: distinct_map)
  then have "length (F1 @ F2) \<le> nr_pages s" using assms(4) by (intro length_le_bound) auto
  then have "length F2 < walk_fuel s" by (simp add: walk_fuel_def)
  then have seek: "seek_free (walk_fuel s) (hd (map Pg F2 @ [EndFree])) (Pg b) (page_delete (Pg b) s) = Inr ?freep"
    using seek_free_stops [of "page_delete (Pg b) s" "map Pg F1" F2] r1 by (simp add: page_delete_def)
  have "set (dropWhile (\<lambda>j. j < b) F2) \<subseteq> set F2" by (rule set_dropWhileD [THEN subsetI])
  then have "?freep \<noteq> Pg b" using assms(3)
    by (cases "dropWhile (\<lambda>j. j < b) F2") (auto simp del: dropWhile_eq_Nil_conv)
  moreover have "next_page s (Pg b) = hd (map Pg (B @ [b]))"
    using ll.rep_nxt [of "plinks s" "Pg b" "map Pg B"] assms(2) by (simp add: next_page_def)
  moreover have "walk_fuel (page_delete (Pg b) s) = walk_fuel s"
    by (simp add: walk_fuel_def page_delete_def)
  ultimately show ?thesis using seek assms(4,5)
    by (simp add: Let_def page_delete_def page_add_before_def shred_and_release_page_def shred_page_def
        shred_mem_def give_links_def page_to_kvaddr_def PAGE_TO_PADDR_def)
qed

lemma sorted_wrt_less_middle:
  "sorted_wrt (<) (xs @ ts @ ds) \<Longrightarrow> \<forall>j\<in>set (xs @ ts). j < b \<Longrightarrow> \<forall>j\<in>set ds. (b::nat) < j \<Longrightarrow>
   sorted_wrt (<) ((xs @ ts @ [b]) @ ds)"
  by (auto simp: sorted_wrt_append)

lemma sorted_wrt_less_insert:
  assumes "sorted_wrt (<) (F1 @ F2)" "b \<notin> set F2" "\<forall>j\<in>set F1. j < (b::nat)"
  shows "sorted_wrt (<) ((F1 @ takeWhile (\<lambda>j. j < b) F2 @ [b]) @ dropWhile (\<lambda>j. j < b) F2)"
proof -
  have "sorted_wrt (<) (F1 @ takeWhile (\<lambda>j. j < b) F2 @ dropWhile (\<lambda>j. j < b) F2)"
    using assms(1) by simp
  moreover have "b < j" if j: "j \<in> set (dropWhile (\<lambda>j. j < b) F2)" for j
  proof (cases "dropWhile (\<lambda>j. j < b) F2")
    case (Cons y ys)
    then have "\<not> y < b" using hd_dropWhile [of "\<lambda>j. j < b" F2] by simp
    moreover have "y \<in> set F2" using Cons set_dropWhileD [of y "\<lambda>j. j < b" F2] by simp
    ultimately have "b < y" using assms(2) by (metis linorder_neqE)
    moreover have "sorted_wrt (<) (y # ys)"
      using calculation Cons \<open>sorted_wrt (<) (F1 @ takeWhile (\<lambda>j. j < b) F2 @ dropWhile (\<lambda>j. j < b) F2)\<close>
      by (simp only: sorted_wrt_append)
    ultimately show ?thesis using j Cons by auto
  qed (use j in \<open>simp del: dropWhile_eq_Nil_conv\<close>)
  moreover have "j < b" if "j \<in> set (takeWhile (\<lambda>j. j < b) F2)" for j
    using that by (auto dest: set_takeWhileD)
  ultimately show ?thesis using assms(3) by (intro sorted_wrt_less_middle) auto
qed

lemma free_loop_merges:
  assumes "ring (plinks s) (EndFree # map Pg (F1 @ F2))" "B \<noteq> [] \<Longrightarrow> ring (plinks s) (map Pg B)"
    and "set B \<inter> set (F1 @ F2) = {}" "\<forall>j\<in>set (B @ F1 @ F2). j < nr_pages s"
    and "\<forall>j\<in>set B. reserved (pages s (Pg j))" "sorted_wrt (<) (F1 @ F2)" "sorted_wrt (<) B"
    and "\<forall>i\<in>set F1. \<forall>j\<in>set B. i < j" "B \<noteq> [] \<Longrightarrow> p = Pg (hd B)"
  shows "\<exists>L R. free_loop (length B) p (hd (map Pg F2 @ [EndFree])) s =
      Inr (s\<lparr>pages := release_pages B (pages s), plinks := L,
             nr_free_pages := nr_free_pages s + of_nat (length B),
             mem := shred_mem (highmem_base_pfn s) B (mem s)\<rparr>) \<and>
    ring L (EndFree # map Pg R) \<and> sorted_wrt (<) R \<and> set R = set (F1 @ F2 @ B) \<and>
    same_links (- set (EndFree # map Pg (F1 @ F2 @ B))) (plinks s) L"
  using assms
proof (induction B arbitrary: s F1 F2 p)
  case Nil
  then show ?case by (intro exI [of _ "plinks s"] exI [of _ "F1 @ F2"]) auto
next
  case (Cons b B)
  let ?D = "dropWhile (\<lambda>j. j < b) F2" and ?T = "takeWhile (\<lambda>j. j < b) F2"
  let ?L = "give_links (hd (map Pg ?D @ [EndFree])) (Pg b) (plinks s)"
  let ?s = "s\<lparr>pages := (pages s)(Pg b := release (pages s (Pg b))), plinks := ?L,
         nr_free_pages := nr_free_pages s + 1,
         mem := shred_mem (highmem_base_pfn s) [b] (mem s)\<rparr>"
  have F2: "map Pg F1 @ map Pg F2 = map Pg (F1 @ ?T) @ map Pg ?D"
    by (metis append.assoc map_append takeWhile_dropWhile_id)
  have setF2: "set F2 = set ?T \<union> set ?D" by (metis set_append takeWhile_dropWhile_id)
  have step: "free_loop (length (b # B)) p (hd (map Pg F2 @ [EndFree])) s =
      free_loop (length B) (hd (map Pg (B @ [b]))) (hd (map Pg ?D @ [EndFree])) ?s"
    using free_loop_step [of s F1 F2 b B "length B"] Cons.prems by simp
  have r0: "ring (plinks s) (Pg b # map Pg B)"
    "ring (plinks s) (EndFree # map Pg (F1 @ ?T) @ map Pg ?D)"
    "set (Pg b # map Pg B) \<inter> set (EndFree # map Pg (F1 @ ?T) @ map Pg ?D) = {}"
    using Cons.prems(1-3) F2 setF2 by auto
  note g = give_links_rings [OF r0]
  have "\<exists>L R. free_loop (length B) (hd (map Pg (B @ [b]))) (hd (map Pg ?D @ [EndFree])) ?s =
      Inr (?s\<lparr>pages := release_pages B (pages ?s), plinks := L,
             nr_free_pages := nr_free_pages ?s + of_nat (length B),
             mem := shred_mem (highmem_base_pfn ?s) B (mem ?s)\<rparr>) \<and>
    ring L (EndFree # map Pg R) \<and> sorted_wrt (<) R \<and> set R = set ((F1 @ ?T @ [b]) @ ?D @ B) \<and>
    same_links (- set (EndFree # map Pg ((F1 @ ?T @ [b]) @ ?D @ B))) (plinks ?s) L"
  proof (rule Cons.IH)
    show "ring (plinks ?s) (EndFree # map Pg ((F1 @ ?T @ [b]) @ ?D))" using g(1) by simp
    show "ring (plinks ?s) (map Pg B)" if "B \<noteq> []" using g(2) that by simp
    show "sorted_wrt (<) ((F1 @ ?T @ [b]) @ ?D)"
      by (rule sorted_wrt_less_insert) (use Cons.prems(3,6,8) in auto)
    show "\<forall>i\<in>set (F1 @ ?T @ [b]). \<forall>j\<in>set B. i < j"
      using Cons.prems(7,8) by (fastforce dest: set_takeWhileD)
    show "set B \<inter> set ((F1 @ ?T @ [b]) @ ?D) = {}"
      using Cons.prems(3,7) setF2 by auto
    show "\<forall>j\<in>set (B @ (F1 @ ?T @ [b]) @ ?D). j < nr_pages ?s"
      using Cons.prems(4) setF2 by auto
    show "\<forall>j\<in>set B. reserved (pages ?s (Pg j))" using Cons.prems(5,7) by auto
    show "sorted_wrt (<) B" using Cons.prems(7) by simp
    show "hd (map Pg (B @ [b])) = Pg (hd B)" if "B \<noteq> []" using that by (simp add: hd_append hd_map)
  qed
  then obtain L R where IH: "free_loop (length B) (hd (map Pg (B @ [b]))) (hd (map Pg ?D @ [EndFree])) ?s =
      Inr (?s\<lparr>pages := release_pages B (pages ?s), plinks := L,
             nr_free_pages := nr_free_pages ?s + of_nat (length B),
             mem := shred_mem (highmem_base_pfn ?s) B (mem ?s)\<rparr>)"
    "ring L (EndFree # map Pg R)" "sorted_wrt (<) R" "set R = set ((F1 @ ?T @ [b]) @ ?D @ B)"
    "same_links (- set (EndFree # map Pg ((F1 @ ?T @ [b]) @ ?D @ B))) (plinks ?s) L"
    by blast
  have "b \<notin> set B" using Cons.prems(7) by auto
  moreover have "same_links (- set (EndFree # map Pg (F1 @ F2 @ b # B))) (plinks s) L"
  proof (rule same_links_trans [of _ "plinks s" ?L L])
    show "same_links (- set (EndFree # map Pg (F1 @ F2 @ b # B))) (plinks s) ?L"
      by (rule same_links_subset [OF g(3)]) (simp add: setF2 image_Un Un_ac)
    show "same_links (- set (EndFree # map Pg (F1 @ F2 @ b # B))) ?L L"
      using IH(5) by (simp add: setF2 image_Un Un_ac insert_commute)
  qed
  ultimately show ?case
    using step IH(1-4)
    by (intro exI [of _ L] exI [of _ R])
      (auto simp: release_pages_Cons shred_mem_def algebra_simps setF2 simp del: free_loop.simps)
qed

section \<open>The invariant of the allocator\<close>

text \<open>
  The free list holds the pages \<open>F\<close> in ascending order, none of them reserved, and
  \<open>nr_free_pages\<close> counts them. An allocated set is a ring of reserved pages in ascending order
  whose first page carries the count and whose other pages point to the first.
\<close>

definition free_list :: "'s kstate_scheme \<Rightarrow> nat list \<Rightarrow> bool" where
  "free_list s F \<longleftrightarrow>
     ring (plinks s) (EndFree # map Pg F) \<and> sorted_wrt (<) F \<and>
     (\<forall>i\<in>set F. i < nr_pages s \<and> \<not> reserved (pages s (Pg i))) \<and>
     unat (nr_free_pages s) = length F"

definition alloc_set :: "'s kstate_scheme \<Rightarrow> nat list \<Rightarrow> bool" where
  "alloc_set s A \<longleftrightarrow>
     ring (plinks s) (map Pg A) \<and> sorted_wrt (<) A \<and>
     (\<forall>i\<in>set A. i < nr_pages s \<and> reserved (pages s (Pg i))) \<and>
     pg_type (pages s (Pg (hd A))) \<noteq> PGTYPE_TAIL \<and>
     unat (pg_count (pages s (Pg (hd A)))) = length A \<and>
     (\<forall>i\<in>set (tl A). pg_type (pages s (Pg i)) = PGTYPE_TAIL \<and>
        pg_first (pages s (Pg i)) = Some (Pg (hd A)))"

definition page_inv :: "'s kstate_scheme \<Rightarrow> nat list \<Rightarrow> nat list list \<Rightarrow> bool" where
  "page_inv s F As \<longleftrightarrow>
     nr_pages s < 2 ^ 32 \<and> free_list s F \<and> (\<forall>A\<in>set As. alloc_set s A) \<and> distinct (F @ concat As)"

lemma alloc_set_nonempty: "alloc_set s A \<Longrightarrow> A \<noteq> []"
  using ring_nonempty by (auto simp: alloc_set_def)

lemma alloc_set_hd: "alloc_set s A \<Longrightarrow> hd A \<in> set A"
  by (simp add: alloc_set_nonempty)

lemma alloc_set_cong:
  assumes "alloc_set s A" "same_links (Pg ` set A) (plinks s) (plinks s')"
    and "\<And>i. i \<in> set A \<Longrightarrow> pages s' (Pg i) = pages s (Pg i)" "nr_pages s' = nr_pages s"
  shows "alloc_set s' A"
proof -
  have "ring (plinks s') (map Pg A)"
    using ll.rep_same [of "map Pg A"] assms(1,2) by (simp add: alloc_set_def)
  moreover have "pages s' (Pg i) = pages s (Pg i)" if "i \<in> set (tl A)" for i
    using assms(3) alloc_set_nonempty [OF assms(1)] that by (simp add: list.set_sel(2))
  ultimately show ?thesis
    using assms alloc_set_hd [OF assms(1)] by (simp add: alloc_set_def)
qed

lemma free_list_distinct: "free_list s F \<Longrightarrow> distinct F"
  by (simp add: free_list_def sorted_wrt_less_distinct)

lemma free_list_bound: "free_list s F \<Longrightarrow> length F \<le> nr_pages s"
  using free_list_distinct [of s F] by (intro length_le_bound) (auto simp: free_list_def)

lemma alloc_set_bound: "alloc_set s A \<Longrightarrow> length A \<le> nr_pages s"
  by (intro length_le_bound) (auto simp: alloc_set_def sorted_wrt_less_distinct)

lemma page_inv_perm: "page_inv s F (As @ A # Bs) \<longleftrightarrow> page_inv s F (A # As @ Bs)"
  by (auto simp: page_inv_def)

text \<open>The states after the operations differ from the one before in these components only.\<close>

definition page_frame :: "'s kstate_scheme \<Rightarrow> 's kstate_scheme \<Rightarrow> bool" where
  "page_frame s s' \<longleftrightarrow> nr_pages s' = nr_pages s \<and> highmem_base_pfn s' = highmem_base_pfn s \<and>
     kstate.more s' = kstate.more s"

lemma first_free_page_hd: "free_list s F \<Longrightarrow> first_free_page s = hd (map Pg F @ [EndFree])"
  using ll.rep_nxt [of "plinks s" EndFree "map Pg F"] by (simp add: free_list_def first_free_page_def)

lemma take_pages_outside: "q \<notin> set xs \<Longrightarrow> take_pages f xs P q = P q"
  by (simp add: take_pages_def)

lemma hd_in_take: "0 < n \<Longrightarrow> F \<noteq> [] \<Longrightarrow> hd F \<in> set (take n F)"
  by (cases F; cases n) auto

lemma alloc_pages_loop_free:
  assumes "free_list s F" "n \<le> length F" "0 < n"
  shows "\<exists>L. alloc_pages_loop n (first_free_page s) None s =
      Inr (Some (Pg (hd F)),
           s\<lparr>pages := take_pages (Pg (hd F)) (map Pg (take n F)) (pages s), plinks := L,
             nr_free_pages := nr_free_pages s - of_nat n\<rparr>) \<and>
    ring L (EndFree # map Pg (drop n F)) \<and> ring L (map Pg (take n F)) \<and>
    same_links (- set (EndFree # map Pg F)) (plinks s) L"
proof -
  let ?xs = "map Pg (take n F)" and ?ys = "map Pg (drop n F)"
  have app: "?xs @ ?ys = map Pg F" by (metis append_take_drop_id map_append)
  have F: "F \<noteq> []" using assms by auto
  have ne: "?xs \<noteq> []" "hd ?xs = Pg (hd F)" using assms by (cases F; cases n; simp)+
  have "\<exists>L. alloc_pages_loop (length ?xs) (first_free_page s) None s =
      Inr (if [] @ ?xs = [] then None else Some (hd ([] @ ?xs)),
           s\<lparr>pages := take_pages (hd ([] @ ?xs)) ?xs (pages s), plinks := L,
             nr_free_pages := nr_free_pages s - of_nat (length ?xs)\<rparr>) \<and>
    ring L (EndFree # ?ys) \<and> ([] @ ?xs \<noteq> [] \<longrightarrow> ring L ([] @ ?xs)) \<and>
    same_links (- set (EndFree # [] @ ?xs @ ?ys)) (plinks s) L"
  proof (rule alloc_pages_loop_rings)
    show "ring (plinks s) (EndFree # ?xs @ ?ys)" using assms(1) app by (simp add: free_list_def)
    show "first_free_page s = hd (?xs @ ?ys @ [EndFree])"
      using first_free_page_hd [OF assms(1)] app by (metis append.assoc)
    show "page_ok s q \<and> \<not> reserved (pages s q)" if "q \<in> set ?xs" for q
      using that assms(1) by (auto simp: free_list_def dest: in_set_takeD)
  qed simp_all
  then show ?thesis using ne assms(2) app by (simp add: min_absorb2)
qed

text \<open>Whether \<^verbatim>\<open>alloc_pages\<close> allocates \<open>n\<close> pages, for \<open>n\<close> between 1 and the number of free pages.\<close>

lemma alloc_pages_inv:
  assumes "page_inv s F As" "0 < unat num" "unat num \<le> length F"
  shows "\<exists>s'. alloc_pages num s = Inr (Some (Pg (hd F)), s') \<and>
    page_inv s' (drop (unat num) F) (take (unat num) F # As) \<and> page_frame s s' \<and> mem s' = mem s \<and>
    pg_type (pages s' (Pg (hd F))) = PGTYPE_GENERIC \<and>
    (\<forall>q. q \<notin> Pg ` set (take (unat num) F) \<longrightarrow> pages s' q = pages s q)"
proof -
  let ?n = "unat num" and ?f = "Pg (hd F)"
  let ?xs = "map Pg (take ?n F)"
  have fl: "free_list s F" and np: "nr_pages s < 2 ^ 32" and dist: "distinct (F @ concat As)"
    and As: "\<And>A. A \<in> set As \<Longrightarrow> alloc_set s A" using assms(1) by (auto simp: page_inv_def)
  have F: "F \<noteq> []" using assms by auto
  have hdF: "hd F < nr_pages s" using fl F by (auto simp: free_list_def)
  obtain L where L: "alloc_pages_loop ?n (first_free_page s) None s =
      Inr (Some ?f, s\<lparr>pages := take_pages ?f ?xs (pages s), plinks := L,
             nr_free_pages := nr_free_pages s - of_nat ?n\<rparr>)"
    "ring L (EndFree # map Pg (drop ?n F))" "ring L ?xs"
    "same_links (- set (EndFree # map Pg F)) (plinks s) L"
    using alloc_pages_loop_free [OF fl assms(3,2)] by blast
  let ?P = "take_pages ?f ?xs (pages s)"
  let ?s = "s\<lparr>pages := ?P(?f := (?P ?f)\<lparr>pg_type := PGTYPE_GENERIC, pg_count := ucast num\<rparr>),
      plinks := L, nr_free_pages := nr_free_pages s - num\<rparr>"
  have nofree: "\<not> nr_free_pages s < num"
    using fl assms(3) by (simp add: free_list_def word_less_nat_alt)
  have res: "alloc_pages num s = Inr (Some ?f, ?s)"
    using L(1) nofree hdF by (simp add: alloc_pages_def)
  have hdt: "hd (take ?n F) = hd F" using assms(2) by (cases F) (auto simp: take_Cons')
  have hin: "hd F \<in> set (take ?n F)" using hd_in_take assms(2) F by blast
  have disj: "set (take ?n F) \<inter> set (drop ?n F) = {}"
    using free_list_distinct [OF fl] by (rule set_take_disj_set_drop_if_distinct) simp
  have out: "pages ?s q = pages s q" if "q \<notin> Pg ` set (take ?n F)" for q
    using that hin by (auto simp: take_pages_def)
  have srt: "sorted_wrt (<) F" using fl by (simp add: free_list_def)
  have "unat (nr_free_pages s - num) = length F - ?n"
    using nofree fl by (simp add: unat_sub free_list_def)
  moreover have "pages ?s (Pg i) = pages s (Pg i)" if "i \<in> set (drop ?n F)" for i
    using that disj by (intro out) auto
  moreover have "i \<in> set F" if "i \<in> set (drop ?n F)" for i using that by (rule in_set_dropD)
  ultimately have 1: "free_list ?s (drop ?n F)"
    using L(2) fl by (simp add: free_list_def sorted_wrt_drop)
  have "unat (ucast num :: u32) = ?n"
    using assms(3) free_list_bound [OF fl] np by (simp add: unat_ucast_u32)
  moreover have "i \<noteq> hd F" "i \<in> set (take ?n F)" if "i \<in> set (tl (take ?n F))" for i
  proof -
    have "distinct (take ?n F)" "take ?n F \<noteq> []" using free_list_distinct [OF fl] assms(2) F by auto
    then show "i \<noteq> hd F" "i \<in> set (take ?n F)" using that hdt
      by (metis distinct.simps(2) list.collapse, metis list.set_sel(2))
  qed
  ultimately have 2: "alloc_set ?s (take ?n F)"
    using L(3) fl srt hin assms(3) hdt
    by (auto simp: alloc_set_def free_list_def take_pages_def taken_def sorted_wrt_take
        dest: in_set_takeD)
  have 3: "alloc_set ?s A" if "A \<in> set As" for A
  proof (rule alloc_set_cong [OF As [OF that]])
    have d: "set A \<inter> set F = {}" using dist that by auto
    then show "same_links (Pg ` set A) (plinks s) (plinks ?s)"
      by (simp, intro same_links_subset [OF L(4)]) auto
    show "pages ?s (Pg i) = pages s (Pg i)" if "i \<in> set A" for i
    proof (rule out)
      have "i \<notin> set (take ?n F)" using d that in_set_takeD [of i ?n F] by auto
      then show "Pg i \<notin> Pg ` set (take ?n F)" by auto
    qed
  qed simp
  have "distinct (drop ?n F @ concat (take ?n F # As))"
    using dist disj set_drop_subset [of ?n F] set_take_subset [of ?n F] by auto
  then show ?thesis
    using res 1 2 3 np out by (intro exI [of _ ?s]) (auto simp: page_inv_def page_frame_def)
qed

text \<open>
  \<^verbatim>\<open>free_all_pages\<close>, called with any page of an allocated set, puts the whole set back into
  the free list in order, fills the pages with 0x01 and leaves the other sets alone.
\<close>

lemma alloc_set_first_page:
  assumes "alloc_set s A" "i \<in> set A"
  shows "first_page s (Pg i) = Inr (Some (Pg (hd A)))" "page_count s (Pg i) = Inr (of_nat (length A))"
proof -
  have ok: "page_ok s (Pg i)" "page_ok s (Pg (hd A))"
    using assms alloc_set_hd [OF assms(1)] by (auto simp: alloc_set_def)
  have "i = hd A \<or> i \<in> set (tl A)" using assms(2) by (cases A) auto
  then show 1: "first_page s (Pg i) = Inr (Some (Pg (hd A)))"
    using assms(1) ok by (auto simp: alloc_set_def)
  have "ucast (pg_count (pages s (Pg (hd A)))) = (of_nat (length A) :: u64)"
    using assms(1) unat_less_u32 [of "pg_count (pages s (Pg (hd A)))"]
    by (simp add: alloc_set_def word_unat_eq_iff unat_ucast_u64 unat_of_nat)
  then show "page_count s (Pg i) = Inr (of_nat (length A))"
    using 1 ok by (simp add: page_count_def)
qed

lemma free_all_pages_inv:
  assumes "page_inv s F (As @ A # Bs)" "i \<in> set A"
  shows "\<exists>s'. free_all_pages (Some (Pg i)) s = Inr s' \<and>
    page_inv s' (sorted_list_of_set (set (F @ A))) (As @ Bs) \<and> page_frame s s' \<and>
    mem s' = shred_mem (highmem_base_pfn s) A (mem s) \<and> pages s' = release_pages A (pages s)"
proof -
  have fl: "free_list s F" and np: "nr_pages s < 2 ^ 32" and A: "alloc_set s A"
    and dist: "distinct (F @ concat (As @ A # Bs))"
    and As: "\<And>A. A \<in> set (As @ Bs) \<Longrightarrow> alloc_set s A" using assms(1) by (auto simp: page_inv_def)
  have len: "length A \<le> nr_pages s" using alloc_set_bound [OF A] .
  then have un: "unat (of_nat (length A) :: u64) = length A"
    using np by (intro unat_of_nat_u64) simp
  have dAF: "set A \<inter> set F = {}" using dist by auto
  have "\<exists>L R. free_loop (length A) (Pg (hd A)) (hd (map Pg F @ [EndFree])) s =
      Inr (s\<lparr>pages := release_pages A (pages s), plinks := L,
             nr_free_pages := nr_free_pages s + of_nat (length A),
             mem := shred_mem (highmem_base_pfn s) A (mem s)\<rparr>) \<and>
    ring L (EndFree # map Pg R) \<and> sorted_wrt (<) R \<and> set R = set ([] @ F @ A) \<and>
    same_links (- set (EndFree # map Pg ([] @ F @ A))) (plinks s) L"
    by (rule free_loop_merges) (use fl A dAF in \<open>auto simp: free_list_def alloc_set_def\<close>)
  then obtain L R where L: "free_loop (length A) (Pg (hd A)) (hd (map Pg F @ [EndFree])) s =
      Inr (s\<lparr>pages := release_pages A (pages s), plinks := L,
             nr_free_pages := nr_free_pages s + of_nat (length A),
             mem := shred_mem (highmem_base_pfn s) A (mem s)\<rparr>)"
    "ring L (EndFree # map Pg R)" "sorted_wrt (<) R" "set R = set (F @ A)"
    "same_links (- (insert EndFree (Pg ` set (F @ A)))) (plinks s) L" by (simp add: image_Un) blast
  let ?s = "s\<lparr>pages := release_pages A (pages s), plinks := L,
             nr_free_pages := nr_free_pages s + of_nat (length A),
             mem := shred_mem (highmem_base_pfn s) A (mem s)\<rparr>"
  have R: "R = sorted_list_of_set (set (F @ A))"
    using L(3,4) by (metis strict_sorted_equal sorted_list_of_set.set_sorted_key_list_of_set
        List.finite_set strict_sorted_list_of_set)
  have res: "free_all_pages (Some (Pg i)) s = Inr ?s"
    using alloc_set_first_page [OF A assms(2)] L(1) un first_free_page_hd [OF fl]
    by (simp add: free_all_pages_def)
  have "length R = length F + length A"
    using sorted_wrt_less_distinct [OF L(3)] L(4) dist
    by (metis distinct_append distinct_card length_append concat_append concat.simps(2) append.assoc
        distinct_append dAF distinct_concat Int_commute)
  moreover have "unat (nr_free_pages s + of_nat (length A)) = length F + length A"
    using fl free_list_bound [OF fl] len np
    by (simp add: free_list_def unat_add_offset)
  ultimately have 1: "free_list ?s R"
    using L(2-4) fl A by (auto simp: free_list_def alloc_set_def release_pages_def)
  have 2: "alloc_set ?s B" if "B \<in> set (As @ Bs)" for B
  proof (rule alloc_set_cong [OF As [OF that]])
    have d: "set B \<inter> set (F @ A) = {}" using dist that by auto
    then show "same_links (Pg ` set B) (plinks s) (plinks ?s)"
      by (simp, intro same_links_subset [OF L(5)]) auto
    show "pages ?s (Pg j) = pages s (Pg j)" if "j \<in> set B" for j
      using d that by (auto simp: release_pages_def)
  qed simp
  have "distinct (R @ concat (As @ Bs))"
    using dist sorted_wrt_less_distinct [OF L(3)] L(4) by auto
  then have "page_inv ?s R (As @ Bs)" using 1 2 np by (auto simp: page_inv_def)
  then show ?thesis using res R by (intro exI [of _ ?s]) (simp add: page_frame_def)
qed

end
