(* ===== verification/Page_Alloc_Props.thy ===== *)
theory Page_Alloc_Props
  imports Page_Alloc_Lemmas
begin

text \<open>
  \<open>free_pages\<close> on a part of an allocated set, the set-up of the page array, the states reachable
  by allocator calls, the search of \<open>alloc_cont_pages\<close>, and the properties of the allocator.
\<close>

section \<open>Walking along an allocated set\<close>

lemma next_page_segment:
  assumes "ring (plinks s) (map Pg (us @ x # xs @ vs))"
  shows "next_page s (Pg x) = Pg (hd (xs @ vs @ us @ [x]))"
proof -
  have "ring (plinks s) (map Pg us @ Pg x # map Pg (xs @ vs))" using assms by simp
  from ll.nxt_middle [OF this] have "next_page s (Pg x) = hd (map Pg (xs @ vs @ us @ [x]))"
    by (simp add: next_page_def)
  then show ?thesis by (simp add: hd_map del: map_append)
qed

lemma head_length_segment:
  assumes "ring (plinks s) (map Pg (us @ H @ B))" "B \<noteq> []" "length H < fuel"
    and "\<forall>i\<in>set (us @ H @ B). i < nr_pages s \<and> reserved (pages s (Pg i))"
  shows "head_length fuel n (Pg (hd (H @ B))) (Pg (hd B)) s = Inr (n + length H)"
  using assms
proof (induction H arbitrary: us fuel n)
  case Nil
  then show ?case by (cases fuel) auto
next
  case (Cons h H)
  then obtain f where f: "fuel = Suc f" "length H < f" by (cases fuel) auto
  have "distinct (us @ h # H @ B)" using ring_distinct [OF Cons.prems(1)] by (auto simp: distinct_map)
  then have "h \<noteq> hd B" using Cons.prems(2) by (cases B) auto
  moreover have "next_page s (Pg h) = Pg (hd (H @ B))"
    using next_page_segment [of s us h H B] Cons.prems(1,2) by (simp add: hd_append)
  ultimately show ?case
    using Cons.IH [of "us @ [h]" f "Suc n"] Cons.prems f by simp
qed

lemma find_last_segment:
  assumes "ring (plinks s) (map Pg (us @ xs @ vs))"
    and "\<forall>i\<in>set xs. i < nr_pages s \<and> reserved (pages s (Pg i)) \<and> (i \<noteq> first \<or> i = base)"
    and "us @ xs @ vs \<noteq> []"
  shows "find_last (length xs) (Pg (hd (xs @ vs @ us))) (Pg base) (Pg first) s =
    Inr (Pg (hd (vs @ us @ xs)))"
  using assms
proof (induction xs arbitrary: us)
  case Nil
  then show ?case by simp
next
  case (Cons x xs)
  have "next_page s (Pg x) = Pg (hd (xs @ vs @ us @ [x]))"
    using next_page_segment Cons.prems(1) by simp
  then show ?case
    using Cons.IH [of "us @ [x]"] Cons.prems by (auto simp: hd_append)
qed

definition retag :: "page_ptr \<Rightarrow> u64 \<Rightarrow> nat list \<Rightarrow> (page_ptr \<Rightarrow> page) \<Rightarrow> page_ptr \<Rightarrow> page" where
  "retag from cnt xs P = (\<lambda>q. if q \<in> Pg ` set xs then
      (if pg_type (P q) = PGTYPE_TAIL then (P q)\<lparr>pg_first := Some from\<rparr>
       else (P q)\<lparr>pg_count := ucast cnt\<rparr>) else P q)"

lemma retag_Nil [simp]: "retag from cnt [] P = P"
  by (simp add: retag_def)

lemma retag_Cons:
  "x \<notin> set xs \<Longrightarrow> retag from cnt xs (P(Pg x := (if pg_type (P (Pg x)) = PGTYPE_TAIL
      then (P (Pg x))\<lparr>pg_first := Some from\<rparr> else (P (Pg x))\<lparr>pg_count := ucast cnt\<rparr>))) =
   retag from cnt (x # xs) P"
  by (auto simp: retag_def)

lemma update_page_list_segment:
  assumes "ring (plinks s) (map Pg (us @ xs @ vs))" "vs @ us \<noteq> []" "length xs < fuel"
    and "\<forall>i\<in>set xs. i < nr_pages s" "hd (vs @ us) \<notin> set xs"
  shows "update_page_list fuel (Pg (hd (xs @ vs @ us))) from (Pg (hd (vs @ us))) cnt s =
    Inr (s\<lparr>pages := retag from cnt xs (pages s)\<rparr>)"
proof -
  have main: "update_page_list fuel (Pg (hd (xs @ to # ys))) from (Pg to) cnt s =
      Inr (s\<lparr>pages := retag from cnt xs (pages s)\<rparr>)"
    if "ring (plinks s) (map Pg (us @ xs @ vs))" "vs @ us = to # ys" "length xs < fuel"
      "\<forall>i\<in>set xs. i < nr_pages s" "to \<notin> set xs" for to ys us xs fuel s
    using that
  proof (induction xs arbitrary: us ys fuel s)
    case Nil
    then show ?case by (cases fuel) auto
  next
    case (Cons x xs)
    then obtain f where f: "fuel = Suc f" "length xs < f" by (cases fuel) auto
    let ?P = "(pages s)(Pg x := (if pg_type (pages s (Pg x)) = PGTYPE_TAIL
      then (pages s (Pg x))\<lparr>pg_first := Some from\<rparr> else (pages s (Pg x))\<lparr>pg_count := ucast cnt\<rparr>))"
    have "hd (vs @ us @ [x]) = to" using Cons.prems(2) by (metis append.assoc append_Cons list.sel(1))
    then have np: "next_page (s\<lparr>pages := ?P\<rparr>) (Pg x) = Pg (hd (xs @ to # ys))"
      using next_page_segment [of s us x xs vs] Cons.prems(1)
      by (cases xs) (simp_all add: next_page_def)
    have d: "x \<notin> set xs" using ring_distinct [OF Cons.prems(1)] by (auto simp: distinct_map)
    have "update_page_list fuel (Pg (hd ((x # xs) @ to # ys))) from (Pg to) cnt s =
        update_page_list f (next_page (s\<lparr>pages := ?P\<rparr>) (Pg x)) from (Pg to) cnt (s\<lparr>pages := ?P\<rparr>)"
      using Cons.prems f by simp
    also have "\<dots> = update_page_list f (Pg (hd (xs @ to # ys @ [x]))) from (Pg to) cnt (s\<lparr>pages := ?P\<rparr>)"
      unfolding np by (cases xs) simp_all
    also have "\<dots> = Inr (s\<lparr>pages := ?P\<rparr>\<lparr>pages := retag from cnt xs (pages (s\<lparr>pages := ?P\<rparr>))\<rparr>)"
      by (rule Cons.IH [of _ "us @ [x]"]) (use Cons.prems f in simp_all)
    also have "\<dots> = Inr (s\<lparr>pages := retag from cnt (x # xs) (pages s)\<rparr>)"
      using retag_Cons [OF d] by (simp cong: if_cong)
    finally show ?case .
  qed
  obtain to ys where "vs @ us = to # ys" using assms(2) by (cases "vs @ us") auto
  then show ?thesis using main [OF assms(1) _ assms(3,4), of to ys] assms(5) by simp
qed

section \<open>free\_pages\<close>

text \<open>The two calls of \<^verbatim>\<open>page_split\<close> cut the ring \<open>H @ B @ T\<close> into its three parts.\<close>

definition split_parts :: "page_ptr \<Rightarrow> page_ptr \<Rightarrow> page_ptr \<Rightarrow> 's kstate_scheme \<Rightarrow> 's kstate_scheme result" where
  "split_parts first base last_p s =
     rbind (if last_p \<noteq> first then page_split first (prev_page s last_p) last_p s else Inr s) (\<lambda>s.
     if base \<noteq> first then page_split first (prev_page s base) base s else Inr s)"

lemma page_split_ring:
  assumes "ring (plinks s) (map Pg (xs @ ys))" "xs \<noteq> []" "ys \<noteq> []"
  shows "\<exists>L. page_split (Pg (hd xs)) (prev_page s (Pg (hd ys))) (Pg (hd ys)) s = Inr (s\<lparr>plinks := L\<rparr>) \<and>
    ring L (map Pg xs) \<and> ring L (map Pg ys) \<and>
    (\<forall>A. A \<inter> Pg ` set (xs @ ys) = {} \<longrightarrow> same_links A (plinks s) L)"
proof -
  have r: "ring (plinks s) (map Pg xs @ map Pg ys)" using assms by simp
  obtain L where L: "list_split (hd (map Pg xs)) (last (map Pg xs)) (hd (map Pg ys)) (plinks s) = Inr L"
    "ring L (map Pg xs)" "ring L (map Pg ys)"
    "\<forall>A. A \<inter> set (map Pg xs @ map Pg ys) = {} \<longrightarrow> same_links A (plinks s) L"
    using list_split_ring [OF r] assms(2,3) by auto
  have "prev_page s (Pg (hd ys)) = last (map Pg xs)"
    using ll.prv_middle [of "plinks s" "map Pg xs" "hd (map Pg ys)" "tl (map Pg ys)"] r assms(2,3)
    by (cases ys) (simp_all add: prev_page_def last_append)
  then have "page_split (Pg (hd xs)) (prev_page s (Pg (hd ys))) (Pg (hd ys)) s = Inr (s\<lparr>plinks := L\<rparr>)"
    using L(1) assms(2,3) by (simp add: page_split_def hd_map)
  then show ?thesis using L(2-4) by (auto simp: image_Un)
qed

lemma split_parts_rings:
  assumes "ring (plinks s) (map Pg (H @ B @ T))" "B \<noteq> []"
  shows "\<exists>L. split_parts (Pg (hd (H @ B))) (Pg (hd B)) (Pg (hd (T @ H @ B))) s = Inr (s\<lparr>plinks := L\<rparr>) \<and>
    (H \<noteq> [] \<longrightarrow> ring L (map Pg H)) \<and> ring L (map Pg B) \<and> (T \<noteq> [] \<longrightarrow> ring L (map Pg T)) \<and>
    (\<forall>A. A \<inter> Pg ` set (H @ B @ T) = {} \<longrightarrow> same_links A (plinks s) L)"
proof -
  have dist: "distinct (H @ B @ T)" using ring_distinct [OF assms(1)] by (auto simp: distinct_map)
  have "\<exists>L. (if Pg (hd (T @ H @ B)) \<noteq> Pg (hd (H @ B))
        then page_split (Pg (hd (H @ B))) (prev_page s (Pg (hd (T @ H @ B)))) (Pg (hd (T @ H @ B))) s
        else Inr s) = Inr (s\<lparr>plinks := L\<rparr>) \<and>
      ring L (map Pg (H @ B)) \<and> (T \<noteq> [] \<longrightarrow> ring L (map Pg T)) \<and>
      (\<forall>A. A \<inter> Pg ` set (H @ B @ T) = {} \<longrightarrow> same_links A (plinks s) L)"
  proof (cases "T = []")
    case True
    then show ?thesis using assms by (intro exI [of _ "plinks s"]) auto
  next
    case False
    moreover have "hd T \<in> set T" "hd (H @ B) \<in> set (H @ B)"
      using False assms(2) by (auto intro!: hd_in_set simp del: set_append)
    then have "hd T \<noteq> hd (H @ B)" using dist by auto
    ultimately show ?thesis
      using page_split_ring [of s "H @ B" T] assms by simp
  qed
  then obtain L1 where L1: "(if Pg (hd (T @ H @ B)) \<noteq> Pg (hd (H @ B))
        then page_split (Pg (hd (H @ B))) (prev_page s (Pg (hd (T @ H @ B)))) (Pg (hd (T @ H @ B))) s
        else Inr s) = Inr (s\<lparr>plinks := L1\<rparr>)"
      "ring L1 (map Pg (H @ B))" "T \<noteq> [] \<longrightarrow> ring L1 (map Pg T)"
      "\<And>A. A \<inter> Pg ` set (H @ B @ T) = {} \<Longrightarrow> same_links A (plinks s) L1" by blast
  let ?s = "s\<lparr>plinks := L1\<rparr>"
  show ?thesis
  proof (cases "H = []")
    case True
    then have "split_parts (Pg (hd (H @ B))) (Pg (hd B)) (Pg (hd (T @ H @ B))) s = Inr (s\<lparr>plinks := L1\<rparr>)"
      unfolding split_parts_def L1(1) by simp
    then show ?thesis using True L1(2-4) by (intro exI [of _ L1]) auto
  next
    case False
    have "hd B \<in> set B" "hd H \<in> set H" using False assms(2) by auto
    then have "hd B \<noteq> hd H" using dist by auto
    obtain L where L: "page_split (Pg (hd H)) (prev_page ?s (Pg (hd B))) (Pg (hd B)) ?s = Inr (?s\<lparr>plinks := L\<rparr>)"
      "ring L (map Pg H)" "ring L (map Pg B)"
      "\<And>A. A \<inter> Pg ` set (H @ B) = {} \<Longrightarrow> same_links A L1 L"
      using page_split_ring [of ?s H B] L1(2) False assms(2) by auto
    have "split_parts (Pg (hd (H @ B))) (Pg (hd B)) (Pg (hd (T @ H @ B))) s = Inr (s\<lparr>plinks := L\<rparr>)"
      unfolding split_parts_def L1(1) using L(1) False \<open>hd B \<noteq> hd H\<close> by simp
    moreover have "ring L (map Pg T)" if "T \<noteq> []"
    proof (rule ll.rep_same [OF L(4)])
      show "set (map Pg T) \<inter> Pg ` set (H @ B) = {}" using dist by auto
    qed (use L1(3) that in simp)
    moreover have "same_links A (plinks s) L" if "A \<inter> Pg ` set (H @ B @ T) = {}" for A
      using that by (intro same_links_trans [OF L1(4) L(4)]) auto
    ultimately show ?thesis using L(2,3) by blast
  qed
qed

definition set_tags :: "(page_ptr \<Rightarrow> page) \<Rightarrow> nat list \<Rightarrow> bool" where
  "set_tags P A \<longleftrightarrow> pg_type (P (Pg (hd A))) \<noteq> PGTYPE_TAIL \<and> unat (pg_count (P (Pg (hd A)))) = length A \<and>
     (\<forall>i\<in>set (tl A). pg_type (P (Pg i)) = PGTYPE_TAIL \<and> pg_first (P (Pg i)) = Some (Pg (hd A)))"

lemma alloc_set_tags:
  "alloc_set s A \<longleftrightarrow> ring (plinks s) (map Pg A) \<and> sorted_wrt (<) A \<and>
     (\<forall>i\<in>set A. i < nr_pages s \<and> reserved (pages s (Pg i))) \<and> set_tags (pages s) A"
  by (auto simp: alloc_set_def set_tags_def)

lemma reserved_retag [simp]: "reserved (retag from cnt xs P q) = reserved (P q)"
  by (simp add: retag_def)

lemma retag_outside [simp]: "i \<notin> set xs \<Longrightarrow> retag from cnt xs P (Pg i) = P (Pg i)"
  by (auto simp: retag_def)

lemma set_tags_cong: "(\<And>i. i \<in> set C \<Longrightarrow> P (Pg i) = Q (Pg i)) \<Longrightarrow> C \<noteq> [] \<Longrightarrow> set_tags P C = set_tags Q C"
  by (simp add: set_tags_def list.set_sel(2))

lemma retag_set_tags:
  assumes "distinct C" "C \<noteq> []" "pg_type (P (Pg (hd C))) \<noteq> PGTYPE_TAIL"
    and "\<forall>i\<in>set (tl C). pg_type (P (Pg i)) = PGTYPE_TAIL" "unat (ucast cnt :: u32) = length C"
  shows "set_tags (retag (Pg (hd C)) cnt C P) C"
  using assms by (cases C) (auto simp: set_tags_def retag_def)

text \<open>The page structures after the updates of \<^verbatim>\<open>free_pages\<close>, on the parts \<open>H\<close>, \<open>B\<close> and \<open>T\<close>.\<close>

definition part_pages :: "nat list \<Rightarrow> nat list \<Rightarrow> nat list \<Rightarrow> (page_ptr \<Rightarrow> page) \<Rightarrow> page_ptr \<Rightarrow> page" where
  "part_pages H B T P =
     (let t = pg_type (P (Pg (hd (H @ B)))); l = Pg (hd (T @ H @ B));
          P = P(Pg (hd B) := (P (Pg (hd B)))\<lparr>pg_type := t\<rparr>);
          P = P(l := (P l)\<lparr>pg_type := t\<rparr>);
          P = retag (Pg (hd (H @ B))) (of_nat (length H)) H P;
          P = (if H @ T = [] then P else retag (Pg (hd B)) (of_nat (length B)) B P)
      in retag l (of_nat (length T)) T P)"

lemma part_pages_outside: "B \<noteq> [] \<Longrightarrow> i \<notin> set (H @ B @ T) \<Longrightarrow> part_pages H B T P (Pg i) = P (Pg i)"
  by (cases B; cases H; cases T) (auto simp: part_pages_def Let_def)

lemma part_pages_reserved [simp]: "reserved (part_pages H B T P q) = reserved (P q)"
  by (simp add: part_pages_def Let_def)

lemma part_pages_tags:
  assumes "distinct (H @ B @ T)" "B \<noteq> []" "set_tags P (H @ B @ T)" "length (H @ B @ T) < 2 ^ 32"
  shows "H \<noteq> [] \<Longrightarrow> set_tags (part_pages H B T P) H" "set_tags (part_pages H B T P) B"
    "T \<noteq> [] \<Longrightarrow> set_tags (part_pages H B T P) T"
proof -
  let ?t = "pg_type (P (Pg (hd (H @ B))))" and ?l = "Pg (hd (T @ H @ B))"
  define P1 where "P1 = P(Pg (hd B) := (P (Pg (hd B)))\<lparr>pg_type := ?t\<rparr>)"
  define P2 where "P2 = P1(?l := (P1 ?l)\<lparr>pg_type := ?t\<rparr>)"
  define P3 where "P3 = retag (Pg (hd (H @ B))) (of_nat (length H)) H P2"
  define P4 where "P4 = (if H @ T = [] then P3 else retag (Pg (hd B)) (of_nat (length B)) B P3)"
  have eq: "part_pages H B T P = retag ?l (of_nat (length T)) T P4"
    by (simp add: part_pages_def Let_def P1_def P2_def P3_def P4_def)
  have A: "hd (H @ B @ T) = hd (H @ B)" using assms(2) by (cases H) auto
  have t: "?t \<noteq> PGTYPE_TAIL" using assms(3) A by (simp add: set_tags_def)
  have hds: "pg_type (P2 (Pg (hd C))) \<noteq> PGTYPE_TAIL" if "C \<in> {H, B, T}" "C \<noteq> []" for C
    using that t assms(2) by (auto simp: P2_def P1_def)
  have tls: "pg_type (P2 (Pg i)) = PGTYPE_TAIL" if "C \<in> {H, B, T}" "i \<in> set (tl C)" for C i
  proof -
    have "i \<noteq> hd B" "Pg i \<noteq> ?l" "i \<in> set (tl (H @ B @ T))"
      using that assms(1,2) by (cases H; cases B; cases T; fastforce)+
    then show ?thesis using assms(3) by (simp add: P2_def P1_def set_tags_def)
  qed
  have cnt: "unat (ucast (of_nat (length C) :: u64) :: u32) = length C" if "C \<in> {H, B, T}" for C
    using that assms(4) by (auto simp: unat_ucast_u32 unat_of_nat_u64)
  have d: "distinct H" "distinct B" "distinct T" "set H \<inter> set B = {}" "set T \<inter> set (H @ B) = {}"
    using assms(1) by auto
  show "set_tags (part_pages H B T P) H" if "H \<noteq> []"
  proof -
    have "set_tags (retag (Pg (hd H)) (of_nat (length H)) H P2) H"
      by (rule retag_set_tags) (use d(1) that hds [of H] cnt [of H] tls [of H] in simp_all)
    then have "set_tags P3 H" using that by (simp add: P3_def)
    moreover have "P4 (Pg i) = P3 (Pg i)" "retag ?l (of_nat (length T)) T P4 (Pg i) = P4 (Pg i)"
      if "i \<in> set H" for i
    proof -
      have "i \<notin> set B" "i \<notin> set T" using that d(4,5) by auto
      then show "P4 (Pg i) = P3 (Pg i)" "retag ?l (of_nat (length T)) T P4 (Pg i) = P4 (Pg i)"
        by (simp_all add: P4_def)
    qed
    ultimately show ?thesis using that by (simp add: eq cong: set_tags_cong)
  qed
  show "set_tags (part_pages H B T P) T" if "T \<noteq> []"
  proof -
    have "P4 (Pg i) = P2 (Pg i)" if "i \<in> set T" for i using that d(5) by (simp add: P4_def P3_def disjoint_iff)
    moreover have "hd T \<in> set T" "\<And>i. i \<in> set (tl T) \<Longrightarrow> i \<in> set T" using that by (auto simp: list.set_sel(2))
    ultimately have "set_tags (retag (Pg (hd T)) (of_nat (length T)) T P4) T"
      by (intro retag_set_tags) (use d(3) that hds [of T] cnt [of T] tls [of T] in simp_all)
    then show ?thesis using that by (simp add: eq)
  qed
  show "set_tags (part_pages H B T P) B"
  proof (cases "H @ T = []")
    case True
    then have "P4 = P2" "P2 (Pg i) = P (Pg i)" for i
      by (auto simp: P4_def P3_def P2_def P1_def)
    moreover have "part_pages H B T P = P4" using eq True by simp
    ultimately show ?thesis using assms(2,3) True by (simp add: set_tags_def)
  next
    case False
    have "P3 (Pg i) = P2 (Pg i)" if "i \<in> set B" for i using that d(4) by (auto simp: P3_def disjoint_iff intro!: retag_outside)
    moreover have "hd B \<in> set B" "\<And>i. i \<in> set (tl B) \<Longrightarrow> i \<in> set B" using assms(2) by (auto simp: list.set_sel(2))
    ultimately have "set_tags (retag (Pg (hd B)) (of_nat (length B)) B P3) B"
      by (intro retag_set_tags) (use d(2) assms(2) hds [of B] cnt [of B] tls [of B] in simp_all)
    then have "set_tags P4 B" using False by (auto simp: P4_def)
    moreover have "retag ?l (of_nat (length T)) T P4 (Pg i) = P4 (Pg i)" if "i \<in> set B" for i
      using that d(5) by (auto intro!: retag_outside)
    ultimately show ?thesis using assms(2) by (simp add: eq cong: set_tags_cong)
  qed
qed

definition parts :: "nat list \<Rightarrow> nat list list" where
  "parts C = (if C = [] then [] else [C])"

lemma concat_parts [simp]: "concat (parts C) = C"
  by (simp add: parts_def)

lemma set_parts [simp]: "set (parts C) = (if C = [] then {} else {C})"
  by (simp add: parts_def)

lemma rbind_split_parts:
  "rbind (if l \<noteq> f then page_split f (prev_page s l) l s else Inr s) (\<lambda>s.
   rbind (if b \<noteq> f then page_split f (prev_page s b) b s else Inr s) k) = rbind (split_parts f b l s) k"
  unfolding split_parts_def
  by (cases "if l \<noteq> f then page_split f (prev_page s l) l s else Inr s") simp_all

lemma update_tags:
  assumes "ring (plinks s) (map Pg (H @ B @ T))" "B \<noteq> []" "\<forall>i\<in>set (H @ B @ T). i < nr_pages s"
    and "of_nat (length B) = num" "tot = of_nat (length (H @ B @ T))"
  shows "rbind (write_page (Pg (hd B)) (\<lambda>b. b\<lparr>pg_type := pg_type (pages s (Pg (hd (H @ B))))\<rparr>) s) (\<lambda>s'.
    rbind (write_page (Pg (hd (T @ H @ B))) (\<lambda>b. b\<lparr>pg_type := pg_type (pages s (Pg (hd (H @ B))))\<rparr>) s') (\<lambda>s.
    rbind (update_page_list (walk_fuel s) (Pg (hd (H @ B))) (Pg (hd (H @ B))) (Pg (hd B)) (of_nat (length H)) s) (\<lambda>s.
    rbind (update_page_list (walk_fuel s) (Pg (hd B)) (Pg (hd B)) (Pg (hd (T @ H @ B))) num s) (\<lambda>s.
    rbind (update_page_list (walk_fuel s) (Pg (hd (T @ H @ B))) (Pg (hd (T @ H @ B))) (Pg (hd (H @ B)))
      (tot - of_nat (length H) - num) s) k)))) = k (s\<lparr>pages := part_pages H B T (pages s)\<rparr>)"
proof -
  let ?t = "pg_type (pages s (Pg (hd (H @ B))))" and ?l = "Pg (hd (T @ H @ B))"
  define P1 where "P1 = (pages s)(Pg (hd B) := (pages s (Pg (hd B)))\<lparr>pg_type := ?t\<rparr>)"
  define P2 where "P2 = P1(?l := (P1 ?l)\<lparr>pg_type := ?t\<rparr>)"
  define P3 where "P3 = retag (Pg (hd (H @ B))) (of_nat (length H)) H P2"
  define P4 where "P4 = (if H @ T = [] then P3 else retag (Pg (hd B)) (of_nat (length B)) B P3)"
  have eq: "part_pages H B T (pages s) = retag ?l (of_nat (length T)) T P4"
    by (simp add: part_pages_def Let_def P1_def P2_def P3_def P4_def)
  have dist: "distinct (H @ B @ T)" using ring_distinct [OF assms(1)] by (auto simp: distinct_map)
  then have "length (H @ B @ T) \<le> nr_pages s" using length_le_bound assms(3) by blast
  then have fuel: "length C < walk_fuel (s\<lparr>pages := P\<rparr>)" if "C \<in> {H, B, T}" for C P
    using that by (auto simp: walk_fuel_def)
  have hds: "hd B \<in> set B" "hd (T @ H @ B) \<in> set (H @ B @ T)"
    using assms(2) by (cases T; cases H; auto)+
  have w1: "write_page (Pg (hd B)) (\<lambda>b. b\<lparr>pg_type := ?t\<rparr>) s = Inr (s\<lparr>pages := P1\<rparr>)"
    using hds assms(3) by (simp add: P1_def)
  have w2: "write_page ?l (\<lambda>b. b\<lparr>pg_type := ?t\<rparr>) (s\<lparr>pages := P1\<rparr>) = Inr (s\<lparr>pages := P2\<rparr>)"
    using hds(2) assms(3) by (simp add: P2_def del: set_append)
  have "hd B \<notin> set H" using hds(1) dist by auto
  then have u1: "update_page_list (walk_fuel (s\<lparr>pages := P2\<rparr>)) (Pg (hd (H @ B))) (Pg (hd (H @ B))) (Pg (hd B))
      (of_nat (length H)) (s\<lparr>pages := P2\<rparr>) = Inr (s\<lparr>pages := P3\<rparr>)"
    using update_page_list_segment [of "s\<lparr>pages := P2\<rparr>" "[]" H "B @ T"] assms(1-3) fuel [of H]
    by (cases "H = []") (auto simp: P3_def)
  have u2: "update_page_list (walk_fuel (s\<lparr>pages := P3\<rparr>)) (Pg (hd B)) (Pg (hd B)) ?l num (s\<lparr>pages := P3\<rparr>) =
      Inr (s\<lparr>pages := P4\<rparr>)"
  proof (cases "H @ T = []")
    case True
    then show ?thesis using assms(2) by (simp add: P4_def walk_fuel_def)
  next
    case False
    then have "hd (T @ H) \<notin> set B" "hd (T @ H @ B) = hd (T @ H)"
      using dist by (cases T; cases H; auto)+
    then show ?thesis
      using update_page_list_segment [of "s\<lparr>pages := P3\<rparr>" H B T] assms(1-4) fuel [of B] False
      by (auto simp: hd_append P4_def)
  qed
  have n3: "tot - of_nat (length H) - num = of_nat (length T)" using assms(4,5) by auto
  have "hd (H @ B) \<notin> set T" "hd (H @ B @ T) = hd (H @ B)" using dist assms(2) by (cases H; cases B; auto)+
  then have u3: "update_page_list (walk_fuel (s\<lparr>pages := P4\<rparr>)) ?l ?l (Pg (hd (H @ B)))
      (tot - of_nat (length H) - num) (s\<lparr>pages := P4\<rparr>) = Inr (s\<lparr>pages := part_pages H B T (pages s)\<rparr>)"
    using update_page_list_segment [of "s\<lparr>pages := P4\<rparr>" "H @ B" T "[]"] assms(1-3) fuel [of T]
    by (auto simp: n3 eq)
  show ?thesis by (simp only: w1 w2 u1 u2 u3 rbind_Inr)
qed

text \<open>
  \<^verbatim>\<open>free_pages\<close> on \<open>length B\<close> pages from the page \<open>hd B\<close> of the set \<open>H @ B @ T\<close> frees the
  pages of \<open>B\<close>; what is before and after them become allocated sets of their own.
\<close>

lemma split_set_inv:
  assumes "page_inv s F (As @ (H @ B @ T) # Bs)" "B \<noteq> []"
    and "split_parts (Pg (hd (H @ B))) (Pg (hd B)) (Pg (hd (T @ H @ B)))
      (s\<lparr>pages := part_pages H B T (pages s)\<rparr>) = Inr (s\<lparr>pages := part_pages H B T (pages s), plinks := L\<rparr>)"
    and "H \<noteq> [] \<Longrightarrow> ring L (map Pg H)" "ring L (map Pg B)" "T \<noteq> [] \<Longrightarrow> ring L (map Pg T)"
    and same: "\<And>A. A \<inter> Pg ` set (H @ B @ T) = {} \<Longrightarrow> same_links A (plinks s) L"
  shows "page_inv (s\<lparr>pages := part_pages H B T (pages s), plinks := L\<rparr>) F
    ((As @ parts H) @ B # (parts T @ Bs))"
proof -
  let ?A = "H @ B @ T" and ?s = "s\<lparr>pages := part_pages H B T (pages s), plinks := L\<rparr>"
  have A: "alloc_set s ?A" and fl: "free_list s F" and np: "nr_pages s < 2 ^ 32"
    and dist: "distinct (F @ concat (As @ ?A # Bs))"
    and As: "\<And>C. C \<in> set (As @ Bs) \<Longrightarrow> alloc_set s C" using assms(1) by (auto simp: page_inv_def)
  have dA: "distinct ?A" using dist by auto
  have out: "pages ?s (Pg i) = pages s (Pg i)" if "i \<notin> set ?A" for i
    using part_pages_outside [OF assms(2) that] by simp
  have "length ?A < 2 ^ 32" using alloc_set_bound [OF A] np by simp
  note tags = part_pages_tags [OF dA assms(2) _ this, of "pages s"]
  have sub: "sorted_wrt (<) H" "sorted_wrt (<) B" "sorted_wrt (<) T"
    and tA: "set_tags (pages s) ?A" using A by (auto simp: alloc_set_tags sorted_wrt_append)
  have parts: "alloc_set ?s C" if "C \<in> {H, B, T}" "C \<noteq> []" for C
    using that assms(4-6) tags [OF tA] sub A by (auto simp: alloc_set_tags)
  have others: "alloc_set ?s C" if "C \<in> set (As @ Bs)" for C
  proof (rule alloc_set_cong [OF As [OF that]])
    have d: "set C \<inter> set ?A = {}" using dist that by auto
    then show "same_links (Pg ` set C) (plinks s) (plinks ?s)" by (auto intro!: same)
    show "pages ?s (Pg i) = pages s (Pg i)" if "i \<in> set C" for i
      using d that by (intro out) auto
  qed simp
  have dF: "set F \<inter> set ?A = {}" using dist by auto
  have "same_links (set (EndFree # map Pg F)) (plinks s) L" using dF by (intro same) auto
  then have "ring L (EndFree # map Pg F)" by (rule ll.rep_same) (use fl in \<open>simp add: free_list_def\<close>)
  moreover have "\<not> reserved (pages ?s (Pg i))" if "i \<in> set F" for i
    using that fl by (simp add: free_list_def)
  ultimately have "free_list ?s F" using fl by (simp add: free_list_def)
  moreover have "distinct (F @ concat ((As @ parts H) @ B # (parts T @ Bs)))" using dist by auto
  ultimately show ?thesis using np parts [of H] parts [of B] parts [of T] others assms(2)
    by (auto simp: page_inv_def split: if_splits)
qed

lemma free_pages_inv_frame:
  assumes "page_inv s F (As @ (H @ B @ T) # Bs)" "B \<noteq> []" "unat num = length B"
  shows "\<exists>s'. free_pages (Some (Pg (hd B))) num s = Inr (Some (Pg (hd (T @ H @ B))), s') \<and>
    page_inv s' (sorted_list_of_set (set (F @ B))) (As @ parts H @ parts T @ Bs) \<and> page_frame s s' \<and>
    mem s' = shred_mem (highmem_base_pfn s) B (mem s) \<and>
    (\<forall>i. i \<notin> set (H @ B @ T) \<longrightarrow> pages s' (Pg i) = pages s (Pg i))"
proof -
  let ?A = "H @ B @ T"
  have A: "alloc_set s ?A" and np: "nr_pages s < 2 ^ 32" using assms(1) by (auto simp: page_inv_def)
  have ringA: "ring (plinks s) (map Pg ?A)"
    and ok: "\<forall>i\<in>set ?A. i < nr_pages s \<and> reserved (pages s (Pg i))" using A by (auto simp: alloc_set_def)
  have dist: "distinct ?A" using ring_distinct [OF ringA] by (auto simp: distinct_map)
  have hdA: "hd ?A = hd (H @ B)" using assms(2) by (cases H) auto
  have "hd B \<in> set ?A" using assms(2) by auto
  define tot :: u64 where "tot = of_nat (length ?A)"
  note fp = alloc_set_first_page [OF A \<open>hd B \<in> set ?A\<close>, folded tot_def, unfolded hdA]
    alloc_set_first_page [OF A alloc_set_hd [OF A], folded tot_def, unfolded hdA]
  have okn: "\<forall>i\<in>set ?A. i < nr_pages s" using ok by blast
  have okA: "page_ok s (Pg (hd (H @ B)))"
    using ok alloc_set_hd [OF A] unfolding hdA by simp
  have hl: "head_length (walk_fuel s) 0 (Pg (hd (H @ B))) (Pg (hd B)) s = Inr (length H)"
    using head_length_segment [of s "[]" H "B @ T" "walk_fuel s" 0] ringA ok assms(2)
      alloc_set_bound [OF A] hdA by (simp add: walk_fuel_def)
  have "i \<noteq> hd (H @ B) \<or> i = hd B" if "i \<in> set B" for i
    using that dist by (cases H) auto
  then have fl: "find_last (unat num) (Pg (hd B)) (Pg (hd B)) (Pg (hd (H @ B))) s = Inr (Pg (hd (T @ H @ B)))"
    using find_last_segment [of s H B T "hd (H @ B)" "hd B"] ringA ok assms(2,3) by auto
  have num: "of_nat (length B) = num" "num \<noteq> 0" using assms(2,3)
    by (metis of_nat_unat ucast_id, metis length_0_conv unat_0)
  let ?s1 = "s\<lparr>pages := part_pages H B T (pages s)\<rparr>"
  obtain L where L: "split_parts (Pg (hd (H @ B))) (Pg (hd B)) (Pg (hd (T @ H @ B))) ?s1 =
      Inr (s\<lparr>pages := part_pages H B T (pages s), plinks := L\<rparr>)"
    "H \<noteq> [] \<longrightarrow> ring L (map Pg H)" "ring L (map Pg B)" "T \<noteq> [] \<longrightarrow> ring L (map Pg T)"
    "\<And>A. A \<inter> Pg ` set ?A = {} \<Longrightarrow> same_links A (plinks s) L"
    using split_parts_rings [of ?s1 H B T] ringA assms(2) by auto
  let ?s2 = "s\<lparr>pages := part_pages H B T (pages s), plinks := L\<rparr>"
  have "page_inv ?s2 F ((As @ parts H) @ B # (parts T @ Bs))"
    using split_set_inv [OF assms(1,2) L(1)] L(2-5) by blast
  from free_all_pages_inv [OF this, of "hd B"] obtain s' where s': "free_all_pages (Some (Pg (hd B))) ?s2 = Inr s'"
    "page_inv s' (sorted_list_of_set (set (F @ B))) ((As @ parts H) @ (parts T @ Bs))"
    "page_frame ?s2 s'" "mem s' = shred_mem (highmem_base_pfn ?s2) B (mem ?s2)"
    "pages s' = release_pages B (pages ?s2)"
    using assms(2) by auto
  have "free_pages (Some (Pg (hd B))) num s = Inr (Some (Pg (hd (T @ H @ B))), s')"
    using num(2) okA
    by (simp add: free_pages_def rbind_split_parts update_tags [OF ringA assms(2) okn num(1) tot_def]
        fp hl fl L(1) s'(1) del: page_access(2) page_access(7))
  moreover have "pages s' (Pg i) = pages s (Pg i)" if "i \<notin> set ?A" for i
    using that s'(5) part_pages_outside [OF assms(2) that] by (auto simp: release_pages_def)
  ultimately show ?thesis using s' by (auto simp: page_frame_def)
qed

lemma free_pages_inv:
  assumes "page_inv s F (As @ (H @ B @ T) # Bs)" "B \<noteq> []" "unat num = length B"
  shows "\<exists>s'. free_pages (Some (Pg (hd B))) num s = Inr (Some (Pg (hd (T @ H @ B))), s') \<and>
    page_inv s' (sorted_list_of_set (set (F @ B))) (As @ parts H @ parts T @ Bs) \<and> page_frame s s' \<and>
    mem s' = shred_mem (highmem_base_pfn s) B (mem s)"
  using free_pages_inv_frame [OF assms] by blast

section \<open>Setting up\<close>

lemma init_nodes_loop_rings:
  "\<exists>L. init_nodes_loop k i s = s\<lparr>plinks := L\<rparr> \<and> (\<forall>j. i \<le> j \<longrightarrow> j < i + k \<longrightarrow> ring L [Pg j]) \<and>
     same_links (- Pg ` {i..<i + k}) (plinks s) L"
proof (induction k arbitrary: i s)
  case 0
  then show ?case by (intro exI [of _ "plinks s"]) simp
next
  case (Suc k)
  let ?L0 = "list_init (Pg i) (plinks s)"
  obtain L where L: "init_nodes_loop k (Suc i) (s\<lparr>plinks := ?L0\<rparr>) = s\<lparr>plinks := L\<rparr>"
    "\<forall>j. Suc i \<le> j \<longrightarrow> j < Suc i + k \<longrightarrow> ring L [Pg j]" "same_links (- Pg ` {Suc i..<Suc i + k}) ?L0 L"
    using Suc.IH [of "Suc i" "s\<lparr>plinks := ?L0\<rparr>"] by auto
  have "ring L [Pg i]"
    by (rule ll.rep_same [OF same_links_subset [OF L(3)] ll.rep_init]) auto
  then have "\<forall>j. i \<le> j \<longrightarrow> j < i + Suc k \<longrightarrow> ring L [Pg j]"
    using L(2) by (metis add_Suc add_Suc_right antisym_conv1 Suc_leI)
  moreover have "same_links (- Pg ` {i..<i + Suc k}) (plinks s) L"
  proof (rule same_links_trans)
    show "same_links (- Pg ` {i..<i + Suc k}) (plinks s) ?L0" by (rule ll.same_init) auto
    show "same_links (- Pg ` {i..<i + Suc k}) ?L0 L" by (rule same_links_subset [OF L(3)]) auto
  qed
  ultimately show ?case using L(1) by (intro exI [of _ L]) simp
qed

lemma init_free_loop_ring:
  assumes "ring (plinks s) (EndFree # map Pg [j..<i])" "j \<le> i"
  shows "\<exists>L. init_free_loop k i s = s\<lparr>plinks := L\<rparr> \<and> ring L (EndFree # map Pg [j..<i + k]) \<and>
    same_links (- insert EndFree (Pg ` {j..<i + k})) (plinks s) L"
  using assms
proof (induction k arbitrary: i s)
  case 0
  then show ?case by (intro exI [of _ "plinks s"]) simp
next
  case (Suc k)
  let ?L0 = "list_add_before EndFree (Pg i) (plinks s)"
  have "ring ?L0 (EndFree # map Pg [j..<Suc i])"
    using ll.rep_add_before [OF Suc.prems(1), of "Pg i"] Suc.prems(2) by (simp add: image_iff)
  then obtain L where L: "init_free_loop k (Suc i) (s\<lparr>plinks := ?L0\<rparr>) = s\<lparr>plinks := L\<rparr>"
    "ring L (EndFree # map Pg [j..<Suc i + k])" "same_links (- insert EndFree (Pg ` {j..<Suc i + k})) ?L0 L"
    using Suc.IH [of "s\<lparr>plinks := ?L0\<rparr>" "Suc i"] Suc.prems(2) by auto
  have "same_links (- insert EndFree (Pg ` {j..<i + Suc k})) (plinks s) ?L0"
    by (rule ll.same_add_before [OF Suc.prems(1)]) (use Suc.prems(2) in auto)
  then have "same_links (- insert EndFree (Pg ` {j..<i + Suc k})) (plinks s) L"
    using L(3) same_links_trans by fastforce
  then show ?case using L(1,2) by (intro exI [of _ L]) simp
qed

lemma reserve_loop_pages:
  "i + k \<le> nr_pages s \<Longrightarrow> reserve_loop k i s = Inr (s\<lparr>pages := (\<lambda>q. if q \<in> Pg ` {i..<i + k}
      then (reserve (pages s q))\<lparr>pg_type := PGTYPE_PGSTRUCT\<rparr> else pages s q)\<rparr>)"
proof (induction k arbitrary: i s)
  case 0
  then show ?case by simp
next
  case (Suc k)
  let ?P = "(pages s)(Pg i := (reserve (pages s (Pg i)))\<lparr>pg_type := PGTYPE_PGSTRUCT\<rparr>)"
  have "reserve_loop (Suc k) i s = reserve_loop k (Suc i) (s\<lparr>pages := ?P\<rparr>)"
    using Suc.prems by simp
  also have "\<dots> = Inr (s\<lparr>pages := (\<lambda>q. if q \<in> Pg ` {Suc i..<Suc i + k}
      then (reserve (?P q))\<lparr>pg_type := PGTYPE_PGSTRUCT\<rparr> else ?P q)\<rparr>)"
    using Suc.IH [of "Suc i" "s\<lparr>pages := ?P\<rparr>"] Suc.prems by (simp cong: if_cong)
  also have "(\<lambda>q. if q \<in> Pg ` {Suc i..<Suc i + k} then (reserve (?P q))\<lparr>pg_type := PGTYPE_PGSTRUCT\<rparr> else ?P q) =
      (\<lambda>q. if q \<in> Pg ` {i..<i + Suc k} then (reserve (pages s q))\<lparr>pg_type := PGTYPE_PGSTRUCT\<rparr> else pages s q)"
    by (rule ext) (auto simp: image_iff)
  finally show ?case .
qed

lemma array_pages_bound:
  assumes "n < 2 ^ 32"
  shows "unat (NR_PAGES_NEEDED (of_nat n * sizeof_page)) \<le> n"
    "unat (NR_PAGES_NEEDED (of_nat n * sizeof_page)) = (n * 72 + 16383) div 16384"
proof -
  have "unat (of_nat n * 72 + 16383 :: u64) = n * 72 + 16383"
    using assms by (simp add: unat_word_ariths unat_of_nat)
  moreover have "NR_PAGES_NEEDED (of_nat n * sizeof_page) = drop_bit 14 (of_nat n * 72 + 16383)"
    by (simp add: NR_PAGES_NEEDED_def RSHIFT_ROUNDUP_def RSHIFT_ROUNDDOWN_def sizeof_page_def LOWBITS_def)
  ultimately show eq: "unat (NR_PAGES_NEEDED (of_nat n * sizeof_page)) = (n * 72 + 16383) div 16384"
    by (simp add: unat_drop_bit)
  show "unat (NR_PAGES_NEEDED (of_nat n * sizeof_page)) \<le> n"
    unfolding eq by (cases n) auto
qed

lemma init_page_array_inv:
  assumes "n < 2 ^ 32" "k = unat (NR_PAGES_NEEDED (of_nat n * sizeof_page))"
  shows "\<exists>s'. init_page_array n s = Inr s' \<and> page_inv s' [k..<n] [] \<and> nr_pages s' = n \<and>
    mem s' = mem s \<and> highmem_base_pfn s' = highmem_base_pfn s \<and> kstate.more s' = kstate.more s \<and>
    (\<forall>i<k. reserved (pages s' (Pg i)) \<and> pg_type (pages s' (Pg i)) = PGTYPE_PGSTRUCT)"
proof -
  have k: "k \<le> n" using array_pages_bound [OF assms(1)] assms(2) by simp
  let ?s0 = "s\<lparr>nr_pages := n, pages := (\<lambda>_. zero_page)\<rparr>"
  let ?P = "\<lambda>q. if q \<in> Pg ` {0..<0 + k}
      then (reserve zero_page)\<lparr>pg_type := PGTYPE_PGSTRUCT\<rparr> else zero_page"
  obtain L where L: "init_nodes_loop n 0 ?s0 = ?s0\<lparr>plinks := L\<rparr>"
    using init_nodes_loop_rings by blast
  let ?s1 = "?s0\<lparr>plinks := L, pages := ?P\<rparr>" and ?L0 = "list_init EndFree L"
  have res: "reserve_loop k 0 (?s0\<lparr>plinks := L\<rparr>) = Inr ?s1"
    using reserve_loop_pages [of 0 k "?s0\<lparr>plinks := L\<rparr>"] k by (simp cong: if_cong)
  have "ring ?L0 (EndFree # map Pg [k..<k])" using ll.rep_init by simp
  then obtain L' where L': "init_free_loop (n - k) k (?s1\<lparr>plinks := ?L0\<rparr>) = ?s1\<lparr>plinks := L'\<rparr>"
    "ring L' (EndFree # map Pg [k..<n])"
    using init_free_loop_ring [of "?s1\<lparr>plinks := ?L0\<rparr>" k k "n - k"] k by auto
  let ?s' = "?s1\<lparr>plinks := L', nr_free_pages := of_nat n - of_nat k\<rparr>"
  have eq: "init_page_array n s = Inr ?s'"
    unfolding init_page_array_def Let_def assms(2) [symmetric] L res
    using L'(1) by (simp add: init_free_page_list_def)
  have "of_nat n - of_nat k = (of_nat (n - k) :: u64)" using k by simp
  then have "unat (of_nat n - of_nat k :: u64) = n - k"
    using assms(1) by (simp add: unat_of_nat_u64)
  moreover have "\<not> reserved zero_page" by (simp add: reserved_def zero_page_def atomic_get_bit_def)
  ultimately have "page_inv ?s' [k..<n] []"
    using L'(2) assms(1) by (auto simp: page_inv_def free_list_def)
  then show ?thesis using eq by (intro exI [of _ ?s']) (simp add: image_iff)
qed

section \<open>alloc\_cont\_pages\<close>

text \<open>
  What the search computes on the list of free pages while it has not reached the end: the last
  page of the first run of \<open>n\<close> consecutive pages that is followed by another free page.
\<close>

fun scan_run :: "nat \<Rightarrow> nat \<Rightarrow> nat list \<Rightarrow> nat option" where
  "scan_run n i (x # y # ys) =
     (if i \<le> 1 then Some x else if y = Suc x then scan_run n (i - 1) (y # ys) else scan_run n n (y # ys))"
| "scan_run n i _ = None"

lemma scan_run_sound:
  assumes "scan_run n i F = Some x" "0 < i" "i \<le> n"
  shows "\<exists>pre a rest. F = pre @ [a..<Suc x] @ rest \<and> rest \<noteq> [] \<and> a \<le> x \<and>
    ((pre = [] \<and> Suc x = a + i) \<or> Suc x = a + n)"
  using assms
proof (induction n i F rule: scan_run.induct)
  case (1 n i u y ys)
  show ?case
  proof (cases "i \<le> 1")
    case True
    then have "u # y # ys = [] @ [u..<Suc x] @ (y # ys)" "x = u" "Suc x = u + i" using 1 by auto
    then show ?thesis by blast
  next
    case i: False
    show ?thesis
    proof (cases "y = Suc u")
      case True
      have "scan_run n (i - 1) (y # ys) = Some x" "0 < i - 1" "i - 1 \<le> n" using "1.prems" i True by auto
      then obtain pre a rest where IH: "y # ys = pre @ [a..<Suc x] @ rest" "rest \<noteq> []" "a \<le> x"
        "(pre = [] \<and> Suc x = a + (i - 1)) \<or> Suc x = a + n"
        using "1.IH"(1) [OF i True] by blast
      show ?thesis
      proof (cases "pre = [] \<and> Suc x = a + (i - 1)")
        case eq: True
        have up: "[a..<Suc x] = a # [Suc a..<Suc x]" using IH(3) by (simp add: upt_rec)
        then have "a = y" using IH(1) eq by auto
        moreover have "[u..<Suc x] = u # [Suc u..<Suc x]"
          using IH(3) True \<open>a = y\<close> by (intro upt_conv_Cons) simp
        ultimately have "u # y # ys = [] @ [u..<Suc x] @ rest"
          using IH(1) eq True by (simp del: upt_Suc)
        moreover have "u \<le> x" "Suc x = u + i" using IH(3) eq i True \<open>a = y\<close> by auto
        ultimately show ?thesis using IH(2) by blast
      next
        case False
        moreover have "u # y # ys = (u # pre) @ [a..<Suc x] @ rest" using IH(1) by simp
        ultimately show ?thesis using IH(2-4) by blast
      qed
    next
      case False
      have "scan_run n n (y # ys) = Some x" "0 < n" "n \<le> n" using "1.prems" i False by auto
      then obtain pre a rest where IH: "y # ys = pre @ [a..<Suc x] @ rest" "rest \<noteq> []" "a \<le> x"
        "Suc x = a + n" using "1.IH"(2) [OF i False] by blast
      moreover have "u # y # ys = (u # pre) @ [a..<Suc x] @ rest" using IH(1) by simp
      ultimately show ?thesis by blast
    qed
  qed
qed simp_all

lemma scan_run_shift: "xs = [a..<a + i] @ rest \<Longrightarrow> rest \<noteq> [] \<Longrightarrow> 0 < i \<Longrightarrow> scan_run n i xs \<noteq> None"
proof (induction i arbitrary: a xs)
  case (Suc i)
  show ?case
  proof (cases i)
    case 0
    then show ?thesis using Suc.prems by (cases rest) auto
  next
    case (Suc j)
    have "xs = a # Suc a # [Suc (Suc a)..<Suc a + i] @ rest"
      using Suc.prems(1) Suc by (simp add: upt_rec [of a] upt_rec [of "Suc a"])
    moreover have "scan_run n i (Suc a # [Suc (Suc a)..<Suc a + i] @ rest) \<noteq> None"
      using Suc.IH [of "Suc a # [Suc (Suc a)..<Suc a + i] @ rest" "Suc a"] Suc.prems(2) Suc
      by (simp add: upt_rec [of "Suc a"])
    ultimately show ?thesis using Suc by simp
  qed
qed simp

lemma scan_run_complete:
  assumes "F = pre @ [a..<a + n] @ rest" "rest \<noteq> []" "0 < i" "i \<le> n"
  shows "scan_run n i F \<noteq> None"
  using assms
proof (induction pre arbitrary: F i)
  case Nil
  define k where "k = n - i"
  have "[a..<a + n] @ rest = [a..<a + i] @ ([a + i..<a + n] @ rest)"
    using Nil.prems(4) by (metis append.assoc le_add1 le_iff_add nat_add_left_cancel_le upt_add_eq_append add.assoc)
  then show ?case using Nil.prems by (intro scan_run_shift [of F a i "[a + i..<a + n] @ rest"]) simp_all
next
  case (Cons u pre)
  obtain y ys where ys: "pre @ [a..<a + n] @ rest = y # ys" using Cons.prems(2) by (cases "pre @ [a..<a + n] @ rest") auto
  have "scan_run n j (y # ys) \<noteq> None" if "0 < j" "j \<le> n" for j
    using Cons.IH [OF refl Cons.prems(2) that] ys by simp
  then show ?case using Cons.prems ys by auto
qed

lemma find_run_scan:
  assumes "ring (plinks s) (EndFree # us @ map Pg F)" "scan_run (unat num) (unat i) F = Some x"
    and "0 < i" "length F < fuel" "0 < num"
  shows "find_run fuel num i (hd (map Pg F @ [EndFree])) p s = Inr (0, Some (Pg x))"
  using assms
proof (induction "unat num" "unat i" F arbitrary: us i fuel p rule: scan_run.induct)
  case (1 u y ys)
  obtain f where f: "fuel = Suc f" "length (y # ys) < f" using 1(6) by (cases fuel) auto
  have np: "next_page s (Pg u) = Pg y"
    using ll.nxt_middle [of "plinks s" "EndFree # us" "Pg u" "map Pg (y # ys)"] 1(3)
    by (simp add: next_page_def)
  have r: "ring (plinks s) (EndFree # (us @ [Pg u]) @ map Pg (y # ys))" using 1(3) by simp
  show ?case
  proof (cases "unat i \<le> 1")
    case True
    then have "unat i = unat (1 :: size_t)" using 1(5) by (simp add: word_less_nat_alt)
    then have "i = 1" by (simp only: word_unat_eq_iff)
    then show ?thesis using 1(4) np f True by (cases f) (auto simp: Let_def)
  next
    case False
    then have i: "1 < i" by (simp add: word_less_nat_alt)
    then have "i \<noteq> 0" by auto
    then have dec: "unat (i - 1) = unat i - 1" by (rule unat_minus_one)
    then have pos: "0 < i - 1" using False by (simp add: word_less_nat_alt)
    show ?thesis
    proof (cases "y = Suc u")
      case True
      then show ?thesis
        using 1(1) [OF False True dec [symmetric], of "us @ [Pg u]" f "Some (Pg u)"]
          1(4,5,7) False i np f r dec pos by (simp add: Let_def)
    next
      case ne: False
      then show ?thesis
        using 1(2) [OF False ne refl, of "us @ [Pg u]" f "Some (Pg u)"] 1(4,5,7) False i np f r
        by (simp add: Let_def)
    qed
  qed
qed simp_all

definition reserve_pages :: "nat set \<Rightarrow> (page_ptr \<Rightarrow> page) \<Rightarrow> page_ptr \<Rightarrow> page" where
  "reserve_pages X P = (\<lambda>q. if q \<in> Pg ` X then reserve (P q) else P q)"

lemma take_links_front:
  assumes "ring h (e # us @ x # vs)" "as \<noteq> [] \<Longrightarrow> ring h as" "set as \<inter> set (e # us @ x # vs) = {}"
  shows "ring (take_links as x h) (e # us @ vs)" "ring (take_links as x h) (x # as)"
    "same_links (- set (e # us @ x # vs @ as)) h (take_links as x h)"
proof -
  have "ring h (x # vs @ e # us)" using assms(1) ll.rep_rotate [of h "e # us" "x # vs"] by simp
  then have rot: "ring h ((e # us) @ x # vs)" using assms(1) by simp
  have del: "ring (list_del_init x h) (e # us @ vs)" "ring (list_del_init x h) [x]"
    using ll.delete_middle [OF rot] ll.delete_middle_self [OF rot] by auto
  have same: "same_links A h (list_del_init x h)" if "A \<inter> set (e # us @ x # vs) = {}" for A
    using ll.delete_middle_same [OF rot] that by simp
  have "ring (take_links as x h) (e # us @ vs) \<and> ring (take_links as x h) (x # as) \<and>
    same_links (- set (e # us @ x # vs @ as)) h (take_links as x h)"
  proof (cases as)
    case Nil
    then show ?thesis using del same [of "- set (e # us @ x # vs)"] by (simp add: take_links_def)
  next
    case (Cons a as')
    have ra: "ring (list_del_init x h) (a # as')"
      using ll.rep_same [OF same [of "set as"]] assms(2,3) Cons by auto
    have x: "x \<notin> set (a # as')" using assms(3) Cons by auto
    have "ring (take_links as x h) ((a # as') @ [x])"
      using ll.rep_add_before [OF ra x] Cons by (simp add: take_links_def)
    then have 1: "ring (take_links as x h) (x # as)"
      using ll.rep_rotate [of _ "a # as'" "[x]"] Cons by simp
    have s2: "same_links A (list_del_init x h) (take_links as x h)" if "A \<inter> set (x # as) = {}" for A
      using ll.same_add_before [OF ra, of A x] that Cons by (simp add: take_links_def)
    have "distinct (e # us @ x # vs)" using ring_distinct [OF assms(1)] .
    then have 2: "ring (take_links as x h) (e # us @ vs)"
      using assms(3) by (intro ll.rep_same [OF s2 del(1)]) auto
    have "same_links (- set (e # us @ x # vs @ as)) h (take_links as x h)"
      by (rule same_links_trans [OF same s2]) auto
    then show ?thesis using 1 2 by blast
  qed
  then show "ring (take_links as x h) (e # us @ vs)" "ring (take_links as x h) (x # as)"
    "same_links (- set (e # us @ x # vs @ as)) h (take_links as x h)" by blast+
qed

lemma take_run_rings:
  assumes "ring (plinks s) (EndFree # map Pg (pre @ [b..<b + k] @ post))"
    and "k < m \<Longrightarrow> ring (plinks s) (map Pg [b + k..<b + m])"
    and "set [b + k..<b + m] \<inter> set (pre @ [b..<b + k] @ post) = {}" "k \<le> m" "b + k \<le> nr_pages s"
    and "pfirst = (if k = m then None else Some (Pg (b + k)))" "0 < k \<Longrightarrow> p = Some (Pg (b + k - 1))"
    and "0 < m"
  shows "\<exists>L. take_run k p pfirst s =
      Inr (Some (Pg b), s\<lparr>pages := reserve_pages {b..<b + k} (pages s), plinks := L,
             nr_free_pages := nr_free_pages s - of_nat k\<rparr>) \<and>
    ring L (EndFree # map Pg (pre @ post)) \<and> ring L (map Pg [b..<b + m]) \<and>
    same_links (- set (EndFree # map Pg (pre @ [b..<b + m] @ post))) (plinks s) L"
  using assms
proof (induction k arbitrary: s p pfirst)
  case 0
  then show ?case by (intro exI [of _ "plinks s"]) (simp add: reserve_pages_def)
next
  case (Suc k)
  let ?x = "Pg (b + k)" and ?as = "map Pg [b + Suc k..<b + m]"
  let ?L = "take_links ?as ?x (plinks s)"
  let ?s = "s\<lparr>pages := (pages s)(?x := reserve (pages s ?x)), plinks := ?L, nr_free_pages := nr_free_pages s - 1\<rparr>"
  have r0: "ring (plinks s) (EndFree # map Pg (pre @ [b..<b + k]) @ ?x # map Pg post)"
    using Suc.prems(1) by simp
  have disj: "set ?as \<inter> set (EndFree # map Pg (pre @ [b..<b + k]) @ ?x # map Pg post) = {}"
    using Suc.prems(3) by auto
  have as: "?as \<noteq> [] \<Longrightarrow> ring (plinks s) ?as" using Suc.prems(2) by auto
  note t = take_links_front [OF r0 as disj]
  have up: "[b + k..<b + m] = (b + k) # [b + Suc k..<b + m]" using Suc.prems(4) by (simp add: upt_rec)
  have step: "take_run (Suc k) p pfirst s = take_run k (page_pred ?x) (Some ?x) ?s"
    using Suc.prems(4-7) by (auto simp: Let_def page_delete_def page_add_before_def take_links_def upt_rec)
  have "\<exists>L. take_run k (page_pred ?x) (Some ?x) ?s =
      Inr (Some (Pg b), ?s\<lparr>pages := reserve_pages {b..<b + k} (pages ?s), plinks := L,
             nr_free_pages := nr_free_pages ?s - of_nat k\<rparr>) \<and>
    ring L (EndFree # map Pg (pre @ post)) \<and> ring L (map Pg [b..<b + m]) \<and>
    same_links (- set (EndFree # map Pg (pre @ [b..<b + m] @ post))) (plinks ?s) L"
  proof (rule Suc.IH)
    show "ring (plinks ?s) (EndFree # map Pg (pre @ [b..<b + k] @ post))" using t(1) by simp
    show "ring (plinks ?s) (map Pg [b + k..<b + m])" using t(2) up by simp
    have "distinct (pre @ [b..<b + k] @ (b + k) # post)" using ring_distinct [OF r0]
      by (auto simp: distinct_map)
    then show "set [b + k..<b + m] \<inter> set (pre @ [b..<b + k] @ post) = {}"
      using Suc.prems(3) up by auto
    show "page_pred ?x = Some (Pg (b + k - 1))" if "0 < k" using that by (cases "b + k") auto
  qed (use Suc.prems in auto)
  then obtain L where L: "take_run k (page_pred ?x) (Some ?x) ?s =
      Inr (Some (Pg b), ?s\<lparr>pages := reserve_pages {b..<b + k} (pages ?s), plinks := L,
             nr_free_pages := nr_free_pages ?s - of_nat k\<rparr>)"
    "ring L (EndFree # map Pg (pre @ post))" "ring L (map Pg [b..<b + m])"
    "same_links (- set (EndFree # map Pg (pre @ [b..<b + m] @ post))) ?L L" by auto
  have "set [b..<b + m] = {b..<b + k} \<union> {b + k} \<union> {b + Suc k..<b + m}" using Suc.prems(4) by auto
  then have "same_links (- set (EndFree # map Pg (pre @ [b..<b + m] @ post))) (plinks s) ?L"
    by (intro same_links_subset [OF t(3)]) auto
  then have "same_links (- set (EndFree # map Pg (pre @ [b..<b + m] @ post))) (plinks s) L"
    using L(4) same_links_trans by blast
  moreover have "reserve_pages {b..<b + k} (pages ?s) = reserve_pages {b..<b + Suc k} (pages s)"
    by (rule ext) (auto simp: reserve_pages_def image_iff)
  ultimately show ?case using step L(1-3)
    by (intro exI [of _ L]) (simp add: algebra_simps del: take_run.simps)
qed

definition tail_pages :: "page_ptr \<Rightarrow> nat set \<Rightarrow> (page_ptr \<Rightarrow> page) \<Rightarrow> page_ptr \<Rightarrow> page" where
  "tail_pages f X P = (\<lambda>q. if q \<in> Pg ` X then (P q)\<lparr>pg_type := PGTYPE_TAIL, pg_first := Some f\<rparr> else P q)"

lemma mark_tails_ring:
  assumes "ring (plinks s) (map Pg [b..<b + j + k])" "0 < j" "b + j + k \<le> nr_pages s"
  shows "mark_tails k (Pg (if k = 0 then b else b + j)) (Pg b) s =
    Inr (Pg b, s\<lparr>pages := tail_pages (Pg b) {b + j..<b + j + k} (pages s)\<rparr>)"
  using assms
proof (induction k arbitrary: j s)
  case 0
  then show ?case by (simp add: tail_pages_def)
next
  case (Suc k)
  let ?P = "(pages s)(Pg (b + j) := (pages s (Pg (b + j)))\<lparr>pg_type := PGTYPE_TAIL, pg_first := Some (Pg b)\<rparr>)"
  have "[b..<b + j + Suc k] = [b..<b + j] @ (b + j) # [b + Suc j..<b + Suc j + k]"
    using upt_add_eq_append [of b "b + j" "Suc k"] by (simp add: upt_rec)
  then have "ring (plinks s) (map Pg ([b..<b + j] @ (b + j) # [b + Suc j..<b + Suc j + k] @ []))"
    using Suc.prems(1) by simp
  from next_page_segment [OF this]
  have np: "next_page (s\<lparr>pages := ?P\<rparr>) (Pg (b + j)) = Pg (if k = 0 then b else b + Suc j)"
    using Suc.prems(2) by (auto simp: next_page_def hd_append upt_rec)
  have "mark_tails (Suc k) (Pg (b + j)) (Pg b) s =
      mark_tails k (Pg (if k = 0 then b else b + Suc j)) (Pg b) (s\<lparr>pages := ?P\<rparr>)"
    using Suc.prems(3) np by simp
  also have "\<dots> = Inr (Pg b, (s\<lparr>pages := ?P\<rparr>)\<lparr>pages := tail_pages (Pg b) {b + Suc j..<b + Suc j + k} (pages (s\<lparr>pages := ?P\<rparr>))\<rparr>)"
    by (rule Suc.IH) (use Suc.prems in simp_all)
  also have "tail_pages (Pg b) {b + Suc j..<b + Suc j + k} (pages (s\<lparr>pages := ?P\<rparr>)) =
      tail_pages (Pg b) {b + j..<b + j + Suc k} (pages s)"
    by (rule ext) (auto simp: tail_pages_def image_iff)
  finally show ?case by simp
qed

text \<open>
  When the free list has a run of \<open>num\<close> consecutive pages that is not at its end,
  \<^verbatim>\<open>alloc_cont_pages\<close> takes such a run off the list.
\<close>

lemma alloc_cont_pages_inv:
  assumes "page_inv s F As" "F = pre @ [a..<a + unat num] @ post" "post \<noteq> []" "0 < num" "length F < fuel"
  shows "\<exists>pre' b post' s'. F = pre' @ [b..<b + unat num] @ post' \<and>
    alloc_cont_pages fuel num s = Inr (Some (Pg b), s') \<and>
    page_inv s' (pre' @ post') ([b..<b + unat num] # As) \<and> page_frame s s' \<and> mem s' = mem s"
proof -
  let ?n = "unat num"
  have n: "0 < ?n" using assms(4) by (simp add: word_less_nat_alt)
  have fl: "free_list s F" and np: "nr_pages s < 2 ^ 32" and dist: "distinct (F @ concat As)"
    and As: "\<And>A. A \<in> set As \<Longrightarrow> alloc_set s A" using assms(1) by (auto simp: page_inv_def)
  obtain x where x: "scan_run ?n ?n F = Some x"
    using scan_run_complete [OF assms(2,3) n order_refl] by auto
  obtain pre' b post' where run: "F = pre' @ [b..<b + ?n] @ post'" "x = b + ?n - 1"
    using scan_run_sound [OF x n order_refl] by (metis add_diff_cancel_left' plus_1_eq_Suc)
  have find: "find_run fuel num num (first_free_page s) None s = Inr (0, Some (Pg (b + ?n - 1)))"
    using find_run_scan [of s "[]" F num num x fuel None] fl assms(4,5) x run(2)
      first_free_page_hd [OF fl] by (simp add: free_list_def)
  have ringF: "ring (plinks s) (EndFree # map Pg (pre' @ [b..<b + ?n] @ post'))"
    using fl run(1) by (simp add: free_list_def)
  have "b + ?n - 1 \<in> set F" using n run(1) by auto
  then have "b + ?n - 1 < nr_pages s" using fl by (auto simp: free_list_def)
  then have bn: "b + ?n \<le> nr_pages s" using n by simp
  obtain L where L: "take_run ?n (Some (Pg (b + ?n - 1))) None s =
      Inr (Some (Pg b), s\<lparr>pages := reserve_pages {b..<b + ?n} (pages s), plinks := L,
             nr_free_pages := nr_free_pages s - of_nat ?n\<rparr>)"
    "ring L (EndFree # map Pg (pre' @ post'))" "ring L (map Pg [b..<b + ?n])"
    "same_links (- set (EndFree # map Pg F)) (plinks s) L"
    using take_run_rings [OF ringF, of ?n None "Some (Pg (b + ?n - 1))"] n bn run(1) by auto
  let ?s1 = "s\<lparr>pages := reserve_pages {b..<b + ?n} (pages s), plinks := L,
             nr_free_pages := nr_free_pages s - num\<rparr>"
  let ?P = "tail_pages (Pg b) {b + 1..<b + ?n} (pages ?s1)"
  have "ring L (map Pg ([] @ b # [Suc b..<b + ?n] @ []))" using L(3) n by (simp add: upt_rec)
  then have nx: "next_page ?s1 (Pg b) = Pg (if ?n - 1 = 0 then b else b + 1)"
    using next_page_segment [of ?s1 "[]" b "[Suc b..<b + ?n]" "[]"] n by (auto simp: upt_rec)
  have tails: "mark_tails (?n - 1) (next_page ?s1 (Pg b)) (Pg b) ?s1 = Inr (Pg b, ?s1\<lparr>pages := ?P\<rparr>)"
    using mark_tails_ring [of ?s1 b 1 "?n - 1"] L(3) n bn unfolding nx by simp
  let ?s' = "?s1\<lparr>pages := ?P(Pg b := (?P (Pg b))\<lparr>pg_type := PGTYPE_GENERIC, pg_count := ucast num\<rparr>)\<rparr>"
  have nofree: "\<not> nr_free_pages s < num"
    using fl run(1) by (simp add: free_list_def word_less_nat_alt)
  have res: "alloc_cont_pages fuel num s = Inr (Some (Pg b), ?s')"
    using find L(1) nofree tails bn n by (simp add: alloc_cont_pages_def)
  have out: "pages ?s' (Pg i) = pages s (Pg i)" if "i \<notin> {b..<b + ?n}" for i
    using that n by (auto simp: tail_pages_def reserve_pages_def)
  have d: "set (pre' @ post') \<inter> {b..<b + ?n} = {}" using dist run(1) by auto
  have "unat (nr_free_pages s - num) = length F - ?n"
    using nofree fl by (simp add: unat_sub free_list_def)
  moreover have "\<not> reserved (pages ?s' (Pg i))" if "i \<in> set (pre' @ post')" for i
  proof -
    have "i \<notin> {b..<b + ?n}" "i \<in> set F" using that d run(1) by auto
    then show ?thesis unfolding out [OF \<open>i \<notin> {b..<b + ?n}\<close>] using fl by (simp add: free_list_def)
  qed
  ultimately have 1: "free_list ?s' (pre' @ post')"
    using L(2) fl by (auto simp: free_list_def run(1) sorted_wrt_append)
  have "unat (ucast num :: u32) = ?n"
    using bn np by (simp add: unat_ucast_u32)
  moreover have "hd [b..<b + ?n] = b" "tl [b..<b + ?n] = [b + 1..<b + ?n]" using n by (simp_all add: upt_rec)
  ultimately have 2: "alloc_set ?s' [b..<b + ?n]"
    using L(3) n bn by (simp add: alloc_set_def tail_pages_def reserve_pages_def sorted_wrt_upt image_iff)
  have 3: "alloc_set ?s' A" if "A \<in> set As" for A
  proof (rule alloc_set_cong [OF As [OF that]])
    have d: "set A \<inter> set F = {}" using dist that by auto
    then show "same_links (Pg ` set A) (plinks s) (plinks ?s')"
      by (simp, intro same_links_subset [OF L(4)]) auto
    show "pages ?s' (Pg i) = pages s (Pg i)" if "i \<in> set A" for i
      using d that run(1) by (intro out) auto
  qed simp
  have "distinct ((pre' @ post') @ concat ([b..<b + ?n] # As))" using dist run(1) by auto
  then have "page_inv ?s' (pre' @ post') ([b..<b + ?n] # As)" using 1 2 3 np by (auto simp: page_inv_def)
  moreover have "page_frame s ?s' \<and> mem ?s' = mem s" by (simp add: page_frame_def)
  ultimately show ?thesis using res run(1) by blast
qed

text \<open>
  The condition \<^verbatim>\<open>(i > 0) || (np == end_free_page())\<close> keeps the search going when the run it
  wants ends with the last free page: on a free list that is one run of \<open>num\<close> pages the search
  runs in a circle for ever.
\<close>

lemma find_run_circle:
  assumes ring: "ring (plinks s) (EndFree # map Pg [a..<a + n])" and n: "0 < n" "n < 2 ^ 32"
    and "(np = EndFree \<and> (i = 0 \<or> i = - 1 - of_nat n)) \<or>
      (\<exists>j<n. np = Pg (a + j) \<and> (i = of_nat (n - j) \<or> i = - 1 - of_nat j))"
  shows "find_run fuel (of_nat n) i np p s = Inl Hang"
  using assms(4)
proof (induction fuel arbitrary: i np p)
  case 0
  then show ?case by simp
next
  case (Suc fuel)
  have up: "[a..<a + n] = [a..<a + j] @ (a + j) # [Suc (a + j)..<a + n]" if "j < n" for j
    using that upt_add_eq_append [of a "a + j" "n - j"] by (simp add: upt_rec [of "a + j"])
  have nx: "next_page s (Pg (a + j)) = (if Suc j = n then EndFree else Pg (a + Suc j))" if "j < n" for j
    using ll.nxt_middle [of "plinks s" "EndFree # map Pg [a..<a + j]" "Pg (a + j)" "map Pg [Suc (a + j)..<a + n]"]
      ring up [OF that] that by (auto simp: next_page_def upt_rec [of "Suc (a + j)"])
  have ne: "next_page s EndFree = Pg (a + 0)"
    using ll.rep_nxt [OF ring] n by (simp add: next_page_def upt_rec)
  have big: "1 < (- 1 - of_nat j :: size_t)" if "j \<le> n" for j
  proof -
    have "unat (- 1 - of_nat j :: size_t) = 2 ^ 64 - 1 - j"
      using that n by (simp add: unat_sub unsigned_minus_1_eq_mask mask_eq_exp_minus_1 word_le_nat_alt unat_of_nat)
    then show ?thesis using that n by (simp add: word_less_nat_alt)
  qed
  from Suc.prems show ?case
  proof (elim disjE exE conjE)
    assume "np = EndFree" "i = 0"
    then show ?thesis
      using ne n Suc.IH [of "Pg (a + 0)" "- 1" "Some EndFree"] by (auto simp: Let_def)
  next
    assume "np = EndFree" "i = - 1 - of_nat n"
    then show ?thesis
      using ne n big [of n] Suc.IH [of "Pg (a + 0)" "of_nat n" "Some EndFree"] by (auto simp: Let_def)
  next
    fix j assume j: "j < n" "np = Pg (a + j)" "i = of_nat (n - j)"
    have un: "unat i = n - j" unfolding j(3) using n by (intro unat_of_nat_u64) simp
    then have pos: "0 < i" using j by (simp add: word_less_nat_alt)
    have dec: "i - 1 = of_nat (n - Suc j)" using j by (simp add: of_nat_diff)
    show ?thesis
    proof (cases "Suc j = n")
      case True
      then have "i = 1" using j(3) by auto
      then show ?thesis using True j nx [OF j(1)] pos Suc.IH [of EndFree 0 "Some np"] by (simp add: Let_def)
    next
      case False
      then have "Suc j < n" using j by simp
      then have "find_run fuel (of_nat n) (i - 1) (Pg (a + Suc j)) (Some np) s = Inl Hang"
        using dec by (intro Suc.IH) blast
      then show ?thesis using False j(1,2) nx [OF j(1)] pos by (simp add: Let_def)
    qed
  next
    fix j assume j: "j < n" "np = Pg (a + j)" "i = - 1 - of_nat j"
    have pos: "0 < i" "1 < i" using big [of j] j by (auto simp: word_less_nat_alt)
    have dec: "i - 1 = - 1 - of_nat (Suc j)" using j by simp
    show ?thesis
    proof (cases "Suc j = n")
      case True
      then show ?thesis using j(1,2) nx [OF j(1)] pos dec Suc.IH [of EndFree "i - 1" "Some np"] by (simp add: Let_def)
    next
      case False
      then have "Suc j < n" using j by simp
      then have "find_run fuel (of_nat n) (i - 1) (Pg (a + Suc j)) (Some np) s = Inl Hang"
        using dec by (intro Suc.IH) blast
      then show ?thesis using False j(1,2) nx [OF j(1)] pos by (simp add: Let_def)
    qed
  qed
qed

text \<open>
  A call that returns a page has found a run in its first round. Otherwise it goes on for ever or ends at
  the head of the list, through which the code then accesses memory outside the page array.
\<close>

lemma scan_run_more: "scan_run n i zs = None \<Longrightarrow> i \<le> j \<Longrightarrow> scan_run n j zs = None"
proof (induction zs arbitrary: i j)
  case (Cons x zs)
  show ?case
  proof (cases zs)
    case zs: (Cons y ys)
    have i: "1 < i" using Cons.prems(1) zs by (auto split: if_splits)
    then have "i - 1 \<le> j - 1" "\<not> j \<le> 1" using Cons.prems(2) by auto
    then show ?thesis using Cons.IH [of "i - 1" "j - 1"] Cons.prems(1) i unfolding zs by (simp split: if_splits)
  qed simp
qed simp

lemma find_run_no_run:
  assumes ring: "ring (plinks s) (EndFree # map Pg F)" and no: "scan_run (unat num) (unat num) F = None"
    and "F \<noteq> []" "0 < num" "length F < 2 ^ 32"
    and "np = EndFree \<or> (\<exists>us x zs. F = us @ x # zs \<and> np = Pg x \<and> 0 < i \<and> scan_run (unat num) (unat i) (x # zs) = None)"
    and "find_run fuel num i np p s = Inr r"
  shows "snd r = Some EndFree"
  using assms(6,7)
proof (induction fuel arbitrary: i np p)
  case (Suc fuel)
  obtain f fs where F: "F = f # fs" using assms(3) by (cases F) auto
  have first: "next_page s EndFree = Pg f"
    using ll.rep_nxt [OF ring] F by (simp add: next_page_def)
  have start: "\<exists>us x zs. F = us @ x # zs \<and> Pg f = Pg x \<and> 0 < j \<and> scan_run (unat num) (unat j) (x # zs) = None"
    if "num \<le> j" for j
  proof -
    have "unat num \<le> unat j" using that by (simp add: word_le_nat_alt)
    then have "scan_run (unat num) (unat j) (f # fs) = None" using scan_run_more [OF no] F by simp
    moreover have "0 < j" using that assms(4) by (rule order_less_le_trans [rotated])
    ultimately show ?thesis using F by (intro exI [of _ "[]"] exI [of _ f] exI [of _ fs]) simp
  qed
  from Suc.prems(1) show ?case
  proof (elim disjE exE conjE)
    assume np: "np = EndFree"
    show ?case
    proof (cases "1 < i")
      case True
      then have run: "find_run fuel num num (Pg f) (Some EndFree) s = Inr r" using Suc.prems(2) np first by (simp add: Let_def)
      show ?thesis by (rule Suc.IH [OF disjI2 [OF start [OF order_refl]] run])
    next
      case False
      then have run: "find_run fuel num (i - 1) (Pg f) (Some EndFree) s = Inr r" using Suc.prems(2) np first by (simp add: Let_def)
      have "unat i < 2" using False by (simp add: word_less_nat_alt)
      then have "unat i = 0 \<or> unat i = 1" by linarith
      then have "i = 0 \<or> i = 1" by (metis unsigned_word_eqI unsigned_0 unsigned_1)
      then show ?thesis
      proof
        assume "i = 1"
        then show ?thesis using run by (cases fuel) auto
      next
        assume "i = 0"
        then have "num \<le> i - 1" by simp
        then show ?thesis by (rule Suc.IH [OF disjI2 [OF start] run])
      qed
    qed
  next
    fix us x zs assume F2: "F = us @ x # zs" and np: "np = Pg x" and i: "0 < i" "scan_run (unat num) (unat i) (x # zs) = None"
    show ?case
    proof (cases zs)
      case Nil
      then have "next_page s (Pg x) = EndFree"
        using ll.nxt_middle [of "plinks s" "EndFree # map Pg us" "Pg x" "[]"] ring F2 by (simp add: next_page_def)
      then have run: "find_run fuel num (i - 1) EndFree (Some np) s = Inr r" using Suc.prems(2) np i(1) by (simp add: Let_def)
      show ?thesis by (rule Suc.IH [OF disjI1 [OF refl] run])
    next
      case (Cons y ys)
      then have nx: "next_page s (Pg x) = Pg y"
        using ll.nxt_middle [of "plinks s" "EndFree # map Pg us" "Pg x" "map Pg (y # ys)"] ring F2 by (simp add: next_page_def)
      have i1: "1 < unat i" using i(2) Cons by (auto split: if_splits)
      then have i1w: "1 < i" and dec: "unat (i - 1) = unat i - 1" "0 < i - 1"
        by (auto simp: word_less_nat_alt unat_sub word_le_nat_alt)
      have split: "F = (us @ [x]) @ y # ys" using F2 Cons by simp
      show ?thesis
      proof (cases "y = Suc x")
        case True
        then have run: "find_run fuel num (i - 1) (Pg y) (Some np) s = Inr r" using Suc.prems(2) np i(1) nx by (simp add: Let_def)
        have "scan_run (unat num) (unat (i - 1)) (y # ys) = None" using i(2) i1 True Cons dec by simp
        then have "\<exists>us x zs. F = us @ x # zs \<and> Pg y = Pg x \<and> 0 < i - 1 \<and> scan_run (unat num) (unat (i - 1)) (x # zs) = None"
          using split dec(2) by blast
        then show ?thesis by (rule Suc.IH [OF disjI2 run])
      next
        case False
        then have run: "find_run fuel num num (Pg y) (Some np) s = Inr r" using Suc.prems(2) np i(1) i1w nx by (simp add: Let_def)
        have "scan_run (unat num) (unat num) (y # ys) = None" using i(2) i1 False Cons by simp
        then have "\<exists>us x zs. F = us @ x # zs \<and> Pg y = Pg x \<and> 0 < num \<and> scan_run (unat num) (unat num) (x # zs) = None"
          using split assms(4) by blast
        then show ?thesis by (rule Suc.IH [OF disjI2 run])
      qed
    qed
  qed
qed simp

lemma find_run_more_fuel: "find_run fuel num i np p s = Inr r \<Longrightarrow> find_run (fuel + k) num i np p s = Inr r"
  by (induction fuel arbitrary: i np p) (auto simp: Let_def split: if_splits)

lemma find_run_counter: "find_run fuel num i np p s = Inr (j, q) \<Longrightarrow> j = 0"
  by (induction fuel arbitrary: i np p) (auto simp: Let_def word_gt_0 split: if_splits)

lemma alloc_cont_pages_None:
  assumes "alloc_cont_pages fuel num s = Inr (None, s')" shows "s' = s"
  using assms find_run_counter
  by (auto simp: alloc_cont_pages_def rbind_eq_Inr split: if_splits)

lemma alloc_cont_pages_returns:
  assumes inv: "page_inv s F As" and "0 < unat num" and ret: "alloc_cont_pages fuel num s = Inr (Some p, s')"
  shows "\<exists>pre b post. F = pre @ [b..<b + unat num] @ post \<and> p = Pg b \<and>
    page_inv s' (pre @ post) ([b..<b + unat num] # As) \<and> page_frame s s'"
proof -
  have fl: "free_list s F" and np: "nr_pages s < 2 ^ 32" using inv by (auto simp: page_inv_def)
  have num: "0 < num" using assms(2) by (simp add: word_less_nat_alt)
  have ge: "\<not> nr_free_pages s < num" using ret by (auto simp: alloc_cont_pages_def split: if_splits)
  then have ne: "F \<noteq> []" using fl num by (auto simp: free_list_def word_less_nat_alt)
  obtain j q where fr: "find_run fuel num num (first_free_page s) None s = Inr (j, q)"
    using ret ge by (auto simp: alloc_cont_pages_def rbind_eq_Inr)
  have big: "alloc_cont_pages (fuel + Suc (length F)) num s = Inr (Some p, s')"
    using ret ge find_run_more_fuel [OF fr, of "Suc (length F)"] fr by (simp add: alloc_cont_pages_def)
  have "scan_run (unat num) (unat num) F \<noteq> None"
  proof
    assume no: "scan_run (unat num) (unat num) F = None"
    obtain f fs where F: "F = f # fs" using ne by (cases F) auto
    have "snd (j, q) = Some EndFree"
    proof (rule find_run_no_run [OF _ no ne num _ _ fr])
      show "ring (plinks s) (EndFree # map Pg F)" "length F < 2 ^ 32"
        using fl np free_list_bound [OF fl] by (auto simp: free_list_def)
      have "first_free_page s = Pg f" using first_free_page_hd [OF fl] F by simp
      then show "first_free_page s = EndFree \<or> (\<exists>us x zs. F = us @ x # zs \<and> first_free_page s = Pg x \<and> 0 < num \<and>
          scan_run (unat num) (unat num) (x # zs) = None)"
        using no F num by (intro disjI2 exI [of _ "[]"] exI [of _ f] exI [of _ fs]) simp
    qed
    moreover have "take_run (unat num) (Some EndFree) None s = Inl (BadPointer ''struct page'')"
      using assms(2) by (cases "unat num") (simp_all add: reserve_page_def write_page_def)
    ultimately show False using ret ge fr find_run_counter [OF fr] by (simp add: alloc_cont_pages_def)
  qed
  then obtain x where "scan_run (unat num) (unat num) F = Some x" by blast
  from scan_run_sound [OF this assms(2) order_refl] obtain pre a rest where
    F: "F = pre @ [a..<a + unat num] @ rest" "rest \<noteq> []" by metis
  from alloc_cont_pages_inv [OF inv F num, of "fuel + Suc (length F)"] big show ?thesis by force
qed

section \<open>Reachable states\<close>

text \<open>
  The calls of the allocator that return, with the page sets they hand out and take back: \<open>As\<close> are
  the sets in use. \<^verbatim>\<open>pgalloc\<close> is \<^verbatim>\<open>alloc_pages\<close> and \<^verbatim>\<open>pgfree\<close> is
  \<^verbatim>\<open>free_pages\<close>, with count 1. \<^verbatim>\<open>alloc_cont_pages\<close> need not return
  (\<open>alloc_cont_pages_hangs\<close>, \<open>alloc_cont_pages_uses_head\<close>); a step is a call of it that does.
\<close>

inductive page_step :: "'s kstate_scheme \<times> nat list list \<Rightarrow> 's kstate_scheme \<times> nat list list \<Rightarrow> bool" where
  step_alloc: "alloc_pages num s = Inr (Some (Pg i), s') \<Longrightarrow> 0 < unat num \<Longrightarrow> ring (plinks s') (map Pg A) \<Longrightarrow>
     hd A = i \<Longrightarrow> page_step (s, As) (s', A # As)"
| step_alloc_fail: "alloc_pages num s = Inr (None, s') \<Longrightarrow> page_step (s, As) (s', As)"
| step_cont: "alloc_cont_pages fuel num s = Inr (Some (Pg i), s') \<Longrightarrow> 0 < unat num \<Longrightarrow> ring (plinks s') (map Pg A) \<Longrightarrow>
     hd A = i \<Longrightarrow> page_step (s, As) (s', A # As)"
| step_cont_fail: "alloc_cont_pages fuel num s = Inr (None, s') \<Longrightarrow> page_step (s, As) (s', As)"
| step_free_all: "i \<in> set A \<Longrightarrow> free_all_pages (Some (Pg i)) s = Inr s' \<Longrightarrow>
     page_step (s, As @ A # Bs) (s', As @ Bs)"
| step_free: "B \<noteq> [] \<Longrightarrow> unat num = length B \<Longrightarrow> free_pages (Some (Pg (hd B))) num s = Inr (r, s') \<Longrightarrow>
     page_step (s, As @ (H @ B @ T) # Bs) (s', As @ parts H @ parts T @ Bs)"

inductive page_reach :: "'s kstate_scheme \<Rightarrow> 's kstate_scheme \<times> nat list list \<Rightarrow> bool" for s0 where
  reach_init: "init_page_array n s0 = Inr s \<Longrightarrow> n < 2 ^ 32 \<Longrightarrow> page_reach s0 (s, [])"
| reach_step: "page_reach s0 c \<Longrightarrow> page_step c c' \<Longrightarrow> page_reach s0 c'"

lemma ring_hd_unique:
  assumes "ring h (x # xs)" "ring h (x # ys)"
  shows "xs = ys"
proof -
  have "u = v" if "ring h (zs @ x # u)" "ring h (zs @ x # v)" for u v zs x
    using that
  proof (induction u arbitrary: v zs x)
    case Nil
    show ?case
    proof (cases v)
      case (Cons y ys)
      have "node_next h x = y" using Nil.prems(2) Cons ring_next_middle by fastforce
      moreover have "node_next h x = hd (zs @ [x])" using ring_next_last [OF Nil.prems(1)] .
      moreover have "distinct (zs @ x # v)" using ring_distinct [OF Nil.prems(2)] .
      ultimately show ?thesis using Cons by (cases zs) auto
    qed simp
  next
    case (Cons y u)
    have y: "node_next h x = y" using Cons.prems(1) ring_next_middle by fastforce
    show ?case
    proof (cases v)
      case Nil
      then have "node_next h x = hd (zs @ [x])" using ring_next_last Cons.prems(2) by fastforce
      moreover have "distinct (zs @ x # y # u)" using ring_distinct [OF Cons.prems(1)] .
      ultimately show ?thesis using y by (cases zs) auto
    next
      case (Cons y' v')
      then have "y' = y" using y Cons.prems(2) ring_next_middle by fastforce
      then show ?thesis using Cons.IH [of "zs @ [x]" y v'] Cons.prems Cons by simp
    qed
  qed
  from this [of "[]" x xs ys] show ?thesis using assms by simp
qed

lemma ring_of_head:
  assumes "ring h (map Pg A)" "ring h (map Pg B)" "hd A = hd B" shows "A = B"
proof -
  have "A \<noteq> []" "B \<noteq> []" using ring_nonempty [OF assms(1)] ring_nonempty [OF assms(2)] by auto
  then obtain a us vs where ab: "A = a # us" "B = a # vs" using assms(3) by (cases A; cases B) auto
  then have "map Pg us = map Pg vs" using ring_hd_unique [of h "Pg a"] assms(1,2) by simp
  then show ?thesis using ab by (metis inj_map_eq_map injI page_ptr.inject)
qed

lemma alloc_pages_None:
  "free_list s F \<Longrightarrow> length F < unat num \<Longrightarrow> alloc_pages num s = Inr (None, s)"
  by (simp add: alloc_pages_def free_list_def word_less_nat_alt)

lemma page_step_inv:
  assumes "page_step (s, As) (s', As')" "page_inv s F As"
  shows "\<exists>F'. page_inv s' F' As' \<and> set (F' @ concat As') = set (F @ concat As) \<and> nr_pages s' = nr_pages s"
  using assms
proof (cases rule: page_step.cases)
  case (step_alloc num i A)
  have fl: "free_list s F" using assms(2) by (simp add: page_inv_def)
  have le: "unat num \<le> length F" using alloc_pages_None [OF fl, of num] step_alloc(2) by fastforce
  obtain t where t: "alloc_pages num s = Inr (Some (Pg (hd F)), t)"
    "page_inv t (drop (unat num) F) (take (unat num) F # As)" "page_frame s t"
    using alloc_pages_inv [OF assms(2) step_alloc(3) le] by blast
  have eq: "t = s'" "i = hd F" using t(1) step_alloc(2) by auto
  let ?B = "take (unat num) F"
  have "ring (plinks s') (map Pg ?B)" using t(2) eq by (simp add: page_inv_def alloc_set_def)
  moreover have "hd ?B = hd A" using step_alloc(3,5) eq(2) by (cases F) (auto simp: take_Cons')
  ultimately have "?B = A" using ring_of_head step_alloc(4) by blast
  moreover have "set F = set (drop (unat num) F) \<union> set ?B"
    by (metis append_take_drop_id set_append sup_commute)
  ultimately show ?thesis using t(2,3) eq(1) step_alloc(1)
    by (intro exI [of _ "drop (unat num) F"]) (auto simp: page_frame_def)
next
  case (step_alloc_fail num)
  have fl: "free_list s F" using assms(2) by (simp add: page_inv_def)
  have "s' = s"
  proof (cases "length F < unat num")
    case True
    then show ?thesis using alloc_pages_None [OF fl] step_alloc_fail(2) by simp
  next
    case False
    show ?thesis
    proof (cases "unat num = 0")
      case True
      then have "num = 0" by (simp add: unat_eq_zero)
      then show ?thesis using step_alloc_fail(2) by (simp add: alloc_pages_def)
    next
      case nz: False
      then show ?thesis using alloc_pages_inv [OF assms(2), of num] False step_alloc_fail(2) by auto
    qed
  qed
  then show ?thesis using assms(2) step_alloc_fail(1) by auto
next
  case (step_cont fuel num i A)
  obtain pre b post where run: "F = pre @ [b..<b + unat num] @ post" "Pg i = Pg b"
    "page_inv s' (pre @ post) ([b..<b + unat num] # As)" "page_frame s s'"
    using alloc_cont_pages_returns [OF assms(2) step_cont(3,2)] by blast
  have "ring (plinks s') (map Pg [b..<b + unat num])" using run(3) by (simp add: page_inv_def alloc_set_def)
  moreover have "hd [b..<b + unat num] = hd A" using step_cont(3,5) run(2) by (simp add: upt_rec)
  ultimately have "[b..<b + unat num] = A" using ring_of_head step_cont(4) by blast
  then show ?thesis using run step_cont(1) by (intro exI [of _ "pre @ post"]) (auto simp: page_frame_def)
next
  case (step_cont_fail fuel num)
  then show ?thesis using alloc_cont_pages_None assms(2) by blast
next
  case (step_free_all i A As0 Bs)
  then show ?thesis
    using free_all_pages_inv [of s F As0 A Bs i] assms(2)
    by (auto simp: page_frame_def intro!: exI [of _ "sorted_list_of_set (set (F @ A))"])
next
  case (step_free B num r As0 H T Bs)
  then show ?thesis
    using free_pages_inv [of s F As0 H B T Bs num] assms(2)
    by (auto simp: page_frame_def intro!: exI [of _ "sorted_list_of_set (set (F @ B))"])
qed

lemma page_reach_inv:
  assumes "page_reach s0 (s, As)"
  shows "\<exists>F. page_inv s F As \<and>
    set (F @ concat As) = {(nr_pages s * 72 + 16383) div 16384..<nr_pages s}"
proof -
  have "\<exists>F. page_inv (fst c) F (snd c) \<and> set (F @ concat (snd c)) =
      {(nr_pages (fst c) * 72 + 16383) div 16384..<nr_pages (fst c)}" if "page_reach s0 c" for c
    using that
  proof (induction rule: page_reach.induct)
    case (reach_init n s)
    then show ?case
      using init_page_array_inv [OF reach_init(2) refl, of s0] array_pages_bound(2) [OF reach_init(2)]
      by (auto intro!: exI [of _ "[(n * 72 + 16383) div 16384..<n]"])
  next
    case (reach_step c c')
    obtain s As s' As' where c: "c = (s, As)" "c' = (s', As')" by (cases c; cases c')
    then show ?case using page_step_inv [of s As s' As'] reach_step by (metis fst_conv snd_conv)
  qed
  then show ?thesis using assms by fastforce
qed

section \<open>Example states\<close>

text \<open>The state before the page array is set up, and states of a machine with ten pages.\<close>

definition boot_state :: kstate where
  "boot_state = \<lparr>pages = (\<lambda>_. zero_page), plinks = \<lparr>node_prev = (\<lambda>x. x), node_next = (\<lambda>x. x)\<rparr>,
     nr_free_pages = 0, nr_pages = 0, highmem_base_pfn = 0x24000, mem = (\<lambda>_. 0)\<rparr>"

lemma boot_ten_pages:
  "\<exists>s. init_page_array 10 boot_state = Inr s \<and> page_inv s [1, 2, 3, 4, 5, 6, 7, 8, 9] [] \<and> nr_pages s = 10"
proof -
  have "unat (NR_PAGES_NEEDED (of_nat 10 * sizeof_page)) = 1" using array_pages_bound(2) [of 10] by simp
  moreover have "[1..<10] = [1::nat, 2, 3, 4, 5, 6, 7, 8, 9]" by (simp add: upt_rec)
  ultimately show ?thesis using init_page_array_inv [of 10 1 boot_state] by force
qed

lemma ten_pages_alloc_three:
  "\<exists>s :: kstate. page_inv s [4, 5, 6, 7, 8, 9] [[1, 2, 3]]"
proof -
  obtain s where s: "page_inv (s :: kstate) [1, 2, 3, 4, 5, 6, 7, 8, 9] []" using boot_ten_pages by blast
  show ?thesis using alloc_pages_inv [OF s, of 3] by auto
qed

lemma ten_pages_alloc_five:
  "\<exists>s :: kstate. page_inv s [6, 7, 8, 9] [[1, 2, 3, 4, 5]]"
proof -
  obtain s where s: "page_inv (s :: kstate) [1, 2, 3, 4, 5, 6, 7, 8, 9] []" using boot_ten_pages by blast
  show ?thesis using alloc_pages_inv [OF s, of 5] by auto
qed

lemma ten_pages_free_two:
  "\<exists>s :: kstate. page_inv s [3, 5] [[1, 2], [4], [6, 7, 8, 9]]"
proof -
  obtain s where s: "page_inv (s :: kstate) [1, 2, 3, 4, 5, 6, 7, 8, 9] []" using boot_ten_pages by blast
  then obtain s1 where "page_inv (s1 :: kstate) [] ([] @ ([1, 2] @ [3] @ [4, 5, 6, 7, 8, 9]) # [])"
    using alloc_pages_inv [OF s, of 9] by auto
  from free_pages_inv [OF this, of 1] obtain s2 where
    "page_inv (s2 :: kstate) [3] ([[1, 2]] @ ([4] @ [5] @ [6, 7, 8, 9]) # [])" by (auto simp: parts_def)
  from free_pages_inv [OF this, of 1] show ?thesis by (auto simp: parts_def)
qed

section \<open>Properties\<close>

text \<open>
  Property C24. On a well-formed allocator state, \<^verbatim>\<open>alloc_pages\<close> with a count between 1 and the
  number of free pages returns the first page of a new allocated set made of the first \<open>num\<close>
  pages of the free list, which keeps the others; byte memory, the structures of other pages
  and the other allocated sets do not change, and the state stays well formed.
\<close>
theorem alloc_pages_correct:
  assumes "page_inv s F As" "0 < unat num" "unat num \<le> length F"
  shows "\<exists>s'. alloc_pages num s = Inr (Some (Pg (hd F)), s') \<and>
    page_inv s' (drop (unat num) F) (take (unat num) F # As) \<and> page_frame s s' \<and> mem s' = mem s \<and>
    pg_type (pages s' (Pg (hd F))) = PGTYPE_GENERIC \<and>
    (\<forall>q. q \<notin> Pg ` set (take (unat num) F) \<longrightarrow> pages s' q = pages s q)"
  using alloc_pages_inv [OF assms] .

theorem alloc_pages_correct_witness:
  "\<exists>s s'. alloc_pages 3 (s :: kstate) = Inr (Some (Pg 1), s') \<and> page_inv s' [4, 5, 6, 7, 8, 9] [[1, 2, 3]]"
proof -
  obtain s where "page_inv (s :: kstate) [1, 2, 3, 4, 5, 6, 7, 8, 9] []" using boot_ten_pages by blast
  from alloc_pages_correct [OF this, of 3] show ?thesis by auto
qed

text \<open>
  \<^verbatim>\<open>alloc_pages\<close> returns NULL and changes nothing when more pages are asked for than
  are free; asked for no page it dereferences a null pointer, whatever the state.
\<close>
theorem alloc_pages_errors:
  "(nr_free_pages s < num \<longrightarrow> alloc_pages num s = Inr (None, s)) \<and> alloc_pages 0 s = Inl NullPointer"
  by (simp add: alloc_pages_def)

theorem alloc_pages_errors_witness: "alloc_pages 1 boot_state = Inr (None, boot_state)"
  using alloc_pages_errors [of boot_state 1] by (simp add: boot_state_def)

text \<open>
  Property C25. \<^verbatim>\<open>free_all_pages\<close>, called with any page of an allocated set, returns exactly the
  pages of that set to the free list, keeps the list in address order, overwrites the freed
  pages with the byte 0x01 and no other memory, and keeps the other sets.
\<close>
theorem free_all_pages_correct:
  assumes "page_inv s F (As @ A # Bs)" "i \<in> set A"
  shows "\<exists>s'. free_all_pages (Some (Pg i)) s = Inr s' \<and>
    page_inv s' (sorted_list_of_set (set (F @ A))) (As @ Bs) \<and> page_frame s s' \<and>
    mem s' = shred_mem (highmem_base_pfn s) A (mem s) \<and> pages s' = release_pages A (pages s)"
  using free_all_pages_inv [OF assms] .

theorem free_all_pages_correct_witness:
  "\<exists>s s'. free_all_pages (Some (Pg 2)) (s :: kstate) = Inr s' \<and> page_inv s' [1, 2, 3, 4, 5, 6, 7, 8, 9] []"
proof -
  obtain s where "page_inv (s :: kstate) [4, 5, 6, 7, 8, 9] ([] @ [1, 2, 3] # [])"
    using ten_pages_alloc_three by auto
  from free_all_pages_correct [OF this, of 2] show ?thesis by auto
qed

text \<open>
  Allocating pages and freeing them again gives back a state with the same free
  list and the same allocated sets; only the content of the freed pages is lost.
\<close>
theorem alloc_free_roundtrip:
  assumes "page_inv s F As" "0 < unat num" "unat num \<le> length F"
  shows "\<exists>p s1 s2. alloc_pages num s = Inr (Some p, s1) \<and> free_all_pages (Some p) s1 = Inr s2 \<and>
    page_inv s2 F As \<and> page_frame s s2 \<and> mem s2 = shred_mem (highmem_base_pfn s) (take (unat num) F) (mem s)"
proof -
  let ?A = "take (unat num) F" and ?R = "drop (unat num) F"
  obtain s1 where s1: "alloc_pages num s = Inr (Some (Pg (hd F)), s1)" "page_inv s1 ?R ([] @ ?A # As)"
    "page_frame s s1" "mem s1 = mem s" using alloc_pages_inv [OF assms] by auto
  have F: "F \<noteq> []" "sorted_wrt (<) F" using assms by (auto simp: page_inv_def free_list_def)
  have "set (?R @ ?A) = set F" by (metis append_take_drop_id set_append sup_commute)
  then have "sorted_list_of_set (set (?R @ ?A)) = F"
    using F(2) by (metis sorted_list_of_set.idem_if_sorted_distinct strict_sorted_imp_sorted sorted_wrt_less_distinct)
  then show ?thesis
    using free_all_pages_inv [OF s1(2), of "hd F"] hd_in_take [OF assms(2) F(1)] s1
    by (auto simp: page_frame_def)
qed

theorem alloc_free_roundtrip_witness:
  "\<exists>p s s1 s2. alloc_pages 4 (s :: kstate) = Inr (Some p, s1) \<and> free_all_pages (Some p) s1 = Inr s2 \<and>
     page_inv s2 [1, 2, 3, 4, 5, 6, 7, 8, 9] []"
proof -
  obtain s where "page_inv (s :: kstate) [1, 2, 3, 4, 5, 6, 7, 8, 9] []" using boot_ten_pages by blast
  from alloc_free_roundtrip [OF this, of 4] show ?thesis by auto
qed

text \<open>
  Property C18. \<^verbatim>\<open>free_pages\<close> on a segment \<open>B\<close> of an allocated set frees exactly the pages of \<open>B\<close>,
  makes what is before and after it allocated sets of their own with correct counts and first
  pages, and returns the page after the segment (the first page when there is none).
\<close>
theorem free_pages_correct:
  assumes "page_inv s F (As @ (H @ B @ T) # Bs)" "B \<noteq> []" "unat num = length B"
  shows "\<exists>s'. free_pages (Some (Pg (hd B))) num s = Inr (Some (Pg (hd (T @ H @ B))), s') \<and>
    page_inv s' (sorted_list_of_set (set (F @ B))) (As @ parts H @ parts T @ Bs) \<and> page_frame s s' \<and>
    mem s' = shred_mem (highmem_base_pfn s) B (mem s)"
  using free_pages_inv [OF assms] .

theorem free_pages_correct_witness:
  "\<exists>s s'. free_pages (Some (Pg 2)) 2 (s :: kstate) = Inr (Some (Pg 4), s') \<and>
     page_inv s' [2, 3, 6, 7, 8, 9] [[1], [4, 5]]"
proof -
  obtain s where "page_inv (s :: kstate) [6, 7, 8, 9] ([] @ ([1] @ [2, 3] @ [4, 5]) # [])"
    using ten_pages_alloc_five by auto
  from free_pages_correct [OF this, of 2] show ?thesis by (auto simp: parts_def)
qed

text \<open>
  Property C1. Every state reached from the set-up of the page array by calls of \<^verbatim>\<open>alloc_pages\<close>,
  \<^verbatim>\<open>alloc_cont_pages\<close>, \<^verbatim>\<open>free_all_pages\<close> and \<^verbatim>\<open>free_pages\<close> that return, in any order, is well
  formed: the free list and the allocated sets are disjoint and together hold every page
  except those of the page array itself, so no page is in use twice and none is lost.
\<close>
theorem page_reach_no_leak:
  assumes "page_reach s0 (s, As)"
  shows "\<exists>F. page_inv s F As \<and>
    set (F @ concat As) = {(nr_pages s * 72 + 16383) div 16384..<nr_pages s}"
  using page_reach_inv [OF assms] .

theorem page_reach_no_leak_witness:
  "\<exists>s F. page_reach boot_state (s, [[1, 2, 3]]) \<and> page_inv s F [[1, 2, 3]] \<and> set (F @ [1, 2, 3]) = {1..<nr_pages s}"
proof -
  obtain s where s: "init_page_array 10 boot_state = Inr s" "nr_pages s = 10"
    "page_inv s [1, 2, 3, 4, 5, 6, 7, 8, 9] []" using boot_ten_pages by blast
  obtain s' where s': "alloc_pages 3 s = Inr (Some (Pg 1), s')" "page_frame s s'"
    "page_inv s' [4, 5, 6, 7, 8, 9] [[1, 2, 3]]" using alloc_pages_inv [OF s(3), of 3] by auto
  have "page_reach boot_state (s, [])" by (rule reach_init [OF s(1)]) simp
  moreover have "page_step (s, []) (s', [[1, 2, 3]])"
    by (rule step_alloc [OF s'(1)]) (use s'(3) in \<open>auto simp: page_inv_def alloc_set_def\<close>)
  ultimately have r: "page_reach boot_state (s', [[1, 2, 3]])" by (rule reach_step)
  have "nr_pages s' = 10" using s'(2) s(2) by (simp add: page_frame_def)
  then show ?thesis using page_reach_no_leak [OF r] r by (auto intro!: exI [of _ s'])
qed

text \<open>
  Property C19. When the free list contains \<open>num\<close> consecutive pages followed by another free
  page, \<^verbatim>\<open>alloc_cont_pages\<close> finds \<open>num\<close> consecutive pages, takes them off the free list and
  returns them as one allocated set.
\<close>
theorem alloc_cont_pages_correct:
  assumes "page_inv s F As" "F = pre @ [a..<a + unat num] @ post" "post \<noteq> []" "0 < num" "length F < fuel"
  shows "\<exists>pre' b post' s'. F = pre' @ [b..<b + unat num] @ post' \<and>
    alloc_cont_pages fuel num s = Inr (Some (Pg b), s') \<and>
    page_inv s' (pre' @ post') ([b..<b + unat num] # As) \<and> page_frame s s' \<and> mem s' = mem s"
  using alloc_cont_pages_inv [OF assms] .

theorem alloc_cont_pages_correct_witness:
  "\<exists>s b s'. alloc_cont_pages 10 4 (s :: kstate) = Inr (Some (Pg b), s')"
proof -
  obtain s where s: "page_inv (s :: kstate) [1, 2, 3, 4, 5, 6, 7, 8, 9] []" using boot_ten_pages by blast
  have "[1, 2, 3, 4, 5, 6, 7, 8, 9] = [] @ [1..<1 + unat (4 :: size_t)] @ [5::nat, 6, 7, 8, 9]"
    by (simp add: upt_rec)
  moreover have "[5::nat, 6, 7, 8, 9] \<noteq> []" "0 < (4 :: size_t)" "length [1::nat, 2, 3, 4, 5, 6, 7, 8, 9] < 10"
    by simp_all
  ultimately show ?thesis using alloc_cont_pages_correct [OF s] by blast
qed

text \<open>
  Property C33. When the free pages are exactly one run of \<open>num\<close> consecutive pages,
  \<^verbatim>\<open>alloc_cont_pages(num)\<close> does not return: the search runs out of every fuel.
\<close>
theorem alloc_cont_pages_hangs:
  assumes "page_inv s [a..<a + unat num] As" "0 < num"
  shows "alloc_cont_pages fuel num s = Inl Hang"
proof -
  have fl: "free_list s [a..<a + unat num]" and np: "nr_pages s < 2 ^ 32" using assms(1) by (auto simp: page_inv_def)
  have n: "0 < unat num" "unat num < 2 ^ 32"
    using free_list_bound [OF fl] np assms(2) by (auto simp: word_less_nat_alt)
  have "first_free_page s = Pg (a + 0)"
    using first_free_page_hd [OF fl] n by (simp add: upt_rec)
  then have "find_run fuel num num (first_free_page s) None s = Inl Hang"
    using find_run_circle [of s a "unat num" "Pg (a + 0)" num fuel None] fl n
    by (auto simp: free_list_def)
  moreover have "\<not> nr_free_pages s < num" using fl by (simp add: free_list_def word_less_nat_alt)
  ultimately show ?thesis by (simp add: alloc_cont_pages_def)
qed

theorem alloc_cont_pages_hangs_witness:
  "\<exists>s. nr_free_pages (s :: kstate) = 9 \<and> (\<forall>fuel. alloc_cont_pages fuel 9 s = Inl Hang)"
proof -
  obtain s where s: "page_inv (s :: kstate) [1, 2, 3, 4, 5, 6, 7, 8, 9] []" using boot_ten_pages by blast
  have eq: "[1, 2, 3, 4, 5, 6, 7, 8, 9] = [1::nat..<1 + unat (9 :: size_t)]" by (simp add: upt_rec)
  have "alloc_cont_pages fuel 9 s = Inl Hang" for fuel
    using alloc_cont_pages_hangs [OF s [unfolded eq]] by simp
  moreover have "unat (nr_free_pages s) = unat (9 :: size_t)" using s by (simp add: page_inv_def free_list_def)
  then have "nr_free_pages s = 9" by (simp only: word_unat_eq_iff)
  ultimately show ?thesis by blast
qed

text \<open>
  With two free pages that are not adjacent, \<^verbatim>\<open>alloc_cont_pages(2)\<close> neither finds a
  run nor reports that there is none: it takes the head of the free list for the last page of
  the run and accesses memory outside the page array through it.
\<close>
theorem alloc_cont_pages_uses_head:
  assumes "page_inv s [x, y] As" "y \<noteq> Suc x" "4 \<le> fuel"
  shows "alloc_cont_pages fuel 2 s = Inl (BadPointer ''struct page'')"
proof -
  have fl: "free_list s [x, y]" using assms(1) by (auto simp: page_inv_def)
  then have r: "ring (plinks s) ([EndFree] @ Pg x # [Pg y])" "ring (plinks s) ([EndFree, Pg x] @ Pg y # [])"
    by (auto simp: free_list_def)
  have nx: "next_page s (Pg x) = Pg y" "next_page s (Pg y) = EndFree" "next_page s EndFree = Pg x"
    using ll.nxt_middle [OF r(1)] ll.nxt_middle [OF r(2)] ll.rep_nxt [of "plinks s" EndFree] r(1)
    by (simp_all add: next_page_def)
  have "first_free_page s = Pg x" using first_free_page_hd [OF fl] by simp
  moreover obtain f where "fuel = Suc (Suc (Suc (Suc f)))"
    using assms(3) by (auto simp: numeral_eq_Suc Suc_le_eq dest!: less_imp_Suc_add)
  ultimately have "find_run fuel 2 2 (first_free_page s) None s = Inr (0, Some EndFree)"
    using nx assms(2) by (simp add: Let_def)
  moreover have "\<not> nr_free_pages s < 2" using fl by (simp add: free_list_def word_less_nat_alt)
  moreover have "take_run 2 (Some EndFree) None s = Inl (BadPointer ''struct page'')"
    by (simp add: numeral_2_eq_2 reserve_page_def write_page_def)
  ultimately show ?thesis by (simp add: alloc_cont_pages_def)
qed

theorem alloc_cont_pages_uses_head_witness:
  "\<exists>s. nr_free_pages (s :: kstate) = 2 \<and> alloc_cont_pages 20 2 s = Inl (BadPointer ''struct page'')"
proof -
  obtain s where s: "page_inv (s :: kstate) [3, 5] [[1, 2], [4], [6, 7, 8, 9]]" using ten_pages_free_two by blast
  then have "unat (nr_free_pages s) = unat (2 :: size_t)" by (simp add: page_inv_def free_list_def)
  then have "nr_free_pages s = 2" by (simp only: word_unat_eq_iff)
  then show ?thesis using alloc_cont_pages_uses_head [OF s, of 20] by auto
qed

end
