(* ===== verification/Slab.thy ===== *)
theory Slab
  imports Page_Alloc_Props
begin

text \<open>
  The slab allocator (\<^verbatim>\<open>include/mm/slab.h\<close>, \<^verbatim>\<open>kern/mm/slab.c\<close>) and
  \<^verbatim>\<open>kmalloc\<close>/\<^verbatim>\<open>kfree\<close> (\<^verbatim>\<open>kern/mm/kmalloc.c\<close>).

  A \<^verbatim>\<open>kmem_slab_t *\<close> is named by the page it is embedded in, a \<^verbatim>\<open>kmem_cache_t *\<close>
  by its index in \<^verbatim>\<open>kmcache\<close>. The nodes of the slab queues are in \<open>slab_links\<close>. The list of
  free chunks of a slab is in the byte memory of its page, as in the code: every free chunk
  starts with the 32-bit index of the next one.
\<close>

section \<open>State\<close>

record kmem_cache =
  cache_avail :: "page_ptr option"
  cache_full :: "page_ptr option"
  cache_size :: u64

record kmem_state = kstate +
  slab_links :: "page_ptr list_heap"
  kmcache :: "kmem_cache list"
  kmcache_last_accessed :: "nat option"

abbreviation (input) NR_SLAB_ORDERS :: nat where "NR_SLAB_ORDERS \<equiv> PGSHIFT - 1"
abbreviation (input) NR_TINY_SIZES :: nat where "NR_TINY_SIZES \<equiv> 8"
abbreviation (input) INDEX_INVALID :: u32 where "INDEX_INVALID \<equiv> - 1"

definition LARGE_CHUNK :: u64 where "LARGE_CHUNK = drop_bit 1 PGSIZE"

definition lbound :: "u64 list" where
  "lbound = [8, 16, 24, 24, 40, 40, 40, 40, 72, 72, 72, 72, 104, 104, 104, 104,
     136, 136, 136, 136, 136, 136, 136, 136, 200, 200, 200, 200, 200, 200, 200, 200]"

definition ubound :: "u64 list" where
  "ubound = [8, 16, 32, 32, 64, 64, 64, 64, 96, 96, 96, 96, 128, 128, 128, 128,
     192, 192, 192, 192, 192, 192, 192, 192, 256, 256, 256, 256, 256, 256, 256, 256]"

definition tiny_sizes :: "u64 list" where
  "tiny_sizes = [8, 16, 32, 64, 96, 128, 192, 256]"

text \<open>An index outside the tables is an access out of bounds.\<close>

definition table_at :: "u64 list \<Rightarrow> u64 \<Rightarrow> u64 result" where
  "table_at xs i = (if unat i < length xs then Inr (xs ! unat i) else Inl (BadPointer ''bound table''))"

definition LBOUND :: "u64 \<Rightarrow> u64 result" where
  "LBOUND x = (if 256 < x then Inr (push_bit (fls (ucast (x - 1)) - 1) 1 + 8)
               else table_at lbound (drop_bit 3 x - 1))"

definition UBOUND :: "u64 \<Rightarrow> u64 result" where
  "UBOUND x = (if 256 < x then Inr (push_bit (fls (ucast (x - 1))) 1)
               else table_at ubound (drop_bit 3 x - 1))"

definition get_cache :: "'s kmem_state_scheme \<Rightarrow> nat \<Rightarrow> kmem_cache result" where
  "get_cache s c = (if c < length (kmcache s) then Inr (kmcache s ! c) else Inl (BadPointer ''kmem_cache''))"

definition set_cache :: "nat \<Rightarrow> (kmem_cache \<Rightarrow> kmem_cache) \<Rightarrow> 's kmem_state_scheme \<Rightarrow> 's kmem_state_scheme result" where
  "set_cache c f s =
     (if c < length (kmcache s) then Inr (s\<lparr>kmcache := (kmcache s)[c := f (kmcache s ! c)]\<rparr>)
      else Inl (BadPointer ''kmem_cache''))"

section \<open>find\_kmcache\<close>

definition kmcache_almost_fit :: "u64 \<Rightarrow> nat option \<Rightarrow> 's kmem_state_scheme \<Rightarrow> bool result" where
  "kmcache_almost_fit n c s =
     (case c of None \<Rightarrow> Inr False
      | Some c \<Rightarrow>
          rbind (get_cache s c) (\<lambda>k.
          rbind (LBOUND (cache_size k)) (\<lambda>l.
          Inr (l \<le> n \<and> n \<le> cache_size k))))"

fun search_kmcache :: "nat list \<Rightarrow> size_t \<Rightarrow> 's kmem_state_scheme \<Rightarrow> (nat \<times> 's kmem_state_scheme) result" where
  "search_kmcache [] bytes s = Inl (Panic ''Failed to find kmem_cache'')"
| "search_kmcache (i # is) bytes s =
     rbind (kmcache_almost_fit bytes (Some i) s) (\<lambda>fit.
     if fit then Inr (i, s\<lparr>kmcache_last_accessed := Some i\<rparr>) else search_kmcache is bytes s)"

definition find_kmcache :: "size_t \<Rightarrow> 's kmem_state_scheme \<Rightarrow> (nat \<times> 's kmem_state_scheme) result" where
  "find_kmcache bytes s =
     rbind (kmcache_almost_fit bytes (kmcache_last_accessed s) s) (\<lambda>fit.
     if fit then rbind (deref (kmcache_last_accessed s)) (\<lambda>c. Inr (c, s))
     else search_kmcache [0..<NR_SLAB_ORDERS] bytes s)"

definition find_available_slab :: "'s kmem_state_scheme \<Rightarrow> nat \<Rightarrow> page_ptr option result" where
  "find_available_slab s c = rbind (get_cache s c) (\<lambda>k. Inr (cache_avail k))"

section \<open>Slab queues\<close>

definition read_slab :: "'s kmem_state_scheme \<Rightarrow> page_ptr \<Rightarrow> kmem_slab result" where
  "read_slab s p = rbind (read_page s p) (\<lambda>g. Inr (pg_slab g))"

definition write_slab :: "page_ptr \<Rightarrow> (kmem_slab \<Rightarrow> kmem_slab) \<Rightarrow> 's kmem_state_scheme \<Rightarrow> 's kmem_state_scheme result" where
  "write_slab p f s = write_page p (\<lambda>g. g\<lparr>pg_slab := f (pg_slab g)\<rparr>) s"

definition next_slab :: "'s kmem_state_scheme \<Rightarrow> page_ptr \<Rightarrow> page_ptr" where
  "next_slab s p = list_next (slab_links s) p"

definition single_slab :: "'s kmem_state_scheme \<Rightarrow> page_ptr \<Rightarrow> bool" where
  "single_slab s p = (p = next_slab s p)"

definition slab_full :: "'s kmem_state_scheme \<Rightarrow> page_ptr \<Rightarrow> bool result" where
  "slab_full s p = rbind (read_slab s p) (\<lambda>l. Inr (slab_count l = 0))"

definition slab_empty :: "'s kmem_state_scheme \<Rightarrow> page_ptr \<Rightarrow> bool result" where
  "slab_empty s p = rbind (read_slab s p) (\<lambda>l. Inr (slab_count l = slab_capacity l))"

text \<open>\<^verbatim>\<open>slab->cache\<close>, followed to the cache.\<close>

definition slab_cache_of :: "'s kmem_state_scheme \<Rightarrow> page_ptr \<Rightarrow> nat result" where
  "slab_cache_of s p = rbind (read_slab s p) (\<lambda>l. deref (slab_cache l))"

definition set_slab_available :: "page_ptr \<Rightarrow> 's kmem_state_scheme \<Rightarrow> 's kmem_state_scheme result" where
  "set_slab_available slab s =
     (let nxt = next_slab s slab;
          s = s\<lparr>slab_links := list_del_init slab (slab_links s)\<rparr> in
      rbind (slab_cache_of s slab) (\<lambda>c.
      rbind (get_cache s c) (\<lambda>k.
      rbind (if cache_full k = Some slab then
               set_cache c (\<lambda>k. k\<lparr>cache_full := if slab = nxt then None else Some nxt\<rparr>) s
             else Inr s) (\<lambda>s.
      rbind (get_cache s c) (\<lambda>k.
      case cache_avail k of
        None \<Rightarrow> set_cache c (\<lambda>k. k\<lparr>cache_avail := Some slab\<rparr>) s
      | Some a \<Rightarrow> Inr (s\<lparr>slab_links := list_add_before a slab (slab_links s)\<rparr>))))))"

definition set_slab_full :: "page_ptr \<Rightarrow> 's kmem_state_scheme \<Rightarrow> 's kmem_state_scheme result" where
  "set_slab_full slab s =
     (let nxt = next_slab s slab;
          s = s\<lparr>slab_links := list_del_init slab (slab_links s)\<rparr> in
      rbind (slab_cache_of s slab) (\<lambda>c.
      rbind (get_cache s c) (\<lambda>k.
      rbind (if cache_avail k = Some slab then
               set_cache c (\<lambda>k. k\<lparr>cache_avail := if slab = nxt then None else Some nxt\<rparr>) s
             else Inr s) (\<lambda>s.
      rbind (get_cache s c) (\<lambda>k.
      case cache_full k of
        None \<Rightarrow> set_cache c (\<lambda>k. k\<lparr>cache_full := Some slab\<rparr>) s
      | Some a \<Rightarrow> Inr (s\<lparr>slab_links := list_add_before a slab (slab_links s)\<rparr>))))))"

definition set_slab_empty :: "page_ptr \<Rightarrow> 's kmem_state_scheme \<Rightarrow> 's kmem_state_scheme result" where
  "set_slab_empty slab s =
     (let nxt = next_slab s slab;
          s = s\<lparr>slab_links := list_del_init slab (slab_links s)\<rparr> in
      rbind (slab_cache_of s slab) (\<lambda>c.
      rbind (get_cache s c) (\<lambda>k.
      rbind (if cache_avail k = Some slab then
               set_cache c (\<lambda>k. k\<lparr>cache_avail := if slab = nxt then None else Some nxt\<rparr>) s
             else Inr s) (\<lambda>s.
      rbind (get_cache s c) (\<lambda>k.
      if cache_full k = Some slab then Inl (Panic ''Full slab becoming immediately empty?'') else Inr s)))))"

section \<open>Slabs\<close>

text \<open>The loop of \<^verbatim>\<open>fill_slab\<close>; \<open>n\<close> rounds are left, \<open>i\<close> is the loop counter.\<close>

fun fill_slab_loop :: "nat \<Rightarrow> u32 \<Rightarrow> addr_t \<Rightarrow> size_t \<Rightarrow> u32 \<Rightarrow> memory \<Rightarrow> memory" where
  "fill_slab_loop 0 i entry sz capacity m = m"
| "fill_slab_loop (Suc n) i entry sz capacity m =
     fill_slab_loop n (i + 1) (entry + sz) sz capacity
       (store32 entry (if i = capacity - 1 then INDEX_INVALID else i + 1) m)"

definition fill_slab :: "page_ptr \<Rightarrow> size_t \<Rightarrow> u32 \<Rightarrow> 's kmem_state_scheme \<Rightarrow> 's kmem_state_scheme" where
  "fill_slab slab sz capacity s =
     s\<lparr>mem := fill_slab_loop (unat capacity) 0 (page_to_kvaddr s (Some slab)) sz capacity (mem s)\<rparr>"

definition slab_new :: "nat \<Rightarrow> 's kmem_state_scheme \<Rightarrow> (page_ptr option \<times> 's kmem_state_scheme) result" where
  "slab_new c s =
     rbind (pgalloc s) (\<lambda>(p, s).
     case p of
       None \<Rightarrow> Inr (None, s)
     | Some p \<Rightarrow>
         rbind (write_page p (\<lambda>g. g\<lparr>pg_type := PGTYPE_SLAB\<rparr>) s) (\<lambda>s.
         let s = s\<lparr>slab_links := list_init p (slab_links s)\<rparr> in
         rbind (get_cache s c) (\<lambda>k.
         rbind (page_count s p) (\<lambda>n.
         let cap = ucast (PGSIZE * n div cache_size k) in
         rbind (write_slab p (\<lambda>l. l\<lparr>slab_cache := Some c, slab_index := 0,
                   slab_capacity := cap, slab_count := cap\<rparr>) s) (\<lambda>s.
         rbind (set_slab_available p s) (\<lambda>s.
         Inr (Some p, fill_slab p (cache_size k) cap s)))))))"

definition slab_delete :: "page_ptr \<Rightarrow> 's kmem_state_scheme \<Rightarrow> 's kmem_state_scheme result" where
  "slab_delete slab s = pgfree (Some slab) s"

text \<open>
  \<^verbatim>\<open>slab_alloc\<close>. \<^verbatim>\<open>slab->index\<close> is an \<^verbatim>\<open>int\<close>: the assertion compares it signed, and
  in the product with the size it is sign-extended.
\<close>

definition slab_alloc :: "size_t \<Rightarrow> 's kmem_state_scheme \<Rightarrow> (addr_t \<times> 's kmem_state_scheme) result" where
  "slab_alloc bytes s =
     rbind (find_kmcache bytes s) (\<lambda>(c, s).
     rbind (find_available_slab s c) (\<lambda>slab.
     rbind (case slab of None \<Rightarrow> slab_new c s | Some p \<Rightarrow> Inr (Some p, s)) (\<lambda>(slab, s).
     case slab of
       None \<Rightarrow> Inr (0, s)
     | Some p \<Rightarrow>
         rbind (read_slab s p) (\<lambda>l.
         rbind (assert_that ''slab->index >= 0'' (0 \<le> sint (slab_index l))) (\<lambda>_.
         rbind (get_cache s c) (\<lambda>k.
         let result = page_to_kvaddr s (Some p) + scast (slab_index l) * cache_size k in
         rbind (write_slab p (\<lambda>l. l\<lparr>slab_index := load32 result (mem s)\<rparr>) s) (\<lambda>s.
         rbind (write_slab p (\<lambda>l. l\<lparr>slab_count := slab_count l - 1\<rparr>) s) (\<lambda>s.
         rbind (slab_full s p) (\<lambda>full.
         rbind (if full then set_slab_full p s else Inr s) (\<lambda>s.
         Inr (result, s\<lparr>mem := memset result 0x02 bytes (mem s)\<rparr>))))))))))) "

definition slab_free :: "addr_t \<Rightarrow> 's kmem_state_scheme \<Rightarrow> 's kmem_state_scheme result" where
  "slab_free ptr s =
     rbind (kvaddr_to_page s ptr) (\<lambda>p0.
     rbind (deref p0) (\<lambda>p0.
     rbind (is_slab s p0) (\<lambda>isl.
     rbind (assert_that ''is_slab(KVADDR_TO_PAGE((addr_t)ptr))'' isl) (\<lambda>_.
     rbind (first_page s p0) (\<lambda>p.
     rbind (deref p) (\<lambda>p.
     let slab_start = page_to_kvaddr s (Some p) in
     rbind (slab_cache_of s p) (\<lambda>c.
     rbind (get_cache s c) (\<lambda>k.
     let index = ucast ((ptr - slab_start) div cache_size k) :: u32 in
     rbind (read_slab s p) (\<lambda>l.
     let s = s\<lparr>mem := store32 (slab_start + cache_size k * scast index) (slab_index l) (mem s)\<rparr> in
     rbind (write_slab p (\<lambda>l. l\<lparr>slab_index := index\<rparr>) s) (\<lambda>s.
     rbind (slab_full s p) (\<lambda>full.
     rbind (if full then set_slab_available p s else Inr s) (\<lambda>s.
     rbind (write_slab p (\<lambda>l. l\<lparr>slab_count := slab_count l + 1\<rparr>) s) (\<lambda>s.
     rbind (slab_empty s p) (\<lambda>emp.
     if emp then rbind (set_slab_empty p s) (\<lambda>s. slab_delete p s) else Inr s))))))))))))))"

section \<open>slab\_bootstrap\<close>

fun bootstrap_tiny :: "nat list \<Rightarrow> 's kmem_state_scheme \<Rightarrow> 's kmem_state_scheme result" where
  "bootstrap_tiny [] s = Inr s"
| "bootstrap_tiny (i # is) s =
     rbind (table_at tiny_sizes (of_nat i)) (\<lambda>sz.
     rbind (set_cache i (\<lambda>k. k\<lparr>cache_avail := None, cache_full := None, cache_size := sz\<rparr>) s) (\<lambda>s.
     rbind (assert_that ''kmcache[i].size <= LARGE_CHUNK'' (sz \<le> LARGE_CHUNK)) (\<lambda>_.
     bootstrap_tiny is s)))"

fun bootstrap_orders :: "nat list \<Rightarrow> 's kmem_state_scheme \<Rightarrow> 's kmem_state_scheme result" where
  "bootstrap_orders [] s = Inr s"
| "bootstrap_orders (i # is) s =
     rbind (get_cache s (i - 1)) (\<lambda>prv.
     let sz = cache_size prv * 2 in
     rbind (set_cache i (\<lambda>k. k\<lparr>cache_avail := None, cache_full := None, cache_size := sz\<rparr>) s) (\<lambda>s.
     rbind (assert_that ''kmcache[i].size <= LARGE_CHUNK'' (sz \<le> LARGE_CHUNK)) (\<lambda>_.
     bootstrap_orders is s)))"

definition slab_bootstrap :: "'s kmem_state_scheme \<Rightarrow> 's kmem_state_scheme result" where
  "slab_bootstrap s =
     rbind (bootstrap_tiny [0..<NR_TINY_SIZES] s) (\<lambda>s.
     bootstrap_orders [NR_TINY_SIZES..<NR_SLAB_ORDERS] s)"

section \<open>kmalloc and kfree\<close>

abbreviation (input) ALIGN :: u64 where "ALIGN \<equiv> 8"

definition kmalloc_large :: "nat \<Rightarrow> size_t \<Rightarrow> 's kmem_state_scheme \<Rightarrow> (addr_t \<times> 's kmem_state_scheme) result" where
  "kmalloc_large fuel bytes s =
     (let pgs = NR_PAGES_NEEDED bytes in
      rbind (alloc_cont_pages fuel pgs s) (\<lambda>(p, s).
      case p of
        None \<Rightarrow> Inr (0, s)
      | Some q \<Rightarrow>
          rbind (write_page q (\<lambda>g. g\<lparr>pg_type := PGTYPE_GENERIC\<rparr>) s) (\<lambda>s.
          Inr (page_to_kvaddr s p, s))))"

definition kmalloc :: "nat \<Rightarrow> size_t \<Rightarrow> 's kmem_state_scheme \<Rightarrow> (addr_t \<times> 's kmem_state_scheme) result" where
  "kmalloc fuel bytes s =
     (let bytes = ROUNDUP bytes ALIGN in
      if LARGE_CHUNK < bytes then kmalloc_large fuel bytes s else slab_alloc bytes s)"

definition kfree_large :: "addr_t \<Rightarrow> 's kmem_state_scheme \<Rightarrow> 's kmem_state_scheme result" where
  "kfree_large ptr s = rbind (kvaddr_to_page s ptr) (\<lambda>p. free_all_pages p s)"

definition kfree :: "addr_t \<Rightarrow> 's kmem_state_scheme \<Rightarrow> 's kmem_state_scheme result" where
  "kfree ptr s =
     (if ptr = 0 then Inr s
      else
        rbind (kvaddr_to_page s ptr) (\<lambda>p.
        rbind (deref p) (\<lambda>p.
        rbind (is_slab s p) (\<lambda>isl.
        if isl then slab_free ptr s else kfree_large ptr s))))"

end
