(* ===== verification/Tlb.thy ===== *)
theory Tlb
  imports Slab
begin

text \<open>
  The translation lookaside buffer and the routines of \<^verbatim>\<open>arch/mips/mm/tlbops.c\<close> and
  \<^verbatim>\<open>arch/mips/mm/init.c\<close> that maintain it. The TLB is a list of entry pairs; the
  instructions \<^verbatim>\<open>tlbp\<close>, \<^verbatim>\<open>tlbr\<close> and \<^verbatim>\<open>tlbwi\<close> work on the CP0 registers as the
  MIPS64 architecture describes them. After a failed probe the architecture sets the top bit
  of the index register and leaves the index field unpredictable: \<open>tlb_miss_index\<close> is what
  the processor leaves there.
\<close>

section \<open>State\<close>

record tlb_entry =
  te_hi :: u64
  te_lo0 :: u64
  te_lo1 :: u64

record mach_state = kmem_state +
  tlb :: "tlb_entry list"
  tlb_miss_index :: u32
  cp0_index :: u32
  cp0_entryhi :: u64
  cp0_entrylo0 :: u64
  cp0_entrylo1 :: u64
  cp0_pagemask :: u64

definition ENTHI_ASID_MASK :: u64 where "ENTHI_ASID_MASK = 0xff"
definition CKSEG0 :: u64 where "CKSEG0 = 0xffffffff80000000"

text \<open>The shift of \<^verbatim>\<open>ENTRYHI_DUMMY\<close> is one of a 32-bit integer.\<close>

definition ENTRYHI_DUMMY :: "u32 \<Rightarrow> u64" where
  "ENTRYHI_DUMMY idx = CKSEG0 + ucast (push_bit (PGSHIFT + 1) idx)"

section \<open>Instructions\<close>

definition tlb_global :: "tlb_entry \<Rightarrow> bool" where
  "tlb_global e = (bit (te_lo0 e) 0 \<and> bit (te_lo1 e) 0)"

definition tlb_match :: "u64 \<Rightarrow> tlb_entry \<Rightarrow> bool" where
  "tlb_match hi e =
     (drop_bit (PGSHIFT + 1) hi = drop_bit (PGSHIFT + 1) (te_hi e) \<and>
      (tlb_global e \<or> hi AND ENTHI_ASID_MASK = te_hi e AND ENTHI_ASID_MASK))"

fun probe_from :: "nat \<Rightarrow> u64 \<Rightarrow> tlb_entry list \<Rightarrow> nat option" where
  "probe_from i hi [] = None"
| "probe_from i hi (e # es) = (if tlb_match hi e then Some i else probe_from (Suc i) hi es)"

definition tlbp :: "'s mach_state_scheme \<Rightarrow> 's mach_state_scheme" where
  "tlbp s = s\<lparr>cp0_index := (case probe_from 0 (cp0_entryhi s) (tlb s) of
       Some i \<Rightarrow> of_nat i | None \<Rightarrow> 0x80000000 OR tlb_miss_index s)\<rparr>"

text \<open>The index field selects an entry; a processor ignores the bits above it.\<close>

definition tlb_sel :: "'s mach_state_scheme \<Rightarrow> nat" where
  "tlb_sel s = unat (cp0_index s) mod length (tlb s)"

definition tlbr :: "'s mach_state_scheme \<Rightarrow> 's mach_state_scheme" where
  "tlbr s =
     (if tlb s = [] then s
      else let e = tlb s ! tlb_sel s
           in s\<lparr>cp0_entryhi := te_hi e, cp0_entrylo0 := te_lo0 e, cp0_entrylo1 := te_lo1 e\<rparr>)"

definition tlbwi :: "'s mach_state_scheme \<Rightarrow> 's mach_state_scheme" where
  "tlbwi s = s\<lparr>tlb := (tlb s)[tlb_sel s :=
     \<lparr>te_hi = cp0_entryhi s, te_lo0 = cp0_entrylo0 s, te_lo1 = cp0_entrylo1 s\<rparr>]\<rparr>"

section \<open>tlb\_flush\_all and tlb\_remove\<close>

fun tlb_flush_loop :: "nat \<Rightarrow> nat \<Rightarrow> 's mach_state_scheme \<Rightarrow> 's mach_state_scheme" where
  "tlb_flush_loop 0 i s = s"
| "tlb_flush_loop (Suc n) i s =
     tlb_flush_loop n (Suc i)
       (tlbwi (s\<lparr>cp0_index := of_nat i, cp0_entryhi := ENTRYHI_DUMMY (of_nat i),
                 cp0_entrylo0 := 0, cp0_entrylo1 := 0\<rparr>))"

definition tlb_flush_all :: "'s mach_state_scheme \<Rightarrow> 's mach_state_scheme" where
  "tlb_flush_all s = tlb_flush_loop (length (tlb s)) 0 s"

text \<open>
  \<^verbatim>\<open>tlb_remove\<close>. \<^verbatim>\<open>index\<close> is an \<^verbatim>\<open>unsigned int\<close>, so \<^verbatim>\<open>index >= 0\<close>
  is no test; \<^verbatim>\<open>entrylo0\<close> and \<^verbatim>\<open>entrylo1\<close> are read before \<^verbatim>\<open>tlbr\<close>.
\<close>

definition tlb_remove :: "addr_t \<Rightarrow> 's mach_state_scheme \<Rightarrow> 's mach_state_scheme" where
  "tlb_remove vaddr s =
     (let asid = cp0_entryhi s AND ENTHI_ASID_MASK;
          s = s\<lparr>cp0_entryhi := asid OR push_bit (PGSHIFT + 1) (drop_bit (PGSHIFT + 1) vaddr)\<rparr>;
          s = tlbp s;
          index = cp0_index s;
          entrylo1 = cp0_entrylo1 s;
          entrylo0 = cp0_entrylo0 s
      in if index \<ge> 0 then
           let s = tlbr s;
               odd_page = vaddr AND PGSIZE \<noteq> 0;
               s = (if odd_page then s\<lparr>cp0_entrylo1 := 0\<rparr> else s\<lparr>cp0_entrylo0 := 0\<rparr>);
               entrylo1 = (if odd_page then 0 else entrylo1);
               entrylo0 = (if odd_page then entrylo0 else 0);
               s = (if \<not> (entrylo1 \<noteq> 0 \<or> entrylo0 \<noteq> 0)
                    then s\<lparr>cp0_entryhi := ENTRYHI_DUMMY index\<rparr> else s)
           in tlbwi s
         else s)"

definition init_tlb :: "'s mach_state_scheme \<Rightarrow> 's mach_state_scheme" where
  "init_tlb s = tlb_flush_all s"

section \<open>Lemmas\<close>

lemma tlb_flush_loop_tlb:
  "i + n \<le> length (tlb s) \<Longrightarrow> length (tlb s) \<le> 2 ^ 16 \<Longrightarrow>
   tlb (tlb_flush_loop n i s) = take i (tlb s) @
     map (\<lambda>j. \<lparr>te_hi = ENTRYHI_DUMMY (of_nat j), te_lo0 = 0, te_lo1 = 0\<rparr>) [i..<i + n] @ drop (i + n) (tlb s)"
proof (induction n arbitrary: i s)
  case 0
  then show ?case by simp
next
  case (Suc n)
  let ?e = "\<lparr>te_hi = ENTRYHI_DUMMY (of_nat i), te_lo0 = 0, te_lo1 = 0\<rparr>"
  let ?s = "tlbwi (s\<lparr>cp0_index := of_nat i, cp0_entryhi := ENTRYHI_DUMMY (of_nat i),
                 cp0_entrylo0 := 0, cp0_entrylo1 := 0\<rparr>)"
  have i: "i < length (tlb s)" using Suc.prems by simp
  have "tlb ?s = (tlb s)[i := ?e]"
    using i Suc.prems(2) by (simp add: tlbwi_def tlb_sel_def unat_of_nat_u32)
  moreover have "take (Suc i) ((tlb s)[i := ?e]) = take i (tlb s) @ [?e]"
    using i by (simp add: take_Suc_conv_app_nth)
  moreover have "[i..<i + Suc n] = i # [Suc i..<Suc i + n]" by (simp add: upt_rec)
  ultimately show ?case using Suc.IH [of "Suc i" ?s] Suc.prems by simp
qed

lemma probe_from_Some:
  "probe_from i hi es = Some j \<Longrightarrow> i \<le> j \<and> j < i + length es \<and> tlb_match hi (es ! (j - i))"
proof (induction es arbitrary: i)
  case (Cons e es)
  show ?case
  proof (cases "tlb_match hi e")
    case False
    then have "probe_from (Suc i) hi es = Some j" using Cons.prems by simp
    from Cons.IH [OF this] have "Suc i \<le> j \<and> j < Suc i + length es \<and> tlb_match hi (es ! (j - Suc i))" .
    then show ?thesis by (auto simp: nth_Cons')
  qed (use Cons.prems in auto)
qed simp

lemma probe_from_None: "probe_from i hi es = None \<longleftrightarrow> (\<forall>e\<in>set es. \<not> tlb_match hi e)"
  by (induction es arbitrary: i) auto

lemma dummy_not_user:
  assumes "userspace v" "unat i < 2 ^ 16"
  shows "drop_bit (PGSHIFT + 1) (ENTRYHI_DUMMY i) \<noteq> drop_bit (PGSHIFT + 1) v"
proof -
  have "unat (push_bit 15 i) < 2 ^ 31"
    using assms(2) by (simp add: push_bit_eq_mult unat_word_ariths)
  then have "unat (ENTRYHI_DUMMY i) = unat CKSEG0 + unat (push_bit 15 i)"
    by (simp add: ENTRYHI_DUMMY_def unat_word_ariths unat_ucast_u64 CKSEG0_def)
  then have "2 ^ 63 \<le> unat (ENTRYHI_DUMMY i)" by (simp add: CKSEG0_def)
  moreover have "unat v < 2 ^ 48" using assms(1) by (simp add: userspace_def word_le_nat_alt)
  ultimately have "unat (drop_bit 15 (ENTRYHI_DUMMY i)) \<noteq> unat (drop_bit 15 v)"
    by (simp add: unat_drop_bit)
  then show ?thesis by auto
qed

section \<open>Example state\<close>

definition boot_kmem :: kmem_state where
  "boot_kmem = \<lparr>pages = (\<lambda>_. zero_page), plinks = \<lparr>node_prev = (\<lambda>x. x), node_next = (\<lambda>x. x)\<rparr>,
     nr_free_pages = 0, nr_pages = 0, highmem_base_pfn = 0x24000, mem = (\<lambda>_. 0),
     slab_links = \<lparr>node_prev = (\<lambda>x. x), node_next = (\<lambda>x. x)\<rparr>,
     kmcache = replicate 13 \<lparr>cache_avail = None, cache_full = None, cache_size = 0\<rparr>,
     kmcache_last_accessed = None\<rparr>"

definition boot_mach :: mach_state where
  "boot_mach = kmem_state.extend boot_kmem
     \<lparr>tlb = [\<lparr>te_hi = 0x10001, te_lo0 = 0x1e, te_lo1 = 0x2e\<rparr>, \<lparr>te_hi = 0x20001, te_lo0 = 0x3e, te_lo1 = 0x4e\<rparr>],
      tlb_miss_index = 1, cp0_index = 0, cp0_entryhi = 1, cp0_entrylo0 = 0, cp0_entrylo1 = 0, cp0_pagemask = 0\<rparr>"

lemma boot_mach_simps [simp]:
  "tlb boot_mach = [\<lparr>te_hi = 0x10001, te_lo0 = 0x1e, te_lo1 = 0x2e\<rparr>, \<lparr>te_hi = 0x20001, te_lo0 = 0x3e, te_lo1 = 0x4e\<rparr>]"
  "tlb_miss_index boot_mach = 1" "cp0_index boot_mach = 0" "cp0_entryhi boot_mach = 1"
  "cp0_entrylo0 boot_mach = 0" "cp0_entrylo1 boot_mach = 0"
  by (simp_all add: boot_mach_def boot_kmem_def kmem_state.defs kstate.defs)

section \<open>Properties\<close>

text \<open>
  Property C27. After \<^verbatim>\<open>tlb_flush_all\<close> no entry of the TLB matches an address of user space,
  whatever the ASID: no stale user translation is left.
\<close>
theorem tlb_flush_all_clears:
  assumes "length (tlb s) \<le> 2 ^ 16" "userspace v" "asid < 256"
  shows "\<forall>e\<in>set (tlb (tlb_flush_all s)). \<not> tlb_match (push_bit 15 (drop_bit 15 v) OR asid) e"
proof
  fix e assume "e \<in> set (tlb (tlb_flush_all s))"
  then obtain j where j: "j < length (tlb s)" "te_hi e = ENTRYHI_DUMMY (of_nat j)"
    using tlb_flush_loop_tlb [of 0 "length (tlb s)" s] assms(1) by (auto simp: tlb_flush_all_def)
  have "drop_bit 15 (push_bit 15 (drop_bit 15 v) OR asid) = drop_bit 15 v"
  proof (rule bit_word_eqI)
    fix n assume "n < LENGTH(64)"
    have "\<not> bit asid (15 + n)" by (rule not_bit_ge [of _ 8]) (use assms(3) in \<open>simp_all add: word_less_nat_alt\<close>)
    then show "bit (drop_bit 15 (push_bit 15 (drop_bit 15 v) OR asid)) n = bit (drop_bit 15 v) n"
      using bit_imp_le_length [of v "15 + n"] by (auto simp: bit_simps)
  qed
  then show "\<not> tlb_match (push_bit 15 (drop_bit 15 v) OR asid) e"
    using dummy_not_user [OF assms(2), of "of_nat j"] j assms(1)
    by (auto simp: tlb_match_def unat_of_nat_u32)
qed

theorem tlb_flush_all_clears_witness:
  "list_all (\<lambda>e. \<not> tlb_match (push_bit 15 (drop_bit 15 0x14000) OR 1) e) (tlb (tlb_flush_all boot_mach))"
  using tlb_flush_all_clears [of boot_mach "0x14000" 1] by (simp add: userspace_def list_all_iff)

text \<open>
  When an entry for the address is in the TLB, \<^verbatim>\<open>tlb_remove\<close> clears the half of
  that entry the address belongs to and writes no other entry.
\<close>
theorem tlb_remove_hit:
  assumes "probe_from 0 (cp0_entryhi s AND ENTHI_ASID_MASK OR push_bit 15 (drop_bit 15 vaddr)) (tlb s) = Some i"
    and "length (tlb s) \<le> 2 ^ 16"
  shows "\<exists>e. tlb (tlb_remove vaddr s) = (tlb s)[i := e] \<and>
    (if vaddr AND PGSIZE \<noteq> 0 then te_lo1 e = 0 else te_lo0 e = 0)"
proof -
  have i: "i < length (tlb s)" using probe_from_Some [OF assms(1)] by simp
  then have "unat (of_nat i :: u32) mod length (tlb s) = i" using assms(2) by (simp add: unat_of_nat_u32)
  then show ?thesis using i assms(1)
    by (auto simp: tlb_remove_def tlbp_def tlbr_def tlbwi_def tlb_sel_def Let_def)
qed

theorem tlb_remove_hit_witness:
  "\<exists>e. tlb (tlb_remove 0x14000 boot_mach) =
     [e, \<lparr>te_hi = 0x20001, te_lo0 = 0x3e, te_lo1 = 0x4e\<rparr>] \<and> te_lo1 e = 0"
proof -
  have "probe_from 0 (cp0_entryhi boot_mach AND ENTHI_ASID_MASK OR push_bit 15 (drop_bit 15 0x14000)) (tlb boot_mach) = Some 0"
    by (simp add: tlb_match_def tlb_global_def ENTHI_ASID_MASK_def)
  from tlb_remove_hit [OF this] show ?thesis by (simp add: PGSIZE_def)
qed

text \<open>
  When no entry for the address is in the TLB, \<^verbatim>\<open>tlb_remove\<close> still overwrites
  an entry: the one the unpredictable index field happens to name loses half of its
  translation, because the test \<^verbatim>\<open>index >= 0\<close> on an unsigned index is always true.
\<close>
theorem tlb_remove_miss:
  assumes "\<forall>e\<in>set (tlb s). \<not> tlb_match (cp0_entryhi s AND ENTHI_ASID_MASK OR push_bit 15 (drop_bit 15 vaddr)) e"
    and "tlb s \<noteq> []" "i = unat (0x80000000 OR tlb_miss_index s) mod length (tlb s)"
  shows "\<exists>e. tlb (tlb_remove vaddr s) = (tlb s)[i := e] \<and>
    (if vaddr AND PGSIZE \<noteq> 0 then te_lo1 e = 0 else te_lo0 e = 0)"
proof -
  have "probe_from 0 (cp0_entryhi s AND ENTHI_ASID_MASK OR push_bit 15 (drop_bit 15 vaddr)) (tlb s) = None"
    using assms(1) by (simp only: probe_from_None)
  then show ?thesis using assms(2,3)
    by (auto simp: tlb_remove_def tlbp_def tlbr_def tlbwi_def tlb_sel_def Let_def)
qed

theorem tlb_remove_miss_witness:
  "\<exists>e. tlb (tlb_remove 0x40000 boot_mach) =
     [\<lparr>te_hi = 0x10001, te_lo0 = 0x1e, te_lo1 = 0x2e\<rparr>, e] \<and> te_lo0 e = 0"
proof -
  have "\<forall>e\<in>set (tlb boot_mach). \<not> tlb_match (cp0_entryhi boot_mach AND ENTHI_ASID_MASK OR push_bit 15 (drop_bit 15 0x40000)) e"
    by (simp add: tlb_match_def tlb_global_def ENTHI_ASID_MASK_def)
  moreover have "1 = unat (0x80000000 OR tlb_miss_index boot_mach) mod length (tlb boot_mach)"
    by (simp flip: numeral_2_eq_2)
  ultimately show ?thesis using tlb_remove_miss [of boot_mach "0x40000" 1] by (simp add: PGSIZE_def)
qed

end
