(* ===== verification/Page_Table.thy ===== *)
theory Page_Table
  imports Tlb
begin

text \<open>
  The hierarchical page table: page directories (\<^verbatim>\<open>arch/mips/mm/hier/pgdir.c\<close>,
  \<^verbatim>\<open>asm/mm/hier/pgdir.h\<close>) and the three-level table built from them
  (\<^verbatim>\<open>arch/mips/mm/hier/pgtable.c\<close>, \<^verbatim>\<open>arch/mips/mm/pgtable.c\<close>).

  A \<^verbatim>\<open>pgdir_t *\<close> is a page pointer; the entries of a directory are 64-bit words in the
  byte memory of its page. Directories are handed around as kernel virtual addresses
  (\<^verbatim>\<open>pgd_t\<close>, \<^verbatim>\<open>pmd_t\<close>, \<^verbatim>\<open>pte_t\<close>), a null one being 0. Integer return codes
  are 0 or a negated error number.
\<close>

section \<open>Constants\<close>

definition ENOENT :: int where "ENOENT = 2"
definition ENOEXEC :: int where "ENOEXEC = 8"
definition ENOMEM :: int where "ENOMEM = 12"
definition EACCES :: int where "EACCES = 13"
definition EFAULT :: int where "EFAULT = 14"
definition EEXIST :: int where "EEXIST = 17"
definition ENODEV :: int where "ENODEV = 19"
definition EINVAL :: int where "EINVAL = 22"

definition PTE_LOWMASK :: u32 where "PTE_LOWMASK = 0xfff"
definition PTE_CACHE_MASK :: u32 where "PTE_CACHE_MASK = 0xe00"
definition PTE_CACHEABLE :: u32 where "PTE_CACHEABLE = 0x600"
definition PTE_DIRTY :: u32 where "PTE_DIRTY = 0x100"
definition PTE_VALID :: u32 where "PTE_VALID = 0x080"
definition PTE_NOEXEC :: u32 where "PTE_NOEXEC = 0x008"
definition PTE_PHYS :: u32 where "PTE_PHYS = 0x001"

definition ASID_KERNEL :: u32 where "ASID_KERNEL = 0x00"
definition ASID_MIN :: u32 where "ASID_MIN = 0x01"
definition ASID_INVALID :: u32 where "ASID_INVALID = 0xff"
definition ASID_MAX :: u32 where "ASID_MAX = 0xff"

definition VMA_EXEC :: u64 where "VMA_EXEC = 0x01"
definition VMA_WRITE :: u64 where "VMA_WRITE = 0x02"
definition VMA_READ :: u64 where "VMA_READ = 0x04"

lemmas pte_bits_defs = PTE_LOWMASK_def PTE_CACHE_MASK_def PTE_CACHEABLE_def PTE_DIRTY_def
  PTE_VALID_def PTE_NOEXEC_def PTE_PHYS_def

definition page_perm :: "u64 \<Rightarrow> u32" where
  "page_perm vm_flags =
     (let perm = PTE_VALID OR PTE_NOEXEC;
          perm = (if vm_flags AND VMA_WRITE \<noteq> 0 then perm OR PTE_DIRTY else perm)
      in if vm_flags AND VMA_EXEC = 0 then perm OR PTE_NOEXEC else perm)"

section \<open>Directories\<close>

definition dir_entry :: "addr_t \<Rightarrow> u16 \<Rightarrow> addr_t" where
  "dir_entry pde index = pde + 8 * ucast index"

definition pde_get_entry :: "'s mach_state_scheme \<Rightarrow> addr_t \<Rightarrow> u16 \<Rightarrow> u64" where
  "pde_get_entry s pde index = load64 (dir_entry pde index) (mem s)"

definition pgdir_load :: "'s mach_state_scheme \<Rightarrow> addr_t \<Rightarrow> page_ptr result" where
  "pgdir_load s a = rbind (kvaddr_to_page s a) deref"

definition pgdir_check :: "'s mach_state_scheme \<Rightarrow> page_ptr \<Rightarrow> unit result" where
  "pgdir_check s pgdir =
     rbind (read_page s pgdir) (\<lambda>g. assert_that ''pgdir->type == PGTYPE_PGDIR'' (pg_type g = PGTYPE_PGDIR))"

definition pgdir_new :: "u16 \<Rightarrow> 's mach_state_scheme \<Rightarrow> (page_ptr option \<times> 's mach_state_scheme) result" where
  "pgdir_new asid s =
     rbind (pgalloc s) (\<lambda>(p, s).
     case p of
       None \<Rightarrow> Inr (None, s)
     | Some p \<Rightarrow>
         let s = s\<lparr>mem := memset (page_to_kvaddr s (Some p)) 0 PGSIZE (mem s)\<rparr> in
         rbind (write_page p (\<lambda>g. g\<lparr>pg_type := PGTYPE_PGDIR, pgdir_entries := 0, pgdir_asid := ucast asid\<rparr>) s) (\<lambda>s.
         Inr (Some p, s)))"

definition pgdir_delete :: "page_ptr \<Rightarrow> 's mach_state_scheme \<Rightarrow> 's mach_state_scheme result" where
  "pgdir_delete pgdir s = rbind (pgdir_check s pgdir) (\<lambda>_. pgfree (Some pgdir) s)"

definition pgdir_empty :: "'s mach_state_scheme \<Rightarrow> page_ptr \<Rightarrow> bool result" where
  "pgdir_empty s pd = rbind (read_page s pd) (\<lambda>g. Inr (pgdir_entries g = 0))"

definition pgdir_add_entry :: "page_ptr \<Rightarrow> u16 \<Rightarrow> page_ptr \<Rightarrow> u32 \<Rightarrow> 's mach_state_scheme \<Rightarrow>
    (addr_t \<times> 's mach_state_scheme) result" where
  "pgdir_add_entry pgdir index p flags s =
     rbind (pgdir_check s pgdir) (\<lambda>_.
     let dir = page_to_kvaddr s (Some pgdir) in
     if load64 (dir_entry dir index) (mem s) \<noteq> 0
     then Inl (Panic ''Adding entry to the same position twice.'')
     else
       rbind (write_page pgdir (\<lambda>g. g\<lparr>pgdir_entries := pgdir_entries g + 1\<rparr>) s) (\<lambda>s.
       let entry = (if flags AND PTE_PHYS = 0 then page_to_kvaddr s (Some p)
                    else PAGE_TO_PADDR s p OR ucast (flags AND PTE_LOWMASK));
           s = s\<lparr>mem := store64 (dir_entry dir index) entry (mem s)\<rparr>
       in Inr (page_to_kvaddr s (Some p), s)))"

definition pgdir_add_pgdir :: "page_ptr \<Rightarrow> u16 \<Rightarrow> 's mach_state_scheme \<Rightarrow> (addr_t \<times> 's mach_state_scheme) result" where
  "pgdir_add_pgdir pgdir index s =
     rbind (pgdir_check s pgdir) (\<lambda>_.
     rbind (read_page s pgdir) (\<lambda>g.
     rbind (pgdir_new (ucast (pgdir_asid g)) s) (\<lambda>(pd, s).
     case pd of None \<Rightarrow> Inr (0, s) | Some pd \<Rightarrow> pgdir_add_entry pgdir index pd 0 s)))"

definition pgdir_remove_entry :: "page_ptr \<Rightarrow> u16 \<Rightarrow> 's mach_state_scheme \<Rightarrow> (addr_t \<times> 's mach_state_scheme) result" where
  "pgdir_remove_entry pgdir index s =
     rbind (pgdir_check s pgdir) (\<lambda>_.
     rbind (write_page pgdir (\<lambda>g. g\<lparr>pgdir_entries := pgdir_entries g - 1\<rparr>) s) (\<lambda>s.
     let dir = page_to_kvaddr s (Some pgdir);
         entry = load64 (dir_entry dir index) (mem s);
         s = s\<lparr>mem := store64 (dir_entry dir index) 0 (mem s)\<rparr>;
         result = (if entry AND ucast PTE_PHYS \<noteq> 0
                   then PADDR_TO_KVADDR ((entry OR ucast PTE_LOWMASK) XOR ucast PTE_LOWMASK)
                   else entry)
     in Inr (result, s)))"

definition pgdir_remove_pgdir :: "page_ptr \<Rightarrow> u16 \<Rightarrow> 's mach_state_scheme \<Rightarrow> 's mach_state_scheme result" where
  "pgdir_remove_pgdir pgdir index s =
     rbind (pgdir_check s pgdir) (\<lambda>_.
     rbind (pgdir_remove_entry pgdir index s) (\<lambda>(result, s).
     rbind (kvaddr_to_page s result) (\<lambda>pd.
     rbind (deref pd) (\<lambda>pd.
     rbind (pgdir_empty s pd) (\<lambda>emp.
     if emp then pgdir_delete pd s else Inr s)))))"

text \<open>The shortcuts on directory addresses.\<close>

definition pde_add_entry :: "addr_t \<Rightarrow> u16 \<Rightarrow> page_ptr \<Rightarrow> u32 \<Rightarrow> 's mach_state_scheme \<Rightarrow>
    (addr_t \<times> 's mach_state_scheme) result" where
  "pde_add_entry pde index p flags s = rbind (pgdir_load s pde) (\<lambda>d. pgdir_add_entry d index p flags s)"

definition pde_add_pgdir :: "addr_t \<Rightarrow> u16 \<Rightarrow> 's mach_state_scheme \<Rightarrow> (addr_t \<times> 's mach_state_scheme) result" where
  "pde_add_pgdir pde index s = rbind (pgdir_load s pde) (\<lambda>d. pgdir_add_pgdir d index s)"

definition pde_remove_entry :: "addr_t \<Rightarrow> u16 \<Rightarrow> 's mach_state_scheme \<Rightarrow> (addr_t \<times> 's mach_state_scheme) result" where
  "pde_remove_entry pde index s = rbind (pgdir_load s pde) (\<lambda>d. pgdir_remove_entry d index s)"

definition pde_remove_pgdir :: "addr_t \<Rightarrow> u16 \<Rightarrow> 's mach_state_scheme \<Rightarrow> 's mach_state_scheme result" where
  "pde_remove_pgdir pde index s = rbind (pgdir_load s pde) (\<lambda>d. pgdir_remove_pgdir d index s)"

definition pde_empty :: "'s mach_state_scheme \<Rightarrow> addr_t \<Rightarrow> bool result" where
  "pde_empty s pde = rbind (pgdir_load s pde) (\<lambda>d. pgdir_empty s d)"

section \<open>pgtable\_get\<close>

record pagedesc =
  pd_pgd :: addr_t
  pd_pmd :: addr_t
  pd_pte :: addr_t
  pd_pgx :: u16
  pd_pmx :: u16
  pd_ptx :: u16

definition vaddr_split :: "addr_t \<Rightarrow> pagedesc \<Rightarrow> pagedesc" where
  "vaddr_split vaddr d = d\<lparr>pd_pgx := ucast (PGX vaddr), pd_pmx := ucast (PMX vaddr), pd_ptx := ucast (PTX vaddr)\<rparr>"

text \<open>
  The walk with \<open>create\<close> clear: \<^verbatim>\<open>||\<close> stops at the first missing directory.
\<close>

definition pgtable_lookup :: "pagedesc \<Rightarrow> 's mach_state_scheme \<Rightarrow> int \<times> pagedesc" where
  "pgtable_lookup d s =
     (let pmd = pde_get_entry s (pd_pgd d) (pd_pgx d); d = d\<lparr>pd_pmd := pmd\<rparr> in
      if pmd = 0 then (- ENOENT, d)
      else let pte = pde_get_entry s pmd (pd_pmx d); d = d\<lparr>pd_pte := pte\<rparr> in
           if pte = 0 then (- ENOENT, d) else (0, d))"

text \<open>The code at the label \<^verbatim>\<open>nomem\<close>.\<close>

definition pgtable_nomem :: "pagedesc \<Rightarrow> 's mach_state_scheme \<Rightarrow> (int \<times> pagedesc \<times> 's mach_state_scheme) result" where
  "pgtable_nomem d s =
     rbind (if pd_pmd d \<noteq> 0 \<and> pde_get_entry s (pd_pmd d) (pd_pmx d) \<noteq> 0
            then pde_remove_pgdir (pd_pmd d) (pd_pmx d) s else Inr s) (\<lambda>s.
     rbind (if pd_pgd d \<noteq> 0 \<and> pde_get_entry s (pd_pgd d) (pd_pgx d) \<noteq> 0
            then pde_remove_pgdir (pd_pgd d) (pd_pgx d) s else Inr s) (\<lambda>s.
     Inr (- ENOMEM, d, s)))"

definition pgtable_create :: "pagedesc \<Rightarrow> 's mach_state_scheme \<Rightarrow> (int \<times> pagedesc \<times> 's mach_state_scheme) result" where
  "pgtable_create d s =
     (let pmd = pde_get_entry s (pd_pgd d) (pd_pgx d) in
      rbind (if pmd = 0 then pde_add_pgdir (pd_pgd d) (pd_pgx d) s else Inr (pmd, s)) (\<lambda>(pmd, s).
      let d = d\<lparr>pd_pmd := pmd\<rparr> in
      if pmd = 0 then pgtable_nomem d s
      else
        let pte = pde_get_entry s pmd (pd_pmx d) in
        rbind (if pte = 0 then pde_add_pgdir pmd (pd_pmx d) s else Inr (pte, s)) (\<lambda>(pte, s).
        let d = d\<lparr>pd_pte := pte\<rparr> in
        if pte = 0 then pgtable_nomem d s else Inr (0, d, s))))"

definition pgtable_get :: "addr_t \<Rightarrow> addr_t \<Rightarrow> bool \<Rightarrow> 's mach_state_scheme \<Rightarrow>
    (int \<times> pagedesc \<times> 's mach_state_scheme) result" where
  "pgtable_get pgd vaddr create s =
     (let d = vaddr_split vaddr \<lparr>pd_pgd = pgd, pd_pmd = 0, pd_pte = 0, pd_pgx = 0, pd_pmx = 0, pd_ptx = 0\<rparr> in
      if \<not> create then let (ret, d) = pgtable_lookup d s in Inr (ret, d, s)
      else pgtable_create d s)"

section \<open>pgtable\_insert and pgtable\_remove\<close>

text \<open>
  The result of \<open>pgtable_insert\<close> is the return code, the page written to
  \<^verbatim>\<open>*replaced_page\<close> if any, and the state. Every caller passes a \<^verbatim>\<open>replaced_page\<close>.
\<close>

definition pgtable_insert :: "addr_t \<Rightarrow> addr_t \<Rightarrow> page_ptr \<Rightarrow> u32 \<Rightarrow> bool \<Rightarrow> 's mach_state_scheme \<Rightarrow>
    (int \<times> page_ptr option \<times> 's mach_state_scheme) result" where
  "pgtable_insert pgd vaddr page perm replace s =
     (let vaddr = PGROUNDDOWN vaddr in
      if vaddr = 0 then Inr (- EINVAL, None, s)
      else
        rbind (pgtable_get pgd vaddr True s) (\<lambda>(retcode, d, s).
        if retcode \<noteq> 0 then Inr (retcode, None, s)
        else
          let old = pde_get_entry s (pd_pte d) (pd_ptx d) in
          rbind (if old \<noteq> 0 then rbind (PADDR_TO_PAGE s old) (\<lambda>q. Inr (q \<noteq> page)) else Inr False) (\<lambda>other.
          if other \<and> \<not> replace then Inr (- EEXIST, None, s)
          else
            rbind (if other then
                     rbind (pde_remove_entry (pd_pte d) (pd_ptx d) s) (\<lambda>(a, s).
                     rbind (kvaddr_to_page s a) (\<lambda>p. Inr (p, s)))
                   else Inr (None, s)) (\<lambda>(replaced, s).
            let flags = perm AND (PTE_LOWMASK - PTE_CACHE_MASK);
                flags = flags OR (PTE_CACHEABLE OR PTE_PHYS) in
            rbind (pde_add_entry (pd_pte d) (pd_ptx d) page flags s) (\<lambda>(_, s).
            Inr (0, replaced, s))))))"

definition pgtable_remove :: "addr_t \<Rightarrow> addr_t \<Rightarrow> 's mach_state_scheme \<Rightarrow>
    (page_ptr option \<times> 's mach_state_scheme) result" where
  "pgtable_remove pgd vaddr s =
     rbind (pgtable_get pgd vaddr False s) (\<lambda>(_, d, s).
     rbind (if pd_pte d \<noteq> 0 \<and> pde_get_entry s (pd_pte d) (pd_ptx d) \<noteq> 0 then
              rbind (pde_remove_entry (pd_pte d) (pd_ptx d) s) (\<lambda>(a, s).
              rbind (kvaddr_to_page s a) (\<lambda>p. Inr (p, s)))
            else Inr (None, s)) (\<lambda>(p, s).
     rbind (if pd_pte d \<noteq> 0 then pde_empty s (pd_pte d) else Inr False) (\<lambda>e.
     rbind (if e then pde_remove_pgdir (pd_pmd d) (pd_pmx d) s else Inr s) (\<lambda>s.
     rbind (if pd_pmd d \<noteq> 0 then pde_empty s (pd_pmd d) else Inr False) (\<lambda>e.
     rbind (if e then pde_remove_pgdir (pd_pgd d) (pd_pgx d) s else Inr s) (\<lambda>s.
     Inr (p, tlb_remove vaddr s)))))))"

section \<open>The architecture interface\<close>

definition arch_map_page :: "addr_t \<Rightarrow> addr_t \<Rightarrow> page_ptr \<Rightarrow> u32 \<Rightarrow> 's mach_state_scheme \<Rightarrow>
    (int \<times> 's mach_state_scheme) result" where
  "arch_map_page pgd vaddr p perm s =
     rbind (pgtable_insert pgd vaddr p perm True s) (\<lambda>(retcode, replace, s).
     if retcode \<noteq> 0 then Inr (retcode, s)
     else rbind (case replace of None \<Rightarrow> Inr s | Some q \<Rightarrow> pgfree (Some q) s) (\<lambda>s. Inr (0, s)))"

definition arch_unmap_page :: "addr_t \<Rightarrow> addr_t \<Rightarrow> 's mach_state_scheme \<Rightarrow>
    (page_ptr option \<times> 's mach_state_scheme) result" where
  "arch_unmap_page pgd vaddr s = pgtable_remove pgd vaddr s"

definition arch_mm_get_pfn :: "addr_t \<Rightarrow> addr_t \<Rightarrow> 's mach_state_scheme \<Rightarrow> u64 result" where
  "arch_mm_get_pfn pgd vaddr s =
     rbind (pgtable_get pgd vaddr False s) (\<lambda>(_, d, s).
     if pd_pte d \<noteq> 0 then Inr (PADDR_TO_PFN (pde_get_entry s (pd_pte d) (pd_ptx d))) else Inr 0)"

text \<open>\<^verbatim>\<open>arch_mm_new_pgtable\<close> returns the code and the new \<^verbatim>\<open>arch_mm->pgd\<close> if it was set.\<close>

definition arch_mm_new_pgtable :: "'s mach_state_scheme \<Rightarrow> (int \<times> addr_t option \<times> 's mach_state_scheme) result" where
  "arch_mm_new_pgtable s =
     rbind (pgdir_new (ucast ASID_INVALID) s) (\<lambda>(pgd, s).
     case pgd of
       None \<Rightarrow> Inr (- ENOMEM, None, s)
     | Some p \<Rightarrow> Inr (0, Some (page_to_kvaddr s (Some p)), s))"

definition arch_mm_destroy_pgtable :: "addr_t \<Rightarrow> 's mach_state_scheme \<Rightarrow> 's mach_state_scheme result" where
  "arch_mm_destroy_pgtable pgd s = rbind (pgdir_load s pgd) (\<lambda>p. pgdir_delete p s)"

definition new_arch_mm :: "'s mach_state_scheme \<Rightarrow> (int \<times> addr_t option \<times> 's mach_state_scheme) result" where
  "new_arch_mm s = arch_mm_new_pgtable s"

definition destroy_arch_mm :: "addr_t \<Rightarrow> 's mach_state_scheme \<Rightarrow> 's mach_state_scheme result" where
  "destroy_arch_mm pgd s = arch_mm_destroy_pgtable pgd s"

end
