(* ===== verification/Vm.thy ===== *)
theory Vm
  imports Page_Table
begin

text \<open>
  Virtual memory areas and address spaces (\<^verbatim>\<open>include/mm/vmm.h\<close>, \<^verbatim>\<open>kern/mm/vm.c\<close>).

  A \<^verbatim>\<open>vm_area_t *\<close> is the address \<open>kmalloc\<close> returned, 0 being null; the live structures
  are in the partial map \<open>vmas\<close>, from which \<open>kfree\<close> removes them, so that an access through a
  freed pointer is a fault of the model. \<^verbatim>\<open>kern_mm\<close> has static storage, other
  \<^verbatim>\<open>mm_t\<close> structures are allocated. The nodes of the area lists are the areas and, for
  \<^verbatim>\<open>end_vma(mm)\<close>, the head in the \<^verbatim>\<open>mm_t\<close>.

  Walks along an area list take fuel; a list of \<open>n\<close> areas needs \<open>n + 1\<close> rounds.
\<close>

section \<open>State\<close>

datatype mm_ptr = KernMm | Mm addr_t

datatype vma_node = EndVma mm_ptr | Vma addr_t

record vm_area =
  vma_start :: addr_t
  vma_end :: addr_t
  vma_flags :: u64
  vma_mm :: "mm_ptr option"

record mm_struct =
  mm_pgd :: addr_t
  vma_last_accessed :: addr_t
  mmap_count :: u64
  mm_ref_count :: u64

record vm_state = mach_state +
  vmas :: "addr_t \<rightharpoonup> vm_area"
  vma_links :: "vma_node list_heap"
  mms :: "mm_ptr \<rightharpoonup> mm_struct"

definition sizeof_mm :: u64 where "sizeof_mm = 48"
definition sizeof_vm_area :: u64 where "sizeof_vm_area = 48"

definition read_vma :: "'s vm_state_scheme \<Rightarrow> addr_t \<Rightarrow> vm_area result" where
  "read_vma s a = (case vmas s a of None \<Rightarrow> Inl (BadPointer ''vm_area_t'') | Some v \<Rightarrow> Inr v)"

definition write_vma :: "addr_t \<Rightarrow> (vm_area \<Rightarrow> vm_area) \<Rightarrow> 's vm_state_scheme \<Rightarrow> 's vm_state_scheme result" where
  "write_vma a f s = rbind (read_vma s a) (\<lambda>v. Inr (s\<lparr>vmas := (vmas s)(a \<mapsto> f v)\<rparr>))"

definition read_mm :: "'s vm_state_scheme \<Rightarrow> mm_ptr \<Rightarrow> mm_struct result" where
  "read_mm s m = (case mms s m of None \<Rightarrow> Inl (BadPointer ''mm_t'') | Some v \<Rightarrow> Inr v)"

definition write_mm :: "mm_ptr \<Rightarrow> (mm_struct \<Rightarrow> mm_struct) \<Rightarrow> 's vm_state_scheme \<Rightarrow> 's vm_state_scheme result" where
  "write_mm m f s = rbind (read_mm s m) (\<lambda>v. Inr (s\<lparr>mms := (mms s)(m \<mapsto> f v)\<rparr>))"

section \<open>Areas\<close>

definition vm_area_valid :: "vm_area \<Rightarrow> bool" where
  "vm_area_valid v = (vma_start v < vma_end v)"

definition vm_area_fit :: "vm_area \<Rightarrow> addr_t \<Rightarrow> bool result" where
  "vm_area_fit v addr =
     rbind (assert_that ''vm_area_valid(vma)'' (vm_area_valid v)) (\<lambda>_.
     Inr (vma_start v \<le> addr \<and> addr < vma_end v))"

definition vm_area_prec :: "vm_area \<Rightarrow> vm_area \<Rightarrow> bool result" where
  "vm_area_prec v1 v2 =
     rbind (assert_that ''vm_area_valid(vma1)'' (vm_area_valid v1)) (\<lambda>_.
     rbind (assert_that ''vm_area_valid(vma2)'' (vm_area_valid v2)) (\<lambda>_.
     Inr (vma_end v1 \<le> vma_start v2)))"

definition vm_area_succ :: "vm_area \<Rightarrow> vm_area \<Rightarrow> bool result" where
  "vm_area_succ v1 v2 =
     rbind (assert_that ''vm_area_valid(vma1)'' (vm_area_valid v1)) (\<lambda>_.
     rbind (assert_that ''vm_area_valid(vma2)'' (vm_area_valid v2)) (\<lambda>_.
     Inr (vma_end v2 \<le> vma_start v1)))"

definition vm_area_overlap :: "vm_area \<Rightarrow> vm_area \<Rightarrow> bool result" where
  "vm_area_overlap v1 v2 =
     rbind (assert_that ''vm_area_valid(vma1)'' (vm_area_valid v1)) (\<lambda>_.
     rbind (assert_that ''vm_area_valid(vma2)'' (vm_area_valid v2)) (\<lambda>_.
     rbind (vm_area_prec v1 v2) (\<lambda>p.
     if p then Inr False else rbind (vm_area_succ v1 v2) (\<lambda>q. Inr (\<not> q)))))"

definition first_vma :: "'s vm_state_scheme \<Rightarrow> mm_ptr \<Rightarrow> vma_node" where
  "first_vma s mm = list_next (vma_links s) (EndVma mm)"

definition next_vma :: "'s vm_state_scheme \<Rightarrow> vma_node \<Rightarrow> vma_node" where
  "next_vma s n = list_next (vma_links s) n"

text \<open>\<^verbatim>\<open>kmalloc\<close> of a small object takes no fuel: it never searches for a run of pages.\<close>

definition vm_area_new :: "addr_t \<Rightarrow> addr_t \<Rightarrow> u64 \<Rightarrow> 's vm_state_scheme \<Rightarrow> (addr_t \<times> 's vm_state_scheme) result" where
  "vm_area_new st en flags s =
     (if en \<le> st then Inr (0, s)
      else
        rbind (assert_that ''PAGE_OFF(start) == 0'' (PAGE_OFF st = 0)) (\<lambda>_.
        rbind (assert_that ''PAGE_OFF(end) == 0'' (PAGE_OFF en = 0)) (\<lambda>_.
        rbind (kmalloc 0 sizeof_vm_area s) (\<lambda>(a, s).
        if a \<noteq> 0 then
          Inr (a, s\<lparr>vmas := (vmas s)(a \<mapsto> \<lparr>vma_start = st, vma_end = en, vma_flags = flags, vma_mm = None\<rparr>)\<rparr>)
        else Inr (0, s)))))"

definition vm_area_remove :: "mm_ptr \<Rightarrow> addr_t \<Rightarrow> 's vm_state_scheme \<Rightarrow> 's vm_state_scheme result" where
  "vm_area_remove mm a s =
     rbind (read_vma s a) (\<lambda>v.
     rbind (assert_that ''vma->mm == mm'' (vma_mm v = Some mm)) (\<lambda>_.
     Inr (s\<lparr>vma_links := list_del_init (Vma a) (vma_links s)\<rparr>)))"

definition vm_area_destroy :: "addr_t \<Rightarrow> 's vm_state_scheme \<Rightarrow> 's vm_state_scheme result" where
  "vm_area_destroy a s = rbind (kfree a s) (\<lambda>s. Inr (s\<lparr>vmas := (vmas s)(a := None)\<rparr>))"

section \<open>Address spaces\<close>

definition mm_new :: "'s vm_state_scheme \<Rightarrow> (mm_ptr \<times> 's vm_state_scheme) result" where
  "mm_new s =
     rbind (kmalloc 0 sizeof_mm s) (\<lambda>(a, s).
     if a = 0 then Inl NullPointer
     else
       let s = s\<lparr>mms := (mms s)(Mm a \<mapsto> \<lparr>mm_pgd = 0, vma_last_accessed = 0, mmap_count = 0, mm_ref_count = 0\<rparr>)\<rparr>;
           s = s\<lparr>vma_links := list_init (EndVma (Mm a)) (vma_links s)\<rparr> in
       rbind (new_arch_mm s) (\<lambda>(_, pgd, s).
       rbind (case pgd of None \<Rightarrow> Inr s | Some d \<Rightarrow> write_mm (Mm a) (\<lambda>m. m\<lparr>mm_pgd := d\<rparr>) s) (\<lambda>s.
       Inr (Mm a, s))))"

text \<open>
  The loop of \<^verbatim>\<open>mm_destroy\<close>: the area is taken off the list before its successor is read.
\<close>

fun mm_destroy_loop :: "nat \<Rightarrow> mm_ptr \<Rightarrow> vma_node \<Rightarrow> 's vm_state_scheme \<Rightarrow> 's vm_state_scheme result" where
  "mm_destroy_loop 0 mm n s = Inl Hang"
| "mm_destroy_loop (Suc fuel) mm n s =
     (if n = EndVma mm then Inr s
      else case n of
        EndVma m \<Rightarrow> Inl (BadPointer ''vm_area_t'')
      | Vma a \<Rightarrow>
          rbind (vm_area_remove mm a s) (\<lambda>s.
          let nxt = next_vma s (Vma a) in
          rbind (vm_area_destroy a s) (\<lambda>s.
          mm_destroy_loop fuel mm nxt s)))"

definition mm_free :: "mm_ptr \<Rightarrow> 's vm_state_scheme \<Rightarrow> 's vm_state_scheme result" where
  "mm_free mm s =
     (case mm of KernMm \<Rightarrow> Inl (BadPointer ''kfree(&kern_mm)'')
      | Mm a \<Rightarrow> rbind (kfree a s) (\<lambda>s. Inr (s\<lparr>mms := (mms s)(mm := None)\<rparr>)))"

definition mm_destroy :: "nat \<Rightarrow> mm_ptr \<Rightarrow> 's vm_state_scheme \<Rightarrow> 's vm_state_scheme result" where
  "mm_destroy fuel mm s =
     rbind (read_mm s mm) (\<lambda>m.
     rbind (destroy_arch_mm (mm_pgd m) s) (\<lambda>s.
     rbind (mm_destroy_loop fuel mm (first_vma s mm) s) (\<lambda>s.
     mm_free mm s)))"

fun vm_area_find_loop :: "nat \<Rightarrow> mm_ptr \<Rightarrow> vma_node \<Rightarrow> addr_t \<Rightarrow> 's vm_state_scheme \<Rightarrow>
    (addr_t \<times> 's vm_state_scheme) result" where
  "vm_area_find_loop 0 mm n addr s = Inl Hang"
| "vm_area_find_loop (Suc fuel) mm n addr s =
     (if n = EndVma mm then Inr (0, s)
      else case n of
        EndVma m \<Rightarrow> Inl (BadPointer ''vm_area_t'')
      | Vma a \<Rightarrow>
          rbind (read_vma s a) (\<lambda>v.
          rbind (vm_area_fit v addr) (\<lambda>fit.
          if fit then rbind (write_mm mm (\<lambda>m. m\<lparr>vma_last_accessed := a\<rparr>) s) (\<lambda>s. Inr (a, s))
          else vm_area_find_loop fuel mm (next_vma s n) addr s)))"

definition vm_area_find :: "nat \<Rightarrow> mm_ptr option \<Rightarrow> addr_t \<Rightarrow> 's vm_state_scheme \<Rightarrow>
    (addr_t \<times> 's vm_state_scheme) result" where
  "vm_area_find fuel mm addr s =
     (case mm of None \<Rightarrow> Inr (0, s)
      | Some mm \<Rightarrow>
          rbind (read_mm s mm) (\<lambda>m.
          let a = vma_last_accessed m in
          rbind (if a \<noteq> 0 then rbind (read_vma s a) (\<lambda>v. vm_area_fit v addr) else Inr False) (\<lambda>hit.
          if hit then Inr (a, s)
          else vm_area_find_loop fuel mm (first_vma s mm) addr s)))"

text \<open>The search for the place of the new area; the assertion is in the body of the loop.\<close>

fun vm_area_insert_loop :: "nat \<Rightarrow> mm_ptr \<Rightarrow> vma_node \<Rightarrow> addr_t \<Rightarrow> 's vm_state_scheme \<Rightarrow> vma_node result" where
  "vm_area_insert_loop 0 mm n new_vma s = Inl Hang"
| "vm_area_insert_loop (Suc fuel) mm n new_vma s =
     (if n = EndVma mm then Inr n
      else case n of
        EndVma m \<Rightarrow> Inl (BadPointer ''vm_area_t'')
      | Vma a \<Rightarrow>
          rbind (read_vma s a) (\<lambda>v.
          rbind (read_vma s new_vma) (\<lambda>w.
          rbind (vm_area_prec v w) (\<lambda>prec.
          if prec then
            rbind (vm_area_overlap v w) (\<lambda>ov.
            rbind (assert_that ''!vm_area_overlap(vma, new_vma)'' (\<not> ov)) (\<lambda>_.
            vm_area_insert_loop fuel mm (next_vma s n) new_vma s))
          else Inr n))))"

definition vm_area_insert :: "nat \<Rightarrow> mm_ptr option \<Rightarrow> addr_t \<Rightarrow> 's vm_state_scheme \<Rightarrow>
    (int \<times> 's vm_state_scheme) result" where
  "vm_area_insert fuel mm new_vma s =
     (case mm of None \<Rightarrow> Inr (0, s)
      | Some mm \<Rightarrow>
          if new_vma = 0 then Inr (0, s)
          else
            rbind (write_vma new_vma (\<lambda>v. v\<lparr>vma_mm := Some mm\<rparr>) s) (\<lambda>s.
            rbind (vm_area_insert_loop fuel mm (first_vma s mm) new_vma s) (\<lambda>n.
            Inr (0, s\<lparr>vma_links := list_add_before n (Vma new_vma) (vma_links s)\<rparr>))))"

section \<open>Mapping and unmapping\<close>

fun map_loop :: "nat \<Rightarrow> addr_t \<Rightarrow> addr_t \<Rightarrow> page_ptr \<Rightarrow> u32 \<Rightarrow> 's vm_state_scheme \<Rightarrow>
    (int \<times> 's vm_state_scheme) result" where
  "map_loop 0 pgd cur_vaddr curp perm s = Inr (0, s)"
| "map_loop (Suc n) pgd cur_vaddr curp perm s =
     rbind (arch_map_page pgd cur_vaddr curp perm s) (\<lambda>(retcode, s).
     if retcode \<noteq> 0 then Inr (retcode, s)
     else map_loop n pgd (cur_vaddr + PGSIZE) (next_page s curp) perm s)"

fun unmap_rollback :: "nat \<Rightarrow> addr_t \<Rightarrow> addr_t \<Rightarrow> 's vm_state_scheme \<Rightarrow> 's vm_state_scheme result" where
  "unmap_rollback 0 pgd cur_vaddr s = Inr s"
| "unmap_rollback (Suc n) pgd cur_vaddr s =
     rbind (arch_unmap_page pgd cur_vaddr s) (\<lambda>(_, s).
     unmap_rollback n pgd (cur_vaddr + PGSIZE) s)"

definition map_pages :: "nat \<Rightarrow> mm_ptr \<Rightarrow> addr_t \<Rightarrow> page_ptr option \<Rightarrow> u64 \<Rightarrow> 's vm_state_scheme \<Rightarrow>
    (int \<times> 's vm_state_scheme) result" where
  "map_pages fuel mm vaddr p flags s =
     rbind (assert_that ''PAGE_OFF(vaddr) == 0'' (PAGE_OFF vaddr = 0)) (\<lambda>_.
     rbind (deref p) (\<lambda>p.
     rbind (first_page s p) (\<lambda>curp.
     rbind (page_count s p) (\<lambda>n.
     rbind (vm_area_new vaddr (vaddr + PGSIZE * n) flags s) (\<lambda>(vma, s).
     rbind (vm_area_insert fuel (Some mm) vma s) (\<lambda>(retcode, s).
     if retcode \<noteq> 0 then rbind (vm_area_destroy vma s) (\<lambda>s. Inr (retcode, s))
     else
       rbind (read_mm s mm) (\<lambda>m.
       rbind (deref curp) (\<lambda>curp.
       rbind (map_loop (unat n) (mm_pgd m) vaddr curp (page_perm flags) s) (\<lambda>(retcode, s).
       if retcode = 0 then Inr (0, s)
       else
         rbind (unmap_rollback (unat n) (mm_pgd m) vaddr s) (\<lambda>s.
         rbind (vm_area_destroy vma s) (\<lambda>s.
         Inr (retcode, s))))))))))))"

fun unmap_loop :: "nat \<Rightarrow> addr_t \<Rightarrow> addr_t \<Rightarrow> 's vm_state_scheme \<Rightarrow> 's vm_state_scheme result" where
  "unmap_loop 0 pgd cur_vaddr s = Inr s"
| "unmap_loop (Suc n) pgd cur_vaddr s =
     rbind (arch_unmap_page pgd cur_vaddr s) (\<lambda>(p, s).
     rbind (pgfree p s) (\<lambda>s.
     unmap_loop n pgd (cur_vaddr + PGSIZE) s))"

text \<open>
  The loop that destroys the areas in the middle: \<^verbatim>\<open>vma = next_vma(vma)\<close> is evaluated
  after the area has been taken off the list and freed. What the freed memory then holds depends on the
  allocator; as everywhere in the model, a read through a pointer to a freed object is a fault.
\<close>

definition next_of_freed :: "'s vm_state_scheme \<Rightarrow> addr_t \<Rightarrow> vma_node result" where
  "next_of_freed s a =
     (case vmas s a of None \<Rightarrow> Inl (BadPointer ''vm_area_t'') | Some _ \<Rightarrow> Inr (next_vma s (Vma a)))"

fun unmap_middle :: "nat \<Rightarrow> mm_ptr \<Rightarrow> vma_node \<Rightarrow> addr_t \<Rightarrow> 's vm_state_scheme \<Rightarrow> 's vm_state_scheme result" where
  "unmap_middle 0 mm n vma_end_ptr s = Inl Hang"
| "unmap_middle (Suc fuel) mm n vma_end_ptr s =
     (if n = Vma vma_end_ptr then Inr s
      else case n of
        EndVma m \<Rightarrow> Inl (BadPointer ''vm_area_t'')
      | Vma a \<Rightarrow>
          rbind (read_mm s mm) (\<lambda>m.
          rbind (if vma_last_accessed m = a then write_mm mm (\<lambda>m. m\<lparr>vma_last_accessed := 0\<rparr>) s else Inr s) (\<lambda>s.
          rbind (vm_area_remove mm a s) (\<lambda>s.
          rbind (vm_area_destroy a s) (\<lambda>s.
          rbind (next_of_freed s a) (\<lambda>n.
          unmap_middle fuel mm n vma_end_ptr s))))))"

definition unmap_pages :: "nat \<Rightarrow> mm_ptr \<Rightarrow> addr_t \<Rightarrow> size_t \<Rightarrow> 's vm_state_scheme \<Rightarrow>
    (int \<times> 's vm_state_scheme) result" where
  "unmap_pages fuel mm vaddr n s =
     rbind (assert_that ''PAGE_OFF(vaddr) == 0'' (PAGE_OFF vaddr = 0)) (\<lambda>_.
     rbind (vm_area_find fuel (Some mm) vaddr s) (\<lambda>(va, s).
     let vaddr_end = vaddr + n * PGSIZE in
     rbind (vm_area_find fuel (Some mm) (vaddr_end - 1) s) (\<lambda>(vb, s).
     if va = 0 \<or> vb = 0 then Inr (- ENOENT, s)
     else
       rbind (read_vma s va) (\<lambda>v.
       rbind
         (if va = vb then
            rbind (vm_area_new (vma_start v) vaddr (vma_flags v) s) (\<lambda>(head, s).
            rbind (vm_area_new vaddr_end (vma_end v) (vma_flags v) s) (\<lambda>(tail, s).
            if (head = 0 \<and> vma_start v \<noteq> vaddr) \<or> (tail = 0 \<and> vaddr_end \<noteq> vma_end v) then
              rbind (vm_area_destroy head s) (\<lambda>s.
              rbind (vm_area_destroy tail s) (\<lambda>s.
              Inr (False, s)))
            else
              rbind (read_mm s mm) (\<lambda>m.
              rbind (if vma_last_accessed m = va then write_mm mm (\<lambda>m. m\<lparr>vma_last_accessed := 0\<rparr>) s else Inr s) (\<lambda>s.
              rbind (vm_area_remove mm va s) (\<lambda>s.
              rbind (vm_area_destroy va s) (\<lambda>s.
              rbind (vm_area_insert fuel (Some mm) head s) (\<lambda>(_, s).
              rbind (vm_area_insert fuel (Some mm) tail s) (\<lambda>(_, s).
              Inr (True, s)))))))))
          else
            rbind (unmap_middle fuel mm (next_vma s (Vma va)) vb s) (\<lambda>s.
            rbind (write_vma va (\<lambda>v. v\<lparr>vma_end := vaddr\<rparr>) s) (\<lambda>s.
            rbind (write_vma vb (\<lambda>v. v\<lparr>vma_start := vaddr + n * PGSIZE\<rparr>) s) (\<lambda>s.
            Inr (True, s))))) (\<lambda>(ok, s).
       if \<not> ok then Inr (- ENOMEM, s)
       else
         rbind (read_mm s mm) (\<lambda>m.
         rbind (unmap_loop (unat n) (mm_pgd m) vaddr s) (\<lambda>s.
         Inr (0, s))))))))"

definition mm_create_uvm :: "nat \<Rightarrow> mm_ptr \<Rightarrow> addr_t \<Rightarrow> size_t \<Rightarrow> u64 \<Rightarrow> 's vm_state_scheme \<Rightarrow>
    (int \<times> 's vm_state_scheme) result" where
  "mm_create_uvm fuel mm addr len vm_flags s =
     (if len = 0 then Inr (0, s)
      else
        let st = PGROUNDDOWN addr in
        if st = 0 then Inr (0, s)
        else
          rbind (alloc_pages (nr_pages_spanned addr len) s) (\<lambda>(p, s).
          if p = None then Inr (- ENOMEM, s)
          else
            rbind (map_pages fuel mm st p vm_flags s) (\<lambda>(retcode, s).
            if retcode \<noteq> 0 then rbind (free_all_pages p s) (\<lambda>s. Inr (retcode, s))
            else Inr (0, s))))"

definition mm_destroy_uvm :: "nat \<Rightarrow> mm_ptr \<Rightarrow> addr_t \<Rightarrow> 's vm_state_scheme \<Rightarrow> (int \<times> 's vm_state_scheme) result" where
  "mm_destroy_uvm fuel mm addr s =
     rbind (vm_area_find fuel (Some mm) addr s) (\<lambda>(a, s).
     if a = 0 then Inr (0, s)
     else
       rbind (read_vma s a) (\<lambda>v.
       unmap_pages fuel mm (vma_start v) (NR_PAGES_NEEDED (vma_end v - vma_start v)) s))"

section \<open>Copying between address spaces\<close>

definition uvaddr_to_kvaddr :: "mm_ptr \<Rightarrow> addr_t \<Rightarrow> 's vm_state_scheme \<Rightarrow> addr_t result" where
  "uvaddr_to_kvaddr mm uvaddr s =
     rbind (read_mm s mm) (\<lambda>m.
     rbind (arch_mm_get_pfn (mm_pgd m) uvaddr s) (\<lambda>pfn.
     Inr (if pfn = 0 then 0 else PFN_TO_KVADDR pfn + PAGE_OFF uvaddr)))"

text \<open>The loop of \<^verbatim>\<open>copy_uvm\<close>, with \<open>k\<close> pages left; \<open>st\<close> is where the next piece starts.\<close>

fun copy_uvm_loop :: "nat \<Rightarrow> mm_ptr \<Rightarrow> addr_t \<Rightarrow> addr_t \<Rightarrow> addr_t \<Rightarrow> bool \<Rightarrow> 's vm_state_scheme \<Rightarrow>
    (int \<times> 's vm_state_scheme) result" where
  "copy_uvm_loop 0 mm st last_end kvaddr to s = Inr (0, s)"
| "copy_uvm_loop (Suc k) mm st last_end kvaddr to s =
     (let en = (if k = 0 then last_end else PGEND st) in
      rbind (uvaddr_to_kvaddr mm st s) (\<lambda>ku.
      if ku = 0 then Inr (- EACCES, s)
      else
        let s = s\<lparr>mem := (if \<not> to then memcpy kvaddr ku (en - st) (mem s)
                          else memcpy ku kvaddr (en - st) (mem s))\<rparr>
        in copy_uvm_loop k mm en last_end (kvaddr + (en - st)) to s))"

definition copy_uvm :: "mm_ptr \<Rightarrow> addr_t \<Rightarrow> addr_t \<Rightarrow> size_t \<Rightarrow> bool \<Rightarrow> 's vm_state_scheme \<Rightarrow>
    (int \<times> 's vm_state_scheme) result" where
  "copy_uvm mm uvaddr kvaddr len to s =
     (if \<not> userspace uvaddr then Inr (- EFAULT, s)
      else copy_uvm_loop (unat (nr_pages_spanned uvaddr len)) mm uvaddr (uvaddr + len) kvaddr to s)"

definition copy_to_uvm :: "mm_ptr \<Rightarrow> addr_t \<Rightarrow> addr_t \<Rightarrow> size_t \<Rightarrow> 's vm_state_scheme \<Rightarrow>
    (int \<times> 's vm_state_scheme) result" where
  "copy_to_uvm mm uvaddr kvaddr len s = copy_uvm mm uvaddr kvaddr len True s"

definition copy_from_uvm :: "mm_ptr \<Rightarrow> addr_t \<Rightarrow> addr_t \<Rightarrow> size_t \<Rightarrow> 's vm_state_scheme \<Rightarrow>
    (int \<times> 's vm_state_scheme) result" where
  "copy_from_uvm mm uvaddr kvaddr len s = copy_uvm mm uvaddr kvaddr len False s"

end
