(* ===== verification/Frames.thy ===== *)
theory Frames
  imports Page_Table
begin

text \<open>
  What the lower components leave alone: the page allocator changes no field of the slab
  allocator or above, the slab allocator none of the TLB or above, the page tables none of the
  address spaces or above. Each lemma is about the extension field of the state record at the
  level of the component.
\<close>

named_theorems frames \<open>an operation keeps the rest of the state\<close>

section \<open>Page allocator\<close>

lemma write_page_more [frames]: "write_page p f s = Inr s' \<Longrightarrow> kstate.more s' = kstate.more s"
  by (auto simp: write_page_def split: if_splits)

lemma reserve_page_more [frames]: "reserve_page p s = Inr s' \<Longrightarrow> kstate.more s' = kstate.more s"
  by (auto simp: reserve_page_def dest: write_page_more)

lemma release_more [frames]: "shred_and_release_page p s = Inr s' \<Longrightarrow> kstate.more s' = kstate.more s"
  by (auto simp: shred_and_release_page_def release_page_def shred_page_def dest: write_page_more)

lemma page_delete_more [simp]: "kstate.more (page_delete p s) = kstate.more s"
  by (simp add: page_delete_def)

lemma page_add_before_more [simp]: "kstate.more (page_add_before p q s) = kstate.more s"
  by (simp add: page_add_before_def)

lemma page_split_more [frames]: "page_split f p n s = Inr s' \<Longrightarrow> kstate.more s' = kstate.more s"
  by (auto simp: page_split_def rbind_eq_Inr)

lemma alloc_pages_loop_more [frames]:
  "alloc_pages_loop n p f s = Inr (r, s') \<Longrightarrow> kstate.more s' = kstate.more s"
proof (induction n arbitrary: p f s)
  case (Suc n)
  then show ?case
    by (auto simp: rbind_eq_Inr Let_def split: if_splits option.splits dest!: Suc.IH frames)
qed simp

lemma alloc_pages_more [frames]: "alloc_pages num s = Inr (r, s') \<Longrightarrow> kstate.more s' = kstate.more s"
  by (auto simp: alloc_pages_def rbind_eq_Inr split: if_splits dest!: frames)

lemma pgalloc_more [frames]: "pgalloc s = Inr (r, s') \<Longrightarrow> kstate.more s' = kstate.more s"
  by (auto simp: pgalloc_def dest: frames)

lemma take_run_more [frames]: "take_run n p f s = Inr (r, s') \<Longrightarrow> kstate.more s' = kstate.more s"
proof (induction n arbitrary: p f s)
  case (Suc n)
  then show ?case
    by (auto simp: rbind_eq_Inr Let_def split: option.splits dest!: Suc.IH frames)
qed simp

lemma mark_tails_more [frames]: "mark_tails n p f s = Inr (r, s') \<Longrightarrow> kstate.more s' = kstate.more s"
proof (induction n arbitrary: p s)
  case (Suc n)
  then show ?case by (auto simp: rbind_eq_Inr dest!: Suc.IH frames)
qed simp

lemma alloc_cont_pages_more [frames]:
  "alloc_cont_pages fuel num s = Inr (r, s') \<Longrightarrow> kstate.more s' = kstate.more s"
  by (auto simp: alloc_cont_pages_def rbind_eq_Inr split: if_splits dest!: frames)

lemma free_loop_more [frames]: "free_loop n p freep s = Inr s' \<Longrightarrow> kstate.more s' = kstate.more s"
proof (induction n arbitrary: p freep s)
  case (Suc n)
  then show ?case by (auto simp: rbind_eq_Inr Let_def dest!: Suc.IH frames)
qed simp

lemma free_all_pages_more [frames]: "free_all_pages p s = Inr s' \<Longrightarrow> kstate.more s' = kstate.more s"
  by (auto simp: free_all_pages_def rbind_eq_Inr dest!: frames)

lemma update_page_list_more [frames]:
  "update_page_list fuel i a b c s = Inr s' \<Longrightarrow> kstate.more s' = kstate.more s"
proof (induction fuel arbitrary: i s)
  case (Suc fuel)
  then show ?case by (auto simp: rbind_eq_Inr split: if_splits dest!: Suc.IH frames)
qed simp

lemma free_pages_more [frames]:
  assumes "free_pages base num s = Inr (r, s')"
  shows "kstate.more s' = kstate.more s"
  using assms
  by (auto simp: free_pages_def rbind_eq_Inr split: if_splits dest!: frames)

lemma pgfree_more [frames]: "pgfree p s = Inr s' \<Longrightarrow> kstate.more s' = kstate.more s"
  by (auto simp: pgfree_def rbind_eq_Inr dest!: frames)

section \<open>Slab allocator\<close>

text \<open>Keeping the extension of the page allocator keeps that of the slab allocator.\<close>

lemma kmem_more: "kstate.more s' = kstate.more s \<Longrightarrow> kmem_state.more s' = kmem_state.more s"
  by (cases s; cases s') (simp add: kmem_state.defs)


lemmas kmem_frames = frames [THEN kmem_more]

named_theorems slab_frames \<open>a slab operation keeps the rest of the state\<close>

lemma set_cache_more [slab_frames]: "set_cache c f s = Inr s' \<Longrightarrow> kmem_state.more s' = kmem_state.more s"
  by (auto simp: set_cache_def split: if_splits)

lemma write_slab_more [slab_frames]: "write_slab p f s = Inr s' \<Longrightarrow> kmem_state.more s' = kmem_state.more s"
  by (auto simp: write_slab_def dest: kmem_frames)

lemma find_kmcache_more [slab_frames]: "find_kmcache n s = Inr (c, s') \<Longrightarrow> kmem_state.more s' = kmem_state.more s"
proof -
  have "search_kmcache is n s = Inr (c, s') \<Longrightarrow> kmem_state.more s' = kmem_state.more s" for "is"
    by (induction "is") (auto simp: rbind_eq_Inr split: if_splits)
  then show "find_kmcache n s = Inr (c, s') \<Longrightarrow> kmem_state.more s' = kmem_state.more s"
    by (auto simp: find_kmcache_def rbind_eq_Inr split: if_splits)
qed

lemma set_slab_available_more [slab_frames]:
  "set_slab_available p s = Inr s' \<Longrightarrow> kmem_state.more s' = kmem_state.more s"
  by (auto simp: set_slab_available_def rbind_eq_Inr Let_def split: if_splits option.splits dest!: slab_frames)

lemma set_slab_full_more [slab_frames]:
  "set_slab_full p s = Inr s' \<Longrightarrow> kmem_state.more s' = kmem_state.more s"
  by (auto simp: set_slab_full_def rbind_eq_Inr Let_def split: if_splits option.splits dest!: slab_frames)

lemma set_slab_empty_more [slab_frames]:
  "set_slab_empty p s = Inr s' \<Longrightarrow> kmem_state.more s' = kmem_state.more s"
  by (auto simp: set_slab_empty_def rbind_eq_Inr Let_def split: if_splits option.splits dest!: slab_frames)

lemma slab_new_more [slab_frames]: "slab_new c s = Inr (r, s') \<Longrightarrow> kmem_state.more s' = kmem_state.more s"
  by (auto simp: slab_new_def fill_slab_def rbind_eq_Inr Let_def split: option.splits dest!: slab_frames kmem_frames)

lemma slab_alloc_more [slab_frames]: "slab_alloc n s = Inr (r, s') \<Longrightarrow> kmem_state.more s' = kmem_state.more s"
  by (auto simp: slab_alloc_def rbind_eq_Inr Let_def split: if_splits option.splits dest!: slab_frames)

lemma slab_delete_more [slab_frames]: "slab_delete p s = Inr s' \<Longrightarrow> kmem_state.more s' = kmem_state.more s"
  by (auto simp: slab_delete_def dest: kmem_frames)

lemma slab_free_more [slab_frames]: "slab_free a s = Inr s' \<Longrightarrow> kmem_state.more s' = kmem_state.more s"
  unfolding slab_free_def Let_def
  by (elim rbindE) (auto elim!: rbindE split: if_splits dest!: slab_frames)

lemma kmalloc_more [slab_frames]: "kmalloc fuel n s = Inr (r, s') \<Longrightarrow> kmem_state.more s' = kmem_state.more s"
  by (auto simp: kmalloc_def kmalloc_large_def rbind_eq_Inr Let_def split: if_splits option.splits
      dest!: slab_frames kmem_frames)

lemma kfree_more [slab_frames]: "kfree a s = Inr s' \<Longrightarrow> kmem_state.more s' = kmem_state.more s"
  by (auto simp: kfree_def kfree_large_def rbind_eq_Inr split: if_splits option.splits
      dest!: slab_frames kmem_frames)

section \<open>Page tables\<close>

lemma mach_more: "kmem_state.more s' = kmem_state.more s \<Longrightarrow> mach_state.more s' = mach_state.more s"
  by (cases s; cases s') (simp add: mach_state.defs)

lemma mach_more_k: "kstate.more s' = kstate.more s \<Longrightarrow> mach_state.more s' = mach_state.more s"
  by (cases s; cases s') (simp add: mach_state.defs)

lemmas mach_page_frames = frames [THEN mach_more_k]
lemmas mach_slab_frames = slab_frames [THEN mach_more]

named_theorems table_frames \<open>a page table operation keeps the rest of the state\<close>

lemma tlb_ops_more [simp]:
  "mach_state.more (tlbp s) = mach_state.more s" "mach_state.more (tlbr s) = mach_state.more s"
  "mach_state.more (tlbwi s) = mach_state.more s"
  by (simp_all add: tlbp_def tlbr_def tlbwi_def Let_def)

lemma tlb_remove_more [simp]: "mach_state.more (tlb_remove v s) = mach_state.more s"
  by (simp add: tlb_remove_def Let_def)

lemma pgdir_new_more [table_frames]: "pgdir_new a s = Inr (r, s') \<Longrightarrow> mach_state.more s' = mach_state.more s"
  by (auto simp: pgdir_new_def rbind_eq_Inr Let_def split: option.splits dest!: mach_page_frames)

lemma pgdir_delete_more [table_frames]: "pgdir_delete p s = Inr s' \<Longrightarrow> mach_state.more s' = mach_state.more s"
  by (auto simp: pgdir_delete_def rbind_eq_Inr dest!: mach_page_frames)

lemma pgdir_add_entry_more [table_frames]:
  "pgdir_add_entry d i p f s = Inr (r, s') \<Longrightarrow> mach_state.more s' = mach_state.more s"
  by (auto simp: pgdir_add_entry_def rbind_eq_Inr Let_def split: if_splits dest!: mach_page_frames)

lemma pgdir_add_pgdir_more [table_frames]:
  "pgdir_add_pgdir d i s = Inr (r, s') \<Longrightarrow> mach_state.more s' = mach_state.more s"
  by (auto simp: pgdir_add_pgdir_def rbind_eq_Inr split: option.splits dest!: table_frames)

lemma pgdir_remove_entry_more [table_frames]:
  "pgdir_remove_entry d i s = Inr (r, s') \<Longrightarrow> mach_state.more s' = mach_state.more s"
  by (auto simp: pgdir_remove_entry_def rbind_eq_Inr Let_def dest!: mach_page_frames)

lemma pgdir_remove_pgdir_more [table_frames]:
  "pgdir_remove_pgdir d i s = Inr s' \<Longrightarrow> mach_state.more s' = mach_state.more s"
  by (auto simp: pgdir_remove_pgdir_def rbind_eq_Inr split: if_splits dest!: table_frames)

lemma pde_ops_more [table_frames]:
  "pde_add_entry pde i p f s = Inr (r, s') \<Longrightarrow> mach_state.more s' = mach_state.more s"
  "pde_add_pgdir pde i s = Inr (r, s') \<Longrightarrow> mach_state.more s' = mach_state.more s"
  "pde_remove_entry pde i s = Inr (r, s') \<Longrightarrow> mach_state.more s' = mach_state.more s"
  "pde_remove_pgdir pde i s = Inr s' \<Longrightarrow> mach_state.more s' = mach_state.more s"
  by (auto simp: pde_add_entry_def pde_add_pgdir_def pde_remove_entry_def pde_remove_pgdir_def
      rbind_eq_Inr dest!: table_frames)

lemma pgtable_nomem_more [table_frames]:
  "pgtable_nomem d s = Inr (r, d', s') \<Longrightarrow> mach_state.more s' = mach_state.more s"
  by (auto simp: pgtable_nomem_def rbind_eq_Inr split: if_splits dest!: table_frames)

lemma pgtable_create_more [table_frames]:
  "pgtable_create d s = Inr (r, d', s') \<Longrightarrow> mach_state.more s' = mach_state.more s"
  by (auto simp: pgtable_create_def rbind_eq_Inr Let_def split: if_splits dest!: table_frames)

lemma pgtable_get_more [table_frames]:
  "pgtable_get pgd v c s = Inr (r, d, s') \<Longrightarrow> mach_state.more s' = mach_state.more s"
  by (auto simp: pgtable_get_def Let_def split: if_splits prod.splits dest!: table_frames)

lemma pgtable_insert_more [table_frames]:
  "pgtable_insert pgd v p perm rep s = Inr (r, q, s') \<Longrightarrow> mach_state.more s' = mach_state.more s"
  by (auto simp: pgtable_insert_def rbind_eq_Inr Let_def split: if_splits dest!: table_frames)

lemma pgtable_remove_more [table_frames]:
  "pgtable_remove pgd v s = Inr (r, s') \<Longrightarrow> mach_state.more s' = mach_state.more s"
  by (auto simp: pgtable_remove_def rbind_eq_Inr split: if_splits dest!: table_frames)

lemma arch_map_page_more [table_frames]:
  "arch_map_page pgd v p perm s = Inr (r, s') \<Longrightarrow> mach_state.more s' = mach_state.more s"
  by (auto simp: arch_map_page_def rbind_eq_Inr split: if_splits option.splits
      dest!: table_frames mach_page_frames)

lemma arch_unmap_page_more [table_frames]:
  "arch_unmap_page pgd v s = Inr (r, s') \<Longrightarrow> mach_state.more s' = mach_state.more s"
  by (auto simp: arch_unmap_page_def dest: table_frames)

lemma new_arch_mm_more [table_frames]:
  "new_arch_mm s = Inr (r, d, s') \<Longrightarrow> mach_state.more s' = mach_state.more s"
  by (auto simp: new_arch_mm_def arch_mm_new_pgtable_def rbind_eq_Inr split: option.splits dest!: table_frames)

lemma destroy_arch_mm_more [table_frames]:
  "destroy_arch_mm pgd s = Inr s' \<Longrightarrow> mach_state.more s' = mach_state.more s"
  by (auto simp: destroy_arch_mm_def arch_mm_destroy_pgtable_def rbind_eq_Inr dest!: table_frames)

end
