(* ===== verification/Vm_Props.thy ===== *)
theory Vm_Props
  imports Vm Frames
begin

text \<open>
  Properties of the area lists: look-up, insertion in address order, what the overlap check
  does and does not catch, and the destruction of an address space.
\<close>

section \<open>Well-formed area lists\<close>

definition contains :: "vm_area \<Rightarrow> addr_t \<Rightarrow> bool" where
  "contains v addr \<longleftrightarrow> vma_start v \<le> addr \<and> addr < vma_end v"

definition area_of :: "'s vm_state_scheme \<Rightarrow> addr_t \<Rightarrow> vm_area" where
  "area_of s a = the (vmas s a)"

text \<open>The list of \<open>mm\<close> consists of the live, valid areas \<open>as\<close> of \<open>mm\<close>.\<close>

definition vma_list :: "'s vm_state_scheme \<Rightarrow> mm_ptr \<Rightarrow> addr_t list \<Rightarrow> bool" where
  "vma_list s mm as \<longleftrightarrow> ring (vma_links s) (EndVma mm # map Vma as) \<and>
     (\<forall>a\<in>set as. a \<noteq> 0 \<and> (\<exists>v. vmas s a = Some v \<and> vm_area_valid v \<and> vma_mm v = Some mm))"

lemma vma_listD:
  "vma_list s mm as \<Longrightarrow> a \<in> set as \<Longrightarrow> a \<noteq> 0 \<and> vmas s a = Some (area_of s a) \<and>
     vm_area_valid (area_of s a) \<and> vma_mm (area_of s a) = Some mm"
  by (auto simp: vma_list_def area_of_def)

lemma vma_list_distinct: "vma_list s mm as \<Longrightarrow> distinct as"
  using ring_distinct by (fastforce simp: vma_list_def distinct_map)

lemma read_vma_Some [simp]: "vmas s a = Some v \<Longrightarrow> read_vma s a = Inr v"
  by (simp add: read_vma_def)

lemma read_mm_Some [simp]: "mms s m = Some v \<Longrightarrow> read_mm s m = Inr v"
  by (simp add: read_mm_def)

lemma write_mm_Some [simp]: "mms s m = Some v \<Longrightarrow> write_mm m f s = Inr (s\<lparr>mms := (mms s)(m \<mapsto> f v)\<rparr>)"
  by (simp add: write_mm_def)

lemma fit_valid [simp]: "vm_area_valid v \<Longrightarrow> vm_area_fit v addr = Inr (contains v addr)"
  by (simp add: vm_area_fit_def contains_def)

lemma prec_valid [simp]:
  "vm_area_valid v \<Longrightarrow> vm_area_valid w \<Longrightarrow> vm_area_prec v w = Inr (vma_end v \<le> vma_start w)"
  by (simp add: vm_area_prec_def)

text \<open>The assertion inside the loop of \<^verbatim>\<open>vm_area_insert\<close> never fails: it is only evaluated after the areas were found to be ordered.\<close>

lemma prec_no_overlap:
  "vm_area_valid v \<Longrightarrow> vm_area_valid w \<Longrightarrow> vma_end v \<le> vma_start w \<Longrightarrow> vm_area_overlap v w = Inr False"
  by (simp add: vm_area_overlap_def)

lemma first_vma_hd: "vma_list s mm as \<Longrightarrow> first_vma s mm = hd (map Vma as @ [EndVma mm])"
  using ll.rep_nxt [of "vma_links s" "EndVma mm" "map Vma as"] by (simp add: vma_list_def first_vma_def)

lemma next_vma_middle:
  "ring (vma_links s) (EndVma mm # map Vma (us @ a # as)) \<Longrightarrow> next_vma s (Vma a) = hd (map Vma as @ [EndVma mm])"
  using ll.nxt_middle [of "vma_links s" "EndVma mm # map Vma us" "Vma a" "map Vma as"]
  by (simp add: next_vma_def hd_append)

section \<open>Look-up\<close>

lemma vm_area_find_loop_spec:
  assumes "vma_list s mm (us @ as)" "mms s mm = Some m" "length as < fuel"
  shows "vm_area_find_loop fuel mm (hd (map Vma as @ [EndVma mm])) addr s =
    (case List.find (\<lambda>a. contains (area_of s a) addr) as of
       None \<Rightarrow> Inr (0, s)
     | Some a \<Rightarrow> Inr (a, s\<lparr>mms := (mms s)(mm \<mapsto> m\<lparr>vma_last_accessed := a\<rparr>)\<rparr>))"
  using assms
proof (induction as arbitrary: us fuel)
  case Nil
  then show ?case by (cases fuel) auto
next
  case (Cons a as)
  then obtain f where f: "fuel = Suc f" "length as < f" by (cases fuel) auto
  have a: "vmas s a = Some (area_of s a)" "vm_area_valid (area_of s a)"
    using vma_listD [OF Cons.prems(1), of a] by auto
  have nx: "next_vma s (Vma a) = hd (map Vma as @ [EndVma mm])"
    using next_vma_middle [of s mm us a as] Cons.prems(1) by (simp add: vma_list_def)
  have "vma_list s mm ((us @ [a]) @ as)" using Cons.prems(1) by simp
  then show ?case using Cons.IH [of "us @ [a]" f] Cons.prems(2) f a nx by simp
qed

section \<open>Insertion\<close>

lemma vm_area_insert_loop_spec:
  assumes "vma_list s mm (us @ as)" "vmas s n = Some w" "vm_area_valid w" "length as < fuel"
  shows "vm_area_insert_loop fuel mm (hd (map Vma as @ [EndVma mm])) n s =
    Inr (hd (map Vma (dropWhile (\<lambda>a. vma_end (area_of s a) \<le> vma_start w) as) @ [EndVma mm]))"
  using assms
proof (induction as arbitrary: us fuel)
  case Nil
  then show ?case by (cases fuel) auto
next
  case (Cons a as)
  then obtain f where f: "fuel = Suc f" "length as < f" by (cases fuel) auto
  have a: "vmas s a = Some (area_of s a)" "vm_area_valid (area_of s a)"
    using vma_listD [OF Cons.prems(1), of a] by auto
  have nx: "next_vma s (Vma a) = hd (map Vma as @ [EndVma mm])"
    using next_vma_middle [of s mm us a as] Cons.prems(1) by (simp add: vma_list_def)
  have "vma_list s mm ((us @ [a]) @ as)" using Cons.prems(1) by simp
  then show ?case using Cons.IH [of "us @ [a]" f] Cons.prems(2,3) f a nx by (simp add: prec_no_overlap)
qed

definition insert_area :: "'s vm_state_scheme \<Rightarrow> addr_t \<Rightarrow> addr_t list \<Rightarrow> addr_t list" where
  "insert_area s n as =
     takeWhile (\<lambda>a. vma_end (area_of s a) \<le> vma_start (area_of s n)) as @ n #
     dropWhile (\<lambda>a. vma_end (area_of s a) \<le> vma_start (area_of s n)) as"

lemma set_insert_area: "set (insert_area s n as) = insert n (set as)"
proof -
  let ?P = "\<lambda>a. vma_end (area_of s a) \<le> vma_start (area_of s n)"
  have "set as = set (takeWhile ?P as) \<union> set (dropWhile ?P as)" by (metis set_append takeWhile_dropWhile_id)
  then show ?thesis by (auto simp: insert_area_def)
qed

lemma vm_area_insert_spec:
  assumes "vma_list s mm as" "vmas s n = Some w" "vm_area_valid w" "n \<noteq> 0" "n \<notin> set as" "length as < fuel"
  shows "\<exists>s'. vm_area_insert fuel (Some mm) n s = Inr (0, s') \<and> vma_list s' mm (insert_area s n as) \<and>
    mms s' = mms s \<and> vmas s' = (vmas s)(n \<mapsto> w\<lparr>vma_mm := Some mm\<rparr>)"
proof -
  let ?s = "s\<lparr>vmas := (vmas s)(n \<mapsto> w\<lparr>vma_mm := Some mm\<rparr>)\<rparr>"
  let ?P = "\<lambda>a. vma_end (area_of s a) \<le> vma_start w"
  have same: "area_of ?s a = area_of s a" if "a \<in> set as" for a
    using that assms(5) by (auto simp: area_of_def)
  have l: "vma_list ?s mm as" using assms(1,5) by (auto simp: vma_list_def)
  have w: "vmas ?s n = Some (w\<lparr>vma_mm := Some mm\<rparr>)" "vm_area_valid (w\<lparr>vma_mm := Some mm\<rparr>)"
    using assms(3) by (auto simp: vm_area_valid_def)
  have dw: "dropWhile (\<lambda>a. vma_end (area_of ?s a) \<le> vma_start w) as = dropWhile ?P as"
    by (rule dropWhile_cong) (auto simp: same)
  have loop: "vm_area_insert_loop fuel mm (first_vma ?s mm) n ?s = Inr (hd (map Vma (dropWhile ?P as) @ [EndVma mm]))"
    using vm_area_insert_loop_spec [of ?s mm "[]" as n _ fuel] l w assms(6) first_vma_hd [OF l] dw by simp
  let ?s' = "?s\<lparr>vma_links := list_add_before (hd (map Vma (dropWhile ?P as) @ [EndVma mm])) (Vma n) (vma_links s)\<rparr>"
  have eq: "vm_area_insert fuel (Some mm) n s = Inr (0, ?s')"
    using assms(2,4) loop by (simp add: vm_area_insert_def write_vma_def)
  have "ring (vma_links s) (EndVma mm # map Vma (takeWhile ?P as) @ map Vma (dropWhile ?P as))"
    using assms(1) by (simp add: vma_list_def flip: map_append)
  moreover have "Vma n \<notin> set (EndVma mm # map Vma (takeWhile ?P as) @ map Vma (dropWhile ?P as))"
    using assms(5) by (auto dest: set_takeWhileD set_dropWhileD)
  ultimately have "ring (vma_links ?s') (EndVma mm # map Vma (takeWhile ?P as) @ Vma n # map Vma (dropWhile ?P as))"
    using insert_at_hd [of "vma_links s" "EndVma mm" "map Vma (takeWhile ?P as)" "map Vma (dropWhile ?P as)" "Vma n"] by simp
  moreover have "vma_start (area_of s n) = vma_start w" using assms(2) by (simp add: area_of_def)
  ultimately have "ring (vma_links ?s') (EndVma mm # map Vma (insert_area s n as))" by (simp add: insert_area_def)
  then have "vma_list ?s' mm (insert_area s n as)"
    using l w assms(4) unfolding vma_list_def set_insert_area by auto
  then show ?thesis using eq by (intro exI [of _ ?s']) simp
qed

text \<open>The areas follow each other in address order and do not overlap.\<close>

definition disjoint_areas :: "'s vm_state_scheme \<Rightarrow> addr_t list \<Rightarrow> bool" where
  "disjoint_areas s as \<longleftrightarrow> sorted_wrt (\<lambda>a b. vma_end (area_of s a) \<le> vma_start (area_of s b)) as"

lemma disjoint_areas_insert:
  assumes "disjoint_areas s as" "vm_area_valid (area_of s n)" "\<forall>a\<in>set as. vm_area_valid (area_of s a)"
    and apart: "\<forall>a\<in>set as. vma_end (area_of s a) \<le> vma_start (area_of s n) \<or> vma_end (area_of s n) \<le> vma_start (area_of s a)"
  shows "disjoint_areas s (insert_area s n as)"
  using assms
proof (induction as)
  case Nil
  then show ?case by (simp add: disjoint_areas_def insert_area_def)
next
  case (Cons a as)
  let ?e = "\<lambda>a. vma_end (area_of s a)" and ?b = "\<lambda>a. vma_start (area_of s a)"
  have tl: "disjoint_areas s as" "\<forall>x\<in>set as. ?e a \<le> ?b x"
    using Cons.prems(1) by (auto simp: disjoint_areas_def)
  show ?case
  proof (cases "?e a \<le> ?b n")
    case True
    then have "insert_area s n (a # as) = a # insert_area s n as" by (simp add: insert_area_def)
    then show ?thesis using Cons.IH tl Cons.prems True by (simp add: disjoint_areas_def set_insert_area)
  next
    case False
    then have "?e n \<le> ?b a" "?b a < ?e a" using Cons.prems by (auto simp: vm_area_valid_def)
    then have "\<forall>x\<in>set (a # as). ?e n \<le> ?b x" using tl(2) by fastforce
    then show ?thesis using False Cons.prems(1) by (simp add: insert_area_def disjoint_areas_def)
  qed
qed

section \<open>Example states\<close>

text \<open>A state whose kernel address space has the given areas, in this order.\<close>

definition vm_with :: "(addr_t \<times> vm_area) list \<Rightarrow> vm_state" where
  "vm_with xs = mach_state.extend boot_mach
     \<lparr>vmas = map_of xs,
      vma_links = foldl (\<lambda>h a. list_add_before (EndVma KernMm) (Vma a) h)
        (list_init (EndVma KernMm) \<lparr>node_prev = (\<lambda>x. x), node_next = (\<lambda>x. x)\<rparr>) (map fst xs),
      mms = [KernMm \<mapsto> \<lparr>mm_pgd = 0, vma_last_accessed = 0, mmap_count = 0, mm_ref_count = 0\<rparr>]\<rparr>"

lemma vm_with_fields [simp]:
  "vmas (vm_with xs) = map_of xs"
  "mms (vm_with xs) = [KernMm \<mapsto> \<lparr>mm_pgd = 0, vma_last_accessed = 0, mmap_count = 0, mm_ref_count = 0\<rparr>]"
  "vma_links (vm_with xs) = foldl (\<lambda>h a. list_add_before (EndVma KernMm) (Vma a) h)
        (list_init (EndVma KernMm) \<lparr>node_prev = (\<lambda>x. x), node_next = (\<lambda>x. x)\<rparr>) (map fst xs)"
  by (simp_all add: vm_with_def mach_state.defs kmem_state.defs kstate.defs)

lemma foldl_add_ring:
  "distinct as \<Longrightarrow> ring (foldl (\<lambda>h a. list_add_before (EndVma KernMm) (Vma a) h) (list_init (EndVma KernMm) h0) as)
     (EndVma KernMm # map Vma as)"
proof (induction as rule: rev_induct)
  case Nil
  then show ?case by (simp add: ll.rep_init)
next
  case (snoc a as)
  then show ?case using ll.rep_add_before [of _ "EndVma KernMm" "map Vma as" "Vma a"] by auto
qed

lemma vm_with_list:
  assumes "distinct (map fst xs)" "\<forall>(a, v)\<in>set xs. a \<noteq> 0 \<and> vm_area_valid v \<and> vma_mm v = Some KernMm"
  shows "vma_list (vm_with xs) KernMm (map fst xs)"
  using foldl_add_ring [OF assms(1)] assms(2)
  by (auto simp: vma_list_def map_of_eq_Some_iff [OF assms(1)])

definition example_areas :: "(addr_t \<times> vm_area) list" where
  "example_areas =
     [(0x1000, \<lparr>vma_start = 0x4000, vma_end = 0x8000, vma_flags = 6, vma_mm = Some KernMm\<rparr>),
      (0x1040, \<lparr>vma_start = 0x10000, vma_end = 0x18000, vma_flags = 6, vma_mm = Some KernMm\<rparr>)]"

lemma example_vma_list: "vma_list (vm_with example_areas) KernMm [0x1000, 0x1040]"
  using vm_with_list [of example_areas] by (simp add: example_areas_def vm_area_valid_def)

section \<open>Properties\<close>

text \<open>
  Property C26. \<^verbatim>\<open>vm_area_find\<close> on a well-formed area list returns an area of the list that
  contains the address if there is one and NULL otherwise. An area it finds becomes the cached last area
  of the address space; nothing else changes, and nothing at all when there is none.
\<close>
theorem vm_area_find_correct:
  assumes "vma_list s mm as" "mms s mm = Some m" "vma_last_accessed m = 0 \<or> vma_last_accessed m \<in> set as"
    and "length as < fuel"
  shows "\<exists>r. vm_area_find fuel (Some mm) addr s =
      Inr (r, if r = 0 then s else s\<lparr>mms := (mms s)(mm \<mapsto> m\<lparr>vma_last_accessed := r\<rparr>)\<rparr>) \<and>
    (if r = 0 then \<forall>a\<in>set as. \<not> contains (area_of s a) addr
     else r \<in> set as \<and> contains (area_of s r) addr)"
proof -
  let ?l = "vma_last_accessed m"
  have same: "s\<lparr>mms := (mms s)(mm \<mapsto> m)\<rparr> = s" using assms(2) by (simp add: fun_upd_idem)
  have areas: "a \<noteq> 0" "vmas s a = Some (area_of s a)" "vm_area_valid (area_of s a)" if "a \<in> set as" for a
    using vma_listD [OF assms(1) that] by auto
  have loop: "vm_area_find_loop fuel mm (first_vma s mm) addr s =
    (case List.find (\<lambda>a. contains (area_of s a) addr) as of
       None \<Rightarrow> Inr (0, s)
     | Some a \<Rightarrow> Inr (a, s\<lparr>mms := (mms s)(mm \<mapsto> m\<lparr>vma_last_accessed := a\<rparr>)\<rparr>))"
    using vm_area_find_loop_spec [of s mm "[]" as m fuel addr] first_vma_hd [OF assms(1)] assms by simp
  show ?thesis
  proof (cases "?l \<noteq> 0 \<and> contains (area_of s ?l) addr")
    case True
    then have "vm_area_find fuel (Some mm) addr s = Inr (?l, s)"
      using assms(2,3) areas [of ?l] by (simp add: vm_area_find_def)
    then show ?thesis using True assms(3) same by (intro exI [of _ ?l]) simp
  next
    case False
    then have miss: "vm_area_find fuel (Some mm) addr s = vm_area_find_loop fuel mm (first_vma s mm) addr s"
      using assms(2,3) areas [of ?l] by (auto simp: vm_area_find_def Let_def)
    show ?thesis
    proof (cases "List.find (\<lambda>a. contains (area_of s a) addr) as")
      case None
      then have "vm_area_find fuel (Some mm) addr s = Inr (0, s)" using miss loop by simp
      moreover have "\<forall>a\<in>set as. \<not> contains (area_of s a) addr" using None by (simp add: find_None_iff)
      ultimately show ?thesis by (intro exI [of _ "0::addr_t"]) simp
    next
      case (Some a)
      then have "a \<in> set as" "contains (area_of s a) addr" by (auto simp: find_Some_iff)
      then show ?thesis using miss loop Some areas [of a]
        by (intro exI [of _ a]) simp
    qed
  qed
qed

theorem vm_area_find_correct_witness:
  "\<exists>r m. vm_area_find 5 (Some KernMm) 0x5000 (vm_with example_areas) =
       Inr (r, (vm_with example_areas)\<lparr>mms := [KernMm \<mapsto> m]\<rparr>) \<and> vma_last_accessed m = r \<and>
     r \<in> {0x1000, 0x1040} \<and> contains (area_of (vm_with example_areas) r) 0x5000"
proof -
  let ?s = "vm_with example_areas"
  let ?m = "\<lparr>mm_pgd = 0, vma_last_accessed = 0, mmap_count = 0, mm_ref_count = 0\<rparr>"
  have m: "mms ?s KernMm = Some ?m" "(mms ?s)(KernMm \<mapsto> x) = [KernMm \<mapsto> x]" for x by simp_all
  have in1: "contains (area_of ?s 0x1000) 0x5000" by (simp add: area_of_def example_areas_def contains_def)
  obtain r where r: "vm_area_find 5 (Some KernMm) 0x5000 ?s =
      Inr (r, if r = 0 then ?s else ?s\<lparr>mms := (mms ?s)(KernMm \<mapsto> ?m\<lparr>vma_last_accessed := r\<rparr>)\<rparr>)"
    "if r = 0 then \<forall>a\<in>set [0x1000, 0x1040]. \<not> contains (area_of ?s a) 0x5000
     else r \<in> set [0x1000, 0x1040] \<and> contains (area_of ?s r) 0x5000"
    using vm_area_find_correct [OF example_vma_list m(1), of 5 "0x5000"] by auto
  then have "r \<noteq> 0" using in1 by (auto split: if_splits)
  then show ?thesis using r unfolding m(2) by (intro exI [of _ r] exI [of _ "?m\<lparr>vma_last_accessed := r\<rparr>"]) simp
qed

text \<open>
  Property C20. \<^verbatim>\<open>vm_area_insert\<close> of an area that overlaps no area of the list keeps the list
  in address order with pairwise disjoint areas, the new one among them.
\<close>
theorem vm_area_insert_ordered:
  assumes "vma_list s mm as" "disjoint_areas s as" "vmas s n = Some w" "vm_area_valid w" "n \<noteq> 0"
    and "n \<notin> set as" "length as < fuel"
    and "\<forall>a\<in>set as. vma_end (area_of s a) \<le> vma_start w \<or> vma_end w \<le> vma_start (area_of s a)"
  shows "\<exists>s' as'. vm_area_insert fuel (Some mm) n s = Inr (0, s') \<and> vma_list s' mm as' \<and>
    disjoint_areas s' as' \<and> set as' = insert n (set as)"
proof -
  obtain s' where s': "vm_area_insert fuel (Some mm) n s = Inr (0, s')" "vma_list s' mm (insert_area s n as)"
      "vmas s' = (vmas s)(n \<mapsto> w\<lparr>vma_mm := Some mm\<rparr>)"
    using vm_area_insert_spec [OF assms(1,3,4,5,6,7)] by auto
  have n: "area_of s n = w" using assms(3) by (simp add: area_of_def)
  have "disjoint_areas s (insert_area s n as)"
    using disjoint_areas_insert [OF assms(2)] assms(4,8) vma_listD [OF assms(1)] n by auto
  moreover have "vma_start (area_of s' a) = vma_start (area_of s a) \<and> vma_end (area_of s' a) = vma_end (area_of s a)" for a
    using s'(3) n by (auto simp: area_of_def)
  ultimately have "disjoint_areas s' (insert_area s n as)" by (simp add: disjoint_areas_def)
  then show ?thesis using s' set_insert_area by blast
qed

text \<open>
  A third area, not in the list yet, between the two of the example or across the first.
\<close>

definition area_between :: vm_area where
  "area_between = \<lparr>vma_start = 0xc000, vma_end = 0x10000, vma_flags = 6, vma_mm = None\<rparr>"

definition area_across :: vm_area where
  "area_across = \<lparr>vma_start = 0x4000, vma_end = 0xc000, vma_flags = 6, vma_mm = None\<rparr>"

definition with_loose :: "vm_area \<Rightarrow> vm_state" where
  "with_loose v = (vm_with example_areas)\<lparr>vmas := (vmas (vm_with example_areas))(0x1080 \<mapsto> v)\<rparr>"

lemma with_loose_list: "vma_list (with_loose v) KernMm [0x1000, 0x1040]"
  using example_vma_list by (simp add: vma_list_def with_loose_def)

lemma with_loose_areas [simp]:
  "vmas (with_loose v) 0x1080 = Some v" "mms (with_loose v) = mms (vm_with example_areas)"
  "area_of (with_loose v) 0x1080 = v"
  "area_of (with_loose v) 0x1000 = \<lparr>vma_start = 0x4000, vma_end = 0x8000, vma_flags = 6, vma_mm = Some KernMm\<rparr>"
  "area_of (with_loose v) 0x1040 = \<lparr>vma_start = 0x10000, vma_end = 0x18000, vma_flags = 6, vma_mm = Some KernMm\<rparr>"
  by (simp_all add: with_loose_def area_of_def example_areas_def)

theorem vm_area_insert_ordered_witness:
  "\<exists>s' as'. vm_area_insert 5 (Some KernMm) 0x1080 (with_loose area_between) = Inr (0, s') \<and>
     vma_list s' KernMm as' \<and> disjoint_areas s' as' \<and> set as' = {0x1000, 0x1040, 0x1080}"
proof -
  have "disjoint_areas (with_loose area_between) [0x1000, 0x1040]" by (simp add: disjoint_areas_def)
  then show ?thesis
    using vm_area_insert_ordered [OF with_loose_list, of area_between "0x1080" area_between 5]
    by (simp add: area_between_def vm_area_valid_def insert_commute)
qed

text \<open>
  Property C36. The assertion against overlapping areas in \<^verbatim>\<open>vm_area_insert\<close> is only reached
  for areas already found to be ordered, so it never fails: an area that overlaps one of the
  list is inserted without complaint, and the list is no longer disjoint.
\<close>
theorem vm_area_insert_accepts_overlap:
  assumes "vma_list s mm as" "vmas s n = Some w" "vm_area_valid w" "n \<noteq> 0" "n \<notin> set as" "length as < fuel"
    and "a \<in> set as" "vma_start (area_of s a) < vma_end w" "vma_start w < vma_end (area_of s a)"
  shows "\<exists>s' as'. vm_area_insert fuel (Some mm) n s = Inr (0, s') \<and> vma_list s' mm as' \<and>
    set as' = insert n (set as) \<and> \<not> disjoint_areas s' as'"
proof -
  obtain s' where s': "vm_area_insert fuel (Some mm) n s = Inr (0, s')" "vma_list s' mm (insert_area s n as)"
      "vmas s' = (vmas s)(n \<mapsto> w\<lparr>vma_mm := Some mm\<rparr>)"
    using vm_area_insert_spec [OF assms(1-6)] by auto
  have n: "area_of s n = w" using assms(2) by (simp add: area_of_def)
  have same: "vma_start (area_of s' b) = vma_start (area_of s b) \<and> vma_end (area_of s' b) = vma_end (area_of s b)" for b
    using s'(3) n by (auto simp: area_of_def)
  have "\<not> disjoint_areas s' (insert_area s n as)"
  proof
    assume d: "disjoint_areas s' (insert_area s n as)"
    have "a \<in> set (takeWhile (\<lambda>a. vma_end (area_of s a) \<le> vma_start (area_of s n)) as) \<or>
      a \<in> set (dropWhile (\<lambda>a. vma_end (area_of s a) \<le> vma_start (area_of s n)) as)"
      using assms(7) by (metis Un_iff set_append takeWhile_dropWhile_id)
    then have "vma_end (area_of s a) \<le> vma_start w \<or> vma_end w \<le> vma_start (area_of s a)"
      using d same n by (auto simp: disjoint_areas_def insert_area_def sorted_wrt_append)
    then show False using assms(8,9) by auto
  qed
  then show ?thesis using s' set_insert_area by blast
qed

theorem vm_area_insert_accepts_overlap_witness:
  "\<exists>s' as'. vm_area_insert 5 (Some KernMm) 0x1080 (with_loose area_across) = Inr (0, s') \<and>
     vma_list s' KernMm as' \<and> set as' = {0x1000, 0x1040, 0x1080} \<and> \<not> disjoint_areas s' as'"
  using vm_area_insert_accepts_overlap [OF with_loose_list, of area_across "0x1080" area_across 5 "0x1000"]
  by (simp add: area_across_def vm_area_valid_def insert_commute)

end
