(* ===== verification/Task_State.thy ===== *)
theory Task_State
  imports Vm
begin

text \<open>
  The state of tasks and processors: the trap frame (\<^verbatim>\<open>asm/ptrace.h\<close>), the task structure
  and the task set (\<^verbatim>\<open>include/sched/task.h\<close>), the run queues (\<^verbatim>\<open>include/sched/sched.h\<close>),
  the thread information of the processor that runs (\<^verbatim>\<open>asm/thread_info.h\<close>) and the ASID
  table (\<^verbatim>\<open>asm/mm/hier/pgtable.h\<close>).

  A \<^verbatim>\<open>task_t *\<close> is the address \<open>kmalloc\<close> returned, 0 being null. Each of the five list
  nodes embedded in a task belongs to a list of its own kind, so each kind has its own heap of
  links: process list, hash chains and run queues have head nodes, the sibling and thread lists
  have none. Trap frames and contexts are structures inside kernel stacks; \<open>tframes\<close> holds
  the ones that have been set up, by address. Addresses the linker chooses are fields of the
  state: \<open>init_thread_union\<close>, \<open>forkret_addr\<close> and \<open>init_image\<close>, the start of the
  binary linked in for the first process.
\<close>

section \<open>Trap frames\<close>

record trapframe =
  tf_gpr :: "nat \<Rightarrow> u64"
  tf_lo :: u64
  tf_hi :: u64
  tf_status :: u64
  tf_cause :: u64
  tf_badvaddr :: u64
  tf_epc :: u64
  tf_entryhi :: u64

definition TF_SIZE :: u64 where "TF_SIZE = 39 * 8"

definition zero_frame :: trapframe where
  "zero_frame = \<lparr>tf_gpr = (\<lambda>_. 0), tf_lo = 0, tf_hi = 0, tf_status = 0, tf_cause = 0,
     tf_badvaddr = 0, tf_epc = 0, tf_entryhi = 0\<rparr>"

text \<open>Register numbers of \<^verbatim>\<open>asm/mipsregs.h\<close>.\<close>

abbreviation (input) REG_V0 :: nat where "REG_V0 \<equiv> 2"
abbreviation (input) REG_A0 :: nat where "REG_A0 \<equiv> 4"
abbreviation (input) REG_A1 :: nat where "REG_A1 \<equiv> 5"
abbreviation (input) REG_A2 :: nat where "REG_A2 \<equiv> 6"
abbreviation (input) REG_A3 :: nat where "REG_A3 \<equiv> 7"
abbreviation (input) REG_GP :: nat where "REG_GP \<equiv> 28"
abbreviation (input) REG_SP :: nat where "REG_SP \<equiv> 29"
abbreviation (input) REG_RA :: nat where "REG_RA \<equiv> 31"

section \<open>Tasks\<close>

type_synonym task_ptr = addr_t

record sched_entity =
  se_rq :: "nat option"
  se_priority :: u32
  se_slice :: u32

record task_struct =
  t_tid :: u32
  t_pid :: u32
  t_state :: u16
  t_exit_state :: u16
  t_exit :: u16
  t_on_cpu :: u16
  t_asid :: u32
  t_flags :: u32
  t_context :: addr_t
  t_tf :: addr_t
  t_mm :: "mm_ptr option"
  t_kstack :: addr_t
  t_progtop :: addr_t
  t_ustacktop :: addr_t
  t_heapsize :: u64
  t_name :: "u8 list"
  t_parent :: task_ptr
  t_first_child :: task_ptr
  t_num_child :: u32
  t_num_sibling :: u32
  t_thgroup_leader :: task_ptr
  t_num_threads :: u64
  t_se :: sched_entity

definition zero_task :: task_struct where
  "zero_task = \<lparr>t_tid = 0, t_pid = 0, t_state = 0, t_exit_state = 0, t_exit = 0, t_on_cpu = 0, t_asid = 0,
     t_flags = 0, t_context = 0, t_tf = 0, t_mm = None, t_kstack = 0, t_progtop = 0, t_ustacktop = 0,
     t_heapsize = 0, t_name = replicate 256 0, t_parent = 0, t_first_child = 0, t_num_child = 0,
     t_num_sibling = 0, t_thgroup_leader = 0, t_num_threads = 0,
     t_se = \<lparr>se_rq = None, se_priority = 0, se_slice = 0\<rparr>\<rparr>"

abbreviation (input) TID_MAIN :: u32 where "TID_MAIN \<equiv> 0"
abbreviation (input) PID_IDLE :: u32 where "PID_IDLE \<equiv> 0"
abbreviation (input) PID_INIT :: u32 where "PID_INIT \<equiv> 1"
definition TASK_RUNNABLE :: u16 where "TASK_RUNNABLE = 0x0200"
definition TASK_YIELDING :: u16 where "TASK_YIELDING = 0x0400"
definition PF_STARTING :: u32 where "PF_STARTING = 2"
abbreviation (input) HASH_LIST_SIZE :: nat where "HASH_LIST_SIZE \<equiv> 32"
abbreviation (input) HASH_LIST_ORDER :: nat where "HASH_LIST_ORDER \<equiv> 5"
abbreviation (input) NR_CPUS :: nat where "NR_CPUS \<equiv> 4"

datatype proc_node = ProcHead | Proc task_ptr
datatype hash_node = HashHead nat | Hash task_ptr
datatype se_node = RqHead nat nat | Se task_ptr

record cpu_run_queue =
  rq_cpu :: u32
  rq_run :: u16
  rq_exhaust :: u16
  rq_payload :: u64

record task_state = vm_state +
  tasks :: "task_ptr \<rightharpoonup> task_struct"
  tframes :: "addr_t \<rightharpoonup> trapframe"
  proc_links :: "proc_node list_heap"
  hash_links :: "hash_node list_heap"
  sib_links :: "task_ptr list_heap"
  thread_links :: "task_ptr list_heap"
  se_links :: "se_node list_heap"
  nr_process :: u64
  nr_thread :: u64
  initproc :: task_ptr
  idleprocs :: "task_ptr list"
  cpu_rq :: "cpu_run_queue list"
  cpu_number :: u32
  ticks :: u32
  current_task :: task_ptr
  cpu_online :: "bool list"
  kernelsp :: "addr_t list"
  online_hpt :: "addr_t list"
  next_asid :: u16
  online_tasks :: "task_ptr list"
  cpu_gpr :: "nat \<Rightarrow> u64"
  cpu_lo :: u64
  cpu_hi :: u64
  cp0_status :: u64
  cp0_cause :: u64
  cp0_badvaddr :: u64
  cp0_epc :: u64
  cp0_count :: u32
  cp0_compare :: u32
  init_thread_union :: addr_t
  forkret_addr :: addr_t
  init_image :: addr_t

definition read_task :: "'s task_state_scheme \<Rightarrow> task_ptr \<Rightarrow> task_struct result" where
  "read_task s t = (case tasks s t of
       None \<Rightarrow> Inl (if t = 0 then NullPointer else BadPointer ''task_t'')
     | Some x \<Rightarrow> Inr x)"

definition write_task :: "task_ptr \<Rightarrow> (task_struct \<Rightarrow> task_struct) \<Rightarrow> 's task_state_scheme \<Rightarrow>
    's task_state_scheme result" where
  "write_task t f s = rbind (read_task s t) (\<lambda>x. Inr (s\<lparr>tasks := (tasks s)(t \<mapsto> f x)\<rparr>))"

definition read_frame :: "'s task_state_scheme \<Rightarrow> addr_t \<Rightarrow> trapframe result" where
  "read_frame s a = (case tframes s a of
       None \<Rightarrow> Inl (if a = 0 then NullPointer else BadPointer ''trapframe_t'')
     | Some x \<Rightarrow> Inr x)"

definition write_frame :: "addr_t \<Rightarrow> (trapframe \<Rightarrow> trapframe) \<Rightarrow> 's task_state_scheme \<Rightarrow>
    's task_state_scheme result" where
  "write_frame a f s = rbind (read_frame s a) (\<lambda>x. Inr (s\<lparr>tframes := (tframes s)(a \<mapsto> f x)\<rparr>))"

lemma read_task_Some [simp]: "tasks s t = Some x \<Longrightarrow> read_task s t = Inr x"
  by (simp add: read_task_def)

lemma write_task_Some [simp]:
  "tasks s t = Some x \<Longrightarrow> write_task t f s = Inr (s\<lparr>tasks := (tasks s)(t \<mapsto> f x)\<rparr>)"
  by (simp add: write_task_def)

lemma read_frame_Some [simp]: "tframes s t = Some x \<Longrightarrow> read_frame s t = Inr x"
  by (simp add: read_frame_def)

lemma write_frame_Some [simp]:
  "tframes s t = Some x \<Longrightarrow> write_frame t f s = Inr (s\<lparr>tframes := (tframes s)(t \<mapsto> f x)\<rparr>)"
  by (simp add: write_frame_def)

definition task_is_process :: "task_struct \<Rightarrow> bool" where
  "task_is_process x = (t_tid x = TID_MAIN)"

definition kstacktop :: "task_struct \<Rightarrow> addr_t" where
  "kstacktop x = t_kstack x + 8192 - TF_SIZE"

text \<open>\<^verbatim>\<open>idleproc\<close>, the entry of the processor that runs.\<close>

definition idleproc :: "'s task_state_scheme \<Rightarrow> task_ptr result" where
  "idleproc s = (if unat (cpu_number s) < length (idleprocs s)
     then Inr (idleprocs s ! unat (cpu_number s)) else Inl (BadPointer ''idleprocs''))"

text \<open>The address of \<^verbatim>\<open>current_thread_info->idle_context\<close>: three members precede it.\<close>

definition current_idle_context :: "'s task_state_scheme \<Rightarrow> addr_t" where
  "current_idle_context s = init_thread_union s + 16"

end
