(* ===== verification/Switch.thy ===== *)
theory Switch
  imports Task_State
begin

text \<open>
  The context switch (\<^verbatim>\<open>arch/mips/sched/switch.S\<close>) as a list of instructions and their execution
  on the registers, the coprocessor and the contexts in memory. The lemmas say what the two halves of
  the routine do: the first stores every register into the old context, the second loads every
  register from the new one.
\<close>

section \<open>Instructions\<close>

text \<open>A 32-bit coprocessor register read into an \<^verbatim>\<open>unsigned long\<close> is sign-extended.\<close>

definition read_32bit_c0_register :: "u64 \<Rightarrow> u64" where
  "read_32bit_c0_register v = scast (ucast v :: u32)"

text \<open>
  \<^verbatim>\<open>switch.S\<close>, instruction by instruction. A context is a trap frame, and a memory operand
  \<^verbatim>\<open>TF_X(a0)\<close> is a slot of the frame whose address the base register holds.
  \<^verbatim>\<open>mfc0\<close> and \<^verbatim>\<open>mtc0\<close> move 32 bits, sign-extended in the general register.
  \<^verbatim>\<open>SET_SAVED_SP\<close> is the macro \<^verbatim>\<open>set_saved_sp\<close> of \<^verbatim>\<open>stackframe.h\<close>: it stores a
  register into the entry of \<^verbatim>\<open>kernelsp\<close> for this processor, whose offset it leaves in its second
  register. (The assembler also uses \<^verbatim>\<open>AT\<close> for the address; it is loaded from the new context
  later.)
\<close>

datatype frame_slot = TF_GPR nat | TF_LO | TF_HI | TF_STATUS | TF_CAUSE | TF_BADVADDR | TF_EPC | TF_ENTRYHI

datatype cp0_reg = CP0_STATUS | CP0_CAUSE | CP0_BADVADDR | CP0_EPC | CP0_ENTRYHI

datatype instr =
    SD nat frame_slot nat | LD nat frame_slot nat | MFLO nat | MFHI nat | MTLO nat | MTHI nat
  | MFC0 nat cp0_reg | DMFC0 nat cp0_reg | MTC0 nat cp0_reg | DMTC0 nat cp0_reg | SET_SAVED_SP nat nat

fun get_slot :: "frame_slot \<Rightarrow> trapframe \<Rightarrow> u64" where
  "get_slot (TF_GPR r) f = tf_gpr f r"
| "get_slot TF_LO f = tf_lo f"
| "get_slot TF_HI f = tf_hi f"
| "get_slot TF_STATUS f = tf_status f"
| "get_slot TF_CAUSE f = tf_cause f"
| "get_slot TF_BADVADDR f = tf_badvaddr f"
| "get_slot TF_EPC f = tf_epc f"
| "get_slot TF_ENTRYHI f = tf_entryhi f"

fun set_slot :: "frame_slot \<Rightarrow> u64 \<Rightarrow> trapframe \<Rightarrow> trapframe" where
  "set_slot (TF_GPR r) v f = f\<lparr>tf_gpr := (tf_gpr f)(r := v)\<rparr>"
| "set_slot TF_LO v f = f\<lparr>tf_lo := v\<rparr>"
| "set_slot TF_HI v f = f\<lparr>tf_hi := v\<rparr>"
| "set_slot TF_STATUS v f = f\<lparr>tf_status := v\<rparr>"
| "set_slot TF_CAUSE v f = f\<lparr>tf_cause := v\<rparr>"
| "set_slot TF_BADVADDR v f = f\<lparr>tf_badvaddr := v\<rparr>"
| "set_slot TF_EPC v f = f\<lparr>tf_epc := v\<rparr>"
| "set_slot TF_ENTRYHI v f = f\<lparr>tf_entryhi := v\<rparr>"

fun get_cp0 :: "cp0_reg \<Rightarrow> 's task_state_scheme \<Rightarrow> u64" where
  "get_cp0 CP0_STATUS s = cp0_status s"
| "get_cp0 CP0_CAUSE s = cp0_cause s"
| "get_cp0 CP0_BADVADDR s = cp0_badvaddr s"
| "get_cp0 CP0_EPC s = cp0_epc s"
| "get_cp0 CP0_ENTRYHI s = cp0_entryhi s"

fun set_cp0 :: "cp0_reg \<Rightarrow> u64 \<Rightarrow> 's task_state_scheme \<Rightarrow> 's task_state_scheme" where
  "set_cp0 CP0_STATUS v s = s\<lparr>cp0_status := v\<rparr>"
| "set_cp0 CP0_CAUSE v s = s\<lparr>cp0_cause := v\<rparr>"
| "set_cp0 CP0_BADVADDR v s = s\<lparr>cp0_badvaddr := v\<rparr>"
| "set_cp0 CP0_EPC v s = s\<lparr>cp0_epc := v\<rparr>"
| "set_cp0 CP0_ENTRYHI v s = s\<lparr>cp0_entryhi := v\<rparr>"

text \<open>Register 0 reads as 0, and a write to it has no effect.\<close>

definition get_reg :: "nat \<Rightarrow> 's task_state_scheme \<Rightarrow> u64" where
  "get_reg r s = (if r = 0 then 0 else cpu_gpr s r)"

definition set_reg :: "nat \<Rightarrow> u64 \<Rightarrow> 's task_state_scheme \<Rightarrow> 's task_state_scheme" where
  "set_reg r v s = (if r = 0 then s else s\<lparr>cpu_gpr := (cpu_gpr s)(r := v)\<rparr>)"

fun exec_instr :: "instr \<Rightarrow> 's task_state_scheme \<Rightarrow> 's task_state_scheme result" where
  "exec_instr (SD r x b) s = write_frame (get_reg b s) (set_slot x (get_reg r s)) s"
| "exec_instr (LD r x b) s = rbind (read_frame s (get_reg b s)) (\<lambda>f. Inr (set_reg r (get_slot x f) s))"
| "exec_instr (MFLO r) s = Inr (set_reg r (cpu_lo s) s)"
| "exec_instr (MFHI r) s = Inr (set_reg r (cpu_hi s) s)"
| "exec_instr (MTLO r) s = Inr (s\<lparr>cpu_lo := get_reg r s\<rparr>)"
| "exec_instr (MTHI r) s = Inr (s\<lparr>cpu_hi := get_reg r s\<rparr>)"
| "exec_instr (MFC0 r c) s = Inr (set_reg r (read_32bit_c0_register (get_cp0 c s)) s)"
| "exec_instr (DMFC0 r c) s = Inr (set_reg r (get_cp0 c s) s)"
| "exec_instr (MTC0 r c) s = Inr (set_cp0 c (read_32bit_c0_register (get_reg r s)) s)"
| "exec_instr (DMTC0 r c) s = Inr (set_cp0 c (get_reg r s) s)"
| "exec_instr (SET_SAVED_SP r t) s =
     (let s = set_reg t (push_bit 3 (ucast (cpu_number s))) s in
      Inr (s\<lparr>kernelsp := (kernelsp s)[unat (cpu_number s) := get_reg r s]\<rparr>))"

fun exec_code :: "instr list \<Rightarrow> 's task_state_scheme \<Rightarrow> 's task_state_scheme result" where
  "exec_code [] s = Inr s"
| "exec_code (i # is) s = rbind (exec_instr i s) (\<lambda>s. exec_code is s)"

text \<open>
  The body of \<^verbatim>\<open>switch_context\<close> up to \<^verbatim>\<open>jr ra\<close>: 2 and 3 are \<^verbatim>\<open>v0\<close> and \<^verbatim>\<open>v1\<close>,
  4 to 7 the arguments, 8 to 15, 24 and 25 the temporaries, 16 to 23 and 30 the saved registers, 26 and 27
  \<^verbatim>\<open>k0\<close> and \<^verbatim>\<open>k1\<close>, 28, 29 and 31 \<^verbatim>\<open>gp\<close>, \<^verbatim>\<open>sp\<close> and \<^verbatim>\<open>ra\<close>.
\<close>

definition switch_save :: "instr list" where
  "switch_save =
    [SD 0 (TF_GPR 0) 4, SD 1 (TF_GPR 1) 4, SD 2 (TF_GPR 2) 4, SD 3 (TF_GPR 3) 4,
     SD 4 (TF_GPR 4) 4, SD 5 (TF_GPR 5) 4, SD 6 (TF_GPR 6) 4, SD 7 (TF_GPR 7) 4,
     SD 8 (TF_GPR 8) 4, SD 9 (TF_GPR 9) 4, SD 10 (TF_GPR 10) 4, SD 11 (TF_GPR 11) 4,
     SD 12 (TF_GPR 12) 4, SD 13 (TF_GPR 13) 4, SD 14 (TF_GPR 14) 4, SD 15 (TF_GPR 15) 4,
     SD 24 (TF_GPR 24) 4, SD 25 (TF_GPR 25) 4,
     SD 16 (TF_GPR 16) 4, SD 17 (TF_GPR 17) 4, SD 18 (TF_GPR 18) 4, SD 19 (TF_GPR 19) 4,
     SD 20 (TF_GPR 20) 4, SD 21 (TF_GPR 21) 4, SD 22 (TF_GPR 22) 4, SD 23 (TF_GPR 23) 4, SD 30 (TF_GPR 30) 4,
     SD 26 (TF_GPR 26) 4, SD 27 (TF_GPR 27) 4, SD 28 (TF_GPR 28) 4, SD 29 (TF_GPR 29) 4, SD 31 (TF_GPR 31) 4,
     MFLO 2, MFHI 3, SD 2 TF_LO 4, SD 3 TF_HI 4,
     MFC0 2 CP0_STATUS, SD 2 TF_STATUS 4, MFC0 2 CP0_CAUSE, SD 2 TF_CAUSE 4,
     DMFC0 2 CP0_BADVADDR, SD 2 TF_BADVADDR 4, DMFC0 2 CP0_EPC, SD 2 TF_EPC 4, DMFC0 2 CP0_ENTRYHI, SD 2 TF_ENTRYHI 4]"

definition switch_restore :: "instr list" where
  "switch_restore =
    [SET_SAVED_SP 6 8,
     LD 2 TF_ENTRYHI 5, DMTC0 2 CP0_ENTRYHI, LD 2 TF_EPC 5, DMTC0 2 CP0_EPC, LD 2 TF_BADVADDR 5, DMTC0 2 CP0_BADVADDR,
     LD 2 TF_CAUSE 5, MTC0 2 CP0_CAUSE, LD 2 TF_STATUS 5, MTC0 2 CP0_STATUS,
     LD 2 TF_LO 5, LD 3 TF_HI 5, MTLO 2, MTHI 3,
     LD 31 (TF_GPR 31) 5, LD 30 (TF_GPR 30) 5, LD 29 (TF_GPR 29) 5, LD 28 (TF_GPR 28) 5, LD 26 (TF_GPR 26) 5, LD 27 (TF_GPR 27) 5,
     LD 16 (TF_GPR 16) 5, LD 17 (TF_GPR 17) 5, LD 18 (TF_GPR 18) 5, LD 19 (TF_GPR 19) 5,
     LD 20 (TF_GPR 20) 5, LD 21 (TF_GPR 21) 5, LD 22 (TF_GPR 22) 5, LD 23 (TF_GPR 23) 5,
     LD 8 (TF_GPR 8) 5, LD 9 (TF_GPR 9) 5, LD 10 (TF_GPR 10) 5, LD 11 (TF_GPR 11) 5,
     LD 12 (TF_GPR 12) 5, LD 13 (TF_GPR 13) 5, LD 14 (TF_GPR 14) 5, LD 15 (TF_GPR 15) 5, LD 24 (TF_GPR 24) 5, LD 25 (TF_GPR 25) 5,
     LD 1 (TF_GPR 1) 5, LD 2 (TF_GPR 2) 5, LD 3 (TF_GPR 3) 5, LD 4 (TF_GPR 4) 5, LD 6 (TF_GPR 6) 5, LD 7 (TF_GPR 7) 5,
     LD 5 (TF_GPR 5) 5]"

text \<open>The C caller passes the arguments in \<^verbatim>\<open>a0\<close>, \<^verbatim>\<open>a1\<close> and \<^verbatim>\<open>a2\<close>.\<close>

definition switch_context :: "addr_t \<Rightarrow> addr_t \<Rightarrow> addr_t \<Rightarrow> 's task_state_scheme \<Rightarrow> 's task_state_scheme result" where
  "switch_context old ctx newksp s =
     (let s = s\<lparr>cpu_gpr := (cpu_gpr s)(REG_A0 := old, REG_A1 := ctx, REG_A2 := newksp)\<rparr> in
      exec_code (switch_save @ switch_restore) s)"

section \<open>What the routine does\<close>

definition saved_frame :: "'s task_state_scheme \<Rightarrow> trapframe \<Rightarrow> trapframe" where
  "saved_frame s g =
     \<lparr>tf_gpr = (\<lambda>r. if r < 32 then get_reg r s else tf_gpr g r), tf_lo = cpu_lo s, tf_hi = cpu_hi s,
      tf_status = read_32bit_c0_register (cp0_status s), tf_cause = read_32bit_c0_register (cp0_cause s),
      tf_badvaddr = cp0_badvaddr s, tf_epc = cp0_epc s, tf_entryhi = cp0_entryhi s\<rparr>"

definition load_frame :: "trapframe \<Rightarrow> 's task_state_scheme \<Rightarrow> 's task_state_scheme" where
  "load_frame f s =
     s\<lparr>cpu_gpr := (\<lambda>r. if 0 < r \<and> r < 32 then tf_gpr f r else cpu_gpr s r), cpu_lo := tf_lo f, cpu_hi := tf_hi f,
       cp0_status := read_32bit_c0_register (tf_status f), cp0_cause := read_32bit_c0_register (tf_cause f),
       cp0_badvaddr := tf_badvaddr f, cp0_epc := tf_epc f, cp0_entryhi := tf_entryhi f\<rparr>"

definition switch_args :: "addr_t \<Rightarrow> addr_t \<Rightarrow> addr_t \<Rightarrow> 's task_state_scheme \<Rightarrow> 's task_state_scheme" where
  "switch_args old ctx ksp s = s\<lparr>cpu_gpr := (cpu_gpr s)(REG_A0 := old, REG_A1 := ctx, REG_A2 := ksp)\<rparr>"

text \<open>A run of stores and a run of loads.\<close>

lemma exec_code_append: "exec_code (is @ js) s = rbind (exec_code is s) (exec_code js)"
  by (induction "is" arbitrary: s) (auto simp: rbind_def split: sum.splits)

lemma exec_stores:
  assumes "b \<noteq> 0" "tframes s (cpu_gpr s b) = Some g"
  shows "exec_code (map (\<lambda>r. SD r (TF_GPR r) b) rs) s =
    Inr (s\<lparr>tframes := (tframes s)(cpu_gpr s b \<mapsto> g\<lparr>tf_gpr := (\<lambda>r. if r \<in> set rs then get_reg r s else tf_gpr g r)\<rparr>)\<rparr>)"
  using assms
proof (induction rs arbitrary: s g)
  case Nil
  then show ?case by (simp add: fun_upd_idem)
next
  case (Cons r rs)
  let ?s = "s\<lparr>tframes := (tframes s)(cpu_gpr s b \<mapsto> g\<lparr>tf_gpr := (tf_gpr g)(r := get_reg r s)\<rparr>)\<rparr>"
  have get: "get_reg k ?s = get_reg k s" for k by (simp add: get_reg_def)
  have eq: "(\<lambda>k. if k \<in> set rs then get_reg k s else ((tf_gpr g)(r := get_reg r s)) k) =
      (\<lambda>k. if k \<in> set (r # rs) then get_reg k s else tf_gpr g k)" by auto
  have "exec_code (map (\<lambda>r. SD r (TF_GPR r) b) (r # rs)) s = exec_code (map (\<lambda>r. SD r (TF_GPR r) b) rs) ?s"
    using Cons.prems by (simp add: get_reg_def)
  also have "\<dots> = Inr (s\<lparr>tframes := (tframes s)(cpu_gpr s b \<mapsto>
      g\<lparr>tf_gpr := (\<lambda>k. if k \<in> set (r # rs) then get_reg k s else tf_gpr g k)\<rparr>)\<rparr>)"
  proof -
    have h: "g\<lparr>tf_gpr := (tf_gpr g)(r := get_reg r s)\<rparr>\<lparr>tf_gpr := (\<lambda>k. if k \<in> set rs then get_reg k ?s
        else tf_gpr (g\<lparr>tf_gpr := (tf_gpr g)(r := get_reg r s)\<rparr>) k)\<rparr> =
      g\<lparr>tf_gpr := (\<lambda>k. if k \<in> set (r # rs) then get_reg k s else tf_gpr g k)\<rparr>"
      unfolding get eq [symmetric] by (simp cong: if_cong)
    have "tframes ?s (cpu_gpr ?s b) = Some (g\<lparr>tf_gpr := (tf_gpr g)(r := get_reg r s)\<rparr>)" by simp
    from Cons.IH [OF Cons.prems(1) this] show ?thesis unfolding h by (simp add: fun_upd_def cong: if_cong)
  qed
  finally show ?case .
qed

lemma exec_loads:
  assumes "b \<noteq> 0" "tframes s (cpu_gpr s b) = Some f" "b \<notin> set rs" "0 \<notin> set rs"
  shows "exec_code (map (\<lambda>r. LD r (TF_GPR r) b) rs) s =
    Inr (s\<lparr>cpu_gpr := (\<lambda>r. if r \<in> set rs then tf_gpr f r else cpu_gpr s r)\<rparr>)"
  using assms
proof (induction rs arbitrary: s)
  case Nil
  then show ?case by simp
next
  case (Cons r rs)
  let ?s = "s\<lparr>cpu_gpr := (cpu_gpr s)(r := tf_gpr f r)\<rparr>"
  have "exec_code (map (\<lambda>r. LD r (TF_GPR r) b) (r # rs)) s = exec_code (map (\<lambda>r. LD r (TF_GPR r) b) rs) ?s"
    using Cons.prems by (simp add: get_reg_def set_reg_def)
  also have "\<dots> = Inr (s\<lparr>cpu_gpr := (\<lambda>k. if k \<in> set (r # rs) then tf_gpr f k else cpu_gpr s k)\<rparr>)"
    using Cons.IH [of ?s] Cons.prems by (auto intro!: arg_cong [where f = "\<lambda>g. s\<lparr>cpu_gpr := g\<rparr>"])
  finally show ?case .
qed

lemma upd23: "(g :: nat \<Rightarrow> 'a)(2 := x, 3 := y, 2 := z) = g(2 := z, 3 := y)"
  by auto

lemma switch_save_ok:
  assumes "tframes s (cpu_gpr s 4) = Some g"
  shows "exec_code switch_save s = Inr (s\<lparr>tframes := (tframes s)(cpu_gpr s 4 \<mapsto> saved_frame s g),
    cpu_gpr := (cpu_gpr s)(2 := cp0_entryhi s, 3 := cpu_hi s)\<rparr>)"
proof -
  let ?rs = "[0, 1, 2, 3, 4, 5, 6, 7, 8, 9, 10, 11, 12, 13, 14, 15, 24, 25, 16, 17, 18, 19, 20, 21, 22, 23, 30, 26, 27, 28, 29, 31] :: nat list"
  have r: "r \<in> set ?rs \<longleftrightarrow> r < 32" for r
  proof -
    have "card (set ?rs) = length ?rs" by (rule distinct_card) simp
    then have "set ?rs = {..<32}" by (intro card_subset_eq) simp_all
    then show ?thesis by (simp only: lessThan_iff)
  qed
  let ?p = "[MFLO 2, MFHI 3, SD 2 TF_LO 4, SD 3 TF_HI 4,
     MFC0 2 CP0_STATUS, SD 2 TF_STATUS 4, MFC0 2 CP0_CAUSE, SD 2 TF_CAUSE 4,
     DMFC0 2 CP0_BADVADDR, SD 2 TF_BADVADDR 4, DMFC0 2 CP0_EPC, SD 2 TF_EPC 4, DMFC0 2 CP0_ENTRYHI, SD 2 TF_ENTRYHI 4]"
  have sw: "switch_save = map (\<lambda>r. SD r (TF_GPR r) 4) ?rs @ ?p" by (simp add: switch_save_def)
  have gprs: "exec_code (map (\<lambda>r. SD r (TF_GPR r) 4) ?rs) s = Inr (s\<lparr>tframes := (tframes s)(cpu_gpr s 4 \<mapsto>
      g\<lparr>tf_gpr := (\<lambda>r. if r < 32 then get_reg r s else tf_gpr g r)\<rparr>)\<rparr>)"
    unfolding r [symmetric] by (rule exec_stores) (use assms in simp_all)
  have rest: "exec_code ?p (s\<lparr>tframes := (tframes s)(cpu_gpr s 4 \<mapsto> g\<lparr>tf_gpr := G\<rparr>)\<rparr>) =
    Inr (s\<lparr>tframes := (tframes s)(cpu_gpr s 4 \<mapsto> \<lparr>tf_gpr = G, tf_lo = cpu_lo s, tf_hi = cpu_hi s,
      tf_status = read_32bit_c0_register (cp0_status s), tf_cause = read_32bit_c0_register (cp0_cause s),
      tf_badvaddr = cp0_badvaddr s, tf_epc = cp0_epc s, tf_entryhi = cp0_entryhi s\<rparr>),
      cpu_gpr := (cpu_gpr s)(2 := cp0_entryhi s, 3 := cpu_hi s)\<rparr>)" for G
    by (cases g) (simp add: set_reg_def get_reg_def upd23)
  show ?thesis unfolding sw exec_code_append gprs rbind_Inr rest saved_frame_def ..
qed

lemma load_frame_gpr:
  assumes "\<And>r. \<not> (0 < r \<and> r < 32) \<Longrightarrow> g r = cpu_gpr s r"
  shows "load_frame f (s\<lparr>cpu_gpr := g\<rparr>) = load_frame f s"
proof -
  have "(\<lambda>r. if 0 < r \<and> r < 32 then tf_gpr f r else g r) = (\<lambda>r. if 0 < r \<and> r < 32 then tf_gpr f r else cpu_gpr s r)"
    using assms by auto
  then show ?thesis by (simp add: load_frame_def cong: if_cong)
qed

lemma switch_restore_ok:
  assumes "tframes s (cpu_gpr s 5) = Some f"
  shows "exec_code switch_restore s =
    Inr (load_frame f (s\<lparr>kernelsp := (kernelsp s)[unat (cpu_number s) := cpu_gpr s 6]\<rparr>))"
proof -
  let ?rs = "[31, 30, 29, 28, 26, 27, 16, 17, 18, 19, 20, 21, 22, 23, 8, 9, 10, 11, 12, 13, 14, 15, 24, 25, 1, 2, 3, 4, 6, 7] :: nat list"
  have r: "r = 5 \<or> r \<in> set ?rs \<longleftrightarrow> 0 < r \<and> r < 32" for r
  proof -
    have "card (set (5 # ?rs)) = length (5 # ?rs)" by (rule distinct_card) simp
    then have "set (5 # ?rs) = {1..<32}" by (intro card_subset_eq) simp_all
    then have "r \<in> set (5 # ?rs) \<longleftrightarrow> r \<in> {1..<32}" by (rule arg_cong)
    then show ?thesis by (simp only: list.set(2) insert_iff atLeastLessThan_iff) auto
  qed
  let ?p = "[SET_SAVED_SP 6 8,
     LD 2 TF_ENTRYHI 5, DMTC0 2 CP0_ENTRYHI, LD 2 TF_EPC 5, DMTC0 2 CP0_EPC, LD 2 TF_BADVADDR 5, DMTC0 2 CP0_BADVADDR,
     LD 2 TF_CAUSE 5, MTC0 2 CP0_CAUSE, LD 2 TF_STATUS 5, MTC0 2 CP0_STATUS,
     LD 2 TF_LO 5, LD 3 TF_HI 5, MTLO 2, MTHI 3]"
  let ?g = "(cpu_gpr s)(8 := push_bit 3 (ucast (cpu_number s)), 2 := tf_lo f, 3 := tf_hi f)"
  let ?s = "s\<lparr>kernelsp := (kernelsp s)[unat (cpu_number s) := cpu_gpr s 6], cpu_gpr := ?g, cpu_lo := tf_lo f, cpu_hi := tf_hi f,
    cp0_status := read_32bit_c0_register (tf_status f), cp0_cause := read_32bit_c0_register (tf_cause f),
    cp0_badvaddr := tf_badvaddr f, cp0_epc := tf_epc f, cp0_entryhi := tf_entryhi f\<rparr>"
  have p: "exec_code ?p s = Inr ?s"
    using assms by (simp add: get_reg_def set_reg_def Let_def fun_upd_twist)
  let ?G = "\<lambda>r. if r \<in> set ?rs then tf_gpr f r else ?g r"
  have sw: "switch_restore = ?p @ map (\<lambda>r. LD r (TF_GPR r) 5) ?rs @ [LD 5 (TF_GPR 5) 5]"
    by (simp add: switch_restore_def)
  have gs: "cpu_gpr ?s = ?g" by simp
  have "exec_code (map (\<lambda>r. LD r (TF_GPR r) 5) ?rs) ?s =
      Inr (?s\<lparr>cpu_gpr := (\<lambda>r. if r \<in> set ?rs then tf_gpr f r else cpu_gpr ?s r)\<rparr>)"
    by (rule exec_loads) (use assms in simp_all)
  then have loads: "exec_code (map (\<lambda>r. LD r (TF_GPR r) 5) ?rs) ?s = Inr (?s\<lparr>cpu_gpr := ?G\<rparr>)" unfolding gs .
  have "?G 5 = cpu_gpr s 5" by simp
  then have last: "exec_code [LD 5 (TF_GPR 5) 5] (?s\<lparr>cpu_gpr := ?G\<rparr>) = Inr (?s\<lparr>cpu_gpr := ?G(5 := tf_gpr f 5)\<rparr>)"
    using assms by (simp add: get_reg_def set_reg_def)
  have "?G(5 := tf_gpr f 5) = (\<lambda>r. if 0 < r \<and> r < 32 then tf_gpr f r else cpu_gpr s r)"
    unfolding r [symmetric] by (rule ext) auto
  then have "load_frame f (s\<lparr>kernelsp := (kernelsp s)[unat (cpu_number s) := cpu_gpr s 6]\<rparr>) = ?s\<lparr>cpu_gpr := ?G(5 := tf_gpr f 5)\<rparr>"
    by (simp add: load_frame_def cong: if_cong)
  then show ?thesis unfolding sw exec_code_append p rbind_Inr loads last by (rule arg_cong [symmetric])
qed

lemma switch_context_ok:
  assumes "tframes s old = Some g" "tframes s ctx = Some f" "a = switch_args old ctx ksp s"
  shows "switch_context old ctx ksp s = Inr (load_frame (if ctx = old then saved_frame a g else f)
    (s\<lparr>tframes := (tframes s)(old \<mapsto> saved_frame a g), kernelsp := (kernelsp s)[unat (cpu_number s) := ksp]\<rparr>))"
proof -
  have a: "cpu_gpr a 4 = old" "cpu_gpr a 5 = ctx" "cpu_gpr a 6 = ksp" "tframes a = tframes s"
    "cp0_entryhi a = cp0_entryhi s" "cpu_hi a = cpu_hi s"
    by (simp_all add: assms(3) switch_args_def)
  let ?F = "if ctx = old then saved_frame a g else f"
  let ?a = "a\<lparr>tframes := (tframes s)(old \<mapsto> saved_frame a g), cpu_gpr := (cpu_gpr a)(2 := cp0_entryhi s, 3 := cpu_hi s)\<rparr>"
  have "exec_code switch_save a = Inr ?a"
    using switch_save_ok [of a g] assms(1) by (simp add: a)
  moreover have "exec_code switch_restore ?a = Inr (load_frame ?F (?a\<lparr>kernelsp := (kernelsp ?a)[unat (cpu_number ?a) := cpu_gpr ?a 6]\<rparr>))"
    by (rule switch_restore_ok) (use assms(2) in \<open>simp add: a\<close>)
  moreover have "load_frame ?F (?a\<lparr>kernelsp := (kernelsp ?a)[unat (cpu_number ?a) := cpu_gpr ?a 6]\<rparr>) =
      load_frame ?F (s\<lparr>tframes := (tframes s)(old \<mapsto> saved_frame a g), kernelsp := (kernelsp s)[unat (cpu_number s) := ksp]\<rparr>)"
  proof -
    let ?t = "s\<lparr>tframes := (tframes s)(old \<mapsto> saved_frame a g), kernelsp := (kernelsp s)[unat (cpu_number s) := ksp]\<rparr>"
    have "?a\<lparr>kernelsp := (kernelsp ?a)[unat (cpu_number ?a) := cpu_gpr ?a 6]\<rparr> =
        ?t\<lparr>cpu_gpr := (cpu_gpr a)(2 := cp0_entryhi s, 3 := cpu_hi s)\<rparr>"
      using a(3) by (simp add: assms(3) switch_args_def)
    then show ?thesis by (simp only:) (rule load_frame_gpr, auto simp: assms(3) switch_args_def)
  qed
  ultimately show ?thesis
    unfolding switch_context_def Let_def switch_args_def [symmetric] assms(3) [symmetric] exec_code_append by simp
qed

end
