(* ===== verification/Sched_O1.thy ===== *)
theory Sched_O1
  imports Switch
begin

text \<open>
  The simplified O(1) scheduler (\<^verbatim>\<open>kern/sched/o1.c\<close>) and its use
  (\<^verbatim>\<open>kern/sched/sched.c\<close>, \<^verbatim>\<open>arch/mips/sched/switch.S\<close>).

  A run queue is the index of its structure in \<^verbatim>\<open>cpu_rq\<close>.
\<close>

section \<open>Run queues\<close>

definition get_rq :: "'s task_state_scheme \<Rightarrow> nat \<Rightarrow> cpu_run_queue result" where
  "get_rq s c = (if c < length (cpu_rq s) then Inr (cpu_rq s ! c) else Inl (BadPointer ''cpu_rq''))"

definition set_rq :: "nat \<Rightarrow> (cpu_run_queue \<Rightarrow> cpu_run_queue) \<Rightarrow> 's task_state_scheme \<Rightarrow> 's task_state_scheme result" where
  "set_rq c f s = rbind (get_rq s c) (\<lambda>q. Inr (s\<lparr>cpu_rq := (cpu_rq s)[c := f q]\<rparr>))"

definition rq_head :: "nat \<Rightarrow> u16 \<Rightarrow> se_node result" where
  "rq_head c i = (if i < 2 then Inr (RqHead c (unat i)) else Inl (BadPointer ''rq->head''))"

definition sched_exhaust :: "task_struct \<Rightarrow> bool" where
  "sched_exhaust x = (se_priority (t_se x) \<ge> se_slice (t_se x))"

fun sched_init_loop :: "nat \<Rightarrow> nat \<Rightarrow> 's task_state_scheme \<Rightarrow> 's task_state_scheme result" where
  "sched_init_loop 0 i s = Inr s"
| "sched_init_loop (Suc n) i s =
     rbind (set_rq i (\<lambda>q. q\<lparr>rq_cpu := of_nat i, rq_run := 0, rq_exhaust := 1\<rparr>) s) (\<lambda>s.
     sched_init_loop n (Suc i)
       (s\<lparr>se_links := list_init (RqHead i 1) (list_init (RqHead i 0) (se_links s))\<rparr>))"

definition sched_init :: "'s task_state_scheme \<Rightarrow> 's task_state_scheme result" where
  "sched_init s = sched_init_loop NR_CPUS 0
     (s\<lparr>cpu_rq := replicate NR_CPUS \<lparr>rq_cpu = 0, rq_run = 0, rq_exhaust = 0, rq_payload = 0\<rparr>\<rparr>)"

definition sched_enqueue :: "nat \<Rightarrow> task_ptr \<Rightarrow> 's task_state_scheme \<Rightarrow> 's task_state_scheme result" where
  "sched_enqueue c task s =
     rbind (read_task s task) (\<lambda>x.
     rbind (assert_that ''task->se.rq == NULL'' (se_rq (t_se x) = None)) (\<lambda>_.
     rbind (get_rq s c) (\<lambda>q.
     rbind (rq_head c (if sched_exhaust x then rq_exhaust q else rq_run q)) (\<lambda>h.
     let s = s\<lparr>se_links := list_add_before h (Se task) (se_links s)\<rparr> in
     rbind (set_rq c (\<lambda>q. q\<lparr>rq_payload := rq_payload q + 1\<rparr>) s) (\<lambda>s.
     write_task task (\<lambda>x. x\<lparr>t_se := (t_se x)\<lparr>se_rq := Some c\<rparr>\<rparr>) s)))))"

text \<open>The loop of \<^verbatim>\<open>sched_enqueue_minload\<close>, which compares with \<^verbatim>\<open>>\<close>.\<close>

fun minload_loop :: "nat list \<Rightarrow> nat \<Rightarrow> 's task_state_scheme \<Rightarrow> nat result" where
  "minload_loop [] m s = Inr m"
| "minload_loop (i # is) m s =
     rbind (get_rq s i) (\<lambda>qi.
     rbind (get_rq s m) (\<lambda>qm.
     minload_loop is (if rq_payload qi > rq_payload qm then i else m) s))"

definition sched_enqueue_minload :: "task_ptr \<Rightarrow> 's task_state_scheme \<Rightarrow> 's task_state_scheme result" where
  "sched_enqueue_minload task s =
     rbind (minload_loop [0..<NR_CPUS] 0 s) (\<lambda>m. sched_enqueue m task s)"

definition sched_dequeue :: "task_ptr \<Rightarrow> 's task_state_scheme \<Rightarrow> 's task_state_scheme result" where
  "sched_dequeue task s =
     rbind (read_task s task) (\<lambda>x.
     case se_rq (t_se x) of
       None \<Rightarrow> Inl (Assertion ''task->se.rq != NULL'')
     | Some c \<Rightarrow>
         rbind (set_rq c (\<lambda>q. q\<lparr>rq_payload := rq_payload q - 1\<rparr>) s) (\<lambda>s.
         write_task task (\<lambda>x. x\<lparr>t_se := (t_se x)\<lparr>se_rq := None\<rparr>\<rparr>)
           (s\<lparr>se_links := list_del_init (Se task) (se_links s)\<rparr>)))"

definition node_to_task :: "se_node \<Rightarrow> task_ptr result" where
  "node_to_task n = (case n of Se t \<Rightarrow> Inr t | RqHead _ _ \<Rightarrow> Inl (BadPointer ''task_t''))"

definition sched_pick :: "nat \<Rightarrow> 's task_state_scheme \<Rightarrow> (task_ptr \<times> 's task_state_scheme) result" where
  "sched_pick c s =
     rbind (get_rq s c) (\<lambda>q.
     rbind (rq_head c (rq_run q)) (\<lambda>run.
     if list_empty (se_links s) run then
       rbind (rq_head c (rq_exhaust q)) (\<lambda>exh.
       if list_empty (se_links s) exh then Inr (0, s)
       else
         rbind (set_rq c (\<lambda>q. q\<lparr>rq_run := rq_exhaust q, rq_exhaust := rq_run q\<rparr>) s) (\<lambda>s.
         rbind (node_to_task (list_next (se_links s) exh)) (\<lambda>t. Inr (t, s))))
     else rbind (node_to_task (list_next (se_links s) run)) (\<lambda>t. Inr (t, s))))"

definition sched_tick :: "task_ptr \<Rightarrow> 's task_state_scheme \<Rightarrow> (int \<times> 's task_state_scheme) result" where
  "sched_tick task s =
     rbind (read_task s task) (\<lambda>x.
     rbind (if \<not> sched_exhaust x then write_task task (\<lambda>x. x\<lparr>t_se := (t_se x)\<lparr>se_slice := se_slice (t_se x) + 1\<rparr>\<rparr>) s
            else Inr s) (\<lambda>s.
     rbind (write_task task (\<lambda>x. x\<lparr>t_state := t_state x OR TASK_YIELDING\<rparr>) s) (\<lambda>s.
     Inr (0, s))))"

section \<open>Switching\<close>

definition switch_task :: "task_ptr \<Rightarrow> 's task_state_scheme \<Rightarrow> 's task_state_scheme result" where
  "switch_task newtask s =
     rbind (read_task s (current_task s)) (\<lambda>oldx.
     rbind (read_task s newtask) (\<lambda>newx.
     switch_context (t_context oldx) (t_context newx) (kstacktop newx) (s\<lparr>current_task := newtask\<rparr>)))"

definition sched :: "'s task_state_scheme \<Rightarrow> 's task_state_scheme result" where
  "sched s =
     rbind (sched_enqueue_minload (current_task s) s) (\<lambda>s.
     rbind (sched_pick (unat (cpu_number s)) s) (\<lambda>(newtask, s).
     rbind (if newtask = 0 then rbind (idleproc s) (\<lambda>t. Inr (t, s))
            else rbind (sched_dequeue newtask s) (\<lambda>s. Inr (newtask, s))) (\<lambda>(newtask, s).
     switch_task newtask s)))"

section \<open>The clock tick\<close>

text \<open>
  \<^verbatim>\<open>generic_cpu_tick\<close> of \<^verbatim>\<open>kern/clock.c\<close> and \<^verbatim>\<open>handle_clock\<close> of
  \<^verbatim>\<open>arch/mips/clock.c\<close>. The count register runs while the loop of \<^verbatim>\<open>handle_clock\<close>
  runs: \<open>counts\<close> are the values it has at the reads. The list ends when no more reads
  are given, which is the fuel of the loop.
\<close>

definition generic_cpu_tick :: "'s task_state_scheme \<Rightarrow> 's task_state_scheme result" where
  "generic_cpu_tick s =
     rbind (read_task s (current_task s)) (\<lambda>_.
     let s = s\<lparr>ticks := ticks s + 1\<rparr> in
     rbind (sched_tick (current_task s) s) (\<lambda>(r, s).
     if r = 0 then sched s else Inr s))"

fun compare_loop :: "u32 list \<Rightarrow> u32 \<Rightarrow> u32 result" where
  "compare_loop [] cmp = Inl Hang"
| "compare_loop (count # counts) cmp =
     (let cmp = cmp + 0x10000000 in
      if cmp - count > 0x10000000 then compare_loop counts cmp else Inr cmp)"

definition handle_clock :: "u32 list \<Rightarrow> 's task_state_scheme \<Rightarrow> (int \<times> 's task_state_scheme) result" where
  "handle_clock counts s =
     rbind (compare_loop counts (cp0_compare s)) (\<lambda>cmp.
     rbind (generic_cpu_tick (s\<lparr>cp0_compare := cmp\<rparr>)) (\<lambda>s. Inr (0, s)))"

end
