(* ===== verification/Sched_Props.thy ===== *)
theory Sched_Props
  imports Sched_O1 Vm_Props
begin

text \<open>
  The run queues refine an abstract pair of FIFO queues per processor. The link-level facts
  are about all queues at once; the interface the scheduler uses is the locale
  \<open>run_queue_ops\<close>, interpreted on the definitions of \<^verbatim>\<open>o1.c\<close>.
\<close>

section \<open>All queues in one heap of links\<close>

definition queue_index :: "(nat \<times> nat) set" where
  "queue_index = {..<NR_CPUS} \<times> {..<2}"

definition head_of :: "nat \<times> nat \<Rightarrow> se_node" where
  "head_of p = RqHead (fst p) (snd p)"

lemma head_of_eq [simp]: "head_of p = head_of q \<longleftrightarrow> p = q"
  by (auto simp: head_of_def prod_eq_iff)

lemma head_of_not_Se [simp]: "head_of p \<noteq> Se t" "Se t \<noteq> head_of p" "head_of p \<notin> Se ` A"
  by (auto simp: head_of_def)

definition queue_rings :: "se_node list_heap \<Rightarrow> (nat \<times> nat \<Rightarrow> task_ptr list) \<Rightarrow> bool" where
  "queue_rings h L \<longleftrightarrow>
     (\<forall>p\<in>queue_index. ring h (head_of p # map Se (L p))) \<and>
     (\<forall>p\<in>queue_index. \<forall>q\<in>queue_index. p \<noteq> q \<longrightarrow> set (L p) \<inter> set (L q) = {})"

lemma queue_ringsD:
  "queue_rings h L \<Longrightarrow> p \<in> queue_index \<Longrightarrow> ring h (head_of p # map Se (L p))"
  "queue_rings h L \<Longrightarrow> p \<in> queue_index \<Longrightarrow> q \<in> queue_index \<Longrightarrow> p \<noteq> q \<Longrightarrow> set (L p) \<inter> set (L q) = {}"
  by (auto simp: queue_rings_def)

lemma queue_distinct: "queue_rings h L \<Longrightarrow> p \<in> queue_index \<Longrightarrow> distinct (L p)"
  using ring_distinct [OF queue_ringsD(1), of h L p] by (auto simp: distinct_map)

lemma queue_rings_add:
  assumes Q: "queue_rings h L" and p: "p \<in> queue_index" and new: "\<forall>q\<in>queue_index. t \<notin> set (L q)"
  shows "queue_rings (list_add_before (head_of p) (Se t) h) (L(p := L p @ [t]))"
proof -
  let ?h = "list_add_before (head_of p) (Se t) h"
  have "ring ?h (head_of p # map Se (L p @ [t]))"
    using ll.rep_add_before [OF queue_ringsD(1) [OF Q p], of "Se t"] new p by auto
  moreover have "ring ?h (head_of q # map Se (L q))" if q: "q \<in> queue_index" "q \<noteq> p" for q
  proof (rule ll.rep_same [OF _ queue_ringsD(1) [OF Q q(1)]])
    show "same_links (set (head_of q # map Se (L q))) h ?h"
      using ll.same_add_before [OF queue_ringsD(1) [OF Q p], of "set (head_of q # map Se (L q))" "Se t"]
        queue_ringsD(2) [OF Q q(1) p q(2)] new q by auto
  qed
  moreover have "set ((L(p := L p @ [t])) q) \<inter> set ((L(p := L p @ [t])) r) = {}"
    if "q \<in> queue_index" "r \<in> queue_index" "q \<noteq> r" for q r
    using queue_ringsD(2) [OF Q that] new that by auto
  ultimately show ?thesis by (auto simp: queue_rings_def)
qed

lemma queue_rings_del:
  assumes Q: "queue_rings h L" and p: "p \<in> queue_index" and t: "t \<in> set (L p)"
  shows "queue_rings (list_del_init (Se t) h) (L(p := remove1 t (L p)))"
proof -
  let ?h = "list_del_init (Se t) h"
  obtain us vs where uv: "L p = us @ t # vs" "t \<notin> set us" using split_list_first [OF t] by blast
  have rem: "remove1 t (L p) = us @ vs" using uv by (simp add: remove1_append)
  have r: "ring h ((head_of p # map Se us) @ Se t # map Se vs)" using queue_ringsD(1) [OF Q p] uv by simp
  have "ring ?h (head_of p # map Se (remove1 t (L p)))"
    using ll.delete_middle [OF r] rem by simp
  moreover have "ring ?h (head_of q # map Se (L q))" if q: "q \<in> queue_index" "q \<noteq> p" for q
  proof (rule ll.rep_same [OF _ queue_ringsD(1) [OF Q q(1)]])
    show "same_links (set (head_of q # map Se (L q))) h ?h"
      using ll.delete_middle_same [OF r, of "set (head_of q # map Se (L q))"]
        queue_ringsD(2) [OF Q q(1) p q(2)] uv(1) q by auto
  qed
  moreover have "set ((L(p := remove1 t (L p))) q) \<inter> set ((L(p := remove1 t (L p))) r) = {}"
    if "q \<in> queue_index" "r \<in> queue_index" "q \<noteq> r" for q r
    using queue_ringsD(2) [OF Q that] rem uv by auto
  ultimately show ?thesis by (auto simp: queue_rings_def)
qed

section \<open>Well-formed run queues\<close>

type_synonym queues = "nat \<Rightarrow> task_ptr list \<times> task_ptr list"

definition queued :: "queues \<Rightarrow> task_ptr set" where
  "queued Q = (\<Union>c\<in>{..<NR_CPUS}. set (fst (Q c)) \<union> set (snd (Q c)))"

definition rq_indices_ok :: "cpu_run_queue \<Rightarrow> bool" where
  "rq_indices_ok q \<longleftrightarrow> (rq_run q = 0 \<and> rq_exhaust q = 1) \<or> (rq_run q = 1 \<and> rq_exhaust q = 0)"

definition run_queues :: "'s task_state_scheme \<Rightarrow> (nat \<times> nat \<Rightarrow> task_ptr list) \<Rightarrow> bool" where
  "run_queues s L \<longleftrightarrow>
     length (cpu_rq s) = NR_CPUS \<and> queue_rings (se_links s) L \<and>
     (\<forall>c<NR_CPUS. rq_indices_ok (cpu_rq s ! c) \<and>
        rq_payload (cpu_rq s ! c) = of_nat (length (L (c, 0)) + length (L (c, 1)))) \<and>
     (\<forall>c<NR_CPUS. \<forall>t. t \<in> set (L (c, 0)) \<union> set (L (c, 1)) \<longleftrightarrow>
        (\<exists>x. tasks s t = Some x \<and> se_rq (t_se x) = Some c)) \<and>
     (\<forall>t x c. tasks s t = Some x \<longrightarrow> t \<noteq> 0 \<and> (se_rq (t_se x) = Some c \<longrightarrow> c < NR_CPUS))"

definition queues_of :: "'s task_state_scheme \<Rightarrow> (nat \<times> nat \<Rightarrow> task_ptr list) \<Rightarrow> queues" where
  "queues_of s L c = (L (c, unat (rq_run (cpu_rq s ! c))), L (c, unat (rq_exhaust (cpu_rq s ! c))))"

definition rq_rep :: "'s task_state_scheme \<Rightarrow> queues \<Rightarrow> bool" where
  "rq_rep s Q \<longleftrightarrow> (\<exists>L. run_queues s L \<and> (\<forall>c<NR_CPUS. Q c = queues_of s L c))"

lemma index_cases: "p \<in> queue_index \<longleftrightarrow> fst p < NR_CPUS \<and> (snd p = 0 \<or> snd p = 1)"
  by (cases p) (auto simp: queue_index_def)

text \<open>The queue a task is in, if any.\<close>

lemma run_queues_task:
  assumes "run_queues s L" "p \<in> queue_index" "t \<in> set (L p)"
  shows "\<exists>x. tasks s t = Some x \<and> se_rq (t_se x) = Some (fst p)"
proof -
  have "t \<in> set (L (fst p, 0)) \<union> set (L (fst p, 1))" using assms(2,3) by (cases p) (auto simp: index_cases)
  then show ?thesis using assms(1,2) unfolding run_queues_def index_cases by blast
qed

lemma run_queues_mem:
  "run_queues s L \<Longrightarrow> c < NR_CPUS \<Longrightarrow> t \<in> set (L (c, 0)) \<union> set (L (c, 1)) \<longleftrightarrow>
     (\<exists>x. tasks s t = Some x \<and> se_rq (t_se x) = Some c)"
  unfolding run_queues_def by blast

lemma queues_of_set:
  assumes "run_queues s L" "c < NR_CPUS"
  shows "set (fst (queues_of s L c)) \<union> set (snd (queues_of s L c)) = set (L (c, 0)) \<union> set (L (c, 1))"
  using assms by (auto simp: queues_of_def run_queues_def rq_indices_ok_def)

lemma queued_iff:
  assumes "run_queues s L" "\<forall>c<NR_CPUS. Q c = queues_of s L c"
  shows "t \<in> queued Q \<longleftrightarrow> (\<exists>x c. tasks s t = Some x \<and> se_rq (t_se x) = Some c)"
proof -
  have "t \<in> queued Q \<longleftrightarrow> (\<exists>c<NR_CPUS. t \<in> set (L (c, 0)) \<union> set (L (c, 1)))"
    using assms(2) queues_of_set [OF assms(1)] by (auto simp: queued_def)
  also have "\<dots> \<longleftrightarrow> (\<exists>c<NR_CPUS. \<exists>x. tasks s t = Some x \<and> se_rq (t_se x) = Some c)"
    using assms(1) unfolding run_queues_def by blast
  also have "\<dots> \<longleftrightarrow> (\<exists>x c. tasks s t = Some x \<and> se_rq (t_se x) = Some c)"
    using assms(1) unfolding run_queues_def by blast
  finally show ?thesis .
qed

section \<open>Abstract operations\<close>

definition enq_abs :: "nat \<Rightarrow> bool \<Rightarrow> task_ptr \<Rightarrow> queues \<Rightarrow> queues" where
  "enq_abs c exh t Q = Q(c := (if exh then (fst (Q c), snd (Q c) @ [t]) else (fst (Q c) @ [t], snd (Q c))))"

definition pick_abs :: "nat \<Rightarrow> queues \<Rightarrow> task_ptr \<times> queues" where
  "pick_abs c Q =
     (if fst (Q c) \<noteq> [] then (hd (fst (Q c)), Q)
      else if snd (Q c) = [] then (0, Q)
      else (hd (snd (Q c)), Q(c := (snd (Q c), []))))"

definition deq_abs :: "task_ptr \<Rightarrow> queues \<Rightarrow> queues" where
  "deq_abs t Q c = (remove1 t (fst (Q c)), remove1 t (snd (Q c)))"

text \<open>
  One call of the scheduler on processor \<open>c\<close>: the task goes to the end of a queue of processor \<open>m\<close>
  (the exhausted one when \<open>e\<close> holds, the running one otherwise), then the first task of \<open>c\<close>'s running
  queue is taken, after a swap of \<open>c\<close>'s queues when the running one is empty; 0 when both are.
\<close>

definition resched_abs :: "nat \<Rightarrow> nat \<Rightarrow> bool \<Rightarrow> task_ptr \<Rightarrow> queues \<Rightarrow> task_ptr \<times> queues" where
  "resched_abs c m e t Q =
     (let (n, Q) = pick_abs c (enq_abs m e t Q) in (n, if n = 0 then Q else deq_abs n Q))"

text \<open>What the queue operations may change: links, run queues, and the queue a task is in.\<close>

definition rq_frame :: "'s task_state_scheme \<Rightarrow> 's task_state_scheme \<Rightarrow> bool" where
  "rq_frame s s' \<longleftrightarrow> (\<exists>l q T. s' = s\<lparr>se_links := l, cpu_rq := q, tasks := T\<rparr> \<and> dom T = dom (tasks s) \<and>
     (\<forall>t x. tasks s t = Some x \<longrightarrow> (\<exists>r. T t = Some (x\<lparr>t_se := (t_se x)\<lparr>se_rq := r\<rparr>\<rparr>))))"

lemma rq_frame_refl [simp]: "rq_frame s s"
proof -
  have "s = s\<lparr>se_links := se_links s, cpu_rq := cpu_rq s, tasks := tasks s\<rparr>" by simp
  moreover have "\<exists>r. Some x = Some (x\<lparr>t_se := (t_se x)\<lparr>se_rq := r\<rparr>\<rparr>)" for x :: task_struct
    by (rule exI [of _ "se_rq (t_se x)"]) simp
  ultimately show ?thesis unfolding rq_frame_def by metis
qed

lemma rq_frame_trans:
  assumes "rq_frame s s'" "rq_frame s' s''" shows "rq_frame s s''"
proof -
  obtain l q T where 1: "s' = s\<lparr>se_links := l, cpu_rq := q, tasks := T\<rparr>" "dom T = dom (tasks s)"
      "\<forall>t x. tasks s t = Some x \<longrightarrow> (\<exists>r. T t = Some (x\<lparr>t_se := (t_se x)\<lparr>se_rq := r\<rparr>\<rparr>))"
    using assms(1) unfolding rq_frame_def by blast
  obtain l' q' T' where 2: "s'' = s'\<lparr>se_links := l', cpu_rq := q', tasks := T'\<rparr>" "dom T' = dom (tasks s')"
      "\<forall>t x. tasks s' t = Some x \<longrightarrow> (\<exists>r. T' t = Some (x\<lparr>t_se := (t_se x)\<lparr>se_rq := r\<rparr>\<rparr>))"
    using assms(2) unfolding rq_frame_def by blast
  have "\<exists>r. T' t = Some (x\<lparr>t_se := (t_se x)\<lparr>se_rq := r\<rparr>\<rparr>)" if "tasks s t = Some x" for t x
  proof -
    obtain r where "T t = Some (x\<lparr>t_se := (t_se x)\<lparr>se_rq := r\<rparr>\<rparr>)" using 1(3) \<open>tasks s t = Some x\<close> by blast
    then show ?thesis using 2(3) 1(1) by fastforce
  qed
  moreover have "s'' = s\<lparr>se_links := l', cpu_rq := q', tasks := T'\<rparr>" using 1(1) 2(1) by simp
  moreover have "dom T' = dom (tasks s)" using 1 2(2) by simp
  ultimately show ?thesis unfolding rq_frame_def by blast
qed

lemma rq_frame_task:
  "rq_frame s s' \<Longrightarrow> tasks s t = Some x \<Longrightarrow> \<exists>r. tasks s' t = Some (x\<lparr>t_se := (t_se x)\<lparr>se_rq := r\<rparr>\<rparr>)"
  by (auto simp: rq_frame_def)

section \<open>The operations refine the abstract ones\<close>

lemma rq_head_ok:
  "rq_indices_ok q \<Longrightarrow> rq_head c (rq_run q) = Inr (RqHead c (unat (rq_run q)))"
  "rq_indices_ok q \<Longrightarrow> rq_head c (rq_exhaust q) = Inr (RqHead c (unat (rq_exhaust q)))"
  by (auto simp: rq_head_def rq_indices_ok_def)

lemma get_rq_ok [simp]: "c < length (cpu_rq s) \<Longrightarrow> get_rq s c = Inr (cpu_rq s ! c)"
  by (simp add: get_rq_def)

lemma set_rq_ok [simp]:
  "c < length (cpu_rq s) \<Longrightarrow> set_rq c f s = Inr (s\<lparr>cpu_rq := (cpu_rq s)[c := f (cpu_rq s ! c)]\<rparr>)"
  by (simp add: set_rq_def)

lemma sched_enqueue_rep:
  assumes R: "rq_rep s Q" and c: "c < NR_CPUS" and t: "tasks s t = Some x" "t \<notin> queued Q"
  shows "\<exists>s'. sched_enqueue c t s = Inr s' \<and> rq_rep s' (enq_abs c (sched_exhaust x) t Q) \<and> rq_frame s s'"
proof -
  obtain L where L: "run_queues s L" "\<forall>c<NR_CPUS. Q c = queues_of s L c" using R by (auto simp: rq_rep_def)
  define q where "q = cpu_rq s ! c"
  define i where "i = (if sched_exhaust x then rq_exhaust q else rq_run q)"
  define p where "p = (c, unat i)"
  have len: "length (cpu_rq s) = NR_CPUS" and Q: "queue_rings (se_links s) L" and ok: "rq_indices_ok q"
    using L(1) c by (auto simp: run_queues_def q_def)
  have p: "p \<in> queue_index" using ok c by (auto simp: p_def i_def index_cases rq_indices_ok_def)
  have unq: "se_rq (t_se x) = None" using queued_iff [OF L, of t] t by (cases "se_rq (t_se x)") auto
  have new: "\<forall>r\<in>queue_index. t \<notin> set (L r)"
    using run_queues_task [OF L(1)] t(1) unq by fastforce
  let ?T = "(tasks s)(t \<mapsto> x\<lparr>t_se := (t_se x)\<lparr>se_rq := Some c\<rparr>\<rparr>)"
  let ?s = "s\<lparr>se_links := list_add_before (head_of p) (Se t) (se_links s),
      cpu_rq := (cpu_rq s)[c := q\<lparr>rq_payload := rq_payload q + 1\<rparr>], tasks := ?T\<rparr>"
  let ?L = "L(p := L p @ [t])"
  have hd: "rq_head c (if sched_exhaust x then rq_exhaust q else rq_run q) = Inr (head_of p)"
    using rq_head_ok [OF ok, of c] by (simp add: p_def i_def head_of_def)
  have eq: "sched_enqueue c t s = Inr ?s"
    unfolding sched_enqueue_def using t unq c len hd [unfolded q_def] by (simp add: q_def split del: if_split)
  have payload: "rq_indices_ok (cpu_rq ?s ! d) \<and>
      rq_payload (cpu_rq ?s ! d) = of_nat (length (?L (d, 0)) + length (?L (d, 1)))" if "d < NR_CPUS" for d
  proof -
    have "rq_indices_ok (cpu_rq s ! d)" "rq_payload (cpu_rq s ! d) = of_nat (length (L (d, 0)) + length (L (d, 1)))"
      using L(1) that by (auto simp: run_queues_def)
    moreover have "length (?L (c, 0)) + length (?L (c, 1)) = Suc (length (L (c, 0)) + length (L (c, 1)))"
    proof -
      have "p = (c, 0) \<or> p = (c, 1)" using p by (simp add: p_def index_cases)
      then show ?thesis by auto
    qed
    moreover have "?L (d, k) = L (d, k)" if "d \<noteq> c" for k using that by (simp add: p_def)
    ultimately show ?thesis using len that c
      by (cases "d = c") (simp_all add: q_def rq_indices_ok_def)
  qed
  have mem: "u \<in> set (?L (d, 0)) \<union> set (?L (d, 1)) \<longleftrightarrow> (\<exists>x. tasks ?s u = Some x \<and> se_rq (t_se x) = Some d)"
    if d: "d < NR_CPUS" for d u
  proof -
    have old: "u \<in> set (L (d, 0)) \<union> set (L (d, 1)) \<longleftrightarrow> (\<exists>x. tasks s u = Some x \<and> se_rq (t_se x) = Some d)"
      using L(1) d unfolding run_queues_def by blast
    have "set (?L (d, 0)) \<union> set (?L (d, 1)) = set (L (d, 0)) \<union> set (L (d, 1)) \<union> (if d = c then {t} else {})"
      using p by (auto simp: p_def index_cases)
    then show ?thesis using old unq t(1) by (auto split: if_splits)
  qed
  have rest: "\<forall>u y d. tasks ?s u = Some y \<longrightarrow> u \<noteq> 0 \<and> (se_rq (t_se y) = Some d \<longrightarrow> d < NR_CPUS)"
    using L(1) t(1) c by (auto simp: run_queues_def)
  have "run_queues ?s ?L"
    unfolding run_queues_def using len queue_rings_add [OF Q p new] payload mem rest by simp
  moreover have "enq_abs c (sched_exhaust x) t Q d = queues_of ?s ?L d" if "d < NR_CPUS" for d
  proof -
    have "Q d = queues_of s L d" using L(2) that by blast
    then show ?thesis using len c that ok
      by (cases "d = c") (auto simp: enq_abs_def queues_of_def p_def i_def q_def rq_indices_ok_def)
  qed
  ultimately have "rq_rep ?s (enq_abs c (sched_exhaust x) t Q)" unfolding rq_rep_def by blast
  moreover have "rq_frame s ?s"
  proof -
    have "\<exists>r. ?T u = Some (y\<lparr>t_se := (t_se y)\<lparr>se_rq := r\<rparr>\<rparr>)" if "tasks s u = Some y" for u y
      using that t(1) by (cases "u = t") (auto intro: exI [of _ "se_rq (t_se y)"])
    moreover have "dom ?T = dom (tasks s)" using t(1) by auto
    ultimately show ?thesis unfolding rq_frame_def by blast
  qed
  ultimately show ?thesis using eq by blast
qed

lemma sched_dequeue_rep:
  assumes R: "rq_rep s Q" and t: "t \<in> queued Q"
  shows "\<exists>s'. sched_dequeue t s = Inr s' \<and> rq_rep s' (deq_abs t Q) \<and> rq_frame s s'"
proof -
  obtain L where L: "run_queues s L" "\<forall>c<NR_CPUS. Q c = queues_of s L c" using R by (auto simp: rq_rep_def)
  obtain x c where x: "tasks s t = Some x" "se_rq (t_se x) = Some c" using t queued_iff [OF L] by blast
  have len: "length (cpu_rq s) = NR_CPUS" and Q: "queue_rings (se_links s) L" and c: "c < NR_CPUS"
    using L(1) x by (auto simp: run_queues_def)
  have in_c: "t \<in> set (L (c, 0)) \<union> set (L (c, 1))" using L(1) x c unfolding run_queues_def by blast
  have c01: "(c, 0) \<in> queue_index" "(c, 1) \<in> queue_index" using c by (simp_all add: index_cases)
  obtain p where p: "p \<in> queue_index" "p = (c, 0) \<or> p = (c, 1)" "t \<in> set (L p)"
    using in_c c01 by blast
  define q where "q = cpu_rq s ! c"
  let ?T = "(tasks s)(t \<mapsto> x\<lparr>t_se := (t_se x)\<lparr>se_rq := None\<rparr>\<rparr>)"
  let ?s = "s\<lparr>se_links := list_del_init (Se t) (se_links s),
      cpu_rq := (cpu_rq s)[c := q\<lparr>rq_payload := rq_payload q - 1\<rparr>], tasks := ?T\<rparr>"
  let ?L = "L(p := remove1 t (L p))"
  have eq: "sched_dequeue t s = Inr ?s"
    unfolding sched_dequeue_def using x c len by (simp add: q_def)
  have elsewhere: "t \<notin> set (L r)" if "r \<in> queue_index" "r \<noteq> p" for r
    using queue_ringsD(2) [OF Q that(1) p(1) that(2)] p(3) by auto
  have payload: "rq_indices_ok (cpu_rq ?s ! d) \<and>
      rq_payload (cpu_rq ?s ! d) = of_nat (length (?L (d, 0)) + length (?L (d, 1)))" if "d < NR_CPUS" for d
  proof -
    have "rq_indices_ok (cpu_rq s ! d)" "rq_payload (cpu_rq s ! d) = of_nat (length (L (d, 0)) + length (L (d, 1)))"
      using L(1) that by (auto simp: run_queues_def)
    moreover have "d = c \<Longrightarrow> rq_payload (cpu_rq ?s ! d) = of_nat (length (?L (d, 0)) + length (?L (d, 1)))"
    proof -
      assume [simp]: "d = c"
      have "length (L p) = Suc (length (remove1 t (L p)))"
        using p(3) length_pos_if_in_set [OF p(3)] by (simp add: length_remove1)
      then have "length (L (c, 0)) + length (L (c, 1)) = Suc (length (?L (c, 0)) + length (?L (c, 1)))"
        using p(2) by auto
      then have "rq_payload q = of_nat (length (?L (c, 0)) + length (?L (c, 1))) + 1"
        using calculation(2) unfolding q_def by (simp only: \<open>d = c\<close> of_nat_Suc add.commute)
      then show ?thesis using len c by (simp only: \<open>d = c\<close>) simp
    qed
    moreover have "d \<noteq> c \<Longrightarrow> ?L (d, k) = L (d, k)" for k using p(2) by auto
    ultimately show ?thesis using len that c
      by (cases "d = c") (simp_all add: q_def rq_indices_ok_def del: fun_upd_apply)
  qed
  have mem: "u \<in> set (?L (d, 0)) \<union> set (?L (d, 1)) \<longleftrightarrow> (\<exists>x. tasks ?s u = Some x \<and> se_rq (t_se x) = Some d)"
    if d: "d < NR_CPUS" for d u
  proof -
    have old: "u \<in> set (L (d, 0)) \<union> set (L (d, 1)) \<longleftrightarrow> (\<exists>x. tasks s u = Some x \<and> se_rq (t_se x) = Some d)"
      using L(1) d unfolding run_queues_def by blast
    have "set (?L r) = set (L r) - {t}" if "r \<in> queue_index" for r
      using elsewhere [OF that] queue_distinct [OF Q p(1)] by (cases "r = p") auto
    then have "set (?L (d, 0)) \<union> set (?L (d, 1)) = set (L (d, 0)) \<union> set (L (d, 1)) - {t}"
      using d by (auto simp: index_cases)
    then show ?thesis using old by (auto split: if_splits)
  qed
  have rest: "\<forall>u y d. tasks ?s u = Some y \<longrightarrow> u \<noteq> 0 \<and> (se_rq (t_se y) = Some d \<longrightarrow> d < NR_CPUS)"
    using L(1) x(1) by (auto simp: run_queues_def)
  have "run_queues ?s ?L"
    unfolding run_queues_def using len queue_rings_del [OF Q p(1,3)] payload mem rest by simp
  moreover have "deq_abs t Q d = queues_of ?s ?L d" if d: "d < NR_CPUS" for d
  proof -
    have "remove1 t (L r) = ?L r" if "r \<in> queue_index" for r
      using elsewhere [OF that] by (cases "r = p") (auto simp: remove1_idem)
    moreover have "(d, unat (rq_run (cpu_rq s ! d))) \<in> queue_index" "(d, unat (rq_exhaust (cpu_rq s ! d))) \<in> queue_index"
      using L(1) d by (auto simp: run_queues_def rq_indices_ok_def index_cases)
    moreover have "rq_run (cpu_rq ?s ! d) = rq_run (cpu_rq s ! d)" "rq_exhaust (cpu_rq ?s ! d) = rq_exhaust (cpu_rq s ! d)"
      using len c d by (cases "d = c"; simp add: q_def)+
    ultimately show ?thesis using L(2) d by (simp add: deq_abs_def queues_of_def)
  qed
  ultimately have "rq_rep ?s (deq_abs t Q)" unfolding rq_rep_def by blast
  moreover have "rq_frame s ?s"
  proof -
    have "\<exists>r. ?T u = Some (y\<lparr>t_se := (t_se y)\<lparr>se_rq := r\<rparr>\<rparr>)" if "tasks s u = Some y" for u y
      using that x(1) by (cases "u = t") (auto intro: exI [of _ "se_rq (t_se y)"])
    moreover have "dom ?T = dom (tasks s)" using x(1) by auto
    ultimately show ?thesis unfolding rq_frame_def by blast
  qed
  ultimately show ?thesis using eq by blast
qed

lemma first_of_queue:
  assumes "queue_rings h L" "p \<in> queue_index"
  shows "list_empty h (head_of p) \<longleftrightarrow> L p = []"
    and "L p \<noteq> [] \<Longrightarrow> list_next h (head_of p) = Se (hd (L p))"
  using list_empty_ring [OF queue_ringsD(1) [OF assms]] ll.rep_nxt [OF queue_ringsD(1) [OF assms]]
  by (auto simp: hd_append list.map_sel(1))

lemma sched_pick_rep:
  assumes R: "rq_rep s Q" and c: "c < NR_CPUS"
  shows "\<exists>s'. sched_pick c s = Inr (fst (pick_abs c Q), s') \<and> rq_rep s' (snd (pick_abs c Q)) \<and> rq_frame s s'"
proof -
  obtain L where L: "run_queues s L" "\<forall>c<NR_CPUS. Q c = queues_of s L c" using R by (auto simp: rq_rep_def)
  define q where "q = cpu_rq s ! c"
  define run where "run = (c, unat (rq_run q))"
  define exh where "exh = (c, unat (rq_exhaust q))"
  have len: "length (cpu_rq s) = NR_CPUS" and Q: "queue_rings (se_links s) L" and ok: "rq_indices_ok q"
    using L(1) c by (auto simp: run_queues_def q_def)
  have idx: "run \<in> queue_index" "exh \<in> queue_index"
    using ok c by (auto simp: run_def exh_def index_cases rq_indices_ok_def)
  have hds: "rq_head c (rq_run q) = Inr (head_of run)" "rq_head c (rq_exhaust q) = Inr (head_of exh)"
    using rq_head_ok [OF ok, of c] by (auto simp: run_def exh_def head_of_def)
  have Qc: "Q c = (L run, L exh)" using L(2) c by (auto simp: queues_of_def run_def exh_def q_def)
  note first = first_of_queue [OF Q]
  show ?thesis
  proof (cases "L run = [] \<and> L exh \<noteq> []")
    case True
    let ?s = "s\<lparr>cpu_rq := (cpu_rq s)[c := q\<lparr>rq_run := rq_exhaust q, rq_exhaust := rq_run q\<rparr>]\<rparr>"
    have eq: "sched_pick c s = Inr (hd (L exh), ?s)"
      unfolding sched_pick_def using True c len hds [unfolded q_def] first idx
      by (simp add: q_def node_to_task_def)
    have "run_queues ?s L"
    proof -
      have "rq_indices_ok (cpu_rq ?s ! d) \<and> rq_payload (cpu_rq ?s ! d) = rq_payload (cpu_rq s ! d)" if "d < NR_CPUS" for d
        using L(1) that len c by (cases "d = c") (auto simp: run_queues_def q_def rq_indices_ok_def)
      then show ?thesis using L(1) by (simp add: run_queues_def)
    qed
    moreover have "(Q(c := (L exh, []))) d = queues_of ?s L d" if "d < NR_CPUS" for d
    proof (cases "d = c")
      case True
      then show ?thesis using \<open>L run = [] \<and> L exh \<noteq> []\<close> c len by (simp add: queues_of_def run_def exh_def)
    next
      case False
      then show ?thesis using L(2) that by (simp add: queues_of_def)
    qed
    ultimately have "rq_rep ?s (Q(c := (L exh, [])))" unfolding rq_rep_def by blast
    moreover have "rq_frame s ?s"
    proof -
      have "?s = s\<lparr>se_links := se_links s, cpu_rq := cpu_rq ?s, tasks := tasks s\<rparr>" by simp
      moreover have "\<exists>r. Some x = Some (x\<lparr>t_se := (t_se x)\<lparr>se_rq := r\<rparr>\<rparr>)" for x :: task_struct
        by (rule exI [of _ "se_rq (t_se x)"]) simp
      ultimately show ?thesis unfolding rq_frame_def by metis
    qed
    ultimately show ?thesis using eq True Qc by (simp add: pick_abs_def)
  next
    case False
    then have "sched_pick c s = Inr (fst (pick_abs c Q), s)"
      unfolding sched_pick_def using c len hds [unfolded q_def] first idx Qc
      by (auto simp: q_def node_to_task_def pick_abs_def)
    moreover have "snd (pick_abs c Q) = Q" using False Qc by (auto simp: pick_abs_def)
    ultimately show ?thesis using R by auto
  qed
qed

section \<open>The interface the scheduler uses\<close>

text \<open>
  \<^verbatim>\<open>sched()\<close> puts the running task into a queue, picks the next task and takes it out. It
  relies on the laws below and on nothing else of the queues.
\<close>

locale run_queue_ops =
  fixes rep :: "'s \<Rightarrow> queues \<Rightarrow> bool"
    and known :: "'s \<Rightarrow> task_ptr \<Rightarrow> bool"
    and exhausted :: "'s \<Rightarrow> task_ptr \<Rightarrow> bool"
    and enqueue :: "nat \<Rightarrow> task_ptr \<Rightarrow> 's \<Rightarrow> 's result"
    and dequeue :: "task_ptr \<Rightarrow> 's \<Rightarrow> 's result"
    and pick :: "nat \<Rightarrow> 's \<Rightarrow> (task_ptr \<times> 's) result"
    and keeps :: "'s \<Rightarrow> 's \<Rightarrow> bool"
  assumes enqueue_law: "rep s Q \<Longrightarrow> c < NR_CPUS \<Longrightarrow> known s t \<Longrightarrow> t \<notin> queued Q \<Longrightarrow>
      \<exists>s'. enqueue c t s = Inr s' \<and> rep s' (enq_abs c (exhausted s t) t Q) \<and> keeps s s'"
    and dequeue_law: "rep s Q \<Longrightarrow> t \<in> queued Q \<Longrightarrow>
      \<exists>s'. dequeue t s = Inr s' \<and> rep s' (deq_abs t Q) \<and> keeps s s'"
    and pick_law: "rep s Q \<Longrightarrow> c < NR_CPUS \<Longrightarrow>
      \<exists>s'. pick c s = Inr (fst (pick_abs c Q), s') \<and> rep s' (snd (pick_abs c Q)) \<and> keeps s s'"
    and keeps_trans: "keeps s s' \<Longrightarrow> keeps s' s'' \<Longrightarrow> keeps s s''"
    and nonzero: "rep s Q \<Longrightarrow> t \<in> queued Q \<Longrightarrow> t \<noteq> 0"
    and disjoint: "rep s Q \<Longrightarrow> c < NR_CPUS \<Longrightarrow> distinct (fst (Q c) @ snd (Q c))"
    and apart_cpus: "rep s Q \<Longrightarrow> c < NR_CPUS \<Longrightarrow> d < NR_CPUS \<Longrightarrow> c \<noteq> d \<Longrightarrow>
      (set (fst (Q c)) \<union> set (snd (Q c))) \<inter> (set (fst (Q d)) \<union> set (snd (Q d))) = {}"
begin

lemma queued_enq: "c < NR_CPUS \<Longrightarrow> queued (enq_abs c e t Q) = insert t (queued Q)"
  by (auto simp: queued_def enq_abs_def split: if_splits)

lemma queued_pick: "c < NR_CPUS \<Longrightarrow> queued (snd (pick_abs c Q)) = queued Q"
  by (auto simp: queued_def pick_abs_def split: if_splits)

lemma picked_queued: "c < NR_CPUS \<Longrightarrow> fst (Q c) \<noteq> [] \<or> snd (Q c) \<noteq> [] \<Longrightarrow> fst (pick_abs c Q) \<in> queued Q"
  using hd_in_set [of "fst (Q c)"] hd_in_set [of "snd (Q c)"]
  unfolding queued_def by (intro UN_I [of c]) (auto simp: pick_abs_def)

lemma queued_deq:
  assumes "rep s Q" shows "queued (deq_abs t Q) = queued Q - {t}"
proof -
  have "set (fst (deq_abs t Q c)) \<union> set (snd (deq_abs t Q c)) = set (fst (Q c)) \<union> set (snd (Q c)) - {t}"
    if "c < NR_CPUS" for c
    using disjoint [OF assms that] by (auto simp: deq_abs_def)
  then show ?thesis unfolding queued_def by blast
qed

text \<open>
  One round of the scheduler: the task is put into a queue of processor \<open>m\<close>, the next task of
  processor \<open>c\<close> is picked and taken out. No task is lost and none is queued twice.
\<close>

lemma reschedule:
  assumes "rep s Q" "c < NR_CPUS" "m < NR_CPUS" "known s t" "t \<notin> queued Q"
    and r: "resched_abs c m (exhausted s t) t Q = (n, Q')"
  shows "\<exists>s1 s2 s3. enqueue m t s = Inr s1 \<and> pick c s1 = Inr (n, s2) \<and>
    (if n = 0 then s3 = s2 else dequeue n s2 = Inr s3) \<and> rep s3 Q' \<and> queued Q' = insert t (queued Q) - {n} \<and>
    (n \<noteq> 0 \<longrightarrow> n \<in> insert t (queued Q)) \<and> keeps s s3 \<and> keeps s s1"
proof -
  let ?Q1 = "enq_abs m (exhausted s t) t Q"
  let ?Q2 = "snd (pick_abs c ?Q1)"
  have n: "n = fst (pick_abs c ?Q1)" and Q': "Q' = (if n = 0 then ?Q2 else deq_abs n ?Q2)"
    using r by (auto simp: resched_abs_def split: prod.splits)
  obtain s1 where s1: "enqueue m t s = Inr s1" "rep s1 ?Q1" "keeps s s1"
    using enqueue_law [OF assms(1,3,4,5)] by blast
  obtain s2 where s2: "pick c s1 = Inr (n, s2)" "rep s2 ?Q2" "keeps s1 s2"
    using pick_law [OF s1(2) assms(2)] n by auto
  have q2: "queued ?Q2 = insert t (queued Q)"
    using queued_pick [OF assms(2)] queued_enq [OF assms(3)] by simp
  have ks: "keeps s s2" using keeps_trans [OF s1(3) s2(3)] .
  show ?thesis
  proof (cases "n = 0")
    case True
    have "0 \<notin> queued ?Q2" using nonzero [OF s2(2)] by blast
    then show ?thesis using s1 s2 q2 ks True Q' by auto
  next
    case False
    then have "fst (?Q1 c) \<noteq> [] \<or> snd (?Q1 c) \<noteq> []" using n by (auto simp: pick_abs_def)
    then have nq: "n \<in> insert t (queued Q)"
      using picked_queued [of c ?Q1, OF assms(2)] queued_enq [OF assms(3)] n by simp
    obtain s3 where s3: "dequeue n s2 = Inr s3" "rep s3 (deq_abs n ?Q2)" "keeps s2 s3"
      using dequeue_law [OF s2(2), of n] nq q2 by blast
    have "queued (deq_abs n ?Q2) = insert t (queued Q) - {n}" using queued_deq [OF s2(2)] q2 by simp
    then show ?thesis using s1 s2(1) s3(1,2) False nq Q' keeps_trans [OF ks s3(3)] by auto
  qed
qed

end

interpretation o1: run_queue_ops rq_rep "\<lambda>s t. tasks s t \<noteq> None" "\<lambda>s t. sched_exhaust (the (tasks s t))"
  sched_enqueue sched_dequeue sched_pick rq_frame
proof unfold_locales
  fix s :: "'b task_state_scheme" and Q t and c :: nat
  assume "rq_rep s Q" "c < 4" "tasks s t \<noteq> None" "t \<notin> queued Q"
  then show "\<exists>s'. sched_enqueue c t s = Inr s' \<and> rq_rep s' (enq_abs c (sched_exhaust (the (tasks s t))) t Q) \<and> rq_frame s s'"
    using sched_enqueue_rep [of s Q c t] by auto
next
  fix s :: "'b task_state_scheme" and Q t assume R: "rq_rep s Q" "t \<in> queued Q"
  then obtain L where L: "run_queues s L" "\<forall>c<NR_CPUS. Q c = queues_of s L c" by (auto simp: rq_rep_def)
  then obtain x where "tasks s t = Some x" using queued_iff [OF L] R(2) by blast
  then show "t \<noteq> 0" using L(1) by (auto simp: run_queues_def)
next
  fix s :: "'b task_state_scheme" and Q and c :: nat assume R: "rq_rep s Q" "c < 4"
  then obtain L where L: "run_queues s L" "Q c = queues_of s L c" by (auto simp: rq_rep_def)
  have Q: "queue_rings (se_links s) L" and ok: "rq_indices_ok (cpu_rq s ! c)" using L(1) R by (auto simp: run_queues_def)
  have i: "(c, 0) \<in> queue_index" "(c, 1) \<in> queue_index" using R by (auto simp: index_cases)
  then have "distinct (L (c, 0) @ L (c, 1))" "distinct (L (c, 1) @ L (c, 0))"
    using queue_distinct [OF Q] queue_ringsD(2) [OF Q i] by auto
  then show "distinct (fst (Q c) @ snd (Q c))" using ok L(2) by (auto simp: queues_of_def rq_indices_ok_def)
next
  fix s :: "'b task_state_scheme" and Q and c d :: nat assume R: "rq_rep s Q" "c < 4" "d < 4" "c \<noteq> d"
  then obtain L where L: "run_queues s L" "\<forall>c<NR_CPUS. Q c = queues_of s L c" by (auto simp: rq_rep_def)
  have "t \<notin> set (L (c, 0)) \<union> set (L (c, 1)) \<or> t \<notin> set (L (d, 0)) \<union> set (L (d, 1))" for t
  proof (rule ccontr)
    assume "\<not> ?thesis"
    then have "(\<exists>x. tasks s t = Some x \<and> se_rq (t_se x) = Some c)" "(\<exists>x. tasks s t = Some x \<and> se_rq (t_se x) = Some d)"
      unfolding run_queues_mem [OF L(1) R(2), symmetric] run_queues_mem [OF L(1) R(3), symmetric] by blast+
    then show False using R(4) by auto
  qed
  then show "(set (fst (Q c)) \<union> set (snd (Q c))) \<inter> (set (fst (Q d)) \<union> set (snd (Q d))) = {}"
    using queues_of_set [OF L(1)] L(2) R(2,3) by auto
qed (use sched_dequeue_rep sched_pick_rep rq_frame_trans in blast)+

section \<open>Initialisation\<close>

lemma sched_init_loop_spec:
  "i + n = NR_CPUS \<Longrightarrow> length (cpu_rq s) = NR_CPUS \<Longrightarrow> (\<forall>c<NR_CPUS. rq_payload (cpu_rq s ! c) = 0) \<Longrightarrow>
   (\<forall>c<i. rq_indices_ok (cpu_rq s ! c) \<and> ring (se_links s) [RqHead c 0] \<and> ring (se_links s) [RqHead c 1]) \<Longrightarrow>
   \<exists>l q. sched_init_loop n i s = Inr (s\<lparr>se_links := l, cpu_rq := q\<rparr>) \<and> length q = NR_CPUS \<and>
     (\<forall>c<NR_CPUS. rq_payload (q ! c) = 0 \<and> rq_indices_ok (q ! c) \<and> ring l [RqHead c 0] \<and> ring l [RqHead c 1])"
proof (induction n arbitrary: i s)
  case 0
  then have "s = s\<lparr>se_links := se_links s, cpu_rq := cpu_rq s\<rparr>" by simp
  then show ?case using 0 by (intro exI [of _ "se_links s"] exI [of _ "cpu_rq s"]) simp
next
  case (Suc n)
  let ?q = "(cpu_rq s)[i := (cpu_rq s ! i)\<lparr>rq_cpu := of_nat i, rq_run := 0, rq_exhaust := 1\<rparr>]"
  let ?l = "list_init (RqHead i 1) (list_init (RqHead i 0) (se_links s))"
  let ?s = "s\<lparr>cpu_rq := ?q, se_links := ?l\<rparr>"
  have i: "i < length (cpu_rq s)" using Suc.prems by simp
  have step: "sched_init_loop (Suc n) i s = sched_init_loop n (Suc i) ?s" using i by simp
  have rings: "ring ?l [RqHead c 0] \<and> ring ?l [RqHead c 1]" if "c < Suc i" for c
    using that Suc.prems(4) by (cases "c = i") (auto simp: ring_single list_init_def)
  have idx: "\<forall>c<Suc i. rq_indices_ok (cpu_rq ?s ! c) \<and> ring (se_links ?s) [RqHead c 0] \<and> ring (se_links ?s) [RqHead c 1]"
    using rings Suc.prems(4) i by (auto simp: less_Suc_eq rq_indices_ok_def)
  have pay: "\<forall>c<NR_CPUS. rq_payload (cpu_rq ?s ! c) = 0"
    using Suc.prems(2,3) i by (auto simp: nth_list_update)
  obtain l q where lq: "sched_init_loop n (Suc i) ?s = Inr (?s\<lparr>se_links := l, cpu_rq := q\<rparr>)" "length q = NR_CPUS"
     "\<forall>c<NR_CPUS. rq_payload (q ! c) = 0 \<and> rq_indices_ok (q ! c) \<and> ring l [RqHead c 0] \<and> ring l [RqHead c 1]"
  proof -
    have "Suc i + n = NR_CPUS" "length (cpu_rq ?s) = NR_CPUS" using Suc.prems by simp_all
    from Suc.IH [OF this pay idx] show ?thesis using that by blast
  qed
  have "sched_init_loop (Suc n) i s = Inr (s\<lparr>se_links := l, cpu_rq := q\<rparr>)"
    unfolding step lq(1) by simp
  then show ?case using lq(2,3) by blast
qed

lemma sched_init_rep:
  assumes "\<forall>t x. tasks s t = Some x \<longrightarrow> t \<noteq> 0 \<and> se_rq (t_se x) = None"
  shows "\<exists>s'. sched_init s = Inr s' \<and> rq_rep s' (\<lambda>_. ([], [])) \<and> rq_frame s s'"
proof -
  let ?s = "s\<lparr>cpu_rq := replicate NR_CPUS \<lparr>rq_cpu = 0, rq_run = 0, rq_exhaust = 0, rq_payload = 0\<rparr>\<rparr>"
  obtain l q where lq: "sched_init s = Inr (?s\<lparr>se_links := l, cpu_rq := q\<rparr>)" "length q = NR_CPUS"
     "\<forall>c<NR_CPUS. rq_payload (q ! c) = 0 \<and> rq_indices_ok (q ! c) \<and> ring l [RqHead c 0] \<and> ring l [RqHead c 1]"
    using sched_init_loop_spec [of 0 NR_CPUS ?s] unfolding sched_init_def by auto
  have eq: "?s\<lparr>se_links := l, cpu_rq := q\<rparr> = s\<lparr>se_links := l, cpu_rq := q, tasks := tasks s\<rparr>" by simp
  have "ring l (head_of p # map Se [])" if "p \<in> queue_index" for p
    using that lq(3) by (auto simp: index_cases head_of_def)
  then have "queue_rings l (\<lambda>_. [])" by (simp add: queue_rings_def)
  then have "run_queues (s\<lparr>se_links := l, cpu_rq := q, tasks := tasks s\<rparr>) (\<lambda>_. [])"
    using assms lq by (auto simp: run_queues_def)
  then have "rq_rep (s\<lparr>se_links := l, cpu_rq := q, tasks := tasks s\<rparr>) (\<lambda>_. ([], []))"
    unfolding rq_rep_def by (intro exI [of _ "\<lambda>_. []"]) (simp add: queues_of_def)
  moreover have "rq_frame s (s\<lparr>se_links := l, cpu_rq := q, tasks := tasks s\<rparr>)"
  proof -
    have "\<exists>r. Some x = Some (x\<lparr>t_se := (t_se x)\<lparr>se_rq := r\<rparr>\<rparr>)" for x :: task_struct
      by (rule exI [of _ "se_rq (t_se x)"]) simp
    then show ?thesis unfolding rq_frame_def by metis
  qed
  ultimately show ?thesis using lq(1) eq by auto
qed

section \<open>The choice of a queue\<close>

lemma minload_loop_spec:
  assumes "\<forall>i\<in>set is. i < length (cpu_rq s)" "m < length (cpu_rq s)"
  shows "\<exists>r. minload_loop is m s = Inr r \<and> r \<in> insert m (set is) \<and>
    (\<forall>i\<in>insert m (set is). rq_payload (cpu_rq s ! i) \<le> rq_payload (cpu_rq s ! r))"
  using assms
proof (induction "is" arbitrary: m)
  case (Cons i "is")
  let ?m = "if rq_payload (cpu_rq s ! i) > rq_payload (cpu_rq s ! m) then i else m"
  obtain r where r: "minload_loop is ?m s = Inr r" "r \<in> insert ?m (set is)"
      "\<forall>j\<in>insert ?m (set is). rq_payload (cpu_rq s ! j) \<le> rq_payload (cpu_rq s ! r)"
  proof -
    have "?m < length (cpu_rq s)" "\<forall>i\<in>set is. i < length (cpu_rq s)" using Cons.prems by auto
    from Cons.IH [OF this(2,1)] show ?thesis using that by blast
  qed
  have "rq_payload (cpu_rq s ! i) \<le> rq_payload (cpu_rq s ! ?m)" "rq_payload (cpu_rq s ! m) \<le> rq_payload (cpu_rq s ! ?m)"
    by auto
  moreover have "rq_payload (cpu_rq s ! ?m) \<le> rq_payload (cpu_rq s ! r)" using r(3) by blast
  ultimately have "rq_payload (cpu_rq s ! i) \<le> rq_payload (cpu_rq s ! r)" "rq_payload (cpu_rq s ! m) \<le> rq_payload (cpu_rq s ! r)"
    by (blast intro: order_trans)+
  moreover have "minload_loop (i # is) m s = Inr r" using r(1) Cons.prems by simp
  moreover have "r \<in> insert m (set (i # is))" using r(2) by (auto split: if_splits)
  ultimately show ?case using r(3) by auto
qed simp

section \<open>Switching\<close>

lemma load_frame_simps [simp]:
  "current_task (load_frame f s) = current_task s" "tasks (load_frame f s) = tasks s"
  "se_links (load_frame f s) = se_links s" "cpu_rq (load_frame f s) = cpu_rq s" "cpu_number (load_frame f s) = cpu_number s"
  "tframes (load_frame f s) = tframes s" "kernelsp (load_frame f s) = kernelsp s"
  by (simp_all add: load_frame_def)

lemma switch_task_ok:
  assumes "tasks s (current_task s) = Some x" "tasks s n = Some y"
    and "tframes s (t_context x) \<noteq> None" "tframes s (t_context y) \<noteq> None"
  shows "\<exists>s'. switch_task n s = Inr s' \<and> current_task s' = n \<and> tasks s' = tasks s \<and> se_links s' = se_links s \<and>
    cpu_rq s' = cpu_rq s"
  using assms by (auto simp: switch_task_def switch_context_ok)

lemma rq_rep_cong:
  "tasks s' = tasks s \<Longrightarrow> se_links s' = se_links s \<Longrightarrow> cpu_rq s' = cpu_rq s \<Longrightarrow> rq_rep s' Q = rq_rep s Q"
  by (simp add: rq_rep_def run_queues_def queues_of_def)

lemma rq_frame_fields:
  "rq_frame s s' \<Longrightarrow> cpu_number s' = cpu_number s \<and> current_task s' = current_task s \<and> tframes s' = tframes s"
  by (auto simp: rq_frame_def)

lemma rq_frame_contexts:
  assumes "rq_frame s s'" "\<forall>u y. tasks s u = Some y \<longrightarrow> tframes s (t_context y) \<noteq> None" "tasks s' u = Some y"
  shows "tframes s' (t_context y) \<noteq> None"
proof -
  have "dom (tasks s') = dom (tasks s)" using assms(1) unfolding rq_frame_def by fastforce
  then obtain x where x: "tasks s u = Some x" using assms(3) by blast
  then obtain r where "y = x\<lparr>t_se := (t_se x)\<lparr>se_rq := r\<rparr>\<rparr>" using rq_frame_task [OF assms(1) x] assms(3) by auto
  then show ?thesis using assms(2) x rq_frame_fields [OF assms(1)] by auto
qed

text \<open>
  The loop of the clock: \<open>y\<close> is how far compare is ahead of the first value of count, \<open>d\<close> how far count has
  moved since. Once \<open>y\<close> has come round to at most a period, the loop ends when count has not passed
  compare, and one round later otherwise.
\<close>

lemma word_diff_ahead:
  fixes cmp c c0 :: u32
  assumes "unat (c - c0) \<le> unat (cmp - c0)"
  shows "unat (cmp - c) = unat (cmp - c0) - unat (c - c0)"
proof -
  have "c - c0 \<le> cmp - c0" using assms by (simp add: word_le_nat_alt)
  then have "unat ((cmp - c0) - (c - c0)) = unat (cmp - c0) - unat (c - c0)" by (rule unat_sub)
  then show ?thesis by simp
qed

lemma period_ahead:
  fixes cmp c0 :: u32
  shows "unat (cmp + 0x10000000 - c0) = (unat (cmp - c0) + 2 ^ 28) mod 2 ^ 32"
proof -
  have "cmp + 0x10000000 - c0 = (cmp - c0) + 0x10000000" by simp
  then show ?thesis by (simp only: unat_word_ariths) simp
qed

lemma compare_loop_reaches:
  assumes "2 ^ 32 \<le> unat (cmp - c0) + n * 2 ^ 28" "n < length cs"
    and "\<forall>c\<in>set cs. unat (c - c0) \<le> 2 ^ 28" "sorted (map (\<lambda>c. unat (c - c0)) cs)"
  shows "\<exists>k\<le>n. compare_loop cs cmp = Inr (cmp + of_nat (Suc k) * 0x10000000) \<and>
    cmp + of_nat (Suc k) * 0x10000000 - cs ! k \<le> 0x10000000"
  using assms
proof (induction n arbitrary: cs cmp)
  case 0
  then show ?case using unat_less_u32 [of "cmp - c0"] by simp
next
  case (Suc n)
  obtain c ds where cs: "cs = c # ds" using Suc.prems(2) by (cases cs) auto
  let ?c = "cmp + 0x10000000"
  show ?case
  proof (cases "?c - c > 0x10000000")
    case False
    then have le: "?c - c \<le> 0x10000000" by (simp only: not_less)
    moreover have "compare_loop cs cmp = Inr ?c" using False by (simp only: cs compare_loop.simps Let_def if_False)
    ultimately show ?thesis by (intro exI [of _ 0]) (simp add: cs)
  next
    case True
    have nz: "ds \<noteq> []" using Suc.prems(2) by (auto simp: cs)
    have "\<exists>k\<le>n. compare_loop ds ?c = Inr (?c + of_nat (Suc k) * 0x10000000) \<and>
        ?c + of_nat (Suc k) * 0x10000000 - ds ! k \<le> 0x10000000"
    proof (cases "unat (cmp - c0) + 2 ^ 28 < 2 ^ 32")
      case True
      then have "2 ^ 32 \<le> unat (?c - c0) + n * 2 ^ 28" using Suc.prems(1) by (simp add: period_ahead)
      from Suc.IH [OF this] Suc.prems(2-4) show ?thesis by (simp add: cs)
    next
      case wrap: False
      then have y: "unat (?c - c0) = unat (cmp - c0) + 2 ^ 28 - 2 ^ 32" "unat (?c - c0) < 2 ^ 28"
        using unat_less_u32 [of "cmp - c0"] by (simp_all add: period_ahead mod_if split: if_splits) linarith?
      have d: "unat (?c - c0) < unat (c - c0)"
      proof (rule ccontr)
        assume "\<not> unat (?c - c0) < unat (c - c0)"
        then have "unat (?c - c) < 2 ^ 28" using word_diff_ahead [of c c0 ?c] y(2) by simp
        then show False using \<open>?c - c > 0x10000000\<close> by (simp add: word_less_nat_alt)
      qed
      obtain e es where ds: "ds = e # es" using nz by (cases ds) auto
      have e: "unat (c - c0) \<le> unat (e - c0)" "unat (e - c0) \<le> 2 ^ 28" using Suc.prems(3,4) by (auto simp: cs ds)
      have z: "unat (?c + 0x10000000 - c0) = unat (?c - c0) + 2 ^ 28" using y(2) by (simp only: period_ahead) simp
      have "unat (?c + 0x10000000 - e) = unat (?c - c0) + 2 ^ 28 - unat (e - c0)"
        using word_diff_ahead [of e c0 "?c + 0x10000000"] e(2) z by simp
      then have "unat (?c + 0x10000000 - e) \<le> 2 ^ 28" using d e(1) by simp
      then have "?c + 0x10000000 - e \<le> 0x10000000" by (simp add: word_le_nat_alt)
      moreover from this have "compare_loop ds ?c = Inr (?c + 0x10000000)"
        by (simp only: ds compare_loop.simps Let_def not_less [symmetric] if_False)
      ultimately show ?thesis by (intro exI [of _ 0]) (simp add: ds)
    qed
    then obtain k where k: "k \<le> n" "compare_loop ds ?c = Inr (?c + of_nat (Suc k) * 0x10000000)"
      "?c + of_nat (Suc k) * 0x10000000 - ds ! k \<le> 0x10000000" by blast
    have eq: "?c + of_nat (Suc k) * 0x10000000 = cmp + of_nat (Suc (Suc k)) * 0x10000000" by (simp add: algebra_simps)
    show ?thesis using k True unfolding eq
      by (intro exI [of _ "Suc k"]) (simp only: cs compare_loop.simps Let_def if_True nth_Cons_Suc Suc_le_mono simp_thms)
  qed
qed

section \<open>Example state\<close>

definition idle_example :: task_struct where
  "idle_example = zero_task\<lparr>t_state := TASK_RUNNABLE, t_context := 0x9010\<rparr>"

definition init_example :: task_struct where
  "init_example = zero_task\<lparr>t_pid := 1, t_state := TASK_RUNNABLE, t_context := 0xa000\<rparr>"

definition task_example :: task_state where
  "task_example = vm_state.extend (vm_with [])
     \<lparr>tasks = [0x1000 \<mapsto> idle_example, 0x2000 \<mapsto> init_example],
      tframes = [0x9010 \<mapsto> zero_frame, 0xa000 \<mapsto> zero_frame],
      proc_links = \<lparr>node_prev = (\<lambda>x. x), node_next = (\<lambda>x. x)\<rparr>,
      hash_links = \<lparr>node_prev = (\<lambda>x. x), node_next = (\<lambda>x. x)\<rparr>,
      sib_links = \<lparr>node_prev = (\<lambda>x. x), node_next = (\<lambda>x. x)\<rparr>,
      thread_links = \<lparr>node_prev = (\<lambda>x. x), node_next = (\<lambda>x. x)\<rparr>,
      se_links = \<lparr>node_prev = (\<lambda>x. x), node_next = (\<lambda>x. x)\<rparr>,
      nr_process = 2, nr_thread = 0, initproc = 0x2000, idleprocs = [0x1000, 0, 0, 0],
      cpu_rq = [], cpu_number = 0, ticks = 0, current_task = 0x1000, cpu_online = [True, False, False, False],
      kernelsp = [0, 0, 0, 0], online_hpt = replicate 256 0, next_asid = 1, online_tasks = replicate 256 0,
      cpu_gpr = (\<lambda>_. 0), cpu_lo = 0, cpu_hi = 0, cp0_status = 0, cp0_cause = 0, cp0_badvaddr = 0, cp0_epc = 0,
      cp0_count = 0, cp0_compare = 0, init_thread_union = 0x9000, forkret_addr = 0x8000, init_image = 0xc000\<rparr>"

lemma task_example_simps [simp]:
  "tasks task_example = [0x1000 \<mapsto> idle_example, 0x2000 \<mapsto> init_example]"
  "tframes task_example = [0x9010 \<mapsto> zero_frame, 0xa000 \<mapsto> zero_frame]"
  "current_task task_example = 0x1000" "cpu_number task_example = 0"
  "initproc task_example = 0x2000" "idleprocs task_example = [0x1000, 0, 0, 0]"
  "next_asid task_example = 1" "online_hpt task_example = replicate 256 0" "online_tasks task_example = replicate 256 0"
  by (simp_all add: task_example_def vm_with_def boot_mach_def boot_kmem_def
      vm_state.defs mach_state.defs kmem_state.defs kstate.defs)

lemma example_queues:
  "\<exists>s1 s2. sched_init task_example = Inr s1 \<and> sched_enqueue 0 0x2000 s1 = Inr s2 \<and>
     rq_rep s2 (enq_abs 0 True 0x2000 (\<lambda>_. ([], []))) \<and> rq_frame task_example s2"
proof -
  obtain s1 where s1: "sched_init task_example = Inr s1" "rq_rep s1 (\<lambda>_. ([], []))" "rq_frame task_example s1"
  proof -
    have "\<forall>t x. tasks task_example t = Some x \<longrightarrow> t \<noteq> 0 \<and> se_rq (t_se x) = None"
      by (simp add: idle_example_def init_example_def zero_task_def)
    from sched_init_rep [OF this] show ?thesis using that by blast
  qed
  obtain r where r: "tasks s1 0x2000 = Some (init_example\<lparr>t_se := (t_se init_example)\<lparr>se_rq := r\<rparr>\<rparr>)"
    using rq_frame_task [OF s1(3), of "0x2000"] by auto
  have "sched_exhaust (init_example\<lparr>t_se := (t_se init_example)\<lparr>se_rq := r\<rparr>\<rparr>)"
    by (simp add: sched_exhaust_def init_example_def zero_task_def)
  then show ?thesis
    using sched_enqueue_rep [OF s1(2) _ r, of 0] s1 rq_frame_trans by (fastforce simp: queued_def)
qed

section \<open>Properties\<close>

lemma idle_of_frame: "rq_frame s s' \<Longrightarrow> idleproc s' = idleproc s"
  by (auto simp: rq_frame_def idleproc_def)

lemma known_of_frame: "rq_frame s s' \<Longrightarrow> tasks s t \<noteq> None \<Longrightarrow> tasks s' t \<noteq> None"
  using rq_frame_task by fastforce

text \<open>
  Property C6. The scheduler refines the FIFO queues of all processors. Let the run queues represent
  \<open>Q\<close>, which gives every processor a running and an exhausted queue. A call of \<^verbatim>\<open>sched()\<close> on any
  processor returns; it has appended the current task to a queue of a processor \<open>m\<close> of maximal load (the
  exhausted queue if its slice is used up, the running queue otherwise), picked the first task of its own
  running queue, after swapping its two queues if the running one was empty, taken that task out, and
  switched to it, or to the idle task when both queues were empty. The run queues represent the
  result, in which every task is queued that was, but for the one that runs now, and none twice.
\<close>
theorem sched_refines_queues:
  assumes "rq_rep s Q" "tasks s (current_task s) = Some x" "current_task s \<notin> queued Q"
    and "unat (cpu_number s) < NR_CPUS" "idleproc s = Inr idle" "tasks s idle \<noteq> None"
    and "\<forall>u y. tasks s u = Some y \<longrightarrow> tframes s (t_context y) \<noteq> None"
  shows "\<exists>m<NR_CPUS. (\<forall>i<NR_CPUS. rq_payload (cpu_rq s ! i) \<le> rq_payload (cpu_rq s ! m)) \<and>
    (\<exists>s' n Q'. resched_abs (unat (cpu_number s)) m (sched_exhaust x) (current_task s) Q = (n, Q') \<and>
      sched s = Inr s' \<and> current_task s' = (if n = 0 then idle else n) \<and> rq_rep s' Q' \<and>
      queued Q' = insert (current_task s) (queued Q) - {n} \<and> (\<forall>c<NR_CPUS. distinct (fst (Q' c) @ snd (Q' c))))"
proof -
  let ?t = "current_task s" and ?c = "unat (cpu_number s)"
  have len: "length (cpu_rq s) = NR_CPUS" using assms(1) by (auto simp: rq_rep_def run_queues_def)
  obtain m where m: "minload_loop [0..<NR_CPUS] 0 s = Inr m" "m \<in> insert 0 (set [0..<NR_CPUS])"
      "\<forall>i\<in>insert 0 (set [0..<NR_CPUS]). rq_payload (cpu_rq s ! i) \<le> rq_payload (cpu_rq s ! m)"
    using minload_loop_spec [of "[0..<NR_CPUS]" s 0] len by auto
  have mx: "m < NR_CPUS" "\<forall>i<NR_CPUS. rq_payload (cpu_rq s ! i) \<le> rq_payload (cpu_rq s ! m)" using m(2,3) by auto
  obtain n Q' where r: "resched_abs ?c m (sched_exhaust x) ?t Q = (n, Q')" by force
  have kt: "tasks s ?t \<noteq> None" and r': "resched_abs ?c m (sched_exhaust (the (tasks s ?t))) ?t Q = (n, Q')"
    using assms(2) r by simp_all
  obtain s1 s2 s3 where q: "sched_enqueue m ?t s = Inr s1" "sched_pick ?c s1 = Inr (n, s2)"
      "if n = 0 then s3 = s2 else sched_dequeue n s2 = Inr s3" "rq_rep s3 Q'"
      "queued Q' = insert ?t (queued Q) - {n}" "n \<noteq> 0 \<longrightarrow> n \<in> insert ?t (queued Q)" "rq_frame s s3" "rq_frame s s1"
    using o1.reschedule [OF assms(1,4) mx(1) kt assms(3) r'] by blast
  have fr2: "rq_frame s s2 \<or> n \<noteq> 0" using q(3,7) by (auto split: if_splits)
  let ?n = "if n = 0 then idle else n"
  have kn: "tasks s ?n \<noteq> None"
  proof (cases "n = 0 \<or> n = ?t")
    case True
    then show ?thesis using assms(2,6) by auto
  next
    case False
    obtain L where L: "run_queues s L" "\<forall>c<NR_CPUS. Q c = queues_of s L c" using assms(1) by (auto simp: rq_rep_def)
    from False q(6) have "n \<in> queued Q" by blast
    then show ?thesis using queued_iff [OF L] False by auto
  qed
  obtain y where y: "tasks s3 ?n = Some y" using known_of_frame [OF q(7) kn] by blast
  obtain z where z: "tasks s3 (current_task s3) = Some z"
    using known_of_frame [OF q(7) kt] rq_frame_fields [OF q(7)] by auto
  obtain s' where s': "switch_task ?n s3 = Inr s'" "current_task s' = ?n" "rq_rep s' Q'"
    using switch_task_ok [OF z y] z y rq_frame_contexts [OF q(7) assms(7)] rq_rep_cong [of _ s3] q(4) by metis
  have "sched s = Inr s'"
    unfolding sched_def sched_enqueue_minload_def
    using m(1) q(1-3) s'(1) rq_frame_fields [OF q(8)] idle_of_frame [of s s2] fr2 assms(5) by (auto split: if_splits)
  moreover have "\<forall>c<NR_CPUS. distinct (fst (Q' c) @ snd (Q' c))" using o1.disjoint [OF q(4)] by blast
  ultimately show ?thesis using mx r s'(2,3) q(5) by blast
qed

text \<open>The idle task leaves the processor for the first process, which was waiting in the exhausted queue.\<close>

theorem sched_refines_queues_witness:
  "\<exists>s1 s2 s3. sched_init task_example = Inr s1 \<and> sched_enqueue 0 0x2000 s1 = Inr s2 \<and>
     sched s2 = Inr s3 \<and> current_task s3 = 0x2000"
proof -
  let ?Q = "enq_abs 0 True 0x2000 (\<lambda>_. ([], []))"
  obtain s1 s2 where s: "sched_init task_example = Inr s1" "sched_enqueue 0 0x2000 s1 = Inr s2" "rq_rep s2 ?Q" "rq_frame task_example s2"
    using example_queues by blast
  have cur: "current_task s2 = 0x1000" "cpu_number s2 = 0" using rq_frame_fields [OF s(4)] by auto
  have idle: "idleproc s2 = Inr 0x1000" using idle_of_frame [OF s(4)] by (simp add: idleproc_def)
  obtain r where r: "tasks s2 0x1000 = Some (idle_example\<lparr>t_se := (t_se idle_example)\<lparr>se_rq := r\<rparr>\<rparr>)"
    using rq_frame_task [OF s(4), of "0x1000"] by auto
  have ctx: "\<forall>u y. tasks s2 u = Some y \<longrightarrow> tframes s2 (t_context y) \<noteq> None"
  proof -
    have "\<forall>u y. tasks task_example u = Some y \<longrightarrow> tframes task_example (t_context y) \<noteq> None"
      by (simp add: idle_example_def init_example_def)
    then show ?thesis using rq_frame_contexts [OF s(4)] by blast
  qed
  have nq: "current_task s2 \<notin> queued ?Q" by (auto simp: cur queued_def enq_abs_def split: if_splits)
  have known: "tasks s2 (current_task s2) = Some (idle_example\<lparr>t_se := (t_se idle_example)\<lparr>se_rq := r\<rparr>\<rparr>)"
    "tasks s2 0x1000 \<noteq> None" "unat (cpu_number s2) < NR_CPUS" using r by (simp_all add: cur)
  obtain m s3 n Q' where "resched_abs (unat (cpu_number s2)) m (sched_exhaust (idle_example\<lparr>t_se := (t_se idle_example)\<lparr>se_rq := r\<rparr>\<rparr>)) (current_task s2) ?Q = (n, Q')"
    "sched s2 = Inr s3" "current_task s3 = (if n = 0 then 0x1000 else n)"
    using sched_refines_queues [OF s(3) known(1) nq known(3) idle known(2) ctx] by blast
  moreover have "sched_exhaust (idle_example\<lparr>t_se := (t_se idle_example)\<lparr>se_rq := r\<rparr>\<rparr>)"
    by (simp add: sched_exhaust_def idle_example_def zero_task_def)
  moreover have "fst (resched_abs 0 m True 0x1000 ?Q) = 0x2000"
    by (cases "m = 0") (simp_all add: resched_abs_def pick_abs_def enq_abs_def)
  ultimately have "current_task s3 = 0x2000" "sched s2 = Inr s3" by (simp_all add: cur)
  then show ?thesis using s(1,2) by blast
qed

text \<open>
  Property C37. \<^verbatim>\<open>sched_enqueue_minload\<close> puts the task on a processor with the largest
  payload: no run queue has more tasks than the one it chooses.
\<close>
theorem sched_enqueue_minload_max:
  assumes "length (cpu_rq s) = NR_CPUS"
  shows "\<exists>m. sched_enqueue_minload t s = sched_enqueue m t s \<and> m < NR_CPUS \<and>
    (\<forall>i<NR_CPUS. rq_payload (cpu_rq s ! i) \<le> rq_payload (cpu_rq s ! m))"
proof -
  obtain m where m: "minload_loop [0..<NR_CPUS] 0 s = Inr m" "m \<in> insert 0 (set [0..<NR_CPUS])"
      "\<forall>i\<in>insert 0 (set [0..<NR_CPUS]). rq_payload (cpu_rq s ! i) \<le> rq_payload (cpu_rq s ! m)"
    using minload_loop_spec [of "[0..<NR_CPUS]" s 0] assms by auto
  have "m < NR_CPUS" using m(2) by auto
  moreover have "\<forall>i<NR_CPUS. rq_payload (cpu_rq s ! i) \<le> rq_payload (cpu_rq s ! m)" using m(3) by simp
  ultimately show ?thesis using m(1) by (auto simp: sched_enqueue_minload_def)
qed

definition two_loads :: task_state where
  "two_loads = task_example\<lparr>cpu_rq :=
     [\<lparr>rq_cpu = 0, rq_run = 0, rq_exhaust = 1, rq_payload = 1\<rparr>, \<lparr>rq_cpu = 1, rq_run = 0, rq_exhaust = 1, rq_payload = 5\<rparr>,
      \<lparr>rq_cpu = 2, rq_run = 0, rq_exhaust = 1, rq_payload = 0\<rparr>, \<lparr>rq_cpu = 3, rq_run = 0, rq_exhaust = 1, rq_payload = 0\<rparr>]\<rparr>"

theorem sched_enqueue_minload_max_witness:
  "\<exists>m. sched_enqueue_minload 0x2000 two_loads = sched_enqueue m 0x2000 two_loads \<and> m < 4 \<and>
     5 \<le> rq_payload (cpu_rq two_loads ! m)"
proof -
  have "length (cpu_rq two_loads) = 4" "rq_payload (cpu_rq two_loads ! 1) = 5" by (simp_all add: two_loads_def)
  then show ?thesis using sched_enqueue_minload_max [of two_loads "0x2000"] by (metis one_less_numeral_iff semiring_norm(76))
qed

text \<open>
  Running never exhausts a task: a clock tick leaves it in the class it is in,
  since only the slice of a task with \<open>slice > priority\<close> grows (until the 32-bit counter
  wraps); a new task, with both 0, counts as exhausted for ever.
\<close>
theorem sched_tick_class:
  assumes "tasks s t = Some x" "se_slice (t_se x) \<noteq> - 1"
  shows "\<exists>s' y. sched_tick t s = Inr (0, s') \<and> tasks s' t = Some y \<and> sched_exhaust y = sched_exhaust x \<and>
    t_state y = t_state x OR TASK_YIELDING"
proof -
  have "\<not> sched_exhaust x \<Longrightarrow> se_priority (t_se x) < se_slice (t_se x) + 1"
  proof -
    assume "\<not> sched_exhaust x"
    then have lt: "se_priority (t_se x) < se_slice (t_se x)" by (simp add: sched_exhaust_def)
    have "unat (se_slice (t_se x)) \<noteq> 2 ^ 32 - 1"
    proof
      assume "unat (se_slice (t_se x)) = 2 ^ 32 - 1"
      then have "unat (se_slice (t_se x)) = unat (- 1 :: u32)" by (simp add: unsigned_minus_1_eq_mask mask_eq_exp_minus_1)
      then show False using assms(2) by (simp only: word_unat_eq_iff)
    qed
    then have "unat (se_slice (t_se x) + 1) = unat (se_slice (t_se x)) + 1"
      using unat_less_u32 [of "se_slice (t_se x)"] by (simp add: unat_word_ariths)
    then show ?thesis using lt by (simp add: word_less_nat_alt)
  qed
  then show ?thesis using assms(1)
    by (auto simp: sched_tick_def sched_exhaust_def not_less not_le)
qed

theorem sched_tick_class_witness:
  "\<exists>s' y. sched_tick 0x1000 task_example = Inr (0, s') \<and> tasks s' 0x1000 = Some y \<and> sched_exhaust y"
  using sched_tick_class [of task_example "0x1000" idle_example]
  by (auto simp: idle_example_def zero_task_def sched_exhaust_def)

text \<open>
  Property C28. The loop of \<^verbatim>\<open>handle_clock\<close> ends while the count register runs. Let
  \<open>counts\<close> be the values its reads give, each at least as far from the first as the one before and at most one
  period (\<^verbatim>\<open>0x10000000\<close>) from it. Then from any state of the compare register at most 17 rounds
  are made, compare has advanced by one period per round and is ahead of the last value read by at most one
  period, and the tick follows. (16 rounds bring compare round; one more is needed when count passes it meanwhile.)
\<close>
theorem handle_clock_compare:
  assumes "17 \<le> length counts" "sorted (map (\<lambda>c. unat (c - hd counts)) counts)"
    and "\<forall>c\<in>set counts. unat (c - hd counts) \<le> 2 ^ 28"
  shows "\<exists>k<17. let cmp = cp0_compare s + of_nat (Suc k) * 0x10000000 in
    cmp - counts ! k \<le> 0x10000000 \<and>
    handle_clock counts s = rbind (generic_cpu_tick (s\<lparr>cp0_compare := cmp\<rparr>)) (\<lambda>s. Inr (0, s))"
proof -
  have "2 ^ 32 \<le> unat (cp0_compare s - hd counts) + 16 * 2 ^ 28" by simp
  then obtain k where k: "k \<le> 16" "compare_loop counts (cp0_compare s) = Inr (cp0_compare s + of_nat (Suc k) * 0x10000000)"
    "cp0_compare s + of_nat (Suc k) * 0x10000000 - counts ! k \<le> 0x10000000"
    using compare_loop_reaches [OF _ _ assms(3,2)] assms(1) by fastforce
  then show ?thesis unfolding handle_clock_def Let_def k(2) rbind_Inr by (intro exI [of _ k]) simp
qed

text \<open>Compare two ahead of a count that moves by one per read: the loop makes the seventeenth round.\<close>

theorem handle_clock_compare_witness:
  "\<exists>k<17. let cmp = cp0_compare task_example + of_nat (Suc k) * 0x10000000 in
    cmp - map (\<lambda>i. 0xfffffffe + of_nat i) [0..<17] ! k \<le> 0x10000000 \<and>
    handle_clock (map (\<lambda>i. 0xfffffffe + of_nat i) [0..<17]) task_example =
      rbind (generic_cpu_tick (task_example\<lparr>cp0_compare := cmp\<rparr>)) (\<lambda>s. Inr (0, s))"
proof -
  let ?c = "map (\<lambda>i. 0xfffffffe + of_nat i) [0..<17] :: u32 list"
  have d: "map (\<lambda>c. unat (c - hd ?c)) ?c = [0..<17]"
  proof (rule nth_equalityI)
    fix i assume i: "i < length (map (\<lambda>c. unat (c - hd ?c)) ?c)"
    then have "unat (of_nat i :: u32) = i" by (intro unat_of_nat_u32) simp
    then show "map (\<lambda>c. unat (c - hd ?c)) ?c ! i = [0..<17] ! i" using i by (simp add: hd_map del: upt_rec_numeral)
  qed (simp del: upt_rec_numeral)
  have "\<forall>n\<in>set (map (\<lambda>c. unat (c - hd ?c)) ?c). n \<le> 2 ^ 28" unfolding d by simp
  then have "\<forall>c\<in>set ?c. unat (c - hd ?c) \<le> 2 ^ 28" by (simp del: upt_rec_numeral)
  moreover have "sorted (map (\<lambda>c. unat (c - hd ?c)) ?c)" unfolding d by (rule sorted_upt)
  ultimately show ?thesis by (intro handle_clock_compare) (simp_all del: upt_rec_numeral)
qed

lemma read_32bit_twice [simp]: "read_32bit_c0_register (read_32bit_c0_register v) = read_32bit_c0_register v"
proof -
  have "ucast (scast (ucast v :: u32) :: u64) = (ucast v :: u32)"
    by (rule bit_word_eqI) (auto simp: bit_simps)
  then show ?thesis by (simp add: read_32bit_c0_register_def)
qed

text \<open>
  Property C23. A context that is switched out comes back: when \<^verbatim>\<open>switch_context\<close> has saved
  the registers in \<open>old\<close> and loaded those of \<open>ctx\<close>, whatever runs then and leaves the saved context alone,
  a later switch from any other context \<open>cur\<close> to \<open>old\<close> gives back every general register, HI and LO,
  and the coprocessor registers as they were at the first call (the argument registers hold the first
  call's arguments, the 32-bit registers are sign-extended), and sets the kernel stack to the one it is given.
\<close>
theorem switch_context_roundtrip:
  assumes "tframes s old = Some g" "tframes s ctx = Some f" "ctx \<noteq> old"
    and "tframes t cur \<noteq> None" "cur \<noteq> old"
  shows "\<exists>s1. switch_context old ctx k1 s = Inr s1 \<and>
    (\<forall>r. 0 < r \<and> r < 32 \<longrightarrow> cpu_gpr s1 r = tf_gpr f r) \<and> cpu_lo s1 = tf_lo f \<and> cpu_hi s1 = tf_hi f \<and>
    cp0_epc s1 = tf_epc f \<and> cp0_entryhi s1 = tf_entryhi f \<and>
    (tframes t old = tframes s1 old \<longrightarrow> (\<exists>t'. switch_context cur old k2 t = Inr t' \<and>
      (\<forall>r. 0 < r \<and> r < 32 \<longrightarrow> cpu_gpr t' r = (if r = REG_A0 then old else if r = REG_A1 then ctx
         else if r = REG_A2 then k1 else cpu_gpr s r)) \<and>
      cpu_lo t' = cpu_lo s \<and> cpu_hi t' = cpu_hi s \<and>
      cp0_status t' = read_32bit_c0_register (cp0_status s) \<and> cp0_cause t' = read_32bit_c0_register (cp0_cause s) \<and>
      cp0_badvaddr t' = cp0_badvaddr s \<and> cp0_epc t' = cp0_epc s \<and> cp0_entryhi t' = cp0_entryhi s \<and>
      kernelsp t' = (kernelsp t)[unat (cpu_number t) := k2]))"
proof -
  let ?a = "switch_args old ctx k1 s"
  let ?s1 = "load_frame f (s\<lparr>tframes := (tframes s)(old \<mapsto> saved_frame ?a g), kernelsp := (kernelsp s)[unat (cpu_number s) := k1]\<rparr>)"
  have 1: "switch_context old ctx k1 s = Inr ?s1" using switch_context_ok [OF assms(1,2) refl, of k1] assms(3) by simp
  obtain h where h: "tframes t cur = Some h" using assms(4) by blast
  have ret: "switch_context cur old k2 t = Inr (load_frame (saved_frame ?a g)
      (t\<lparr>tframes := (tframes t)(cur \<mapsto> saved_frame (switch_args cur old k2 t) h), kernelsp := (kernelsp t)[unat (cpu_number t) := k2]\<rparr>))"
    if "tframes t old = tframes ?s1 old"
    using switch_context_ok [OF h _ refl, of old "saved_frame ?a g" k2] that assms(5) by simp
  show ?thesis
    by (rule exI [of _ ?s1], intro conjI impI, rule 1)
      (auto simp: load_frame_def ret saved_frame_def switch_args_def get_reg_def)
qed

theorem switch_context_roundtrip_witness:
  "\<exists>s1 t'. switch_context 0x9010 0xa000 1 task_example = Inr s1 \<and>
    switch_context 0xa000 0x9010 2 (s1\<lparr>cpu_gpr := (\<lambda>_. 7), cpu_lo := 8, cpu_hi := 9, cp0_epc := 10\<rparr>) = Inr t' \<and>
    cpu_gpr t' 16 = 0 \<and> cpu_gpr t' REG_A0 = 0x9010 \<and> cpu_lo t' = 0 \<and> cpu_hi t' = 0 \<and> cp0_epc t' = 0"
proof -
  obtain s1 where s1: "switch_context 0x9010 0xa000 1 task_example = Inr s1"
    using switch_context_ok [of task_example "0x9010" zero_frame "0xa000" zero_frame _ 1] by simp
  let ?t = "s1\<lparr>cpu_gpr := (\<lambda>_. 7), cpu_lo := 8, cpu_hi := 9, cp0_epc := 10\<rparr>"
  have fr: "tframes ?t 0xa000 \<noteq> None"
    using s1 switch_context_ok [of task_example "0x9010" zero_frame "0xa000" zero_frame _ 1] by auto
  have regs: "cpu_gpr task_example r = 0" "cpu_lo task_example = 0" "cpu_hi task_example = 0" "cp0_epc task_example = 0" for r
    by (simp_all add: task_example_def vm_with_def boot_mach_def boot_kmem_def
        vm_state.defs mach_state.defs kmem_state.defs kstate.defs)
  have "\<exists>s1'. switch_context 0x9010 0xa000 1 task_example = Inr s1' \<and> (tframes ?t 0x9010 = tframes s1' 0x9010 \<longrightarrow>
    (\<exists>t'. switch_context 0xa000 0x9010 2 ?t = Inr t' \<and> cpu_gpr t' 16 = 0 \<and> cpu_gpr t' REG_A0 = 0x9010 \<and>
      cpu_lo t' = 0 \<and> cpu_hi t' = 0 \<and> cp0_epc t' = 0))"
    using switch_context_roundtrip [OF _ _ _ fr, of task_example "0x9010" zero_frame "0xa000" zero_frame 1 2] regs by fastforce
  then show ?thesis using s1 by auto
qed

end
