(* ===== verification/Task_List.thy ===== *)
theory Task_List
  imports Sched_Props
begin

text \<open>
  The process list, the hash table of processes, the process tree and the thread lists
  (\<^verbatim>\<open>kern/sched/tasklist.c\<close>).
\<close>

section \<open>Hashing\<close>

text \<open>
  The product with the \<^verbatim>\<open>unsigned long\<close> constant is stored in an \<^verbatim>\<open>unsigned int\<close>, which
  is the product of 32-bit words.
\<close>

definition GOLDEN_RATIO_PRIME_32 :: u32 where "GOLDEN_RATIO_PRIME_32 = 0x9e370001"

definition hash32 :: "u32 \<Rightarrow> nat \<Rightarrow> u32" where
  "hash32 pid bits = drop_bit (32 - bits) (pid * GOLDEN_RATIO_PRIME_32)"

definition pid_hash :: "u32 \<Rightarrow> u32" where
  "pid_hash pid = hash32 pid HASH_LIST_ORDER"

section \<open>Operations\<close>

fun tasklist_init_loop :: "nat \<Rightarrow> nat \<Rightarrow> 's task_state_scheme \<Rightarrow> 's task_state_scheme" where
  "tasklist_init_loop 0 i s = s"
| "tasklist_init_loop (Suc n) i s =
     tasklist_init_loop n (Suc i) (s\<lparr>hash_links := list_init (HashHead i) (hash_links s)\<rparr>)"

definition tasklist_init :: "'s task_state_scheme \<Rightarrow> 's task_state_scheme" where
  "tasklist_init s =
     tasklist_init_loop HASH_LIST_SIZE 0 (s\<lparr>proc_links := list_init ProcHead (proc_links s)\<rparr>)"

definition next_sib_task :: "'s task_state_scheme \<Rightarrow> task_ptr \<Rightarrow> task_ptr" where
  "next_sib_task s t = list_next (sib_links s) t"

definition task_num_sibling :: "task_ptr \<Rightarrow> 's task_state_scheme \<Rightarrow> u32 result" where
  "task_num_sibling t s = (if t = 0 then Inr 0 else rbind (read_task s t) (\<lambda>x. Inr (t_num_sibling x)))"

text \<open>
  The loop over the siblings in \<^verbatim>\<open>add_process\<close>. Its bound \<^verbatim>\<open>fchild->num_sibling\<close> is read
  anew in every round, in which it may just have been increased; \<open>i\<close> is compared as an unsigned
  integer.
\<close>

fun count_siblings_loop :: "nat \<Rightarrow> u32 \<Rightarrow> task_ptr \<Rightarrow> task_ptr \<Rightarrow> 's task_state_scheme \<Rightarrow> 's task_state_scheme result" where
  "count_siblings_loop 0 i fchild t s = Inl Hang"
| "count_siblings_loop (Suc fuel) i fchild t s =
     rbind (read_task s fchild) (\<lambda>f.
     if i < t_num_sibling f then
       rbind (write_task t (\<lambda>x. x\<lparr>t_num_sibling := t_num_sibling x + 1\<rparr>) s) (\<lambda>s.
       count_siblings_loop fuel (i + 1) fchild (next_sib_task s t) s)
     else Inr s)"

definition add_child :: "nat \<Rightarrow> task_ptr \<Rightarrow> task_ptr \<Rightarrow> 's task_state_scheme \<Rightarrow> 's task_state_scheme result" where
  "add_child fuel proc parent s =
     rbind (read_task s parent) (\<lambda>p.
     let fchild = t_first_child p in
     if fchild = 0 then
       rbind (write_task parent (\<lambda>p. p\<lparr>t_first_child := proc\<rparr>) s) (\<lambda>s.
       write_task proc (\<lambda>x. x\<lparr>t_num_sibling := 1\<rparr>) s)
     else
       rbind (count_siblings_loop fuel 0 fchild fchild s) (\<lambda>s.
       let s = s\<lparr>sib_links := list_add_before fchild proc (sib_links s)\<rparr> in
       rbind (read_task s fchild) (\<lambda>f.
       write_task proc (\<lambda>x. x\<lparr>t_num_sibling := t_num_sibling f\<rparr>) s)))"

definition add_process :: "nat \<Rightarrow> task_ptr \<Rightarrow> task_ptr \<Rightarrow> 's task_state_scheme \<Rightarrow> 's task_state_scheme result" where
  "add_process fuel proc parent s =
     rbind (read_task s proc) (\<lambda>x.
     rbind (assert_that ''task_is_process(proc)'' (task_is_process x)) (\<lambda>_.
     rbind (read_task s parent) (\<lambda>p.
     rbind (assert_that ''task_is_process(parent)'' (task_is_process p)) (\<lambda>_.
     let hash = unat (pid_hash (t_pid x));
         s = s\<lparr>proc_links := list_add_before ProcHead (Proc proc) (proc_links s)\<rparr>;
         s = s\<lparr>hash_links := list_add_before (HashHead hash) (Hash proc) (hash_links s)\<rparr> in
     rbind (write_task proc (\<lambda>x. x\<lparr>t_parent := parent\<rparr>) s) (\<lambda>s.
     rbind (if parent \<noteq> proc then add_child fuel proc parent s else Inr s) (\<lambda>s.
     rbind (write_task parent (\<lambda>p. p\<lparr>t_num_child := t_num_child p + 1\<rparr>) s) (\<lambda>s.
     Inr (s\<lparr>nr_process := nr_process s + 1\<rparr>))))))))"

definition add_thread :: "task_ptr \<Rightarrow> task_ptr \<Rightarrow> 's task_state_scheme \<Rightarrow> 's task_state_scheme result" where
  "add_thread thread owner s =
     rbind (read_task s thread) (\<lambda>x.
     rbind (read_task s owner) (\<lambda>o'.
     rbind (assert_that ''thread->pid == owner->pid'' (t_pid x = t_pid o')) (\<lambda>_.
     rbind (assert_that ''task_is_process(owner)'' (task_is_process o')) (\<lambda>_.
     rbind (assert_that ''!task_is_process(thread)'' (\<not> task_is_process x)) (\<lambda>_.
     rbind (write_task thread (\<lambda>x. x\<lparr>t_thgroup_leader := owner\<rparr>) s) (\<lambda>s.
     let s = s\<lparr>thread_links := list_add_before owner thread (thread_links s)\<rparr> in
     rbind (write_task owner (\<lambda>x. x\<lparr>t_num_threads := t_num_threads x + 1\<rparr>) s) (\<lambda>s.
     Inr (s\<lparr>nr_thread := nr_thread s + 1\<rparr>))))))))"

text \<open>
  The loop over the siblings in \<^verbatim>\<open>remove_process\<close>; its bound \<^verbatim>\<open>proc->num_sibling\<close> is
  decreased by the first round.
\<close>

fun uncount_siblings_loop :: "nat \<Rightarrow> u32 \<Rightarrow> task_ptr \<Rightarrow> task_ptr \<Rightarrow> 's task_state_scheme \<Rightarrow> 's task_state_scheme result" where
  "uncount_siblings_loop 0 i proc t s = Inl Hang"
| "uncount_siblings_loop (Suc fuel) i proc t s =
     rbind (read_task s proc) (\<lambda>p.
     if i < t_num_sibling p then
       rbind (write_task t (\<lambda>x. x\<lparr>t_num_sibling := t_num_sibling x - 1\<rparr>) s) (\<lambda>s.
       uncount_siblings_loop fuel (i + 1) proc (next_sib_task s t) s)
     else Inr s)"

text \<open>The loops that hand the children over to \<^verbatim>\<open>init\<close>, with \<open>n\<close> rounds left.\<close>

fun adopt_loop :: "nat \<Rightarrow> task_ptr \<Rightarrow> u32 \<Rightarrow> 's task_state_scheme \<Rightarrow> (task_ptr \<times> 's task_state_scheme) result" where
  "adopt_loop 0 child nr s = Inr (child, s)"
| "adopt_loop (Suc n) child nr s =
     rbind (write_task child (\<lambda>x. x\<lparr>t_parent := initproc s, t_num_sibling := nr\<rparr>) s) (\<lambda>s.
     adopt_loop n (next_sib_task s child) nr s)"

fun renumber_loop :: "nat \<Rightarrow> task_ptr \<Rightarrow> u32 \<Rightarrow> 's task_state_scheme \<Rightarrow> (task_ptr \<times> 's task_state_scheme) result" where
  "renumber_loop 0 child nr s = Inr (child, s)"
| "renumber_loop (Suc n) child nr s =
     rbind (write_task child (\<lambda>x. x\<lparr>t_num_sibling := nr\<rparr>) s) (\<lambda>s.
     renumber_loop n (next_sib_task s child) nr s)"

definition adopt_children :: "task_ptr \<Rightarrow> 's task_state_scheme \<Rightarrow> 's task_state_scheme result" where
  "adopt_children proc s =
     rbind (read_task s proc) (\<lambda>x.
     rbind (read_task s (initproc s)) (\<lambda>ini.
     let child = t_first_child x; ichild = t_first_child ini in
     rbind (task_num_sibling child s) (\<lambda>nr_sibs.
     rbind (task_num_sibling ichild s) (\<lambda>nr_isibs.
     if child = 0 then Inr s
     else
       rbind (adopt_loop (unat nr_sibs) child (nr_sibs + nr_isibs) s) (\<lambda>(child, s).
       if ichild = 0 then write_task (initproc s) (\<lambda>x. x\<lparr>t_first_child := child\<rparr>) s
       else
         rbind (renumber_loop (unat nr_isibs) ichild (nr_sibs + nr_isibs) s) (\<lambda>(ichild, s).
         Inr (s\<lparr>sib_links := list_concat_headless child ichild (sib_links s)\<rparr>)))))))"

definition remove_child :: "nat \<Rightarrow> task_ptr \<Rightarrow> task_ptr \<Rightarrow> 's task_state_scheme \<Rightarrow> 's task_state_scheme result" where
  "remove_child fuel proc parent s =
     rbind (read_task s parent) (\<lambda>p.
     rbind (if t_first_child p = proc then
              write_task parent (t_first_child_update (\<lambda>_. if list_empty (sib_links s) proc then 0 else next_sib_task s proc)) s
            else Inr s) (\<lambda>s.
     rbind (write_task parent (\<lambda>p. p\<lparr>t_num_child := t_num_child p - 1\<rparr>) s) (\<lambda>s.
     rbind (uncount_siblings_loop fuel 0 proc proc s) (\<lambda>s.
     Inr (s\<lparr>sib_links := list_del_init proc (sib_links s)\<rparr>)))))"

definition remove_process :: "nat \<Rightarrow> task_ptr \<Rightarrow> 's task_state_scheme \<Rightarrow> 's task_state_scheme result" where
  "remove_process fuel proc s =
     rbind (read_task s proc) (\<lambda>x.
     rbind (assert_that ''task_is_process(proc)'' (task_is_process x)) (\<lambda>_.
     rbind (assert_that ''proc->pid != PID_IDLE && proc->pid != PID_INIT'' (t_pid x \<noteq> PID_IDLE \<and> t_pid x \<noteq> PID_INIT)) (\<lambda>_.
     let s = s\<lparr>proc_links := list_del_init (Proc proc) (proc_links s)\<rparr>;
         s = s\<lparr>hash_links := list_del_init (Hash proc) (hash_links s)\<rparr> in
     rbind (remove_child fuel proc (t_parent x) s) (\<lambda>s.
     rbind (adopt_children proc s) (\<lambda>s.
     Inr (s\<lparr>nr_process := nr_process s - 1\<rparr>))))))"

definition remove_thread :: "task_ptr \<Rightarrow> 's task_state_scheme \<Rightarrow> 's task_state_scheme result" where
  "remove_thread thread s =
     rbind (read_task s thread) (\<lambda>x.
     rbind (assert_that ''!task_is_mainthread(thread)'' (\<not> task_is_process x)) (\<lambda>_.
     rbind (write_task (t_thgroup_leader x) (\<lambda>o'. o'\<lparr>t_num_threads := t_num_threads o' - 1\<rparr>) s) (\<lambda>s.
     let s = s\<lparr>thread_links := list_del_init thread (thread_links s)\<rparr> in
     Inr (s\<lparr>nr_thread := nr_thread s - 1\<rparr>))))"

end
