(* ===== verification/Task_List_Props.thy ===== *)
theory Task_List_Props
  imports Task_List
begin

text \<open>
  The hash table agrees with the process list in every state the operations reach, and what the
  loops over the sibling counts do.
\<close>

section \<open>The process list and its hash table\<close>

definition in_bucket :: "'s task_state_scheme \<Rightarrow> nat \<Rightarrow> task_ptr \<Rightarrow> bool" where
  "in_bucket s b t \<longleftrightarrow> (case tasks s t of None \<Rightarrow> False | Some x \<Rightarrow> unat (pid_hash (t_pid x)) = b)"

text \<open>The processes \<open>ps\<close> are listed in this order, and every hash chain has those of its hash, in the same order.\<close>

definition proc_index :: "'s task_state_scheme \<Rightarrow> task_ptr list \<Rightarrow> bool" where
  "proc_index s ps \<longleftrightarrow>
     ring (proc_links s) (ProcHead # map Proc ps) \<and>
     (\<forall>b<HASH_LIST_SIZE. ring (hash_links s) (HashHead b # map Hash (filter (in_bucket s b) ps)))"

lemma pid_hash_less: "unat (pid_hash pid) < HASH_LIST_SIZE"
proof -
  have "unat (pid_hash pid) = unat (pid * GOLDEN_RATIO_PRIME_32) div 2 ^ 27"
    unfolding pid_hash_def hash32_def unat_drop_bit_eq by (simp add: drop_bit_eq_div)
  then show ?thesis using unat_less_u32 [of "pid * GOLDEN_RATIO_PRIME_32"] by simp
qed

lemma in_bucket_nr_process [simp]: "in_bucket (s\<lparr>nr_process := n\<rparr>) = in_bucket s"
  by (auto simp: in_bucket_def fun_eq_iff)

text \<open>What does not touch lists and process numbers keeps the index.\<close>

definition keeps_index :: "'s task_state_scheme \<Rightarrow> 's task_state_scheme \<Rightarrow> bool" where
  "keeps_index s s' \<longleftrightarrow> proc_links s' = proc_links s \<and> hash_links s' = hash_links s \<and>
     (\<forall>t. map_option t_pid (tasks s' t) = map_option t_pid (tasks s t)) \<and> nr_process s' = nr_process s"

lemma keeps_index_refl [simp]: "keeps_index s s"
  by (simp add: keeps_index_def)

lemma keeps_index_trans: "keeps_index s s' \<Longrightarrow> keeps_index s' s'' \<Longrightarrow> keeps_index s s''"
  by (simp add: keeps_index_def)

lemma keeps_index_bucket: "keeps_index s s' \<Longrightarrow> in_bucket s' b = in_bucket s b"
proof
  fix t assume "keeps_index s s'"
  then have "map_option t_pid (tasks s' t) = map_option t_pid (tasks s t)" by (simp add: keeps_index_def)
  then show "in_bucket s' b t = in_bucket s b t"
    by (cases "tasks s t"; cases "tasks s' t") (auto simp: in_bucket_def)
qed

lemma keeps_index_proc_index: "keeps_index s s' \<Longrightarrow> proc_index s' ps = proc_index s ps"
  using keeps_index_bucket [of s s'] by (simp add: proc_index_def keeps_index_def)

lemma write_task_index:
  "write_task t f s = Inr s' \<Longrightarrow> (\<And>x. t_pid (f x) = t_pid x) \<Longrightarrow> keeps_index s s'"
  by (auto simp: write_task_def rbind_eq_Inr read_task_def keeps_index_def split: option.splits)

lemma sib_links_index [simp]: "keeps_index s (s\<lparr>sib_links := h\<rparr>)" "keeps_index (s\<lparr>sib_links := h\<rparr>) s' = keeps_index s s'"
  "keeps_index s (s'\<lparr>sib_links := h\<rparr>) = keeps_index s s'"
  by (simp_all add: keeps_index_def)

lemma count_siblings_index:
  "count_siblings_loop fuel i f t s = Inr s' \<Longrightarrow> keeps_index s s'"
proof (induction fuel arbitrary: i t s)
  case (Suc fuel)
  then show ?case
    by (auto simp: rbind_eq_Inr split: if_splits intro: keeps_index_trans [OF write_task_index])
qed simp

lemma uncount_siblings_index:
  "uncount_siblings_loop fuel i f t s = Inr s' \<Longrightarrow> keeps_index s s'"
proof (induction fuel arbitrary: i t s)
  case (Suc fuel)
  then show ?case
    by (auto simp: rbind_eq_Inr split: if_splits intro: keeps_index_trans [OF write_task_index])
qed simp

lemma adopt_loop_index: "adopt_loop n c nr s = Inr (c', s') \<Longrightarrow> keeps_index s s'"
proof (induction n arbitrary: c s)
  case (Suc n)
  then show ?case by (auto simp: rbind_eq_Inr intro: keeps_index_trans [OF write_task_index])
qed simp

lemma renumber_loop_index: "renumber_loop n c nr s = Inr (c', s') \<Longrightarrow> keeps_index s s'"
proof (induction n arbitrary: c s)
  case (Suc n)
  then show ?case by (auto simp: rbind_eq_Inr intro: keeps_index_trans [OF write_task_index])
qed simp

lemma add_child_index: "add_child fuel proc parent s = Inr s' \<Longrightarrow> keeps_index s s'"
  unfolding add_child_def Let_def
  by (elim rbindE, split if_split_asm; elim rbindE)
     (auto dest!: write_task_index [of _ _ _ s'] write_task_index [of parent] count_siblings_index intro: keeps_index_trans)

lemma write_first_child_index:
  "write_task t (t_first_child_update (\<lambda>_. c)) s = Inr s' \<Longrightarrow> keeps_index s s'"
  by (erule write_task_index) simp

lemma adopt_children_index: "adopt_children proc s = Inr s' \<Longrightarrow> keeps_index s s'"
  unfolding adopt_children_def Let_def
  by (auto elim!: rbindE split: if_splits dest!: adopt_loop_index renumber_loop_index
      write_first_child_index) (blast intro: keeps_index_trans)+

section \<open>The operations keep the index\<close>

lemma hash_ring_add:
  assumes "ring h (HashHead b # map Hash xs)" "t \<notin> set xs"
    and "\<And>c. c \<noteq> b \<Longrightarrow> c < n \<Longrightarrow> ring h (HashHead c # map Hash (ys c))"
    and "\<And>c. c \<noteq> b \<Longrightarrow> c < n \<Longrightarrow> set (ys c) \<inter> set (t # xs) = {}"
  shows "ring (list_add_before (HashHead b) (Hash t) h) (HashHead b # map Hash (xs @ [t]))"
    and "\<And>c. c \<noteq> b \<Longrightarrow> c < n \<Longrightarrow> ring (list_add_before (HashHead b) (Hash t) h) (HashHead c # map Hash (ys c))"
proof -
  show "ring (list_add_before (HashHead b) (Hash t) h) (HashHead b # map Hash (xs @ [t]))"
    using ll.rep_add_before [OF assms(1), of "Hash t"] assms(2) by auto
  fix c assume c: "c \<noteq> b" "c < n"
  show "ring (list_add_before (HashHead b) (Hash t) h) (HashHead c # map Hash (ys c))"
  proof (rule ll.rep_same [OF _ assms(3) [OF c]])
    show "same_links (set (HashHead c # map Hash (ys c))) h (list_add_before (HashHead b) (Hash t) h)"
      using ll.same_add_before [OF assms(1), of "set (HashHead c # map Hash (ys c))" "Hash t"] assms(4) [OF c] c(1) by auto
  qed
qed

lemma add_links_index:
  assumes I: "proc_index s ps" and new: "t \<notin> set ps" and x: "tasks s t = Some x"
  shows "proc_index (s\<lparr>proc_links := list_add_before ProcHead (Proc t) (proc_links s),
    hash_links := list_add_before (HashHead (unat (pid_hash (t_pid x)))) (Hash t) (hash_links s)\<rparr>) (ps @ [t])"
proof -
  let ?b = "unat (pid_hash (t_pid x))"
  let ?h = "list_add_before (HashHead ?b) (Hash t) (hash_links s)"
  let ?s = "s\<lparr>proc_links := list_add_before ProcHead (Proc t) (proc_links s), hash_links := ?h\<rparr>"
  have "ring (proc_links ?s) (ProcHead # map Proc (ps @ [t]))"
    using ll.rep_add_before [of "proc_links s" ProcHead "map Proc ps" "Proc t"] I new by (auto simp: proc_index_def)
  moreover have bucket: "in_bucket ?s c = in_bucket s c" for c by (auto simp: in_bucket_def fun_eq_iff)
  moreover have rings: "ring (hash_links s) (HashHead c # map Hash (filter (in_bucket s c) ps))" if "c < HASH_LIST_SIZE" for c
    using I that by (simp add: proc_index_def)
  have "ring ?h (HashHead c # map Hash (filter (in_bucket s c) (ps @ [t])))" if c: "c < HASH_LIST_SIZE" for c
  proof -
    have dis: "set (filter (in_bucket s d) ps) \<inter> set (t # filter (in_bucket s ?b) ps) = {}" if "d \<noteq> ?b" for d
      using that new by (auto simp: in_bucket_def split: option.splits)
    have tb: "in_bucket s c t \<longleftrightarrow> c = ?b" using x by (auto simp: in_bucket_def)
    note add = hash_ring_add [OF rings [OF pid_hash_less], where t = t and n = HASH_LIST_SIZE and
        ys = "\<lambda>d. filter (in_bucket s d) ps", OF _ rings dis]
    show ?thesis using add new c tb by (cases "c = ?b") auto
  qed
  ultimately show ?thesis by (simp add: proc_index_def bucket)
qed

lemma del_links_index:
  assumes I: "proc_index s ps" and t: "t \<in> set ps" and x: "tasks s t = Some x"
  shows "proc_index (s\<lparr>proc_links := list_del_init (Proc t) (proc_links s),
    hash_links := list_del_init (Hash t) (hash_links s)\<rparr>) (remove1 t ps)"
proof -
  let ?b = "unat (pid_hash (t_pid x))"
  let ?s = "s\<lparr>proc_links := list_del_init (Proc t) (proc_links s), hash_links := list_del_init (Hash t) (hash_links s)\<rparr>"
  obtain us vs where uv: "ps = us @ t # vs" "t \<notin> set us" using split_list_first [OF t] by blast
  have "distinct ps" using I ring_distinct by (fastforce simp: proc_index_def distinct_map)
  then have vs: "t \<notin> set vs" using uv by auto
  have rem: "remove1 t ps = us @ vs" using uv by (simp add: remove1_append)
  have tb: "in_bucket s c t \<longleftrightarrow> c = ?b" for c using x by (auto simp: in_bucket_def)
  have "ring (proc_links ?s) (ProcHead # map Proc (us @ vs))"
    using ll.delete_middle [of "proc_links s" "ProcHead # map Proc us" "Proc t" "map Proc vs"] I uv by (simp add: proc_index_def)
  moreover have "ring (hash_links ?s) (HashHead c # map Hash (filter (in_bucket s c) (us @ vs)))" if c: "c < HASH_LIST_SIZE" for c
  proof -
    have rc: "ring (hash_links s) (HashHead c # map Hash (filter (in_bucket s c) ps))" using I c by (simp add: proc_index_def)
    have rb: "ring (hash_links s) ((HashHead ?b # map Hash (filter (in_bucket s ?b) us)) @ Hash t # map Hash (filter (in_bucket s ?b) vs))"
    proof -
      have "ring (hash_links s) (HashHead ?b # map Hash (filter (in_bucket s ?b) ps))"
        using I pid_hash_less [of "t_pid x"] unfolding proc_index_def by blast
      then show ?thesis using uv tb [of ?b] by simp
    qed
    show ?thesis
    proof (cases "c = ?b")
      case True
      then show ?thesis using ll.delete_middle [OF rb] by simp
    next
      case False
      have dis: "\<not> (in_bucket s c u \<and> in_bucket s ?b u)" for u using False by (auto simp: in_bucket_def split: option.splits)
      have "same_links (set (HashHead c # map Hash (filter (in_bucket s c) ps))) (hash_links s)
        (list_del_init (Hash t) (hash_links s))"
        by (rule ll.delete_middle_same [OF rb]) (use False dis tb in auto)
      from ll.rep_same [OF this rc] show ?thesis using uv tb [of c] False by simp
    qed
  qed
  moreover have "in_bucket ?s c = in_bucket s c" for c by (auto simp: in_bucket_def fun_eq_iff)
  ultimately show ?thesis by (simp add: proc_index_def rem)
qed

lemma add_process_index:
  assumes "add_process fuel proc parent s = Inr s'" "proc_index s ps" "proc \<notin> set ps"
  shows "proc_index s' (ps @ [proc]) \<and> nr_process s' = nr_process s + 1"
proof -
  obtain x where x: "tasks s proc = Some x"
    using assms(1) by (auto simp: add_process_def read_task_def split: option.splits)
  let ?s = "s\<lparr>proc_links := list_add_before ProcHead (Proc proc) (proc_links s),
    hash_links := list_add_before (HashHead (unat (pid_hash (t_pid x)))) (Hash proc) (hash_links s)\<rparr>"
  obtain s1 s2 s3 where
    s1: "write_task proc (\<lambda>x. x\<lparr>t_parent := parent\<rparr>) ?s = Inr s1"
    and s2: "(if parent \<noteq> proc then add_child fuel proc parent s1 else Inr s1) = Inr s2"
    and s3: "write_task parent (\<lambda>p. p\<lparr>t_num_child := t_num_child p + 1\<rparr>) s2 = Inr s3"
    and s': "s' = s3\<lparr>nr_process := nr_process s3 + 1\<rparr>"
    using assms(1) x unfolding add_process_def Let_def by (auto elim!: rbindE)
  have "keeps_index ?s s1" using write_task_index [OF s1] by simp
  moreover have "keeps_index s1 s2" using s2 by (auto split: if_splits dest: add_child_index)
  moreover have "keeps_index s2 s3" using write_task_index [OF s3] by simp
  ultimately have k: "keeps_index ?s s3" by (blast intro: keeps_index_trans)
  then have "proc_index s3 (ps @ [proc])"
    using keeps_index_proc_index [OF k] add_links_index [OF assms(2,3) x] by simp
  moreover have "proc_index s' qs = proc_index s3 qs" for qs
    using s' by (simp add: proc_index_def)
  moreover have "nr_process s3 = nr_process s" using k by (simp add: keeps_index_def)
  ultimately show ?thesis using s' by simp
qed

lemma remove_child_index: "remove_child fuel proc parent s = Inr s' \<Longrightarrow> keeps_index s s'"
  unfolding remove_child_def
  by (elim rbindE, split if_split_asm)
     (auto dest!: write_first_child_index write_task_index [of parent] uncount_siblings_index intro: keeps_index_trans)

lemma remove_process_index:
  assumes "remove_process fuel proc s = Inr s'" "proc_index s ps" "proc \<in> set ps"
  shows "proc_index s' (remove1 proc ps) \<and> nr_process s' = nr_process s - 1"
proof -
  obtain x where x: "tasks s proc = Some x"
    using assms(1) by (auto simp: remove_process_def read_task_def split: option.splits)
  let ?s = "s\<lparr>proc_links := list_del_init (Proc proc) (proc_links s), hash_links := list_del_init (Hash proc) (hash_links s)\<rparr>"
  obtain s1 s2 where s1: "remove_child fuel proc (t_parent x) ?s = Inr s1" and s2: "adopt_children proc s1 = Inr s2"
    and s': "s' = s2\<lparr>nr_process := nr_process s2 - 1\<rparr>"
    using assms(1) x unfolding remove_process_def Let_def by (auto elim!: rbindE)
  have k: "keeps_index ?s s2"
    using remove_child_index [OF s1] adopt_children_index [OF s2] by (rule keeps_index_trans)
  then have "proc_index s2 (remove1 proc ps)"
    using keeps_index_proc_index [OF k] del_links_index [OF assms(2,3) x] by simp
  moreover have "proc_index s' qs = proc_index s2 qs" for qs
    using s' by (simp add: proc_index_def)
  moreover have "nr_process s2 = nr_process s" using k by (simp add: keeps_index_def)
  ultimately show ?thesis using s' by simp
qed

lemma tasklist_init_loop_rings:
  "\<forall>b<i. ring (hash_links s) [HashHead b] \<Longrightarrow>
   proc_links (tasklist_init_loop n i s) = proc_links s \<and> tasks (tasklist_init_loop n i s) = tasks s \<and>
   (\<forall>b<i + n. ring (hash_links (tasklist_init_loop n i s)) [HashHead b])"
proof (induction n arbitrary: i s)
  case (Suc n)
  let ?s = "s\<lparr>hash_links := list_init (HashHead i) (hash_links s)\<rparr>"
  have "\<forall>b<Suc i. ring (hash_links ?s) [HashHead b]"
    using Suc.prems by (auto simp: less_Suc_eq ring_single list_init_def)
  from Suc.IH [OF this] show ?case by simp
qed simp

lemma tasklist_init_index: "proc_index (tasklist_init s) []"
  using tasklist_init_loop_rings [of 0 "s\<lparr>proc_links := list_init ProcHead (proc_links s)\<rparr>" 32]
  by (simp add: proc_index_def tasklist_init_def list_init_ring)

section \<open>Reachable process tables\<close>

text \<open>
  The process table changes by the two operations; other code keeps lists and process numbers.
  \<open>ps\<close> are the processes added and not removed.
\<close>

inductive table_reach :: "'s task_state_scheme \<Rightarrow> task_ptr list \<Rightarrow> bool" where
  init: "nr_process s = 0 \<Longrightarrow> table_reach (tasklist_init s) []"
| add: "table_reach s ps \<Longrightarrow> proc \<notin> set ps \<Longrightarrow> add_process fuel proc parent s = Inr s' \<Longrightarrow> table_reach s' (ps @ [proc])"
| remove: "table_reach s ps \<Longrightarrow> proc \<in> set ps \<Longrightarrow> remove_process fuel proc s = Inr s' \<Longrightarrow> table_reach s' (remove1 proc ps)"
| other: "table_reach s ps \<Longrightarrow> keeps_index s s' \<Longrightarrow> table_reach s' ps"

lemma tasklist_init_loop_nr [simp]: "nr_process (tasklist_init_loop n i s) = nr_process s"
  by (induction n arbitrary: i s) simp_all

lemma tasklist_init_nr [simp]: "nr_process (tasklist_init s) = nr_process s"
  by (simp add: tasklist_init_def)

lemma of_nat_remove1:
  "proc \<in> set ps \<Longrightarrow> of_nat (length (remove1 proc ps)) = (of_nat (length ps) - 1 :: u64)"
  by (cases "length ps") (auto simp: length_remove1)

lemma table_reach_index: "table_reach s ps \<Longrightarrow> proc_index s ps \<and> nr_process s = of_nat (length ps)"
proof (induction rule: table_reach.induct)
  case (init s)
  then show ?case by (simp add: tasklist_init_index)
next
  case (add s ps proc fuel parent s')
  then show ?case using add_process_index [OF add.hyps(3) conjunct1 [OF add.IH] add.hyps(2)] by simp
next
  case (remove s ps proc fuel s')
  then show ?case
    using remove_process_index [OF remove.hyps(3) conjunct1 [OF remove.IH] remove.hyps(2)] of_nat_remove1 [OF remove.hyps(2)] by simp
next
  case (other s ps s')
  then show ?case using keeps_index_proc_index [of s s'] by (auto simp: keeps_index_def)
qed

lemma proc_index_distinct: "proc_index s ps \<Longrightarrow> distinct ps"
  using ring_distinct by (fastforce simp: proc_index_def distinct_map)

text \<open>Setting up the table, and an idle process that is its own parent.\<close>

lemma add_own_parent:
  assumes "tasks s t = Some x" "task_is_process x"
  shows "\<exists>s'. add_process fuel t t s = Inr s' \<and> sib_links s' = sib_links s \<and>
    tasks s' = (tasks s)(t \<mapsto> x\<lparr>t_parent := t, t_num_child := t_num_child x + 1\<rparr>) \<and> initproc s' = initproc s"
  using assms by (simp add: add_process_def assert_that_def)

lemma tasklist_init_loop_frame [simp]:
  "tasks (tasklist_init_loop n i s) = tasks s" "sib_links (tasklist_init_loop n i s) = sib_links s"
  "thread_links (tasklist_init_loop n i s) = thread_links s" "initproc (tasklist_init_loop n i s) = initproc s"
  by (induction n arbitrary: i s) simp_all

lemma tasklist_init_frame [simp]:
  "tasks (tasklist_init s) = tasks s" "sib_links (tasklist_init s) = sib_links s"
  "thread_links (tasklist_init s) = thread_links s" "initproc (tasklist_init s) = initproc s"
  by (simp_all add: tasklist_init_def)

text \<open>
  Property C7. Whatever sequence of \<^verbatim>\<open>add_process\<close> and \<^verbatim>\<open>remove_process\<close> calls led
  to a state, the process list holds exactly the processes added and not removed, in the order in
  which they were added, each of the 32 hash chains holds those of them whose process number
  hashes to it, no process is listed twice, and \<^verbatim>\<open>nr_process\<close> is their number.
\<close>
theorem process_table_agrees:
  assumes "table_reach s ps"
  shows "proc_index s ps \<and> distinct ps \<and> nr_process s = of_nat (length ps)"
  using table_reach_index [OF assms] proc_index_distinct by blast

theorem process_table_agrees_witness:
  "\<exists>s. add_process 1 0x1000 0x1000 (tasklist_init (task_example\<lparr>nr_process := 0\<rparr>)) = Inr s \<and>
     proc_index s [0x1000] \<and> nr_process s = 1"
proof -
  let ?s = "tasklist_init (task_example\<lparr>nr_process := 0\<rparr>)"
  have "tasks ?s 0x1000 = Some idle_example" "task_is_process idle_example"
    by (simp_all add: idle_example_def zero_task_def task_is_process_def)
  from add_own_parent [OF this, of 1] obtain s where s: "add_process 1 0x1000 0x1000 ?s = Inr s" by blast
  have "table_reach ?s []" by (rule table_reach.init) simp
  from table_reach.add [OF this _ s] have "table_reach s [0x1000]" by simp
  from process_table_agrees [OF this] s show ?thesis by auto
qed

section \<open>The process tree\<close>

lemma count_siblings_lone:
  assumes "tasks s f = Some x" "t_num_sibling x = i + 1" "list_next (sib_links s) f = f" "unat i + fuel < 2 ^ 32"
  shows "count_siblings_loop fuel i f f s = Inl Hang"
  using assms
proof (induction fuel arbitrary: i s x)
  case (Suc fuel)
  have lt: "unat i < 2 ^ 32 - 1" using Suc.prems(4) by simp
  then have ui: "unat (i + 1) = unat i + 1" by (simp add: unat_word_ariths)
  then have "i < t_num_sibling x" using Suc.prems(2) by (simp add: word_less_nat_alt)
  moreover have "count_siblings_loop fuel (i + 1) f f (s\<lparr>tasks := (tasks s)(f \<mapsto> x\<lparr>t_num_sibling := t_num_sibling x + 1\<rparr>)\<rparr>) = Inl Hang"
    by (rule Suc.IH) (use Suc.prems ui in auto)
  ultimately show ?case using Suc.prems(1,3) by (simp add: next_sib_task_def)
qed simp

text \<open>
  Property C34. The second child of a process cannot be added: the loop of \<^verbatim>\<open>add_process\<close>
  that increments the sibling counts is bounded by the count of the first child, which the loop
  itself increments. With one child, that is the only one in its ring and has the count 1, it has
  not ended after any number of rounds below \<open>2\<^sup>3\<^sup>1\<close>, where the counter \<^verbatim>\<open>int i\<close>
  overflows.
\<close>
theorem add_process_second_child_spins:
  assumes "tasks s proc = Some x" "tasks s parent = Some p" "task_is_process x" "task_is_process p"
    and "parent \<noteq> proc" "t_first_child p = c" "c \<noteq> 0" "c \<noteq> proc"
    and "tasks s c = Some y" "t_num_sibling y = 1" "list_next (sib_links s) c = c" "fuel \<le> 2 ^ 31"
  shows "add_process fuel proc parent s = Inl Hang"
proof -
  let ?s = "s\<lparr>proc_links := list_add_before ProcHead (Proc proc) (proc_links s),
    hash_links := list_add_before (HashHead (unat (pid_hash (t_pid x)))) (Hash proc) (hash_links s),
    tasks := (tasks s)(proc \<mapsto> x\<lparr>t_parent := parent\<rparr>)\<rparr>"
  have "count_siblings_loop fuel 0 c c ?s = Inl Hang"
    by (rule count_siblings_lone [of _ _ y]) (use assms in simp_all)
  then show ?thesis using assms by (simp add: add_process_def add_child_def assert_that_def)
qed

definition family :: "task_state" where
  "family = task_example\<lparr>tasks := [0x1000 \<mapsto> idle_example\<lparr>t_first_child := 0x2000, t_num_child := 1\<rparr>,
     0x2000 \<mapsto> init_example\<lparr>t_parent := 0x1000, t_num_sibling := 1\<rparr>,
     0x3000 \<mapsto> zero_task\<lparr>t_pid := 2\<rparr>]\<rparr>"

lemma family_links [simp]:
  "sib_links family = \<lparr>node_prev = (\<lambda>x. x), node_next = (\<lambda>x. x)\<rparr>"
  "thread_links family = \<lparr>node_prev = (\<lambda>x. x), node_next = (\<lambda>x. x)\<rparr>"
  "proc_links family = \<lparr>node_prev = (\<lambda>x. x), node_next = (\<lambda>x. x)\<rparr>"
  "hash_links family = \<lparr>node_prev = (\<lambda>x. x), node_next = (\<lambda>x. x)\<rparr>"
  by (simp_all add: family_def task_example_def vm_with_def boot_mach_def boot_kmem_def
      task_state.defs vm_state.defs mach_state.defs kmem_state.defs kstate.defs)

lemma family_tasks [simp]:
  "tasks family 0x1000 = Some (idle_example\<lparr>t_first_child := 0x2000, t_num_child := 1\<rparr>)"
  "tasks family 0x2000 = Some (init_example\<lparr>t_parent := 0x1000, t_num_sibling := 1\<rparr>)"
  "tasks family 0x3000 = Some (zero_task\<lparr>t_pid := 2\<rparr>)" "initproc family = 0x2000"
  by (simp_all add: family_def)

lemmas example_tasks = idle_example_def init_example_def zero_task_def task_is_process_def

theorem add_process_second_child_spins_witness:
  "add_process 1000 0x3000 0x1000 family = Inl Hang"
  by (rule add_process_second_child_spins [where c = "0x2000", OF family_tasks(3,1) _ _ _ _ _ _ family_tasks(2)])
     (simp_all add: example_tasks list_next_def)

lemma adopt_children_none:
  assumes "tasks s proc = Some x" "t_first_child x = 0" "tasks s (initproc s) = Some ini"
    and "t_first_child ini = 0 \<or> tasks s (t_first_child ini) \<noteq> None"
  shows "adopt_children proc s = Inr s"
  using assms by (auto simp: adopt_children_def task_num_sibling_def Let_def)

lemma remove_child_two:
  assumes "tasks s proc = Some x" "tasks s parent = Some p" "parent \<noteq> proc"
    and "ring (sib_links s) [proc, q]" "q \<noteq> proc" "t_num_sibling x = 2" "2 \<le> fuel"
  shows "remove_child fuel proc parent s =
    Inr (s\<lparr>tasks := (tasks s)
       (parent \<mapsto> p\<lparr>t_first_child := if t_first_child p = proc then q else t_first_child p, t_num_child := t_num_child p - 1\<rparr>,
        proc \<mapsto> x\<lparr>t_num_sibling := 1\<rparr>), sib_links := list_del_init proc (sib_links s)\<rparr>)"
proof -
  obtain n where n: "fuel = Suc (Suc n)" using assms(7) by (metis add_2_eq_Suc le_Suc_ex)
  have "list_next (sib_links s) proc = q" "\<not> list_empty (sib_links s) proc"
    using assms(4,5) by (auto simp: ring_def list_next_def list_empty_def)
  then show ?thesis
    using assms(1-3,6) by (simp add: remove_child_def n next_sib_task_def fun_upd_twist)
qed

text \<open>
  \<^verbatim>\<open>remove_process\<close> stops its loop over the sibling counts one process too
  early, because the count that bounds the loop is decremented in the first round: when one of two
  children is removed, the other keeps the count 2.
\<close>
theorem remove_process_stale_count:
  assumes "tasks s proc = Some x" "task_is_process x" "t_pid x \<noteq> PID_IDLE" "t_pid x \<noteq> PID_INIT"
    and "t_first_child x = 0" "tasks s (t_parent x) = Some p" "t_parent x \<noteq> proc" "q \<noteq> proc" "q \<noteq> t_parent x"
    and "ring (sib_links s) [proc, q]" "t_num_sibling x = 2" "tasks s q = Some y" "t_num_sibling y = 2"
    and "tasks s (initproc s) = Some ini" "t_first_child ini = 0 \<or> tasks s (t_first_child ini) \<noteq> None" "2 \<le> fuel"
  shows "\<exists>s'. remove_process fuel proc s = Inr s' \<and> ring (sib_links s') [q] \<and> tasks s' q = Some y"
proof -
  let ?s = "s\<lparr>proc_links := list_del_init (Proc proc) (proc_links s), hash_links := list_del_init (Hash proc) (hash_links s)\<rparr>"
  let ?p = "p\<lparr>t_first_child := if t_first_child p = proc then q else t_first_child p, t_num_child := t_num_child p - 1\<rparr>"
  let ?s1 = "?s\<lparr>tasks := (tasks s)(t_parent x \<mapsto> ?p, proc \<mapsto> x\<lparr>t_num_sibling := 1\<rparr>), sib_links := list_del_init proc (sib_links s)\<rparr>"
  have 1: "remove_child fuel proc (t_parent x) ?s = Inr ?s1"
    using remove_child_two [of ?s proc x "t_parent x" p q fuel] assms by simp
  have "\<exists>ini'. tasks ?s1 (initproc ?s1) = Some ini' \<and> (t_first_child ini' = 0 \<or> tasks ?s1 (t_first_child ini') \<noteq> None)"
    using assms by auto
  then have 2: "adopt_children proc ?s1 = Inr ?s1"
    using adopt_children_none [of ?s1 proc "x\<lparr>t_num_sibling := 1\<rparr>"] assms(5) by auto
  have "ring (sib_links ?s1) [q]" using ll.delete_middle [of "sib_links s" "[]" proc "[q]"] assms(10) by simp
  then show ?thesis using assms(1-4,8,9,12) 1 2 by (simp add: remove_process_def assert_that_def)
qed

definition siblings :: "task_state" where
  "siblings = task_example\<lparr>tasks := [0x1000 \<mapsto> idle_example\<lparr>t_first_child := 0x2000, t_num_child := 2\<rparr>,
     0x2000 \<mapsto> init_example\<lparr>t_parent := 0x1000, t_num_sibling := 2\<rparr>,
     0x3000 \<mapsto> zero_task\<lparr>t_pid := 2, t_parent := 0x1000, t_num_sibling := 2\<rparr>],
     sib_links := list_add_before 0x2000 0x3000 \<lparr>node_prev = (\<lambda>x. x), node_next = (\<lambda>x. x)\<rparr>\<rparr>"

lemma siblings_tasks [simp]:
  "tasks siblings 0x1000 = Some (idle_example\<lparr>t_first_child := 0x2000, t_num_child := 2\<rparr>)"
  "tasks siblings 0x2000 = Some (init_example\<lparr>t_parent := 0x1000, t_num_sibling := 2\<rparr>)"
  "tasks siblings 0x3000 = Some (zero_task\<lparr>t_pid := 2, t_parent := 0x1000, t_num_sibling := 2\<rparr>)"
  "initproc siblings = 0x2000"
  by (simp_all add: siblings_def)

lemma siblings_init: "tasks siblings (initproc siblings) = Some (init_example\<lparr>t_parent := 0x1000, t_num_sibling := 2\<rparr>)"
  by simp

lemma siblings_ring: "ring (sib_links siblings) [0x3000, 0x2000]"
  by (simp add: siblings_def ring_Cons_Cons list_op_defs Let_def)

theorem remove_process_stale_count_witness:
  "\<exists>s'. remove_process 2 0x3000 siblings = Inr s' \<and> ring (sib_links s') [0x2000] \<and>
     tasks s' 0x2000 = Some (init_example\<lparr>t_parent := 0x1000, t_num_sibling := 2\<rparr>)"
  by (rule remove_process_stale_count [OF siblings_tasks(3) _ _ _ _ _ _ _ _ siblings_ring _ siblings_tasks(2) _ siblings_init])
     (simp_all add: example_tasks)

lemma add_only_child:
  assumes "tasks s proc = Some x" "task_is_process x" "tasks s parent = Some p" "task_is_process p" "parent \<noteq> proc"
    and "t_first_child p = 0"
  shows "\<exists>s1. add_process fuel proc parent s = Inr s1 \<and> sib_links s1 = sib_links s \<and> initproc s1 = initproc s \<and>
    tasks s1 = (tasks s)(proc \<mapsto> x\<lparr>t_parent := parent, t_num_sibling := 1\<rparr>,
      parent \<mapsto> p\<lparr>t_first_child := proc, t_num_child := t_num_child p + 1\<rparr>)"
  using assms by (simp add: add_process_def add_child_def assert_that_def fun_upd_twist)

lemma remove_child_only:
  assumes "tasks s proc = Some x" "tasks s parent = Some p" "parent \<noteq> proc" "t_first_child p = proc"
    and "ring (sib_links s) [proc]" "t_num_sibling x = 1" "2 \<le> fuel"
  shows "remove_child fuel proc parent s =
    Inr (s\<lparr>tasks := (tasks s)(parent \<mapsto> p\<lparr>t_first_child := 0, t_num_child := t_num_child p - 1\<rparr>,
      proc \<mapsto> x\<lparr>t_num_sibling := 0\<rparr>), sib_links := list_del_init proc (sib_links s)\<rparr>)"
proof -
  obtain n where n: "fuel = Suc (Suc n)" using assms(7) by (metis add_2_eq_Suc le_Suc_ex)
  have "list_empty (sib_links s) proc" using assms(5) by (simp add: ring_single list_empty_def list_next_def)
  then show ?thesis using assms(1-4,6) by (simp add: remove_child_def n next_sib_task_def fun_upd_twist)
qed

text \<open>
  Property C30. A process added as the only child of its parent and removed again leaves process
  list, hash chains and count as they were, the parent is the structure it was, and the process is
  alone in its sibling ring.
\<close>
theorem only_child_roundtrip:
  assumes "proc_index s ps" "proc \<notin> set ps" "tasks s proc = Some x" "task_is_process x"
    and "t_pid x \<noteq> PID_IDLE" "t_pid x \<noteq> PID_INIT" "t_first_child x = 0" "ring (sib_links s) [proc]"
    and "tasks s parent = Some p" "task_is_process p" "parent \<noteq> proc" "t_first_child p = 0"
    and "tasks s (initproc s) = Some ini" "t_first_child ini = 0 \<or> tasks s (t_first_child ini) \<noteq> None" "2 \<le> fuel"
  shows "\<exists>s1 s2. add_process fuel proc parent s = Inr s1 \<and> proc_index s1 (ps @ [proc]) \<and>
    remove_process fuel proc s1 = Inr s2 \<and> proc_index s2 ps \<and> nr_process s2 = nr_process s \<and>
    tasks s2 parent = Some p \<and> ring (sib_links s2) [proc]"
proof -
  let ?x = "x\<lparr>t_parent := parent, t_num_sibling := 1\<rparr>"
  let ?p = "p\<lparr>t_first_child := proc, t_num_child := t_num_child p + 1\<rparr>"
  obtain s1 where s1: "add_process fuel proc parent s = Inr s1" "sib_links s1 = sib_links s" "initproc s1 = initproc s"
    "tasks s1 = (tasks s)(proc \<mapsto> ?x, parent \<mapsto> ?p)"
    using add_only_child [OF assms(3,4,9,10,11,12)] by blast
  note add = add_process_index [OF s1(1) assms(1,2)]
  let ?s = "s1\<lparr>proc_links := list_del_init (Proc proc) (proc_links s1), hash_links := list_del_init (Hash proc) (hash_links s1)\<rparr>"
  have p: "p\<lparr>t_first_child := 0, t_num_child := t_num_child p\<rparr> = p" using assms(12) by (cases p) simp
  let ?s2 = "?s\<lparr>tasks := (tasks s1)(parent \<mapsto> p, proc \<mapsto> ?x\<lparr>t_num_sibling := 0\<rparr>), sib_links := list_del_init proc (sib_links s1)\<rparr>"
  have 1: "remove_child fuel proc parent ?s = Inr ?s2"
    using remove_child_only [of ?s proc ?x parent ?p fuel] s1 assms(8,11,15) p by simp
  have "\<exists>ini'. tasks ?s2 (initproc ?s2) = Some ini' \<and> (t_first_child ini' = 0 \<or> tasks ?s2 (t_first_child ini') \<noteq> None)"
    using assms(7,11-14) s1(3,4) by auto
  then have 2: "adopt_children proc ?s2 = Inr ?s2"
    using adopt_children_none [of ?s2 proc "?x\<lparr>t_num_sibling := 0\<rparr>"] assms(7) by auto
  have "remove_process fuel proc s1 = Inr (?s2\<lparr>nr_process := nr_process s1 - 1\<rparr>)"
    using s1(4) assms(4-6,11) 1 2 by (simp add: remove_process_def assert_that_def task_is_process_def)
  moreover from remove_process_index [OF this conjunct1 [OF add]] assms(2)
  have "proc_index (?s2\<lparr>nr_process := nr_process s1 - 1\<rparr>) ps" by (simp add: remove1_append)
  moreover have "ring (list_del_init proc (sib_links s1)) [proc]"
    using ll.delete_middle_self [of "sib_links s" "[]" proc "[]"] assms(8) s1(2) by simp
  ultimately show ?thesis using s1(1) add assms(11) by auto
qed

theorem only_child_roundtrip_witness:
  "\<exists>s1 s2. add_process 2 0x3000 0x2000 (tasklist_init family) = Inr s1 \<and> proc_index s1 [0x3000] \<and>
     remove_process 2 0x3000 s1 = Inr s2 \<and> proc_index s2 [] \<and> nr_process s2 = nr_process family \<and>
     tasks s2 0x2000 = tasks family 0x2000 \<and> ring (sib_links s2) [0x3000]"
  using only_child_roundtrip [of "tasklist_init family" "[]" "0x3000" "zero_task\<lparr>t_pid := 2\<rparr>" "0x2000"
      "init_example\<lparr>t_parent := 0x1000, t_num_sibling := 1\<rparr>" "init_example\<lparr>t_parent := 0x1000, t_num_sibling := 1\<rparr>" 2]
  by (simp add: tasklist_init_index example_tasks ring_single)

section \<open>Threads\<close>

lemma remove_thread_ok:
  assumes "tasks s thread = Some x" "\<not> task_is_process x" "tasks s (t_thgroup_leader x) = Some y"
  shows "remove_thread thread s =
    Inr (s\<lparr>tasks := (tasks s)(t_thgroup_leader x \<mapsto> y\<lparr>t_num_threads := t_num_threads y - 1\<rparr>),
      thread_links := list_del_init thread (thread_links s), nr_thread := nr_thread s - 1\<rparr>)"
  using assms by (simp add: remove_thread_def)

text \<open>
  \<^verbatim>\<open>add_thread\<close> puts a thread at the end of the thread list of its process and
  counts it there and in \<^verbatim>\<open>nr_thread\<close>; \<^verbatim>\<open>remove_thread\<close> of the thread gives back the
  list and both counts. A thread of another process, or a process in the place of the thread, ends
  in the assertion that fails.
\<close>
theorem thread_roundtrip:
  assumes "tasks s thread = Some x" "tasks s owner = Some o'" "t_pid x = t_pid o'" "task_is_process o'" "\<not> task_is_process x"
    and "ring (thread_links s) (owner # ts)" "thread \<notin> set ts"
  shows "(\<exists>s1 s2. add_thread thread owner s = Inr s1 \<and> ring (thread_links s1) (owner # ts @ [thread]) \<and>
     tasks s1 owner = Some (o'\<lparr>t_num_threads := t_num_threads o' + 1\<rparr>) \<and> nr_thread s1 = nr_thread s + 1 \<and>
     remove_thread thread s1 = Inr s2 \<and> ring (thread_links s2) (owner # ts) \<and> ring (thread_links s2) [thread] \<and>
     tasks s2 owner = Some o' \<and> nr_thread s2 = nr_thread s) \<and>
     add_thread owner owner s = Inl (Assertion ''!task_is_process(thread)'')"
proof
  have ne: "thread \<noteq> owner" using assms(1,2,4,5) by auto
  let ?s1 = "s\<lparr>tasks := (tasks s)(thread \<mapsto> x\<lparr>t_thgroup_leader := owner\<rparr>, owner \<mapsto> o'\<lparr>t_num_threads := t_num_threads o' + 1\<rparr>),
    thread_links := list_add_before owner thread (thread_links s), nr_thread := nr_thread s + 1\<rparr>"
  have r: "ring (list_add_before owner thread (thread_links s)) ((owner # ts) @ thread # [])"
    using ll.rep_add_before [OF assms(6), of thread] assms(7) ne by simp
  have "add_thread thread owner s = Inr ?s1"
    using assms(1-5) ne by (simp add: add_thread_def assert_that_def)
  moreover have o1: "o'\<lparr>t_num_threads := t_num_threads o'\<rparr> = o'" by (cases o') simp
  have "remove_thread thread ?s1 = Inr (?s1\<lparr>tasks := (tasks ?s1)(owner \<mapsto> o'),
    thread_links := list_del_init thread (thread_links ?s1), nr_thread := nr_thread ?s1 - 1\<rparr>)"
    using remove_thread_ok [of ?s1 thread "x\<lparr>t_thgroup_leader := owner\<rparr>" "o'\<lparr>t_num_threads := t_num_threads o' + 1\<rparr>"] assms(5) ne o1
    by (simp add: task_is_process_def)
  ultimately show "\<exists>s1 s2. add_thread thread owner s = Inr s1 \<and> ring (thread_links s1) (owner # ts @ [thread]) \<and>
     tasks s1 owner = Some (o'\<lparr>t_num_threads := t_num_threads o' + 1\<rparr>) \<and> nr_thread s1 = nr_thread s + 1 \<and>
     remove_thread thread s1 = Inr s2 \<and> ring (thread_links s2) (owner # ts) \<and> ring (thread_links s2) [thread] \<and>
     tasks s2 owner = Some o' \<and> nr_thread s2 = nr_thread s"
    using r ll.delete_middle [OF r] ll.delete_middle_self [OF r] ne by simp
  show "add_thread owner owner s = Inl (Assertion ''!task_is_process(thread)'')"
    using assms(2,4) by (simp add: add_thread_def assert_that_def)
qed

definition threads_example :: "task_state" where
  "threads_example = family\<lparr>tasks := [0x2000 \<mapsto> init_example, 0x4000 \<mapsto> zero_task\<lparr>t_pid := 1, t_tid := 7\<rparr>]\<rparr>"

lemma threads_example_simps [simp]:
  "tasks threads_example 0x2000 = Some init_example"
  "tasks threads_example 0x4000 = Some (zero_task\<lparr>t_pid := 1, t_tid := 7\<rparr>)"
  "thread_links threads_example = \<lparr>node_prev = (\<lambda>x. x), node_next = (\<lambda>x. x)\<rparr>"
  by (simp_all add: threads_example_def)

theorem thread_roundtrip_witness:
  "\<exists>s1 s2. add_thread 0x4000 0x2000 threads_example = Inr s1 \<and> ring (thread_links s1) [0x2000, 0x4000] \<and>
     remove_thread 0x4000 s1 = Inr s2 \<and> ring (thread_links s2) [0x2000] \<and> tasks s2 0x2000 = Some init_example"
  using thread_roundtrip [of threads_example "0x4000" "zero_task\<lparr>t_pid := 1, t_tid := 7\<rparr>" "0x2000" init_example "[]"]
  by (auto simp: example_tasks ring_single)

end
