(* ===== verification/Asid.thy ===== *)
theory Asid
  imports Task_List_Props
begin

text \<open>
  Address space identifiers: the table of online page tables and tasks
  (\<^verbatim>\<open>asid_flush\<close> and \<^verbatim>\<open>pgtable_bootstrap\<close> of \<^verbatim>\<open>arch/mips/mm/hier/pgtable.c\<close>)
  and the page fault handler that hands identifiers out (\<^verbatim>\<open>arch/mips/mm/hier/pgfault.c\<close>).
\<close>

section \<open>Operations\<close>

text \<open>The loop of \<^verbatim>\<open>asid_flush\<close> over the indices it visits.\<close>

fun asid_flush_loop :: "nat list \<Rightarrow> 's task_state_scheme \<Rightarrow> 's task_state_scheme result" where
  "asid_flush_loop [] s = Inr s"
| "asid_flush_loop (i # is) s =
     (let t = online_tasks s ! i in
      if t \<noteq> 0 then
        rbind (write_task t (\<lambda>x. x\<lparr>t_asid := ASID_INVALID\<rparr>) s) (\<lambda>s.
        asid_flush_loop is (s\<lparr>online_tasks := (online_tasks s)[i := 0]\<rparr>))
      else asid_flush_loop is s)"

definition asid_flush :: "'s task_state_scheme \<Rightarrow> 's task_state_scheme result" where
  "asid_flush s =
     (let s = s\<lparr>online_hpt := replicate (length (online_hpt s)) 0\<rparr>;
          s = s\<lparr>next_asid := ucast ASID_MIN\<rparr> in
      rbind (read_mm s KernMm) (\<lambda>k.
      asid_flush_loop [unat ASID_MIN..<unat ASID_MAX]
        (s\<lparr>online_hpt := (online_hpt s)[unat ASID_KERNEL := mm_pgd k]\<rparr>)))"

definition pgtable_bootstrap :: "'s task_state_scheme \<Rightarrow> 's task_state_scheme result" where
  "pgtable_bootstrap s =
     rbind (pgdir_new (ucast ASID_KERNEL) s) (\<lambda>(p, s).
     rbind (write_mm KernMm (\<lambda>k. k\<lparr>mm_pgd := page_to_kvaddr s p\<rparr>) s) (\<lambda>s.
     asid_flush (s\<lparr>online_tasks := replicate (length (online_tasks s)) 0\<rparr>)))"

definition handle_pgfault :: "addr_t \<Rightarrow> 's task_state_scheme \<Rightarrow> (int \<times> 's task_state_scheme) result" where
  "handle_pgfault tf s =
     rbind (read_frame s tf) (\<lambda>f.
     let entryhi = tf_entryhi f;
         asid = entryhi AND ENTHI_ASID_MASK;
         entryhi = entryhi XOR asid in
     if asid = ucast ASID_INVALID then
       rbind (if next_asid s = ucast ASID_INVALID then asid_flush (tlb_flush_all s) else Inr s) (\<lambda>s.
       let asid = next_asid s;
           s = s\<lparr>next_asid := asid + 1\<rparr> in
       rbind (write_task (current_task s) (\<lambda>x. x\<lparr>t_asid := ucast asid\<rparr>) s) (\<lambda>s.
       rbind (read_task s (current_task s)) (\<lambda>x.
       case t_mm x of None \<Rightarrow> Inl NullPointer
       | Some mm \<Rightarrow>
           rbind (read_mm s mm) (\<lambda>m.
           if unat asid \<ge> length (online_hpt s) \<or> unat asid \<ge> length (online_tasks s)
           then Inl (BadPointer ''asid_task_set'')
           else
             let s = s\<lparr>online_hpt := (online_hpt s)[unat asid := mm_pgd m]\<rparr>;
                 s = s\<lparr>online_tasks := (online_tasks s)[unat asid := current_task s]\<rparr> in
             rbind (write_frame tf (\<lambda>f. f\<lparr>tf_entryhi := entryhi OR ucast asid\<rparr>) s) (\<lambda>s.
             Inr (0, s))))))
     else Inr (-1, s))"

section \<open>The table of identifiers\<close>

text \<open>
  The identifiers from \<open>ASID_MIN\<close> up to the next free one are in use, each by the task the
  table names, and the page table registered for it is that of the task; every other slot is empty.
\<close>

definition task_pgd :: "'s task_state_scheme \<Rightarrow> task_ptr \<Rightarrow> addr_t option" where
  "task_pgd s t = (case tasks s t of None \<Rightarrow> None | Some x \<Rightarrow>
     (case t_mm x of None \<Rightarrow> None | Some mm \<Rightarrow> map_option mm_pgd (mms s mm)))"

definition asid_table :: "'s task_state_scheme \<Rightarrow> bool" where
  "asid_table s \<longleftrightarrow>
     length (online_hpt s) = 256 \<and> length (online_tasks s) = 256 \<and> tasks s 0 = None \<and>
     1 \<le> unat (next_asid s) \<and> unat (next_asid s) \<le> 255 \<and>
     Some (online_hpt s ! 0) = map_option mm_pgd (mms s KernMm) \<and>
     (\<forall>a. 1 \<le> a \<longrightarrow> a < unat (next_asid s) \<longrightarrow>
        online_tasks s ! a \<noteq> 0 \<and> task_pgd s (online_tasks s ! a) = Some (online_hpt s ! a)) \<and>
     (\<forall>a. unat (next_asid s) \<le> a \<longrightarrow> a < 255 \<longrightarrow> online_tasks s ! a = 0 \<and> online_hpt s ! a = 0)"

lemma tlb_flush_loop_task [simp]:
  fixes s :: "'s task_state_scheme"
  shows "tasks (tlb_flush_loop n i s) = tasks s" "tframes (tlb_flush_loop n i s) = tframes s"
    "online_hpt (tlb_flush_loop n i s) = online_hpt s" "online_tasks (tlb_flush_loop n i s) = online_tasks s"
    "mms (tlb_flush_loop n i s) = mms s" "current_task (tlb_flush_loop n i s) = current_task s"
  by (induction n arbitrary: i s) (simp_all add: tlbwi_def)

lemma tlb_flush_all_task [simp]:
  fixes s :: "'s task_state_scheme"
  shows "tasks (tlb_flush_all s) = tasks s" "tframes (tlb_flush_all s) = tframes s"
    "online_hpt (tlb_flush_all s) = online_hpt s" "online_tasks (tlb_flush_all s) = online_tasks s"
    "mms (tlb_flush_all s) = mms s" "current_task (tlb_flush_all s) = current_task s"
  by (simp_all add: tlb_flush_all_def)

lemma asid_flush_loop_ok:
  assumes "\<forall>i\<in>set is. i < length (online_tasks s) \<and> (online_tasks s ! i \<noteq> 0 \<longrightarrow> tasks s (online_tasks s ! i) \<noteq> None)"
  shows "\<exists>s'. asid_flush_loop is s = Inr s' \<and> tframes s' = tframes s \<and> online_hpt s' = online_hpt s \<and> mms s' = mms s \<and>
    current_task s' = current_task s \<and> next_asid s' = next_asid s \<and> tlb s' = tlb s \<and>
    length (online_tasks s') = length (online_tasks s) \<and>
    (\<forall>i<length (online_tasks s). online_tasks s' ! i = (if i \<in> set is then 0 else online_tasks s ! i)) \<and>
    (\<forall>t. tasks s' t = (if \<exists>i\<in>set is. online_tasks s ! i = t \<and> t \<noteq> 0
       then map_option (t_asid_update (\<lambda>_. ASID_INVALID)) (tasks s t) else tasks s t))"
  using assms
proof (induction "is" arbitrary: s)
  case (Cons i "is")
  let ?t = "online_tasks s ! i"
  show ?case
  proof (cases "?t = 0")
    case True
    then show ?thesis using Cons.IH [of s] Cons.prems by (auto simp: nth_list_update)
  next
    case False
    then obtain x where x: "tasks s ?t = Some x" using Cons.prems by auto
    let ?s = "s\<lparr>tasks := (tasks s)(?t \<mapsto> x\<lparr>t_asid := ASID_INVALID\<rparr>), online_tasks := (online_tasks s)[i := 0]\<rparr>"
    have "\<forall>j\<in>set is. j < length (online_tasks ?s) \<and> (online_tasks ?s ! j \<noteq> 0 \<longrightarrow> tasks ?s (online_tasks ?s ! j) \<noteq> None)"
      using Cons.prems by (auto simp: nth_list_update)
    from Cons.IH [OF this] obtain s' where s': "asid_flush_loop is ?s = Inr s'" "tframes s' = tframes s"
      "online_hpt s' = online_hpt s" "mms s' = mms s" "current_task s' = current_task s" "next_asid s' = next_asid s" "tlb s' = tlb s"
      "length (online_tasks s') = length (online_tasks s)"
      and on: "\<forall>j<length (online_tasks ?s). online_tasks s' ! j = (if j \<in> set is then 0 else online_tasks ?s ! j)"
      and tk: "\<forall>t. tasks s' t = (if \<exists>j\<in>set is. online_tasks ?s ! j = t \<and> t \<noteq> 0
       then map_option (t_asid_update (\<lambda>_. ASID_INVALID)) (tasks ?s t) else tasks ?s t)" by auto
    have "tasks s' t = (if \<exists>j\<in>set (i # is). online_tasks s ! j = t \<and> t \<noteq> 0
       then map_option (t_asid_update (\<lambda>_. ASID_INVALID)) (tasks s t) else tasks s t)" for t
      using tk [rule_format, of t] x False Cons.prems by (auto simp: nth_list_update split: if_splits)
    moreover have "asid_flush_loop (i # is) s = Inr s'" using s'(1) x False by simp
    moreover have "\<forall>j<length (online_tasks s). online_tasks s' ! j = (if j \<in> set (i # is) then 0 else online_tasks s ! j)"
      using on by (auto simp: nth_list_update)
    ultimately show ?thesis using s' by blast
  qed
qed simp

lemma asid_numbers [simp]:
  "unat ASID_MIN = 1" "unat ASID_MAX = 255" "unat ASID_KERNEL = 0" "(ucast ASID_MIN :: u16) = 1"
  "(ucast ASID_INVALID :: u16) = 255" "(ucast ASID_INVALID :: u64) = 255"
  by (simp_all add: ASID_MIN_def ASID_MAX_def ASID_KERNEL_def ASID_INVALID_def)

text \<open>After a flush no identifier is in use, and no task on the table still believes to have one.\<close>

lemma asid_flush_ok:
  assumes "length (online_hpt s) = 256" "length (online_tasks s) = 256" "tasks s 0 = None" "mms s KernMm = Some k"
    and "\<forall>i. 1 \<le> i \<longrightarrow> i < 255 \<longrightarrow> online_tasks s ! i \<noteq> 0 \<longrightarrow> tasks s (online_tasks s ! i) \<noteq> None"
  shows "\<exists>s'. asid_flush s = Inr s' \<and> asid_table s' \<and> next_asid s' = 1 \<and> tframes s' = tframes s \<and> mms s' = mms s \<and>
    current_task s' = current_task s \<and> tlb s' = tlb s \<and>
    (\<forall>t. tasks s' t = (if \<exists>i. 1 \<le> i \<and> i < 255 \<and> online_tasks s ! i = t \<and> t \<noteq> 0
       then map_option (t_asid_update (\<lambda>_. ASID_INVALID)) (tasks s t) else tasks s t))"
proof -
  let ?s = "s\<lparr>next_asid := 1, online_hpt := (replicate 256 0)[0 := mm_pgd k]\<rparr>"
  obtain s' where s': "asid_flush_loop [1..<255] ?s = Inr s'" "tframes s' = tframes s"
      "online_hpt s' = online_hpt ?s" "mms s' = mms s" "current_task s' = current_task s" "next_asid s' = 1" "tlb s' = tlb s"
      "length (online_tasks s') = 256"
    and on: "\<forall>i<256. online_tasks s' ! i = (if i \<in> set [1..<255] then 0 else online_tasks s ! i)"
    and tk: "\<forall>t. tasks s' t = (if \<exists>i\<in>set [1..<255]. online_tasks s ! i = t \<and> t \<noteq> 0
       then map_option (t_asid_update (\<lambda>_. ASID_INVALID)) (tasks s t) else tasks s t)"
    using asid_flush_loop_ok [of "[1..<255]" ?s] assms(2,5) by (auto simp del: upt_rec_numeral)
  have "asid_flush s = Inr s'"
    using s'(1) assms(1,4) by (simp add: asid_flush_def read_mm_def del: upt_rec_numeral)
  moreover have "asid_table s'"
    using s' on tk assms(3,4) by (auto simp: asid_table_def nth_list_update)
  ultimately show ?thesis using s' tk by auto
qed

lemma task_pgd_asid [simp]:
  assumes "tasks s t = Some x"
  shows "task_pgd (s\<lparr>tasks := (tasks s)(t \<mapsto> x\<lparr>t_asid := a\<rparr>)\<rparr>) = task_pgd s"
  using assms by (auto simp: task_pgd_def fun_eq_iff split: option.splits)

lemma asid_table_online:
  assumes "asid_table s"
  shows "\<forall>i. 1 \<le> i \<longrightarrow> i < 255 \<longrightarrow> online_tasks s ! i \<noteq> 0 \<longrightarrow> tasks s (online_tasks s ! i) \<noteq> None"
proof (intro allI impI)
  fix i :: nat assume "1 \<le> i" "i < 255" "online_tasks s ! i \<noteq> 0"
  then have "i < unat (next_asid s)" "task_pgd s (online_tasks s ! i) = Some (online_hpt s ! i)"
    using assms unfolding asid_table_def by (meson not_less)+
  then show "tasks s (online_tasks s ! i) \<noteq> None" by (auto simp: task_pgd_def split: option.splits)
qed

text \<open>The assignment itself, once an identifier is free.\<close>

lemma pgfault_assign:
  assumes T: "asid_table s" "next_asid s \<noteq> 255" and f: "tframes s tf = Some f" "tf_entryhi f AND 0xff = 0xff"
    and x: "tasks s (current_task s) = Some x" "t_mm x = Some mm" "mms s mm = Some m"
  shows "\<exists>s'. handle_pgfault tf s = Inr (0, s') \<and> asid_table s' \<and> next_asid s' = next_asid s + 1 \<and>
    online_tasks s' ! unat (next_asid s) = current_task s \<and> online_hpt s' ! unat (next_asid s) = mm_pgd m \<and>
    tasks s' = (tasks s)(current_task s \<mapsto> x\<lparr>t_asid := ucast (next_asid s)\<rparr>) \<and> tlb s' = tlb s \<and>
    tframes s' = (tframes s)(tf \<mapsto> f\<lparr>tf_entryhi := (tf_entryhi f XOR 0xff) OR ucast (next_asid s)\<rparr>)"
proof -
  let ?a = "next_asid s"
  let ?s = "s\<lparr>next_asid := ?a + 1, tasks := (tasks s)(current_task s \<mapsto> x\<lparr>t_asid := ucast ?a\<rparr>),
    online_hpt := (online_hpt s)[unat ?a := mm_pgd m], online_tasks := (online_tasks s)[unat ?a := current_task s],
    tframes := (tframes s)(tf \<mapsto> f\<lparr>tf_entryhi := (tf_entryhi f XOR 0xff) OR ucast ?a\<rparr>)\<rparr>"
  have len: "length (online_hpt s) = 256" "length (online_tasks s) = 256" and le: "unat ?a \<le> 255"
    and ct: "current_task s \<noteq> 0" using T x(1) by (auto simp: asid_table_def)
  have "unat ?a \<noteq> 255" using T(2) by (simp add: word_unat_eq_iff)
  then have a: "unat ?a < 255" using le by simp
  then have a1: "unat (?a + 1) = unat ?a + 1" by (simp add: unat_word_ariths)
  have "handle_pgfault tf s = Inr (0, ?s)"
    using f x T(2) len a by (simp add: handle_pgfault_def ENTHI_ASID_MASK_def read_mm_def Let_def)
  moreover have pgd: "task_pgd ?s t = task_pgd s t" for t
    using x(1) by (auto simp: task_pgd_def split: option.splits)
  have "asid_table ?s"
    unfolding asid_table_def
  proof (intro conjI allI impI)
    fix b assume "1 \<le> b" "b < unat (next_asid ?s)"
    then show "online_tasks ?s ! b \<noteq> 0" "task_pgd ?s (online_tasks ?s ! b) = Some (online_hpt ?s ! b)"
      using T(1) x ct len a a1 unfolding pgd
      by (auto simp: asid_table_def nth_list_update task_pgd_def less_Suc_eq)
  qed (use T(1) len a a1 x(1) in \<open>auto simp: asid_table_def nth_list_update\<close>)
  ultimately show ?thesis using len a by (auto simp: nth_list_update)
qed

text \<open>When no identifier is left, the handler continues in the state after the flush.\<close>

lemma pgfault_rollover:
  assumes T: "asid_table s" "next_asid s = 255" and f: "tframes s tf = Some f" "tf_entryhi f AND 0xff = 0xff"
    and x: "tasks s (current_task s) = Some x" "t_mm x = Some mm"
  shows "\<exists>s1 y. handle_pgfault tf s = handle_pgfault tf s1 \<and> asid_table s1 \<and> next_asid s1 = 1 \<and> tframes s1 = tframes s \<and>
    mms s1 = mms s \<and> current_task s1 = current_task s \<and> tlb s1 = tlb (tlb_flush_all s) \<and>
    tasks s1 (current_task s1) = Some y \<and> t_mm y = Some mm"
proof -
  obtain k where k: "mms s KernMm = Some k" using T(1) by (cases "mms s KernMm") (auto simp: asid_table_def)
  have len: "length (online_hpt s) = 256" "length (online_tasks s) = 256" "tasks s 0 = None"
    using T(1) by (auto simp: asid_table_def)
  obtain s1 where s1: "asid_flush (tlb_flush_all s) = Inr s1" "asid_table s1" "next_asid s1 = 1" "tframes s1 = tframes s"
    "mms s1 = mms s" "current_task s1 = current_task s" "tlb s1 = tlb (tlb_flush_all s)"
    and tk: "\<forall>t. tasks s1 t = (if \<exists>i. 1 \<le> i \<and> i < 255 \<and> online_tasks s ! i = t \<and> t \<noteq> 0
     then map_option (t_asid_update (\<lambda>_. ASID_INVALID)) (tasks s t) else tasks s t)"
    using asid_flush_ok [of "tlb_flush_all s" k, unfolded tlb_flush_all_task, OF len k asid_table_online [OF T(1)]] by blast
  have "\<exists>y. tasks s1 (current_task s) = Some y \<and> t_mm y = Some mm"
    unfolding tk [rule_format] using x by (simp split: if_split)
  then obtain y where y: "tasks s1 (current_task s1) = Some y" "t_mm y = Some mm" using s1(6) by auto
  moreover have "handle_pgfault tf s = handle_pgfault tf s1"
    using T(2) s1 f by (simp add: handle_pgfault_def ENTHI_ASID_MASK_def)
  ultimately show ?thesis using s1 by blast
qed

section \<open>Properties\<close>

text \<open>
  Property C17. A fault with the invalid identifier in the trap frame gives the current task an
  identifier: the table of identifiers stays consistent (every identifier in use belongs to one
  task, whose page table is registered for it), the identifier in the trap frame, in the task and
  in the table is the same one, the virtual page number in the trap frame is kept, and when no
  identifier was left the whole TLB is flushed first. Any other fault is refused and changes nothing.
\<close>
theorem handle_pgfault_assigns:
  assumes T: "asid_table s" and f: "tframes s tf = Some f"
    and x: "tasks s (current_task s) = Some x" "t_mm x = Some mm" "mms s mm = Some m"
  shows "if tf_entryhi f AND 0xff = 0xff
    then \<exists>s' a. handle_pgfault tf s = Inr (0, s') \<and> asid_table s' \<and> next_asid s' = a + 1 \<and>
      a = (if next_asid s = 255 then 1 else next_asid s) \<and>
      online_tasks s' ! unat a = current_task s \<and> online_hpt s' ! unat a = mm_pgd m \<and>
      map_option t_asid (tasks s' (current_task s)) = Some (ucast a) \<and>
      map_option tf_entryhi (tframes s' tf) = Some ((tf_entryhi f XOR 0xff) OR ucast a) \<and>
      tlb s' = (if next_asid s = 255 then tlb (tlb_flush_all s) else tlb s)
    else handle_pgfault tf s = Inr (-1, s)"
proof (cases "tf_entryhi f AND 0xff = 0xff")
  case False
  then show ?thesis using f by (simp add: handle_pgfault_def ENTHI_ASID_MASK_def)
next
  case inv: True
  show ?thesis
  proof (cases "next_asid s = 255")
    case False
    then show ?thesis using pgfault_assign [OF T False f inv x] inv by auto
  next
    case True
    from pgfault_rollover [OF T True f inv x(1,2)] obtain s1 y where s1: "handle_pgfault tf s = handle_pgfault tf s1"
      "asid_table s1" "next_asid s1 = 1" "tframes s1 = tframes s" "mms s1 = mms s" "current_task s1 = current_task s"
      "tlb s1 = tlb (tlb_flush_all s)" and y: "tasks s1 (current_task s1) = Some y" "t_mm y = Some mm" by blast
    show ?thesis using pgfault_assign [OF s1(2) _ _ inv y, of tf] s1 f x(3) inv True by auto
  qed
qed

text \<open>An idle task running, with the next identifier \<open>n\<close> and the tasks below it online.\<close>

definition online_example :: "nat \<Rightarrow> task_state" where
  "online_example n = task_example\<lparr>
     tasks := [0x1000 \<mapsto> idle_example\<lparr>t_mm := Some KernMm\<rparr>, 0x2000 \<mapsto> init_example\<lparr>t_mm := Some KernMm\<rparr>],
     tframes := [0x9010 \<mapsto> zero_frame\<lparr>tf_entryhi := 0xff\<rparr>, 0xa000 \<mapsto> zero_frame\<lparr>tf_entryhi := 1\<rparr>],
     next_asid := of_nat n, online_tasks := 0 # replicate (n - 1) 0x2000 @ replicate (256 - n) 0\<rparr>"

lemma online_example_simps [simp]:
  "tasks (online_example n) = [0x1000 \<mapsto> idle_example\<lparr>t_mm := Some KernMm\<rparr>, 0x2000 \<mapsto> init_example\<lparr>t_mm := Some KernMm\<rparr>]"
  "tframes (online_example n) = [0x9010 \<mapsto> zero_frame\<lparr>tf_entryhi := 0xff\<rparr>, 0xa000 \<mapsto> zero_frame\<lparr>tf_entryhi := 1\<rparr>]"
  "next_asid (online_example n) = of_nat n" "current_task (online_example n) = 0x1000"
  "online_hpt (online_example n) = replicate 256 0"
  "mms (online_example n) = [KernMm \<mapsto> \<lparr>mm_pgd = 0, vma_last_accessed = 0, mmap_count = 0, mm_ref_count = 0\<rparr>]"
  "online_tasks (online_example n) = 0 # replicate (n - 1) 0x2000 @ replicate (256 - n) 0"
  by (simp_all add: online_example_def task_example_def vm_with_def boot_mach_def boot_kmem_def
      task_state.defs vm_state.defs mach_state.defs kmem_state.defs kstate.defs)

lemma online_example_table:
  assumes "1 \<le> n" "n \<le> 255"
  shows "asid_table (online_example n)"
proof -
  have u: "unat (of_nat n :: u16) = n" using assms by (simp add: unat_of_nat take_bit_nat_eq_self)
  show ?thesis
    unfolding asid_table_def online_example_simps u task_pgd_def
    using assms by (auto simp: nth_Cons' nth_append)
qed

theorem handle_pgfault_assigns_witness:
  "\<exists>s'. handle_pgfault 0x9010 (online_example 3) = Inr (0, s') \<and> asid_table s' \<and> next_asid s' = 4 \<and>
     online_tasks s' ! 3 = 0x1000 \<and> map_option tf_entryhi (tframes s' 0x9010) = Some 3"
proof -
  have "asid_table (online_example 3)" by (rule online_example_table) simp_all
  from handle_pgfault_assigns [OF this, of "0x9010" "zero_frame\<lparr>tf_entryhi := 0xff\<rparr>" "idle_example\<lparr>t_mm := Some KernMm\<rparr>" KernMm]
  show ?thesis by auto
qed

text \<open>
  Property C32. When the identifiers run out, the flush takes the identifiers away from the tasks
  but not from their saved trap frames: a task whose saved frame carries \<open>ASID_MIN\<close> keeps it
  while the handler gives the same identifier to the current task, so the two run under one
  identifier, for which only the page table of the current task is registered.
\<close>
theorem asid_rollover_shares:
  assumes "asid_table s" "next_asid s = 255" "tframes s tf = Some f" "tf_entryhi f = 0xff"
    and "tasks s (current_task s) = Some x" "t_mm x = Some mm" "mms s mm = Some m"
    and "tf' \<noteq> tf" "tframes s tf' = Some f'" "tf_entryhi f' AND ENTHI_ASID_MASK = ucast ASID_MIN"
  shows "\<exists>s'. handle_pgfault tf s = Inr (0, s') \<and> tframes s' tf' = Some f' \<and>
    map_option tf_entryhi (tframes s' tf) = Some (ucast ASID_MIN) \<and>
    online_tasks s' ! 1 = current_task s \<and> online_hpt s' ! 1 = mm_pgd m"
proof -
  have inv: "tf_entryhi f AND 0xff = 0xff" using assms(4) by simp
  from pgfault_rollover [OF assms(1,2,3) inv assms(5,6)] obtain s1 y where s1: "handle_pgfault tf s = handle_pgfault tf s1"
    "asid_table s1" "next_asid s1 = 1" "tframes s1 = tframes s" "mms s1 = mms s" "current_task s1 = current_task s"
    and y: "tasks s1 (current_task s1) = Some y" "t_mm y = Some mm" by blast
  have "next_asid s1 \<noteq> 255" "tframes s1 tf = Some f" "mms s1 mm = Some m" using s1 assms(3,7) by simp_all
  from pgfault_assign [OF s1(2) this(1,2) inv y this(3)] show ?thesis
    using s1 assms(4,8,9) by (auto simp: ASID_MIN_def)
qed

theorem asid_rollover_shares_witness:
  "\<exists>s'. handle_pgfault 0x9010 (online_example 255) = Inr (0, s') \<and>
     map_option tf_entryhi (tframes s' 0xa000) = Some 1 \<and> map_option tf_entryhi (tframes s' 0x9010) = Some 1 \<and>
     online_tasks s' ! 1 = 0x1000"
proof -
  have "asid_table (online_example 255)" by (rule online_example_table) simp_all
  from asid_rollover_shares [OF this, of "0x9010" "zero_frame\<lparr>tf_entryhi := 0xff\<rparr>" "idle_example\<lparr>t_mm := Some KernMm\<rparr>" KernMm _
      "0xa000" "zero_frame\<lparr>tf_entryhi := 1\<rparr>"]
  show ?thesis by (auto simp: ENTHI_ASID_MASK_def ASID_MIN_def)
qed

end
