(* ===== verification/Libc_String.thy ===== *)
theory Libc_String
  imports Libc_Memory
begin

text \<open>
  The string functions, \<^verbatim>\<open>strtoul\<close> and the random numbers of \<^verbatim>\<open>lib/libc\<close>, on the
  byte-addressed memory. A loop that runs to the end of a string takes fuel, of which a string of
  \<open>n\<close> characters needs \<open>n + 1\<close>; a loop that a count bounds recurses on the count.
\<close>

section \<open>Lengths and comparisons\<close>

text \<open>The loop of \<^verbatim>\<open>strlen\<close>, which gives the address of the terminator.\<close>

fun strlen_loop :: "nat \<Rightarrow> addr_t \<Rightarrow> memory \<Rightarrow> addr_t result" where
  "strlen_loop 0 s m = Inl Hang"
| "strlen_loop (Suc fuel) s m = (if m s \<noteq> 0 then strlen_loop fuel (s + 1) m else Inr s)"

definition strlen :: "nat \<Rightarrow> addr_t \<Rightarrow> memory \<Rightarrow> size_t result" where
  "strlen fuel str m = rbind (strlen_loop fuel str m) (\<lambda>s. Inr (s - str))"

fun strcmp :: "nat \<Rightarrow> addr_t \<Rightarrow> addr_t \<Rightarrow> memory \<Rightarrow> int result" where
  "strcmp 0 s1 s2 m = Inl Hang"
| "strcmp (Suc fuel) s1 s2 m =
     (if m s1 = m s2 then
        (if m s1 = 0 then Inr 0 else strcmp fuel (s1 + 1) (s2 + 1) m)
      else Inr (uint (m s1) - uint (m s2)))"

text \<open>\<^verbatim>\<open>strncmp\<close> with \<open>n\<close> characters left to compare.\<close>

fun strncmp_loop :: "nat \<Rightarrow> addr_t \<Rightarrow> addr_t \<Rightarrow> memory \<Rightarrow> int" where
  "strncmp_loop 0 s1 s2 m = 0"
| "strncmp_loop (Suc n) s1 s2 m =
     (if m s1 \<noteq> m s2 then uint (m s1) - uint (m s2)
      else if m s1 = 0 then 0
      else strncmp_loop n (s1 + 1) (s2 + 1) m)"

definition strncmp :: "addr_t \<Rightarrow> addr_t \<Rightarrow> size_t \<Rightarrow> memory \<Rightarrow> int" where
  "strncmp s1 s2 n m = (if n = 0 then 0 else strncmp_loop (unat n) s1 s2 m)"

section \<open>strlcpy and strlcat\<close>

text \<open>
  \<^verbatim>\<open>while (--nleft != 0) if ((*dst++ = *src++) == 0) break;\<close>, entered with \<open>nleft \<noteq> 0\<close>.
\<close>

fun strlcpy_loop :: "nat \<Rightarrow> addr_t \<Rightarrow> addr_t \<Rightarrow> memory \<Rightarrow> nat \<times> addr_t \<times> addr_t \<times> memory" where
  "strlcpy_loop 0 dst src m = (0, dst, src, m)"
| "strlcpy_loop (Suc nleft) dst src m =
     (if nleft = 0 then (0, dst, src, m)
      else
        let ch = m src; m = m(dst := ch) in
        if ch = 0 then (nleft, dst + 1, src + 1, m)
        else strlcpy_loop nleft (dst + 1) (src + 1) m)"

text \<open>\<^verbatim>\<open>while (*src++) ;\<close>\<close>

fun skip_string :: "nat \<Rightarrow> addr_t \<Rightarrow> memory \<Rightarrow> addr_t result" where
  "skip_string 0 src m = Inl Hang"
| "skip_string (Suc fuel) src m = (if m src \<noteq> 0 then skip_string fuel (src + 1) m else Inr (src + 1))"

definition strlcpy :: "nat \<Rightarrow> addr_t \<Rightarrow> addr_t \<Rightarrow> size_t \<Rightarrow> memory \<Rightarrow> (size_t \<times> memory) result" where
  "strlcpy fuel dst src dsize m =
     (let osrc = src;
          (nleft, dst, src, m) = strlcpy_loop (unat dsize) dst src m in
      if nleft = 0 then
        let m = (if dsize \<noteq> 0 then m(dst := 0) else m) in
        rbind (skip_string fuel src m) (\<lambda>src. Inr (src - osrc - 1, m))
      else Inr (src - osrc - 1, m))"

text \<open>\<^verbatim>\<open>while (n-- != 0 && *dst != 0) dst++;\<close>\<close>

fun strlcat_scan :: "nat \<Rightarrow> addr_t \<Rightarrow> memory \<Rightarrow> addr_t" where
  "strlcat_scan 0 dst m = dst"
| "strlcat_scan (Suc n) dst m = (if m dst \<noteq> 0 then strlcat_scan n (dst + 1) m else dst)"

fun strlcat_loop :: "nat \<Rightarrow> size_t \<Rightarrow> addr_t \<Rightarrow> addr_t \<Rightarrow> memory \<Rightarrow> (addr_t \<times> addr_t \<times> memory) result" where
  "strlcat_loop 0 n dst src m = Inl Hang"
| "strlcat_loop (Suc fuel) n dst src m =
     (if m src \<noteq> 0 then
        (if n \<noteq> 0 then strlcat_loop fuel (n - 1) (dst + 1) (src + 1) (m(dst := m src))
         else strlcat_loop fuel n dst (src + 1) m)
      else Inr (dst, src, m))"

definition strlcat :: "nat \<Rightarrow> addr_t \<Rightarrow> addr_t \<Rightarrow> size_t \<Rightarrow> memory \<Rightarrow> (size_t \<times> memory) result" where
  "strlcat fuel dst src dsize m =
     (let odst = dst; osrc = src;
          dst = strlcat_scan (unat dsize) dst m;
          dlen = dst - odst;
          n = dsize - dlen in
      if n = 0 then rbind (strlen fuel src m) (\<lambda>l. Inr (dlen + l, m))
      else
        rbind (strlcat_loop fuel (n - 1) dst src m) (\<lambda>(dst, src, m).
        Inr (dlen + (src - osrc), m(dst := 0))))"

section \<open>strtoul\<close>

definition isdigit :: "int \<Rightarrow> bool" where "isdigit c = (48 \<le> c \<and> c \<le> 57)"
definition isupper :: "int \<Rightarrow> bool" where "isupper c = (65 \<le> c \<and> c \<le> 90)"
definition isalpha :: "int \<Rightarrow> bool" where "isalpha c = ((65 \<le> c \<and> c \<le> 90) \<or> (97 \<le> c \<and> c \<le> 122))"
definition isspace :: "int \<Rightarrow> bool" where
  "isspace c = (c = 32 \<or> c = 10 \<or> c = 13 \<or> c = 11 \<or> c = 12 \<or> c = 9)"

definition ULONG_MAX :: u64 where "ULONG_MAX = 0xffffffffffffffff"

fun skip_space :: "nat \<Rightarrow> addr_t \<Rightarrow> memory \<Rightarrow> (int \<times> addr_t) result" where
  "skip_space 0 s m = Inl Hang"
| "skip_space (Suc fuel) s m =
     (let c = uint (m s); s = s + 1 in if isspace c then skip_space fuel s m else Inr (c, s))"

text \<open>The conversion of a character to a digit; \<open>None\<close> is the \<^verbatim>\<open>break\<close>.\<close>

definition digit_value :: "int \<Rightarrow> int option" where
  "digit_value c =
     (if isdigit c then Some (c - 48)
      else if isalpha c then Some (c - (if isupper c then 65 - 10 else 97 - 10))
      else None)"

fun strtoul_loop :: "nat \<Rightarrow> int \<Rightarrow> u64 \<Rightarrow> int \<Rightarrow> int \<Rightarrow> addr_t \<Rightarrow> u64 \<Rightarrow> int \<Rightarrow> memory \<Rightarrow>
    (u64 \<times> int \<times> addr_t) result" where
  "strtoul_loop 0 base cutoff cutlim c s acc any m = Inl Hang"
| "strtoul_loop (Suc fuel) base cutoff cutlim c s acc any m =
     (case digit_value c of
        None \<Rightarrow> Inr (acc, any, s)
      | Some d \<Rightarrow>
          if d \<ge> base then Inr (acc, any, s)
          else
            let (acc, any) =
              (if any < 0 then (acc, any)
               else if acc > cutoff \<or> (acc = cutoff \<and> d > cutlim) then (ULONG_MAX, -1)
               else (acc * of_int base + of_int d, 1))
            in strtoul_loop fuel base cutoff cutlim (uint (m s)) (s + 1) acc any m)"

text \<open>Sign and prefix: the first character of the digits, the address behind it, the sign and the base.\<close>

definition strtoul_prefix :: "int \<Rightarrow> addr_t \<Rightarrow> int \<Rightarrow> memory \<Rightarrow> int \<times> addr_t \<times> bool \<times> int" where
  "strtoul_prefix c s base m =
     (let (neg, c, s) =
        (if c = 45 then (True, sint (m s), s + 1)
         else if c = 43 then (False, sint (m s), s + 1)
         else (False, c, s));
          (c, s, base) =
        (if (base = 0 \<or> base = 16) \<and> c = 48 \<and> (m s = 120 \<or> m s = 88)
         then (sint (m (s + 1)), s + 2, 16) else (c, s, base));
          base = (if base = 0 then if c = 48 then 8 else 10 else base)
      in (c, s, neg, base))"

definition strtoul :: "nat \<Rightarrow> addr_t \<Rightarrow> addr_t \<Rightarrow> int \<Rightarrow> memory \<Rightarrow> (u64 \<times> memory) result" where
  "strtoul fuel nptr endptr base m =
     (if base < 0 \<or> base = 1 \<or> base > 36 then
        Inr (0, if endptr \<noteq> 0 then store64 endptr nptr m else m)
      else
        rbind (skip_space fuel nptr m) (\<lambda>(c, s).
        let (c, s, neg, base) = strtoul_prefix c s base m;
            cutoff = ULONG_MAX div of_int base;
            cutlim = uint (ULONG_MAX mod of_int base) in
        rbind (strtoul_loop fuel base cutoff cutlim c s 0 0 m) (\<lambda>(acc, any, s).
        let acc = (if neg \<and> any > 0 then - acc else acc) in
        Inr (acc, if endptr \<noteq> 0 then store64 endptr (if any \<noteq> 0 then s - 1 else nptr) m else m))))"

section \<open>Random numbers\<close>

definition RAND_MAX :: u32 where "RAND_MAX = 2147483647"

text \<open>The value and the new seed.\<close>

definition rand_r :: "u32 \<Rightarrow> u32 \<times> u32" where
  "rand_r seed = (let seed = seed * 1103515245 + 12345 in (seed mod (RAND_MAX + 1), seed))"

definition rand :: "u32 \<Rightarrow> u32 \<times> u32" where "rand next = rand_r next"

definition srand :: "u32 \<Rightarrow> u32 \<Rightarrow> u32" where "srand seed next = seed"

end
