(* ===== verification/Libc_String_Props.thy ===== *)
theory Libc_String_Props
  imports Libc_String
begin

text \<open>
  What the string functions compute, stated for the strings that are in memory: lengths,
  comparisons, bounded copies, and \<^verbatim>\<open>strtoul\<close> as the value of a numeral.
\<close>

section \<open>Strings in memory\<close>

text \<open>\<open>cstr m a xs\<close>: at \<open>a\<close> are the characters \<open>xs\<close>, none of them null, and the terminator.\<close>

primrec cstr :: "memory \<Rightarrow> addr_t \<Rightarrow> u8 list \<Rightarrow> bool" where
  "cstr m a [] \<longleftrightarrow> m a = 0"
| "cstr m a (x # xs) \<longleftrightarrow> x \<noteq> 0 \<and> m a = x \<and> cstr m (a + 1) xs"

lemma cstr_append:
  "cstr m a (xs @ ys) \<longleftrightarrow> (\<forall>x\<in>set xs. x \<noteq> 0) \<and> load_bytes a (length xs) m = xs \<and> cstr m (a + of_nat (length xs)) ys"
proof (induction xs arbitrary: a)
  case Nil
  then show ?case by (simp add: load_bytes_def)
next
  case (Cons x xs)
  have "load_bytes a (Suc n) m = m a # load_bytes (a + 1) n m" for n
    unfolding load_bytes_def by (simp only: upt_conv_Cons_Cons map_upt_Suc zero_less_Suc) (simp add: add.assoc add.left_commute)
  then show ?case using Cons [of "a + 1"] by (auto simp: add.assoc)
qed

lemma strlen_loop_cstr:
  "cstr m a xs \<Longrightarrow> length xs < fuel \<Longrightarrow> strlen_loop fuel a m = Inr (a + of_nat (length xs))"
proof (induction fuel arbitrary: a xs)
  case (Suc fuel)
  then show ?case by (cases xs) (auto simp: add.assoc)
qed simp

lemma strlen_cstr:
  "cstr m a xs \<Longrightarrow> length xs < fuel \<Longrightarrow> strlen fuel a m = Inr (of_nat (length xs))"
  by (simp add: strlen_def strlen_loop_cstr)

lemma strcmp_cstr:
  "cstr m a xs \<Longrightarrow> cstr m b ys \<Longrightarrow> length xs < fuel \<Longrightarrow> \<exists>r. strcmp fuel a b m = Inr r \<and> (r = 0 \<longleftrightarrow> xs = ys)"
proof (induction fuel arbitrary: a b xs ys)
  case (Suc fuel)
  have ne: "x \<noteq> y \<Longrightarrow> uint x - uint y \<noteq> 0" for x y :: u8 by (simp add: word_uint_eq_iff)
  show ?case
    using Suc.prems Suc.IH [of "a + 1" _ "b + 1"] ne by (cases xs; cases ys) (auto simp: uint_0_iff)
qed simp

section \<open>strlcpy\<close>

definition separate :: "addr_t \<Rightarrow> nat \<Rightarrow> addr_t \<Rightarrow> nat \<Rightarrow> bool" where
  "separate d n s k \<longleftrightarrow> (\<forall>i<n. \<forall>j<k. d + of_nat i \<noteq> s + of_nat j)"

lemma separate_D: "separate d n s k \<Longrightarrow> i < n \<Longrightarrow> j < k \<Longrightarrow> d + of_nat i \<noteq> s + of_nat j"
  by (simp add: separate_def)

lemma separate_Suc: "separate d (Suc n) s (Suc k) \<Longrightarrow> separate (d + 1) n (s + 1) k \<and> d \<noteq> s"
  unfolding separate_def
proof (intro conjI allI impI)
  assume sep: "\<forall>i<Suc n. \<forall>j<Suc k. d + of_nat i \<noteq> s + of_nat j"
  show "d \<noteq> s" using sep [rule_format, of 0 0] by simp
  fix i j assume "i < n" "j < k"
  then show "d + 1 + of_nat i \<noteq> s + 1 + of_nat j" using sep [rule_format, of "Suc i" "Suc j"] by (simp add: algebra_simps)
qed

lemma separate_0: "separate d (Suc n) s k \<Longrightarrow> j < k \<Longrightarrow> d \<noteq> s + of_nat j"
  unfolding separate_def by (drule spec [of _ 0]) auto

lemma apart_separate:
  assumes "apart d n s k"
  shows "separate d n s k"
  unfolding separate_def
proof (intro allI impI)
  fix i j assume ij: "i < n" "j < k"
  then have lt: "unat (s - d) + j < 2 ^ 64" "n \<le> unat (s - d)" using assms by (simp_all add: apart_def)
  then have "unat (s - d + of_nat j) = unat (s - d) + j" by (simp only: unat_add_offset)
  moreover have "unat (of_nat i :: u64) = i" using ij lt by (intro unat_of_nat_u64) simp
  ultimately have "s - d + of_nat j \<noteq> of_nat i" using ij lt(2) by auto
  moreover have "d + of_nat i = s + of_nat j \<Longrightarrow> s - d + of_nat j = of_nat i" by (simp add: algebra_simps)
  ultimately show "d + of_nat i \<noteq> s + of_nat j" by blast
qed

lemma cstr_upd:
  "cstr m a xs \<Longrightarrow> (\<And>j. j \<le> length xs \<Longrightarrow> d \<noteq> a + of_nat j) \<Longrightarrow> cstr (m(d := c)) a xs"
proof (induction xs arbitrary: a)
  case Nil
  then show ?case using Nil.prems(2) [of 0] by auto
next
  case (Cons x xs)
  have "cstr (m(d := c)) (a + 1) xs"
    by (rule Cons.IH) (use Cons.prems in \<open>auto dest: spec [of _ "Suc _"] simp: add.assoc, metis Suc_le_mono add.assoc of_nat_Suc\<close>)
  then show ?case using Cons.prems(1) Cons.prems(2) [of 0] by (simp del: fun_upd_apply) (simp add: fun_upd_apply)
qed

lemma strlcpy_loop_cstr:
  assumes "cstr m src xs" "separate dst n src (Suc (length xs))" "0 < n"
  shows "strlcpy_loop n dst src m =
    (if length xs + 1 < n
     then (n - 1 - length xs, dst + of_nat (length xs + 1), src + of_nat (length xs + 1), store_bytes dst (xs @ [0]) m)
     else (0, dst + of_nat (n - 1), src + of_nat (n - 1), store_bytes dst (take (n - 1) xs) m))"
  using assms
proof (induction n arbitrary: dst src m xs)
  case (Suc n)
  show ?case
  proof (cases n)
    case 0
    then show ?thesis by simp
  next
    case n: (Suc n')
    show ?thesis
    proof (cases xs)
      case Nil
      then show ?thesis using Suc.prems n by simp
    next
      case (Cons x xs')
      have x: "m src = x" "x \<noteq> 0" "cstr m (src + 1) xs'" using Suc.prems(1) Cons by auto
      have sep: "separate (dst + 1) n (src + 1) (Suc (length xs'))"
        using separate_Suc [of dst n src "Suc (length xs')"] Suc.prems(2) Cons by simp
      have "cstr (m(dst := x)) (src + 1) xs'"
      proof (rule cstr_upd [OF x(3)])
        fix j assume "j \<le> length xs'"
        then show "dst \<noteq> src + 1 + of_nat j"
          using separate_0 [OF Suc.prems(2), of "Suc j"] Cons by (simp add: add.assoc)
      qed
      moreover have "strlcpy_loop (Suc n) dst src m = strlcpy_loop n (dst + 1) (src + 1) (m(dst := x))"
        using x(1,2) n by (subst strlcpy_loop.simps) (simp add: Let_def del: strlcpy_loop.simps)
      moreover have "0 < n" using n by simp
      ultimately have "strlcpy_loop (Suc n) dst src m = (if length xs' + 1 < n
         then (n - 1 - length xs', dst + 1 + of_nat (length xs' + 1), src + 1 + of_nat (length xs' + 1),
           store_bytes (dst + 1) (xs' @ [0]) (m(dst := x)))
         else (0, dst + 1 + of_nat (n - 1), src + 1 + of_nat (n - 1), store_bytes (dst + 1) (take (n - 1) xs') (m(dst := x))))"
        using Suc.IH [of "m(dst := x)" "src + 1" xs' "dst + 1"] sep by (simp del: strlcpy_loop.simps fun_upd_apply)
      then show ?thesis
        using n Cons by (simp add: add.assoc del: strlcpy_loop.simps fun_upd_apply)
    qed
  qed
qed simp

lemma skip_string_cstr:
  "cstr m a xs \<Longrightarrow> length xs < fuel \<Longrightarrow> skip_string fuel a m = Inr (a + of_nat (length xs) + 1)"
proof (induction fuel arbitrary: a xs)
  case (Suc fuel)
  then show ?case by (cases xs) (auto simp: add.assoc)
qed simp

lemma cstr_drop: "cstr m a xs \<Longrightarrow> k \<le> length xs \<Longrightarrow> cstr m (a + of_nat k) (drop k xs)"
proof (induction k arbitrary: a xs)
  case (Suc k)
  then show ?case using Suc.IH [of "a + 1"] by (cases xs) (auto simp: add.assoc)
qed simp

lemma cstr_store_bytes:
  "cstr m a xs \<Longrightarrow> (\<And>i j. i < length bs \<Longrightarrow> j \<le> length xs \<Longrightarrow> d + of_nat i \<noteq> a + of_nat j) \<Longrightarrow> cstr (store_bytes d bs m) a xs"
proof (induction bs arbitrary: d m)
  case (Cons b bs)
  have "cstr (m(d := b)) a xs" by (rule cstr_upd [OF Cons.prems(1)]) (use Cons.prems(2) [of 0] in auto)
  then have "cstr (store_bytes (d + 1) bs (m(d := b))) a xs"
    by (rule Cons.IH) (use Cons.prems(2) [of "Suc _"] in \<open>auto simp: add.assoc\<close>)
  then show ?case by simp
qed simp

text \<open>
  Property C21. \<^verbatim>\<open>strlcpy\<close> of a string into a buffer that does not overlap it returns the
  length of the string and writes the longest prefix that leaves room for the terminator,
  followed by the terminator, and not a byte more: nothing for a buffer of size 0, and never
  beyond the \<^verbatim>\<open>dsize\<close> bytes of the buffer.
\<close>
theorem strlcpy_correct:
  assumes "cstr m src xs" "separate dst (unat dsize) src (Suc (length xs))" "length xs < fuel"
  shows "strlcpy fuel dst src dsize m =
    Inr (of_nat (length xs), if dsize = 0 then m else store_bytes dst (take (unat dsize - 1) xs @ [0]) m)"
proof (cases "dsize = 0")
  case True
  then show ?thesis using skip_string_cstr [OF assms(1,3)] by (simp add: strlcpy_def)
next
  case False
  then have n: "0 < unat dsize" by (simp add: unat_gt_0)
  let ?n = "unat dsize"
  show ?thesis
  proof (cases "length xs + 1 < ?n")
    case True
    then show ?thesis
      using strlcpy_loop_cstr [OF assms(1,2) n] False by (simp add: strlcpy_def)
  next
    case long: False
    let ?k = "?n - 1"
    let ?m = "store_bytes dst (take ?k xs @ [0]) m"
    have k: "?k \<le> length xs" "length (take ?k xs @ [0]) = ?n" using long n by auto
    have "cstr ?m src xs"
    proof (rule cstr_store_bytes [OF assms(1)])
      fix i j assume "i < length (take ?k xs @ [0])" "j \<le> length xs"
      then show "dst + of_nat i \<noteq> src + of_nat j" using assms(2) k(2) by (simp add: separate_def)
    qed
    then have "cstr ?m (src + of_nat ?k) (drop ?k xs)" using k(1) by (rule cstr_drop)
    then have "skip_string fuel (src + of_nat ?k) ?m = Inr (src + of_nat ?k + of_nat (length xs - ?k) + 1)"
      using skip_string_cstr [of ?m _ "drop ?k xs" fuel] assms(3) by simp
    moreover have "of_nat ?k + of_nat (length xs - ?k) = (of_nat (length xs) :: u64)"
      using k(1) by (simp flip: of_nat_add)
    moreover have "(store_bytes dst (take ?k xs) m)(dst + of_nat ?k := 0) = ?m"
      using k(1) by (simp add: store_bytes_append)
    ultimately show ?thesis
      using strlcpy_loop_cstr [OF assms(1,2) n] long False by (simp add: strlcpy_def add.assoc)
  qed
qed

theorem strlcpy_correct_witness:
  "strlcpy 4 0x1000 0x2000 3 (store_bytes 0x2000 [73, 68, 76, 0] (\<lambda>_. 0)) =
     Inr (3, store_bytes 0x1000 [73, 68, 0] (store_bytes 0x2000 [73, 68, 76, 0] (\<lambda>_. 0)))"
proof -
  have "cstr (store_bytes 0x2000 [73, 68, 76, 0] (\<lambda>_. 0)) 0x2000 [73, 68, 76]" by simp
  moreover have "separate 0x1000 (unat (3 :: u64)) 0x2000 (Suc (length [73 :: u8, 68, 76]))"
    by (rule apart_separate) (simp add: apart_def)
  ultimately show ?thesis using strlcpy_correct [of _ "0x2000" "[73, 68, 76]" "0x1000" 3 4] by (simp del: store_bytes.simps)
qed

end
