(* ===== verification/Printf.thy ===== *)
theory Printf
  imports Libc_String_Props
begin

text \<open>
  Formatted output into a buffer (\<^verbatim>\<open>lib/libc/stdio/snprintf.c\<close>).

  The variable arguments are a list of 64-bit values in the order in which \<^verbatim>\<open>va_arg\<close> takes
  them; taking one that is not there is a fault of the model. The format and the arguments of
  \<^verbatim>\<open>%s\<close> are strings in memory, read while the buffer is written. Fuel bounds the characters
  read from one string.
\<close>

section \<open>Writing characters\<close>

text \<open>
  \<^verbatim>\<open>set_ch\<close> stores a character and returns from \<^verbatim>\<open>vsnprintf\<close> when it has written the
  last byte of the buffer, which it replaces by the terminator (\<open>Full\<close>).
\<close>

datatype pr_out = Full memory | More u64 memory

definition set_ch :: "addr_t \<Rightarrow> size_t \<Rightarrow> u8 \<Rightarrow> u64 \<Rightarrow> memory \<Rightarrow> pr_out" where
  "set_ch str sz ch pos m =
     (let m = m(str + pos := ch); pos = pos + 1 in
      if pos = sz then Full (m(str + (sz - 1) := 0)) else More pos m)"

fun put_chars :: "addr_t \<Rightarrow> size_t \<Rightarrow> u8 list \<Rightarrow> u64 \<Rightarrow> memory \<Rightarrow> pr_out" where
  "put_chars str sz [] pos m = More pos m"
| "put_chars str sz (c # cs) pos m =
     (case set_ch str sz c pos m of
        Full m \<Rightarrow> Full m
      | More pos m \<Rightarrow> put_chars str sz cs pos m)"

text \<open>The loop of \<^verbatim>\<open>%s\<close>.\<close>

fun put_string :: "nat \<Rightarrow> addr_t \<Rightarrow> size_t \<Rightarrow> addr_t \<Rightarrow> u64 \<Rightarrow> memory \<Rightarrow> pr_out result" where
  "put_string 0 str sz s pos m = Inl Hang"
| "put_string (Suc fuel) str sz s pos m =
     (if m s \<noteq> 0 then
        (case set_ch str sz (m s) pos m of
           Full m \<Rightarrow> Inr (Full m)
         | More pos m \<Rightarrow> put_string fuel str sz (s + 1) pos m)
      else Inr (More pos m))"

section \<open>Numbers\<close>

definition FLAG_ZEROPAD :: u32 where "FLAG_ZEROPAD = 0x002"
definition FLAG_NEG :: u32 where "FLAG_NEG = 0x100"

text \<open>\<^verbatim>\<open>digits\<close>\<close>

definition digit_char :: "u64 \<Rightarrow> u8" where
  "digit_char d = (if d < 10 then 48 + ucast d else 97 + ucast (d - 10))"

text \<open>
  The loop that fills \<^verbatim>\<open>buf\<close> with the digits, lowest first; the fuel is the room left in
  the 25 bytes of \<^verbatim>\<open>buf\<close>.
\<close>

fun digits_loop :: "nat \<Rightarrow> u64 \<Rightarrow> u64 \<Rightarrow> u8 list result" where
  "digits_loop 0 base u = (if u > 0 then Inl (BadPointer ''buf'') else Inr [])"
| "digits_loop (Suc room) base u =
     (if u > 0 then rbind (digits_loop room base (u div base)) (\<lambda>ds. Inr (digit_char (u mod base) # ds))
      else Inr [])"

definition number_digits :: "u64 \<Rightarrow> u64 \<Rightarrow> u8 list result" where
  "number_digits base u =
     rbind (digits_loop 25 base u) (\<lambda>ds. Inr (if ds = [] then [48] else ds))"

text \<open>What the three branches after the digits write. The second one is always taken for a positive width.\<close>

definition number_chars :: "u32 \<Rightarrow> u64 \<Rightarrow> u8 list \<Rightarrow> u8 list" where
  "number_chars flag width buf =
     (let sign = (if flag AND FLAG_NEG \<noteq> 0 then [45] else []);
          pad = (\<lambda>p buf. map (\<lambda>w. if w \<ge> length buf then p else buf ! w) (rev [0..<nat (sint width)])) in
      if width = 0 then sign @ rev buf
      else if sint width > 0 \<and> flag OR FLAG_ZEROPAD \<noteq> 0 then sign @ pad 48 buf
      else if sint width > 0 then pad 32 (buf @ sign)
      else [])"

section \<open>Conversions\<close>

fun scan_width :: "nat \<Rightarrow> u64 \<Rightarrow> addr_t \<Rightarrow> memory \<Rightarrow> (u64 \<times> addr_t) result" where
  "scan_width 0 width fmt m = Inl Hang"
| "scan_width (Suc fuel) width fmt m =
     (if isdigit (sint (m fmt)) then
        scan_width fuel (width * 10 + (of_int (sint (m fmt)) - 48)) (fmt + 1) m
      else Inr (width, fmt))"

datatype conversion = Conv_Full memory | Conv_Next addr_t "u64 list" u32 u64 u64 memory

text \<open>The end of a conversion: the flags and the width are reset.\<close>

definition conv_next :: "addr_t \<Rightarrow> u64 list \<Rightarrow> pr_out \<Rightarrow> conversion" where
  "conv_next fmt args out = (case out of
       Full m \<Rightarrow> Conv_Full m
     | More pos m \<Rightarrow> Conv_Next fmt args 0 0 pos m)"

definition va_arg :: "u64 list \<Rightarrow> (u64 \<times> u64 list) result" where
  "va_arg args = (case args of [] \<Rightarrow> Inl (BadPointer ''va_arg'') | a # args \<Rightarrow> Inr (a, args))"

definition conv_uint :: "addr_t \<Rightarrow> size_t \<Rightarrow> u64 \<Rightarrow> u64 \<Rightarrow> addr_t \<Rightarrow> u64 list \<Rightarrow> u32 \<Rightarrow> u64 \<Rightarrow> u64 \<Rightarrow> memory \<Rightarrow>
    conversion result" where
  "conv_uint str sz base u fmt args flag width pos m =
     rbind (number_digits base u) (\<lambda>buf.
     Inr (conv_next (fmt + 1) args (put_chars str sz (number_chars flag width buf) pos m)))"

text \<open>The switch at \<^verbatim>\<open>fmt_loop\<close>, with \<open>fmt\<close> behind the percent sign.\<close>

fun convert :: "nat \<Rightarrow> addr_t \<Rightarrow> size_t \<Rightarrow> addr_t \<Rightarrow> u64 list \<Rightarrow> u32 \<Rightarrow> u64 \<Rightarrow> u64 \<Rightarrow> memory \<Rightarrow> conversion result" where
  "convert 0 str sz fmt args flag width pos m = Inl Hang"
| "convert (Suc fuel) str sz fmt args flag width pos m =
     (let c = m fmt in
      if c = 100 then \<comment> \<open>d\<close>
        rbind (va_arg args) (\<lambda>(a, args).
        if sint a < 0 then conv_uint str sz 10 (- a) fmt args (flag OR FLAG_NEG) width pos m
        else conv_uint str sz 10 a fmt args flag width pos m)
      else if c = 111 then \<comment> \<open>o\<close>
        rbind (va_arg args) (\<lambda>(a, args). conv_uint str sz 8 a fmt args flag width pos m)
      else if c = 120 \<or> c = 112 then \<comment> \<open>x, p\<close>
        rbind (va_arg args) (\<lambda>(a, args). conv_uint str sz 16 a fmt args flag width pos m)
      else if c = 117 then \<comment> \<open>u\<close>
        rbind (va_arg args) (\<lambda>(a, args). conv_uint str sz 10 a fmt args flag width pos m)
      else if c = 99 then \<comment> \<open>c\<close>
        rbind (va_arg args) (\<lambda>(a, args). Inr (conv_next (fmt + 1) args (set_ch str sz (ucast a) pos m)))
      else if c = 115 then \<comment> \<open>s\<close>
        rbind (va_arg args) (\<lambda>(a, args).
        rbind (put_string fuel str sz a pos m) (\<lambda>out. Inr (conv_next (fmt + 1) args out)))
      else if c = 37 then \<comment> \<open>percent\<close>
        Inr (conv_next (fmt + 1) args (set_ch str sz 37 pos m))
      else if c = 48 then \<comment> \<open>0\<close>
        convert fuel str sz (fmt + 1) args (flag OR FLAG_ZEROPAD) width pos m
      else if 49 \<le> c \<and> c \<le> 57 then \<comment> \<open>1 to 9\<close>
        rbind (scan_width fuel width fmt m) (\<lambda>(width, fmt). convert fuel str sz fmt args flag width pos m)
      else
        \<comment> \<open>the jump to \<open>print_default\<close>, past the reset of flags and width\<close>
        case set_ch str sz 37 pos m of
          Full m \<Rightarrow> Inr (Conv_Full m)
        | More pos m \<Rightarrow>
            (case set_ch str sz (m fmt) pos m of
               Full m \<Rightarrow> Inr (Conv_Full m)
             | More pos m \<Rightarrow> Inr (Conv_Next (fmt + 1) args flag width pos m)))"

section \<open>vsnprintf\<close>

fun vsnprintf_loop :: "nat \<Rightarrow> addr_t \<Rightarrow> size_t \<Rightarrow> addr_t \<Rightarrow> u64 list \<Rightarrow> u32 \<Rightarrow> u64 \<Rightarrow> u64 \<Rightarrow> memory \<Rightarrow>
    (u32 \<times> memory) result" where
  "vsnprintf_loop 0 str sz fmt args flag width pos m = Inl Hang"
| "vsnprintf_loop (Suc fuel) str sz fmt args flag width pos m =
     (if m fmt = 0 then
        (case set_ch str sz 0 pos m of
           Full m \<Rightarrow> Inr (ucast sz, m)
         | More pos m \<Rightarrow> Inr (ucast (pos - 1), m))
      else if m fmt = 37 then
        rbind (convert fuel str sz (fmt + 1) args flag width pos m) (\<lambda>r.
        case r of
          Conv_Full m \<Rightarrow> Inr (ucast sz, m)
        | Conv_Next fmt args flag width pos m \<Rightarrow> vsnprintf_loop fuel str sz fmt args flag width pos m)
      else
        (case set_ch str sz (m fmt) pos m of
           Full m \<Rightarrow> Inr (ucast sz, m)
         | More pos m \<Rightarrow> vsnprintf_loop fuel str sz (fmt + 1) args flag width pos m))"

definition vsnprintf :: "nat \<Rightarrow> addr_t \<Rightarrow> size_t \<Rightarrow> addr_t \<Rightarrow> u64 list \<Rightarrow> memory \<Rightarrow> (u32 \<times> memory) result" where
  "vsnprintf fuel str sz fmt ap m = vsnprintf_loop fuel str sz fmt ap 0 0 0 m"

definition snprintf :: "nat \<Rightarrow> addr_t \<Rightarrow> size_t \<Rightarrow> addr_t \<Rightarrow> u64 list \<Rightarrow> memory \<Rightarrow> (u32 \<times> memory) result" where
  "snprintf fuel str sz fmt ap m = vsnprintf fuel str sz fmt ap m"

section \<open>The buffer is the only memory written\<close>

text \<open>\<open>buffer_frame str sz m m'\<close>: no byte outside the buffer differs.\<close>

definition buffer_frame :: "addr_t \<Rightarrow> size_t \<Rightarrow> memory \<Rightarrow> memory \<Rightarrow> bool" where
  "buffer_frame str sz m m' \<longleftrightarrow> (\<forall>x. unat sz \<le> unat (x - str) \<longrightarrow> m' x = m x)"

definition out_ok :: "addr_t \<Rightarrow> size_t \<Rightarrow> memory \<Rightarrow> pr_out \<Rightarrow> bool" where
  "out_ok str sz m out = (case out of
       Full m' \<Rightarrow> buffer_frame str sz m m' \<and> m' (str + (sz - 1)) = 0
     | More pos m' \<Rightarrow> buffer_frame str sz m m' \<and> pos < sz)"

fun conv_ok :: "addr_t \<Rightarrow> size_t \<Rightarrow> memory \<Rightarrow> conversion \<Rightarrow> bool" where
  "conv_ok str sz m (Conv_Full m') = (buffer_frame str sz m m' \<and> m' (str + (sz - 1)) = 0)"
| "conv_ok str sz m (Conv_Next fmt args flag width pos m') = (buffer_frame str sz m m' \<and> pos < sz)"

lemma out_ok_simps [simp]:
  "out_ok str sz m (Full m') \<longleftrightarrow> buffer_frame str sz m m' \<and> m' (str + (sz - 1)) = 0"
  "out_ok str sz m (More pos m') \<longleftrightarrow> buffer_frame str sz m m' \<and> pos < sz"
  by (simp_all add: out_ok_def)

lemma buffer_frame_refl [simp]: "buffer_frame str sz m m"
  by (simp add: buffer_frame_def)

lemma buffer_frame_trans: "buffer_frame str sz m m' \<Longrightarrow> buffer_frame str sz m' m'' \<Longrightarrow> buffer_frame str sz m m''"
  by (simp add: buffer_frame_def)

lemma buffer_frame_upd: "pos < sz \<Longrightarrow> buffer_frame str sz m (m(str + pos := c))"
  by (auto simp: buffer_frame_def word_less_nat_alt)

lemma out_ok_trans: "buffer_frame str sz m m' \<Longrightarrow> out_ok str sz m' out \<Longrightarrow> out_ok str sz m out"
  by (auto simp: out_ok_def split: pr_out.splits intro: buffer_frame_trans)

lemma set_ch_ok: "pos < sz \<Longrightarrow> out_ok str sz m (set_ch str sz c pos m)"
proof -
  assume pos: "pos < sz"
  then have "sz \<noteq> 0" by auto
  then have "sz - 1 < sz" by (simp add: word_less_nat_alt unat_minus_one unat_gt_0)
  moreover have "pos + 1 \<noteq> sz \<Longrightarrow> pos + 1 < sz"
    using pos inc_le [of pos sz] by (simp add: order_less_le)
  ultimately show ?thesis
    using buffer_frame_upd [OF pos, of str m c] buffer_frame_upd [of "sz - 1" sz str "m(str + pos := c)" 0]
    by (auto simp: set_ch_def Let_def simp del: fun_upd_apply intro: buffer_frame_trans)
       (auto intro: buffer_frame_trans)
qed

lemma put_chars_ok: "pos < sz \<Longrightarrow> out_ok str sz m (put_chars str sz cs pos m)"
proof (induction cs arbitrary: pos m)
  case (Cons c cs)
  show ?case
  proof (cases "set_ch str sz c pos m")
    case (More p1 m1)
    then show ?thesis using set_ch_ok [OF Cons.prems, of str m c] Cons.IH [of p1 m1] by (auto intro: out_ok_trans)
  qed (use set_ch_ok [OF Cons.prems, of str m c] in simp)
qed simp

lemma put_string_ok: "pos < sz \<Longrightarrow> put_string fuel str sz s pos m = Inr out \<Longrightarrow> out_ok str sz m out"
proof (induction fuel arbitrary: s pos m)
  case (Suc fuel)
  show ?case
  proof (cases "m s = 0")
    case True
    then show ?thesis using Suc.prems by auto
  next
    case False
    note ok = set_ch_ok [OF Suc.prems(1), of str m "m s"]
    show ?thesis
    proof (cases "set_ch str sz (m s) pos m")
      case (Full m')
      then show ?thesis using Suc.prems(2) False ok by auto
    next
      case (More p1 m1)
      then show ?thesis using Suc.IH [of p1 "s + 1" m1] Suc.prems(2) False ok by (auto intro: out_ok_trans)
    qed
  qed
qed simp

lemma conv_next_ok: "out_ok str sz m out \<Longrightarrow> conv_ok str sz m (conv_next fmt args out)"
  by (cases out) (auto simp: conv_next_def)

lemma conv_uint_ok:
  "pos < sz \<Longrightarrow> conv_uint str sz base u fmt args flag width pos m = Inr r \<Longrightarrow> conv_ok str sz m r"
  by (auto simp: conv_uint_def elim!: rbindE intro: conv_next_ok put_chars_ok)

lemma default_ok:
  assumes "pos < sz"
    and "(case set_ch str sz c pos m of
          Full m \<Rightarrow> Inr (Conv_Full m)
        | More pos m \<Rightarrow>
            (case set_ch str sz (d m) pos m of
               Full m \<Rightarrow> Inr (Conv_Full m)
             | More pos m \<Rightarrow> Inr (Conv_Next fmt args flag width pos m))) = (Inr r :: conversion result)"
  shows "conv_ok str sz m r"
proof (cases "set_ch str sz c pos m")
  case (More p1 m1)
  then show ?thesis
    using assms set_ch_ok [OF assms(1), of str m c] set_ch_ok [of p1 sz str m1 "d m1"]
    by (auto split: pr_out.split_asm intro: buffer_frame_trans)
qed (use assms set_ch_ok [OF assms(1), of str m c] in auto)

lemma convert_ok:
  "pos < sz \<Longrightarrow> convert fuel str sz fmt args flag width pos m = Inr r \<Longrightarrow> conv_ok str sz m r"
proof (induction fuel arbitrary: fmt flag width)
  case (Suc fuel)
  from Suc.prems show ?case
    by (simp only: convert.simps Let_def)
       (auto elim!: rbindE split: if_split_asm prod.split_asm
         intro: conv_uint_ok conv_next_ok set_ch_ok put_string_ok Suc.IH default_ok)
qed simp

lemma vsnprintf_loop_ok:
  "pos < sz \<Longrightarrow> vsnprintf_loop fuel str sz fmt args flag width pos m = Inr (r, m') \<Longrightarrow>
   buffer_frame str sz m m' \<and> (\<exists>i. i < sz \<and> m' (str + i) = 0 \<and> (r = ucast i \<or> r = ucast sz \<and> i = sz - 1))"
proof (induction fuel arbitrary: fmt args flag width pos m)
  case (Suc fuel)
  have "sz \<noteq> 0" using Suc.prems(1) by auto
  then have last: "sz - 1 < sz" by (simp add: word_less_nat_alt unat_minus_one unat_gt_0)
  note set_ok = set_ch_ok [OF Suc.prems(1), of str m]
  show ?case
  proof (cases "m fmt = 0")
    case True
    show ?thesis
    proof (cases "set_ch str sz 0 pos m")
      case (Full m1)
      then show ?thesis using Suc.prems(2) True set_ok [of 0] last by auto
    next
      case (More pos1 m1)
      then have "m1 (str + pos) = 0" "pos1 - 1 = pos" by (auto simp: set_ch_def Let_def split: if_splits)
      then show ?thesis using More Suc.prems True set_ok [of 0] by auto
    qed
  next
    case nz: False
    show ?thesis
    proof (cases "m fmt = 37")
      case True
      obtain c where c: "convert fuel str sz (fmt + 1) args flag width pos m = Inr c"
        using Suc.prems(2) True by (auto elim!: rbindE)
      note ok = convert_ok [OF Suc.prems(1) c]
      show ?thesis
      proof (cases c)
        case (Conv_Full m1)
        then show ?thesis using Suc.prems(2) True c ok last by auto
      next
        case (Conv_Next f1 a1 fl1 w1 p1 m1)
        then show ?thesis using Suc.prems(2) True c ok Suc.IH [of p1] by (auto intro: buffer_frame_trans)
      qed
    next
      case False
      show ?thesis
      proof (cases "set_ch str sz (m fmt) pos m")
        case (Full m1)
        then show ?thesis using Suc.prems(2) False nz set_ok [of "m fmt"] last by auto
      next
        case (More p1 m1)
        then show ?thesis
          using Suc.prems(2) False nz set_ok [of "m fmt"] Suc.IH [of p1] by (auto intro: buffer_frame_trans)
      qed
    qed
  qed
qed simp

section \<open>Every call with a complete format returns\<close>

text \<open>The 25 bytes of \<^verbatim>\<open>buf\<close> hold the digits of every 64-bit value in the bases used.\<close>

lemma digits_loop_room:
  "1 < base \<Longrightarrow> unat u < unat base ^ room \<Longrightarrow> room \<le> k \<Longrightarrow> \<exists>ds. digits_loop k base u = Inr ds"
proof (induction room arbitrary: u k)
  case 0
  then have "u = 0" by (simp add: unat_eq_0)
  then show ?case by (cases k) simp_all
next
  case (Suc room)
  obtain j where k: "k = Suc j" "room \<le> j" using Suc.prems(3) by (cases k) auto
  have "unat (u div base) < unat base ^ room"
    using Suc.prems(2) by (simp add: unat_div less_mult_imp_div_less mult.commute)
  then show ?case using Suc.IH [OF Suc.prems(1) _ k(2)] k(1) by fastforce
qed

lemma number_digits_total: "base \<in> {8, 10, 16} \<Longrightarrow> \<exists>ds. number_digits base u = Inr ds"
proof -
  assume base: "base \<in> {8, 10, 16}"
  have "unat u < 2 ^ 64" by (rule unat_less_u64)
  also have "(2 :: nat) ^ 64 \<le> unat base ^ 22" using base by auto
  finally have "\<exists>ds. digits_loop 25 base u = Inr ds" using base by (intro digits_loop_room [where room = 22]) auto
  then show ?thesis by (auto simp: number_digits_def)
qed

lemma conv_uint_total:
  "base \<in> {8, 10, 16} \<Longrightarrow> \<exists>out. conv_uint str sz base u fmt args flag width pos m = Inr (conv_next (fmt + 1) args out)"
  using number_digits_total [of base u] by (auto simp: conv_uint_def)

text \<open>A string is copied in at most as many rounds as the buffer has room, terminated or not.\<close>

lemma put_string_total: "pos < sz \<Longrightarrow> unat (sz - pos) < fuel \<Longrightarrow> \<exists>out. put_string fuel str sz s pos m = Inr out"
proof (induction fuel arbitrary: s pos m)
  case (Suc fuel)
  show ?case
  proof (cases "set_ch str sz (m s) pos m")
    case (Full m1)
    then show ?thesis by auto
  next
    case (More p1 m1)
    have p1: "p1 = pos + 1" "p1 < sz" using More set_ch_ok [OF Suc.prems(1), of str m "m s"]
      by (auto simp: set_ch_def Let_def split: if_splits)
    have "unat (sz - pos) = unat sz - unat pos" "unat (sz - p1) = unat sz - unat p1" "unat p1 = unat pos + 1"
      using Suc.prems(1) p1 unat_add_offset [of pos 1] unat_less_u64 [of sz]
      by (simp_all add: unat_sub word_le_less_eq word_less_nat_alt)
    then have "unat (sz - p1) < fuel" using Suc.prems by (simp add: word_less_nat_alt)
    then show ?thesis using Suc.IH [OF p1(2)] More by auto
  qed
qed simp

text \<open>
  The number of arguments a format takes; \<open>None\<close> when it ends inside a conversion. The flag tells
  whether the characters are behind a percent sign.
\<close>

fun format_args :: "bool \<Rightarrow> u8 list \<Rightarrow> nat option" where
  "format_args conv [] = (if conv then None else Some 0)"
| "format_args conv (c # cs) =
     (if \<not> conv then format_args (c = 37) cs
      else if c \<in> {100, 111, 120, 112, 117, 99, 115} then map_option Suc (format_args False cs)
      else format_args (48 \<le> c \<and> c \<le> 57) cs)"

text \<open>The rest of the format at \<open>fmt\<close>, out of reach of the writes to the buffer.\<close>

definition format_at :: "addr_t \<Rightarrow> size_t \<Rightarrow> memory \<Rightarrow> addr_t \<Rightarrow> u8 list \<Rightarrow> bool" where
  "format_at str sz m fmt cs \<longleftrightarrow> cstr m fmt cs \<and> separate str (unat sz) fmt (Suc (length cs))"

lemma format_at_Cons:
  assumes "format_at str sz m fmt (c # cs)"
  shows "m fmt = c" "c \<noteq> 0" "format_at str sz m (fmt + 1) cs"
proof -
  have "separate str (unat sz) (fmt + 1) (Suc (length cs))"
    unfolding separate_def
  proof (intro allI impI)
    fix i j assume "i < unat sz" "j < Suc (length cs)"
    then show "str + of_nat i \<noteq> fmt + 1 + of_nat j"
      using assms separate_D [of str "unat sz" fmt "Suc (Suc (length cs))" i "Suc j"] by (simp add: format_at_def add.assoc)
  qed
  then show "m fmt = c" "c \<noteq> 0" "format_at str sz m (fmt + 1) cs" using assms by (auto simp: format_at_def)
qed

lemma format_at_frame:
  "format_at str sz m fmt cs \<Longrightarrow> buffer_frame str sz m m' \<Longrightarrow> format_at str sz m' fmt cs"
proof (induction cs arbitrary: fmt)
  have out: "m' a = m a" if "separate str (unat sz) a (Suc k)" "buffer_frame str sz m m'" for a k
  proof -
    have "unat sz \<le> unat (a - str)"
    proof (rule ccontr)
      assume "\<not> unat sz \<le> unat (a - str)"
      then have "str + of_nat (unat (a - str)) \<noteq> a + of_nat 0" using that(1) by (intro separate_D) auto
      then show False by simp
    qed
    then show ?thesis using that(2) by (simp add: buffer_frame_def)
  qed
  {
    case Nil
    then show ?case using out [of fmt 0] by (simp add: format_at_def)
  next
    case (Cons c cs)
    have "m' fmt = m fmt" using Cons.prems out [of fmt "Suc (length cs)"] by (simp add: format_at_def)
    then show ?case using Cons.IH [OF format_at_Cons(3) [OF Cons.prems(1)] Cons.prems(2)] Cons.prems(1)
      by (simp add: format_at_def)
  }
qed

text \<open>What a conversion leaves: a shorter rest of the format, and enough arguments for it.\<close>

definition conv_rest :: "addr_t \<Rightarrow> size_t \<Rightarrow> nat \<Rightarrow> conversion \<Rightarrow> bool" where
  "conv_rest str sz k r = (case r of
       Conv_Full m \<Rightarrow> True
     | Conv_Next fmt args flag width pos m \<Rightarrow>
         pos < sz \<and> (\<exists>cs n. format_at str sz m fmt cs \<and> length cs < k \<and> format_args False cs = Some n \<and> n \<le> length args))"

lemma conv_rest_next:
  assumes "out_ok str sz m out" "format_at str sz m fmt cs" "length cs < k" "format_args False cs = Some n" "n \<le> length args"
  shows "conv_rest str sz k (conv_next fmt args out)"
  using assms format_at_frame [OF assms(2)] by (cases out) (auto simp: conv_rest_def conv_next_def)

lemma conv_rest_mono: "conv_rest str sz k r \<Longrightarrow> k \<le> k' \<Longrightarrow> conv_rest str sz k' r"
  by (cases r) (auto simp: conv_rest_def intro: less_le_trans)

lemma conv_uint_rest:
  assumes "base \<in> {8, 10, 16}" "pos < sz" "format_at str sz m (fmt + 1) cs" "length cs < k"
    "format_args False cs = Some n" "n \<le> length args"
  shows "\<exists>r. conv_uint str sz base u fmt args flag width pos m = Inr r \<and> conv_rest str sz k r"
proof -
  obtain ds where "number_digits base u = Inr ds" using number_digits_total [OF assms(1)] by blast
  then show ?thesis using conv_rest_next [OF put_chars_ok [OF assms(2)] assms(3-6)] by (simp add: conv_uint_def)
qed

lemma sint_digit: "isdigit (sint (c :: u8)) \<longleftrightarrow> 48 \<le> c \<and> c \<le> 57"
proof -
  have u: "0 \<le> uint c" "uint c < 256" using unsigned_less [of c, where 'a = int] by simp_all
  have s: "sint c = (uint c + 128) mod 256 - 128"
    using int_word_sint [of "uint c", where 'a = 8] by simp
  have w: "48 \<le> c \<longleftrightarrow> 48 \<le> uint c" "c \<le> 57 \<longleftrightarrow> uint c \<le> 57" by (simp_all add: word_le_def)
  have "(x + 128) mod 256 - 128 = (if x < 128 then x else x - 256)" if "0 \<le> x" "x < 256" for x :: int
  proof (cases "x < 128")
    case False
    have "(x + 128) mod 256 = (x - 128) mod 256" using mod_add_self2 [of "x - 128" 256] by (simp add: add.commute)
    then show ?thesis using that False by simp
  qed (use that in simp)
  from this [OF u] show ?thesis unfolding isdigit_def s w using u by (auto split: if_splits)
qed

text \<open>The width scan stays in the digits of the conversion.\<close>

lemma scan_width_total:
  assumes "format_at str sz m fmt cs" "format_args True cs = Some n" "length cs < fuel"
  shows "\<exists>w fmt' cs'. scan_width fuel width fmt m = Inr (w, fmt') \<and> format_at str sz m fmt' cs' \<and>
    length cs' \<le> length cs \<and> format_args True cs' = Some n"
  using assms
proof (induction fuel arbitrary: fmt cs width)
  case (Suc fuel)
  obtain c cs1 where cs: "cs = c # cs1" using Suc.prems(2) by (cases cs) auto
  note at = format_at_Cons [OF Suc.prems(1) [unfolded cs]]
  show ?case
  proof (cases "48 \<le> c \<and> c \<le> 57")
    case True
    then have "c \<notin> {100, 111, 120, 112, 117, 99, 115}" by auto
    then have "format_args True cs1 = Some n" using Suc.prems(2) True cs by simp
    from Suc.IH [OF at(3) this, of "width * 10 + (of_int (sint c) - 48)"] show ?thesis
      using Suc.prems(3) cs True at(1) by (fastforce simp: sint_digit)
  next
    case False
    then have "scan_width (Suc fuel) width fmt m = Inr (width, fmt)" using at(1) by (auto simp: sint_digit)
    then show ?thesis using Suc.prems by auto
  qed
qed simp

lemma unat_numeral_u8_48: "unat c = 48 \<Longrightarrow> c = (48 :: u8)"
  by (rule unsigned_word_eqI) simp

lemma convert_total:
  assumes "pos < sz" "format_at str sz m fmt cs" "format_args True cs = Some n" "n \<le> length args" "length cs + unat sz < fuel"
  shows "\<exists>r. convert fuel str sz fmt args flag width pos m = Inr r \<and> conv_rest str sz (length cs) r"
  using assms
proof (induction fuel arbitrary: fmt cs flag width)
  case (Suc fuel)
  note pos = \<open>pos < sz\<close>
  obtain c cs1 where cs: "cs = c # cs1" using Suc.prems(3) by (cases cs) auto
  note at = format_at_Cons [OF Suc.prems(2) [unfolded cs]]
  have len: "length cs1 < length cs" using cs by simp
  have fits: "unat (sz - pos) < fuel"
    using Suc.prems(5) cs pos by (simp add: unat_sub word_le_less_eq word_less_nat_alt)
  consider (arg) "c \<in> {100, 111, 120, 112, 117, 99, 115}" | (digit) "48 \<le> c" "c \<le> 57" | (percent) "c = 37"
    | (other) "c \<notin> {100, 111, 120, 112, 117, 99, 115}" "\<not> (48 \<le> c \<and> c \<le> 57)" "c \<noteq> 37" by blast
  then show ?case
  proof cases
    case arg
    then obtain n1 where n1: "format_args False cs1 = Some n1" "n = Suc n1" using Suc.prems(3) cs by auto
    obtain a as where as: "args = a # as" "n1 \<le> length as" using Suc.prems(4) n1(2) by (cases args) auto
    note uint = conv_uint_rest [OF _ pos at(3) len n1(1) as(2)]
    note chars = conv_rest_next [OF _ at(3) len n1(1) as(2)]
    obtain out where out: "put_string fuel str sz a pos m = Inr out" using put_string_total [OF pos fits] by blast
    show ?thesis using arg as(1) at(1) out uint [of 10] uint [of 8] uint [of 16]
      chars [OF set_ch_ok [OF pos]] chars [OF put_string_ok [OF pos out]]
      by (auto simp: va_arg_def Let_def)
  next
    case digit
    then have c: "c \<notin> {100, 111, 120, 112, 117, 99, 115, 37}" by auto
    have tail: "format_args True cs1 = Some n" using Suc.prems(3) cs digit c by simp
    show ?thesis
    proof (cases "c = 48")
      case True
      have "length cs1 + unat sz < fuel" using Suc.prems(5) cs by simp
      from Suc.IH [OF pos at(3) tail Suc.prems(4) this, of "flag OR FLAG_ZEROPAD" width] obtain r where
        "convert fuel str sz (fmt + 1) args (flag OR FLAG_ZEROPAD) width pos m = Inr r" "conv_rest str sz (length cs1) r" by blast
      then show ?thesis using conv_rest_mono [of str sz "length cs1" r "length cs"] len True at(1) by auto
    next
      case False
      have "length cs < fuel" using Suc.prems(5) pos by (auto simp: word_less_nat_alt)
      have "unat c \<noteq> 48" using False unat_numeral_u8_48 by blast
      then have lt: "49 \<le> c" using digit(1) by (simp add: word_le_nat_alt)
      obtain w fmt' cs' where sc: "scan_width fuel width fmt m = Inr (w, fmt')" "format_at str sz m fmt' cs'"
        "format_args True cs' = Some n" "length cs' < length cs"
      proof -
        obtain f where f: "fuel = Suc f" "length cs1 < f" using \<open>length cs < fuel\<close> cs by (cases fuel) auto
        show ?thesis
          using scan_width_total [OF at(3) tail f(2), of "width * 10 + (of_int (sint c) - 48)"] that f(1) at(1) digit cs
          by (fastforce simp: sint_digit)
      qed
      have "length cs' + unat sz < fuel" using Suc.prems(5) sc(4) by simp
      from Suc.IH [OF pos sc(2,3) Suc.prems(4) this, of flag w] obtain r where
        "convert fuel str sz fmt' args flag w pos m = Inr r" "conv_rest str sz (length cs') r" by blast
      then show ?thesis using conv_rest_mono [of str sz "length cs'" r "length cs"] sc lt digit(2) c at(1) by auto
    qed
  next
    case percent
    have "format_args False cs1 = Some n" using Suc.prems(3) cs percent by simp
    then show ?thesis using conv_rest_next [OF set_ch_ok [OF pos] at(3) len _ Suc.prems(4)] percent at(1) by auto
  next
    case other
    have e: "(48 \<le> c \<and> c \<le> 57) = False" using other(2) by blast
    have rest: "format_args False cs1 = Some n" using Suc.prems(3) other(1) unfolding cs format_args.simps e by simp
    have no: "c \<noteq> 48" "\<not> (49 \<le> c \<and> c \<le> 57)" using other(2) by (auto simp: word_le_nat_alt)
    let ?r = "(case set_ch str sz 37 pos m of
          Full m \<Rightarrow> Inr (Conv_Full m)
        | More pos m \<Rightarrow>
            (case set_ch str sz (m fmt) pos m of
               Full m \<Rightarrow> Inr (Conv_Full m)
             | More pos m \<Rightarrow> Inr (Conv_Next (fmt + 1) args flag width pos m))) :: conversion result"
    have "convert (Suc fuel) str sz fmt args flag width pos m = ?r"
      using other(1,3) no at(1) by (simp only: convert.simps Let_def) simp
    moreover have "\<exists>r. ?r = Inr r \<and> conv_rest str sz (length cs) r"
    proof (cases "set_ch str sz 37 pos m")
      case (Full m1)
      then show ?thesis by (simp add: conv_rest_def)
    next
      case (More p1 m1)
      have one: "p1 < sz" "format_at str sz m1 (fmt + 1) cs1"
        using set_ch_ok [OF pos, of str m 37] More format_at_frame [OF at(3)] by auto
      show ?thesis
      proof (cases "set_ch str sz (m1 fmt) p1 m1")
        case (Full m2)
        then show ?thesis using More by (simp add: conv_rest_def)
      next
        case (More p2 m2)
        have "p2 < sz" "format_at str sz m2 (fmt + 1) cs1"
          using set_ch_ok [OF one(1), of str m1 "m1 fmt"] More format_at_frame [OF one(2)] by auto
        then show ?thesis using More \<open>set_ch str sz 37 pos m = _\<close> len rest Suc.prems(4) by (auto simp: conv_rest_def)
      qed
    qed
    ultimately show ?thesis by (simp only:)
  qed
qed simp

lemma vsnprintf_loop_total:
  assumes "pos < sz" "format_at str sz m fmt cs" "format_args False cs = Some n" "n \<le> length args" "length cs + unat sz < fuel"
  shows "\<exists>r m'. vsnprintf_loop fuel str sz fmt args flag width pos m = Inr (r, m')"
  using assms
proof (induction fuel arbitrary: fmt cs args n flag width pos m)
  case (Suc fuel)
  note pos = \<open>pos < sz\<close>
  show ?case
  proof (cases cs)
    case Nil
    then have "m fmt = 0" using Suc.prems(2) by (simp add: format_at_def)
    then show ?thesis by (cases "set_ch str sz 0 pos m") auto
  next
    case (Cons c cs1)
    note at = format_at_Cons [OF Suc.prems(2) [unfolded Cons]]
    have fuel: "length cs1 + unat sz < fuel" using Suc.prems(5) Cons by simp
    show ?thesis
    proof (cases "c = 37")
      case True
      then have "format_args True cs1 = Some n" using Suc.prems(3) Cons by simp
      then obtain r where r: "convert fuel str sz (fmt + 1) args flag width pos m = Inr r" "conv_rest str sz (length cs1) r"
        using convert_total [OF pos at(3) _ Suc.prems(4) fuel] by blast
      show ?thesis
      proof (cases r)
        case (Conv_Full m1)
        then show ?thesis using r(1) at(1) True by auto
      next
        case (Conv_Next fmt' args' flag' width' pos' m1)
        then obtain cs' n' where c: "pos' < sz" "format_at str sz m1 fmt' cs'" "length cs' < length cs1"
          "format_args False cs' = Some n'" "n' \<le> length args'"
          using r(2) by (auto simp: conv_rest_def)
        then have "length cs' + unat sz < fuel" using fuel by simp
        then show ?thesis using Suc.IH [OF c(1,2,4,5)] r(1) Conv_Next at(1) True by auto
      qed
    next
      case False
      then have rest: "format_args False cs1 = Some n" using Suc.prems(3) Cons by simp
      show ?thesis
      proof (cases "set_ch str sz c pos m")
        case (Full m1)
        then show ?thesis using at(1,2) False by auto
      next
        case (More p1 m1)
        then have "p1 < sz" "format_at str sz m1 (fmt + 1) cs1"
          using set_ch_ok [OF pos, of str m c] format_at_frame [OF at(3)] by auto
        then show ?thesis using Suc.IH [OF _ _ rest Suc.prems(4) fuel] More at(1,2) False by auto
      qed
    qed
  qed
qed simp

section \<open>Numerals\<close>

text \<open>The value of a list of digit characters, continuing from \<open>a\<close>.\<close>

fun numeral_value :: "nat \<Rightarrow> u8 list \<Rightarrow> nat" where
  "numeral_value a [] = a"
| "numeral_value a (c # cs) = numeral_value (a * 10 + (unat c - 48)) cs"

definition digit_chars :: "u8 list \<Rightarrow> bool" where
  "digit_chars cs \<longleftrightarrow> (\<forall>c\<in>set cs. 48 \<le> c \<and> c \<le> 57)"

lemma numeral_value_snoc: "numeral_value a (xs @ [c]) = numeral_value a xs * 10 + (unat c - 48)"
  by (induction xs arbitrary: a) simp_all

lemma numeral_value_ge: "a \<le> numeral_value a cs"
proof (induction cs arbitrary: a)
  case (Cons c cs)
  have "a \<le> a * 10 + (unat c - 48)" by simp
  also have "\<dots> \<le> numeral_value (a * 10 + (unat c - 48)) cs" by (rule Cons)
  finally show ?case by simp
qed simp

lemma digit_char_decimal:
  assumes "d < 10"
  shows "unat (digit_char d) = 48 + unat d" "48 \<le> digit_char d" "digit_char d \<le> 57"
proof -
  have "unat d < 10" using assms by (simp add: word_less_nat_alt)
  then have u: "unat (ucast d :: u8) = unat d" by (simp add: unsigned_ucast_eq take_bit_nat_eq_self)
  show v: "unat (digit_char d) = 48 + unat d"
    using assms \<open>unat d < 10\<close> u by (simp add: digit_char_def unat_word_ariths)
  then show "48 \<le> digit_char d" "digit_char d \<le> 57" using \<open>unat d < 10\<close> by (simp_all add: word_le_nat_alt)
qed

lemma digits_loop_decimal:
  "unat u < 10 ^ room \<Longrightarrow> \<exists>ds. digits_loop (room + k) 10 u = Inr ds \<and> length ds \<le> room \<and> digit_chars ds \<and>
     numeral_value 0 (rev ds) = unat u \<and> (ds = [] \<longleftrightarrow> u = 0)"
proof (induction room arbitrary: u)
  case 0
  then have "u = 0" by (simp add: unat_eq_0)
  then show ?case by (cases k) (simp_all add: digit_chars_def)
next
  case (Suc room)
  show ?case
  proof (cases "u = 0")
    case True
    then show ?thesis by (simp add: digit_chars_def)
  next
    case False
    have "unat (u div 10) = unat u div 10" by (simp add: unat_div)
    then have "unat (u div 10) < 10 ^ room" using Suc.prems by simp
    from Suc.IH [OF this] obtain ds where ds: "digits_loop (room + k) 10 (u div 10) = Inr ds" "length ds \<le> room"
      "digit_chars ds" "numeral_value 0 (rev ds) = unat (u div 10)" by blast
    have md: "u mod 10 < 10" by (simp add: word_less_nat_alt unat_mod)
    have "numeral_value 0 (rev (digit_char (u mod 10) # ds)) = unat u"
      using ds(4) digit_char_decimal(1) [OF md] by (simp add: numeral_value_snoc unat_div unat_mod)
    moreover have "digits_loop (Suc room + k) 10 u = Inr (digit_char (u mod 10) # ds)"
      using ds(1) False by (simp add: word_gt_0)
    ultimately show ?thesis using ds digit_char_decimal [OF md] False by (auto simp: digit_chars_def)
  qed
qed

lemma number_digits_decimal:
  "\<exists>ds. number_digits 10 u = Inr ds \<and> ds \<noteq> [] \<and> length ds \<le> 20 \<and> digit_chars ds \<and> numeral_value 0 (rev ds) = unat u"
proof -
  have "unat u < 10 ^ 20" using unat_less_u64 [of u] by simp
  from digits_loop_decimal [OF this, of 5] obtain ds where ds: "digits_loop 25 10 u = Inr ds" "length ds \<le> 20"
    "digit_chars ds" "numeral_value 0 (rev ds) = unat u" "ds = [] \<longleftrightarrow> u = 0" by auto
  show ?thesis
  proof (cases "ds = []")
    case True
    then show ?thesis using ds by (simp add: number_digits_def digit_chars_def)
  next
    case False
    then show ?thesis using ds by (simp add: number_digits_def)
  qed
qed

section \<open>Reading a numeral\<close>

lemma digit_value_digit: "48 \<le> c \<Longrightarrow> c \<le> (57 :: u8) \<Longrightarrow> digit_value (uint c) = Some (int (unat c - 48))"
proof -
  assume c: "48 \<le> c" "c \<le> 57"
  then have "48 \<le> uint c" "uint c \<le> 57" by (simp_all add: word_le_def)
  moreover have "48 \<le> unat c" using c by (simp add: word_le_nat_alt)
  ultimately show ?thesis by (simp add: digit_value_def isdigit_def of_nat_diff)
qed

lemma strtoul_loop_digits:
  assumes "cstr m s cs" "digit_chars cs" "numeral_value (unat acc) cs < 2 ^ 64" "0 \<le> any" "length cs < fuel"
  shows "strtoul_loop fuel 10 (ULONG_MAX div 10) (uint (ULONG_MAX mod 10)) (uint (m s)) (s + 1) acc any m =
    Inr (of_nat (numeral_value (unat acc) cs), if cs = [] then any else 1, s + of_nat (length cs) + 1)"
  using assms
proof (induction cs arbitrary: s acc any fuel)
  case Nil
  then obtain n where "fuel = Suc n" by (cases fuel) auto
  then show ?case using Nil.prems by (simp add: digit_value_def isdigit_def isalpha_def)
next
  case (Cons c cs)
  obtain n where n: "fuel = Suc n" using Cons.prems by (cases fuel) auto
  have c: "m s = c" "48 \<le> c" "c \<le> 57" using Cons.prems by (auto simp: digit_chars_def)
  then have "48 \<le> unat c" "unat c \<le> 57" by (simp_all add: word_le_nat_alt)
  moreover have "uint c \<le> 57" using c(3) by (simp add: word_le_def)
  ultimately have uc: "48 \<le> unat c" "unat c \<le> 57" "uint c \<le> 57" by simp_all
  let ?d = "unat c - 48"
  let ?acc = "acc * 10 + of_int (int ?d)"
  have small: "unat acc * 10 + ?d < 2 ^ 64"
    using Cons.prems(3) numeral_value_ge [of "unat acc * 10 + ?d" cs] by simp
  have acc: "unat ?acc = unat acc * 10 + ?d"
  proof -
    have "?acc = of_nat (unat acc * 10 + ?d)" by simp
    then show ?thesis using small by (simp only: unat_of_nat_u64)
  qed
  have cut: "unat (ULONG_MAX div 10) = 1844674407370955161" "uint (ULONG_MAX mod 10) = 5"
    by (simp_all add: ULONG_MAX_def)
  have over: "\<not> (acc > ULONG_MAX div 10 \<or> (acc = ULONG_MAX div 10 \<and> int ?d > uint (ULONG_MAX mod 10)))"
  proof -
    have "unat acc \<le> 1844674407370955161" using small by simp
    moreover have "acc = ULONG_MAX div 10 \<Longrightarrow> ?d \<le> 5" using small cut(1) by simp
    ultimately show ?thesis using cut by (auto simp: word_less_nat_alt)
  qed
  have "strtoul_loop fuel 10 (ULONG_MAX div 10) (uint (ULONG_MAX mod 10)) (uint (m s)) (s + 1) acc any m =
    strtoul_loop n 10 (ULONG_MAX div 10) (uint (ULONG_MAX mod 10)) (uint (m (s + 1))) (s + 1 + 1) ?acc 1 m"
    using digit_value_digit [OF c(2,3)] over uc Cons.prems(4) c(1) n by (simp only: strtoul_loop.simps) (auto simp: Let_def)
  also have "\<dots> = Inr (of_nat (numeral_value (unat ?acc) cs), if cs = [] then 1 else 1, s + 1 + of_nat (length cs) + 1)"
    by (rule Cons.IH) (use Cons.prems acc n in \<open>auto simp: digit_chars_def\<close>)
  finally show ?case using acc by (simp add: add.assoc)
qed

section \<open>Properties\<close>

lemma put_chars_More:
  "unat pos + length cs < unat sz \<Longrightarrow>
   put_chars str sz cs pos m = More (pos + of_nat (length cs)) (store_bytes (str + pos) cs m)"
proof (induction cs arbitrary: pos m)
  case (Cons c cs)
  then have "unat (pos + 1) = unat pos + 1"
    using unat_less_u64 [of sz] unat_add_offset [of pos 1] by simp
  moreover from this have "pos + 1 \<noteq> sz" using Cons.prems by auto
  ultimately show ?case using Cons by (simp add: set_ch_def Let_def add.assoc fun_upd_def)
qed simp

lemma cstr_store_self:
  assumes "\<forall>x\<in>set xs. x \<noteq> 0" "length xs < 2 ^ 63"
  shows "cstr (store_bytes a (xs @ [0]) m) a xs"
proof -
  have len: "length (xs @ [0]) \<le> 2 ^ 64" using assms(2) by simp
  have "load_bytes a (length (xs @ [0])) (store_bytes a (xs @ [0]) m) = xs @ [0]"
    by (rule load_bytes_store_bytes_same [OF len refl])
  then have "load_bytes a (length xs) (store_bytes a (xs @ [0]) m) = xs"
    "store_bytes a (xs @ [0]) m (a + of_nat (length xs)) = 0"
    by (auto simp: load_bytes_def)
  then show ?thesis using cstr_append [of _ a xs "[]"] assms(1) by simp
qed

text \<open>
  Property C11. \<^verbatim>\<open>vsnprintf\<close> returns for every format that does not end inside a
  conversion and has its arguments, if the format does not lie in the buffer; it then has written
  nothing outside the buffer of at least one byte, and has left a terminated string in it whose end
  its result names, or the size when the buffer is full. Nothing is asked of the strings
  \<^verbatim>\<open>%s\<close> prints: they may overlap the buffer, and need no end. In particular the 25 bytes of
  \<^verbatim>\<open>buf\<close> never overflow.
\<close>
theorem vsnprintf_bounds:
  assumes "0 < sz" "cstr m fmt cs" "separate str (unat sz) fmt (Suc (length cs))"
    "format_args False cs = Some n" "n \<le> length ap" "length cs + unat sz < fuel"
  shows "\<exists>r m'. vsnprintf fuel str sz fmt ap m = Inr (r, m') \<and> (\<forall>x. unat sz \<le> unat (x - str) \<longrightarrow> m' x = m x) \<and>
    (\<exists>i. i < sz \<and> m' (str + i) = 0 \<and> (r = ucast i \<or> r = ucast sz \<and> i = sz - 1))"
proof -
  have "format_at str sz m fmt cs" using assms(2,3) by (simp add: format_at_def)
  from vsnprintf_loop_total [OF assms(1) this assms(4-6)] obtain r m' where
    "vsnprintf_loop fuel str sz fmt ap 0 0 0 m = Inr (r, m')" by blast
  moreover from vsnprintf_loop_ok [OF assms(1) this]
  have "buffer_frame str sz m m'" "\<exists>i. i < sz \<and> m' (str + i) = 0 \<and> (r = ucast i \<or> r = ucast sz \<and> i = sz - 1)" by blast+
  ultimately show ?thesis unfolding vsnprintf_def buffer_frame_def by blast
qed

text \<open>The format \<^verbatim>\<open>%5d%s\<close>, with a string that has no end within reach, into eight bytes.\<close>

theorem vsnprintf_bounds_witness:
  "\<exists>r m'. vsnprintf 14 0x1000 8 0x2000 [- 1, 0x3000] (store_bytes 0x2000 [37, 53, 100, 37, 115, 0] (\<lambda>_. 65)) = Inr (r, m') \<and>
     m' 0x1008 = 65 \<and> (\<exists>i. i < 8 \<and> m' (0x1000 + i) = 0)"
proof -
  let ?m = "store_bytes 0x2000 [37, 53, 100, 37, 115, 0] (\<lambda>_. 65)"
  have c: "cstr ?m 0x2000 [37, 53, 100, 37, 115]" by simp
  have s: "separate 0x1000 (unat (8 :: u64)) 0x2000 (Suc (length [37 :: u8, 53, 100, 37, 115]))"
    by (rule apart_separate) (simp add: apart_def)
  have f: "format_args False [37, 53, 100, 37, 115] = Some 2" by simp
  have "(0 :: u64) < 8" "2 \<le> length [- 1 :: u64, 0x3000]" "length [37 :: u8, 53, 100, 37, 115] + unat (8 :: u64) < 14" by simp_all
  from vsnprintf_bounds [OF this(1) c s f this(2,3)] obtain r m' where r: "vsnprintf 14 0x1000 8 0x2000 [- 1, 0x3000] ?m = Inr (r, m')"
    "\<forall>x. unat (8 :: u64) \<le> unat (x - 0x1000) \<longrightarrow> m' x = ?m x"
    "\<exists>i. i < 8 \<and> m' (0x1000 + i) = 0 \<and> (r = ucast i \<or> r = ucast (8 :: u64) \<and> i = 8 - 1)"
    by blast
  have "m' 0x1008 = ?m 0x1008" using r(2) [rule_format, of "0x1008"] by (simp del: store_bytes.simps)
  also have "\<dots> = 65" by simp
  finally show ?thesis using r(1,3) by blast
qed

lemma vsnprintf_u:
  assumes "cstr m fmt [37, 117]" "21 \<le> unat sz" "separate str (unat sz) fmt 3" "1 < fuel"
  shows "\<exists>n cs. vsnprintf fuel str sz fmt [v] m = Inr (n, store_bytes str (cs @ [0]) m) \<and> cs \<noteq> [] \<and>
    length cs \<le> 20 \<and> digit_chars cs \<and> numeral_value 0 cs = unat v"
proof -
  obtain f where f: "fuel = Suc (Suc f)" using assms(4) less_iff_Suc_add by auto
  obtain ds where ds: "number_digits 10 v = Inr ds" "ds \<noteq> []" "length ds \<le> 20" "digit_chars ds" "numeral_value 0 (rev ds) = unat v"
    using number_digits_decimal by blast
  let ?cs = "rev ds" and ?p = "of_nat (length ds) :: u64"
  let ?m = "store_bytes str ?cs m"
  have fm: "m fmt = 37" "m (fmt + 1) = 117" "m (fmt + 2) = 0" using assms(1) by (auto simp: add.assoc)
  have put: "put_chars str sz ?cs 0 m = More ?p ?m"
    using put_chars_More [of 0 ?cs sz str m] ds(3) assms(2) by simp
  have "cstr ?m (fmt + 2) []"
  proof (rule cstr_store_bytes)
    fix i j assume i: "i < length ?cs" and j: "j \<le> length ([] :: u8 list)"
    have "i < unat sz" using i assms(2) ds(3) by simp
    then have "str + of_nat i \<noteq> fmt + of_nat 2" using separate_D [OF assms(3), of i 2] by simp
    moreover have "j = 0" using j by simp
    ultimately show "str + of_nat i \<noteq> fmt + 2 + of_nat j" by simp
  qed (use fm in simp)
  then have z: "?m (fmt + 2) = 0" by simp
  have up: "unat ?p = length ds" using ds(3) by (intro unat_of_nat_u64) simp
  have last: "?p + 1 = sz \<Longrightarrow> sz - 1 = ?p" by auto
  have one: "vsnprintf fuel str sz fmt [v] m = vsnprintf_loop (Suc f) str sz (fmt + 2) [] 0 0 ?p ?m"
    using fm ds(1) put f
    by (simp add: vsnprintf_def va_arg_def conv_uint_def number_chars_def conv_next_def add.assoc del: put_chars.simps)
  have "\<exists>n. vsnprintf_loop (Suc f) str sz (fmt + 2) [] 0 0 ?p ?m = Inr (n, ?m(str + ?p := 0))"
    using z last by (auto simp: set_ch_def Let_def)
  moreover have "?m(str + ?p := 0) = store_bytes str (?cs @ [0]) m" by (simp add: store_bytes_append)
  ultimately show ?thesis using one ds by (metis length_rev rev_is_Nil_conv digit_chars_def set_rev)
qed

text \<open>
  Property C13. What \<^verbatim>\<open>snprintf(str, sz, "%u", v)\<close> prints, \<^verbatim>\<open>strtoul(str, 0, 10)\<close>
  reads back as \<open>v\<close>, for every 64-bit value and every buffer of at least 21 bytes that does not
  overlap the format; both calls return.
\<close>
theorem print_parse_roundtrip:
  assumes "cstr m fmt [37, 117]" "21 \<le> unat sz" "separate str (unat sz) fmt 3" "20 < fuel"
  shows "\<exists>n m'. snprintf fuel str sz fmt [v] m = Inr (n, m') \<and> strtoul fuel str 0 10 m' = Inr (v, m')"
proof -
  obtain n cs where r: "vsnprintf fuel str sz fmt [v] m = Inr (n, store_bytes str (cs @ [0]) m)" "cs \<noteq> []"
    "length cs \<le> 20" "digit_chars cs" "numeral_value 0 cs = unat v"
    using vsnprintf_u [OF assms(1-3), of fuel v] assms(4) by auto
  let ?m = "store_bytes str (cs @ [0]) m"
  have "\<forall>x\<in>set cs. x \<noteq> 0" using r(4) by (auto simp: digit_chars_def)
  then have c: "cstr ?m str cs" using r(3) by (intro cstr_store_self) simp_all
  then obtain d ds where d: "cs = d # ds" "?m str = d" "48 \<le> d" "d \<le> 57"
    using r(2,4) by (cases cs) (auto simp: digit_chars_def)
  then have u: "48 \<le> uint d" "uint d \<le> 57" by (simp_all add: word_le_def)
  obtain f where f: "fuel = Suc f" using assms(4) by (cases fuel) auto
  have "skip_space fuel str ?m = Inr (uint d, str + 1)" using d(2) u f by (auto simp: isspace_def)
  moreover have "strtoul_prefix (uint d) (str + 1) 10 ?m = (uint d, str + 1, False, 10)"
    using u by (simp add: strtoul_prefix_def)
  moreover have "strtoul_loop fuel 10 (ULONG_MAX div 10) (uint (ULONG_MAX mod 10)) (uint (?m str)) (str + 1) 0 0 ?m =
    Inr (v, 1, str + of_nat (length cs) + 1)"
    using strtoul_loop_digits [OF c r(4), of 0 0 fuel] r(2,3,5) assms(4) unat_less_u64 [of v] by simp
  ultimately have "strtoul fuel str 0 10 ?m = Inr (v, ?m)"
    using d(2) by (simp add: strtoul_def del: store_bytes.simps)
  then show ?thesis using r(1) by (auto simp: snprintf_def)
qed

theorem print_parse_roundtrip_witness:
  "\<exists>n m'. snprintf 21 0x1000 64 0x2000 [0xffffffffffffffff] (store_bytes 0x2000 [37, 117, 0] (\<lambda>_. 0)) = Inr (n, m') \<and>
     strtoul 21 0x1000 0 10 m' = Inr (0xffffffffffffffff, m')"
proof (rule print_parse_roundtrip)
  show "cstr (store_bytes 0x2000 [37, 117, 0] (\<lambda>_. 0)) 0x2000 [37, 117]" by simp
  show "separate 0x1000 (unat (64 :: u64)) 0x2000 3" by (rule apart_separate) (simp add: apart_def)
qed simp_all

text \<open>
  A format that ends in a percent sign takes \<^verbatim>\<open>vsnprintf\<close> past its terminator:
  the terminator is copied as an ordinary character, and the format is read on from the byte
  behind it.
\<close>
theorem vsnprintf_percent_end:
  assumes "m fmt = 37" "m (fmt + 1) = 0" "fmt + 1 \<noteq> str" "2 < sz"
  shows "vsnprintf (Suc (Suc fuel)) str sz fmt ap m =
    vsnprintf_loop (Suc fuel) str sz (fmt + 2) ap 0 0 2 (m(str := 37, str + 1 := 0))"
proof -
  have "sz \<noteq> 1" "sz \<noteq> 2" using assms(4) by auto
  then have "convert (Suc fuel) str sz (fmt + 1) ap 0 0 0 m =
    Inr (Conv_Next (fmt + 2) ap 0 0 2 (m(str := 37, str + 1 := 0)))"
    using assms(2,3) by (simp add: set_ch_def Let_def add.assoc)
  then show ?thesis
    unfolding vsnprintf_def by (subst vsnprintf_loop.simps) (simp add: assms(1) del: vsnprintf_loop.simps convert.simps fun_upd_apply)
qed

theorem vsnprintf_percent_end_witness:
  "vsnprintf (Suc (Suc 0)) 0x1000 64 0x2000 [] (store_bytes 0x2000 [37, 0, 65, 0] (\<lambda>_. 0)) =
     vsnprintf_loop (Suc 0) 0x1000 64 (0x2000 + 2) [] 0 0 2
       ((store_bytes 0x2000 [37, 0, 65, 0] (\<lambda>_. 0))(0x1000 := 37, 0x1000 + 1 := 0))"
  by (rule vsnprintf_percent_end) simp_all

end
