(* ===== verification/Console.thy ===== *)
theory Console
  imports Asid Printf
begin

text \<open>
  The serial console and kernel output: the UART (\<^verbatim>\<open>drivers/serial/uart16550.c\<close>), the
  PROM console on top of it (\<^verbatim>\<open>drivers/serial/prom_printk.c\<close>), \<^verbatim>\<open>printk\<close> and
  \<^verbatim>\<open>panic\<close> (\<^verbatim>\<open>kern/printk.c\<close>, \<^verbatim>\<open>kern/panic.c\<close>) and the interrupt flag
  (\<^verbatim>\<open>asm/irq.h\<close>, \<^verbatim>\<open>sync/critsec.h\<close>).

  The device is the list of values its status register has when it is read, and the writes to
  its registers in their order; when no status value is left the model stops with \<open>Hang\<close>, so the
  list is the fuel of the polling loop. Local buffers of the C functions live at addresses the
  compiler chooses, and string literals and locals whose address is taken too: these addresses
  are fields of the state.
\<close>

section \<open>State\<close>

record sys_state = task_state +
  uart_status :: "u8 list"
  uart_writes :: "(nat \<times> u8) list"
  early_printk :: bool
  prom_buf :: addr_t
  lit_elfmag :: addr_t
  lit_percent_s :: addr_t
  initargv :: "addr_t list"
  loc_hdr :: addr_t
  loc_strtop :: addr_t

definition MAX_BAUD :: u32 where "MAX_BAUD = 115200"
abbreviation (input) OFS_SEND_BUFFER :: nat where "OFS_SEND_BUFFER \<equiv> 0"
abbreviation (input) OFS_INTR_ENABLE :: nat where "OFS_INTR_ENABLE \<equiv> 1"
abbreviation (input) OFS_DATA_FORMAT :: nat where "OFS_DATA_FORMAT \<equiv> 3"
abbreviation (input) OFS_LINE_CONTROL :: nat where "OFS_LINE_CONTROL \<equiv> 3"
abbreviation (input) OFS_DIVISOR_LSB :: nat where "OFS_DIVISOR_LSB \<equiv> 0"
abbreviation (input) OFS_DIVISOR_MSB :: nat where "OFS_DIVISOR_MSB \<equiv> 1"
abbreviation (input) BUFSIZ :: size_t where "BUFSIZ \<equiv> 1024"

section \<open>The interrupt flag\<close>

definition ST_IE :: u64 where "ST_IE = 0x1"

definition local_irq_enable :: "'s task_state_scheme \<Rightarrow> 's task_state_scheme" where
  "local_irq_enable s = s\<lparr>cp0_status := cp0_status s OR ST_IE\<rparr>"

definition local_irq_disable :: "'s task_state_scheme \<Rightarrow> 's task_state_scheme" where
  "local_irq_disable s = s\<lparr>cp0_status := cp0_status s AND NOT ST_IE\<rparr>"

text \<open>\<^verbatim>\<open>di %0; andi %0, 1\<close>: the flag as it was, and interrupts disabled.\<close>

definition local_irq_save :: "'s task_state_scheme \<Rightarrow> u64 \<times> 's task_state_scheme" where
  "local_irq_save s = (cp0_status s AND ST_IE, local_irq_disable s)"

definition local_irq_restore :: "u64 \<Rightarrow> 's task_state_scheme \<Rightarrow> 's task_state_scheme" where
  "local_irq_restore flags s = (if flags = 0 then s else local_irq_enable (local_irq_disable s))"

section \<open>The UART\<close>

definition uart_write :: "nat \<Rightarrow> u8 \<Rightarrow> 's sys_state_scheme \<Rightarrow> 's sys_state_scheme" where
  "uart_write off b s = s\<lparr>uart_writes := uart_writes s @ [(off, b)]\<rparr>"

text \<open>The division by a rate of 0 traps.\<close>

definition Uart16550Init :: "u32 \<Rightarrow> u8 \<Rightarrow> u8 \<Rightarrow> u8 \<Rightarrow> 's sys_state_scheme \<Rightarrow> 's sys_state_scheme result" where
  "Uart16550Init baud data parity stop s =
     (if baud = 0 then Inl (Panic ''division by zero'') else let s = uart_write OFS_INTR_ENABLE 0 s;
          s = uart_write OFS_LINE_CONTROL 0x80 s;
          divisor = MAX_BAUD div baud;
          s = uart_write OFS_DIVISOR_LSB (ucast (divisor AND 0xff)) s;
          s = uart_write OFS_DIVISOR_MSB (ucast (drop_bit 8 (divisor AND 0xff00))) s;
          s = uart_write OFS_LINE_CONTROL 0 s
      in Inr (uart_write OFS_DATA_FORMAT (data OR parity OR stop) s))"

text \<open>Polling until a bit of the line status is set; the values left unread are returned.\<close>

fun uart_poll :: "u8 \<Rightarrow> u8 list \<Rightarrow> u8 list result" where
  "uart_poll m [] = Inl Hang"
| "uart_poll m (v # vs) = (if v AND m = 0 then uart_poll m vs else Inr vs)"

definition Uart16550Put :: "u8 \<Rightarrow> 's sys_state_scheme \<Rightarrow> 's sys_state_scheme result" where
  "Uart16550Put byte s =
     rbind (uart_poll 0x20 (uart_status s)) (\<lambda>vs.
     Inr (uart_write OFS_SEND_BUFFER byte (s\<lparr>uart_status := vs\<rparr>)))"

text \<open>\<^verbatim>\<open>Uart16550GetPoll\<close>, with the byte the device has received.\<close>

definition Uart16550GetPoll :: "u8 \<Rightarrow> 's sys_state_scheme \<Rightarrow> (u8 \<times> 's sys_state_scheme) result" where
  "Uart16550GetPoll received s =
     rbind (uart_poll 0x1 (uart_status s)) (\<lambda>vs. Inr (received, s\<lparr>uart_status := vs\<rparr>))"

section \<open>printk\<close>

fun puts_loop :: "nat \<Rightarrow> addr_t \<Rightarrow> 's sys_state_scheme \<Rightarrow> 's sys_state_scheme result" where
  "puts_loop 0 str s = Inl Hang"
| "puts_loop (Suc fuel) str s =
     (if mem s str \<noteq> 0 then rbind (Uart16550Put (mem s str) s) (\<lambda>s. puts_loop fuel (str + 1) s) else Inr s)"

definition prom_puts :: "nat \<Rightarrow> addr_t \<Rightarrow> 's sys_state_scheme \<Rightarrow> 's sys_state_scheme result" where
  "prom_puts fuel str s =
     (let (flags, s) = local_irq_save s in
      rbind (puts_loop fuel str s) (\<lambda>s. Inr (local_irq_restore flags s)))"

definition prom_vprintk :: "nat \<Rightarrow> addr_t \<Rightarrow> u64 list \<Rightarrow> 's sys_state_scheme \<Rightarrow> (u32 \<times> 's sys_state_scheme) result" where
  "prom_vprintk fuel fmt ap s =
     rbind (vsnprintf fuel (prom_buf s) BUFSIZ fmt ap (mem s)) (\<lambda>(r, m).
     rbind (prom_puts fuel (prom_buf s) (s\<lparr>mem := m\<rparr>)) (\<lambda>s. Inr (r, s)))"

definition prom_printk :: "nat \<Rightarrow> addr_t \<Rightarrow> u64 list \<Rightarrow> 's sys_state_scheme \<Rightarrow> (u32 \<times> 's sys_state_scheme) result" where
  "prom_printk fuel fmt ap s =
     rbind (vsnprintf fuel (prom_buf s) BUFSIZ fmt ap (mem s)) (\<lambda>(r, m).
     rbind (prom_puts fuel (prom_buf s) (s\<lparr>mem := m\<rparr>)) (\<lambda>s. Inr (r, s)))"

definition vprintk :: "nat \<Rightarrow> addr_t \<Rightarrow> u64 list \<Rightarrow> 's sys_state_scheme \<Rightarrow> (u32 \<times> 's sys_state_scheme) result" where
  "vprintk fuel fmt ap s = (if early_printk s then prom_vprintk fuel fmt ap s else Inr (0, s))"

definition printk :: "nat \<Rightarrow> addr_t \<Rightarrow> u64 list \<Rightarrow> 's sys_state_scheme \<Rightarrow> (u32 \<times> 's sys_state_scheme) result" where
  "printk fuel fmt ap s = (if early_printk s then prom_vprintk fuel fmt ap s else Inr (0, s))"

text \<open>\<^verbatim>\<open>panic\<close> disables interrupts, prints and never returns: there is no result but a fault.\<close>

definition panic :: "nat \<Rightarrow> string \<Rightarrow> addr_t \<Rightarrow> u64 list \<Rightarrow> 's sys_state_scheme \<Rightarrow> 'a result" where
  "panic fuel msg fmt ap s =
     rbind (vprintk fuel fmt ap (local_irq_disable s)) (\<lambda>_. Inl (Panic msg))"

section \<open>Lemmas\<close>

text \<open>A device that is always ready takes every character.\<close>

lemma puts_loop_ready:
  assumes "cstr (mem s) str cs" "length cs < fuel" "uart_status s = replicate (length cs) 0x20 @ vs"
  shows "puts_loop fuel str s =
    Inr (s\<lparr>uart_status := vs, uart_writes := uart_writes s @ map (\<lambda>c. (OFS_SEND_BUFFER, c)) cs\<rparr>)"
  using assms
proof (induction cs arbitrary: fuel str s)
  case Nil
  then obtain n where "fuel = Suc n" by (cases fuel) auto
  then show ?case using Nil.prems by simp
next
  case (Cons c cs)
  then obtain n where n: "fuel = Suc n" by (cases fuel) auto
  let ?s = "uart_write OFS_SEND_BUFFER c (s\<lparr>uart_status := replicate (length cs) 0x20 @ vs\<rparr>)"
  have "Uart16550Put c s = Inr ?s" using Cons.prems by (simp add: Uart16550Put_def)
  moreover have "puts_loop n (str + 1) ?s = Inr (?s\<lparr>uart_status := vs,
      uart_writes := uart_writes ?s @ map (\<lambda>c. (OFS_SEND_BUFFER, c)) cs\<rparr>)"
    by (rule Cons.IH) (use Cons.prems n in \<open>auto simp: uart_write_def\<close>)
  ultimately show ?case using Cons.prems n by (simp add: uart_write_def)
qed

end
