(* ===== verification/Execve.thy ===== *)
theory Execve
  imports Console
begin

text \<open>
  Loading a program image that lies in kernel memory into the address space of a task
  (\<^verbatim>\<open>kern/syscall/execve.c\<close>, with the structures of \<^verbatim>\<open>include/elf.h\<close>).

  The headers are read from memory field by field at the offsets the structures have; the
  header of the file is first copied to the local variable at \<open>loc_hdr\<close>.
\<close>

section \<open>ELF structures\<close>

definition load16 :: "addr_t \<Rightarrow> memory \<Rightarrow> u16" where
  "load16 a m = word_of_bytes (load_bytes a 2 m)"

record elf64hdr =
  e_ident :: "u8 list"
  e_type :: u16
  e_machine :: u16
  e_version :: u32
  e_entry :: u64
  e_phoff :: u64
  e_shoff :: u64
  e_flags :: u32
  e_ehsize :: u16
  e_phentsize :: u16
  e_phnum :: u16
  e_shentsize :: u16
  e_shnum :: u16
  e_shstrndx :: u16

record elf64_phdr =
  p_type :: u32
  p_flags :: u32
  p_offset :: u64
  p_vaddr :: u64
  p_paddr :: u64
  p_filesz :: u64
  p_memsz :: u64
  p_align :: u64

definition SIZEOF_EHDR :: u64 where "SIZEOF_EHDR = 64"
definition SIZEOF_PHDR :: u16 where "SIZEOF_PHDR = 56"
definition SIZEOF_SHDR :: u16 where "SIZEOF_SHDR = 64"

definition read_ehdr :: "addr_t \<Rightarrow> memory \<Rightarrow> elf64hdr" where
  "read_ehdr a m =
     \<lparr>e_ident = load_bytes a 16 m, e_type = load16 (a + 16) m, e_machine = load16 (a + 18) m,
      e_version = load32 (a + 20) m, e_entry = load64 (a + 24) m, e_phoff = load64 (a + 32) m,
      e_shoff = load64 (a + 40) m, e_flags = load32 (a + 48) m, e_ehsize = load16 (a + 52) m,
      e_phentsize = load16 (a + 54) m, e_phnum = load16 (a + 56) m, e_shentsize = load16 (a + 58) m,
      e_shnum = load16 (a + 60) m, e_shstrndx = load16 (a + 62) m\<rparr>"

definition read_phdr :: "addr_t \<Rightarrow> memory \<Rightarrow> elf64_phdr" where
  "read_phdr a m =
     \<lparr>p_type = load32 a m, p_flags = load32 (a + 4) m, p_offset = load64 (a + 8) m,
      p_vaddr = load64 (a + 16) m, p_paddr = load64 (a + 24) m, p_filesz = load64 (a + 32) m,
      p_memsz = load64 (a + 40) m, p_align = load64 (a + 48) m\<rparr>"

abbreviation (input) SELFMAG :: size_t where "SELFMAG \<equiv> 4"
abbreviation (input) EI_CLASS :: nat where "EI_CLASS \<equiv> 4"
abbreviation (input) EI_DATA :: nat where "EI_DATA \<equiv> 5"
abbreviation (input) EI_VERSION :: nat where "EI_VERSION \<equiv> 6"
definition ELFCLASS64 :: u8 where "ELFCLASS64 = 2"
definition ELFDATA2LSB :: u8 where "ELFDATA2LSB = 1"
definition EV_CURRENT :: u8 where "EV_CURRENT = 1"
definition ET_EXEC :: u16 where "ET_EXEC = 2"
definition EM_MIPS :: u16 where "EM_MIPS = 8"
definition PT_LOAD :: u32 where "PT_LOAD = 1"
definition PF_X :: u32 where "PF_X = 1"
definition PF_W :: u32 where "PF_W = 2"
definition PF_R :: u32 where "PF_R = 4"

section \<open>Segments\<close>

definition elf_to_vmaflags :: "u32 \<Rightarrow> u64" where
  "elf_to_vmaflags elfflags =
     ((if elfflags AND PF_X \<noteq> 0 then VMA_EXEC else 0) OR
      (if elfflags AND PF_W \<noteq> 0 then VMA_WRITE else 0)) OR
      (if elfflags AND PF_R \<noteq> 0 then VMA_READ else 0)"

text \<open>\<^verbatim>\<open>task->mm\<close>, dereferenced.\<close>

definition task_mm :: "'s task_state_scheme \<Rightarrow> task_ptr \<Rightarrow> mm_ptr result" where
  "task_mm s task = rbind (read_task s task) (\<lambda>x. case t_mm x of None \<Rightarrow> Inl NullPointer | Some mm \<Rightarrow> Inr mm)"

text \<open>
  \<open>ph\<close> is the address of the program header, which is read again at each use; the address
  of the segment is read once.
\<close>

definition task_load_seg_kmem :: "nat \<Rightarrow> task_ptr \<Rightarrow> addr_t \<Rightarrow> addr_t \<Rightarrow> 's task_state_scheme \<Rightarrow>
    (int \<times> 's task_state_scheme) result" where
  "task_load_seg_kmem fuel task addr ph s =
     (let hdr = read_phdr ph (mem s);
          dest = p_vaddr hdr;
          flags = elf_to_vmaflags (p_flags hdr) in
      rbind (task_mm s task) (\<lambda>mm.
      rbind (mm_create_uvm fuel mm dest (p_memsz hdr) flags s) (\<lambda>(retcode, s).
      if retcode \<noteq> 0 then Inr (retcode, s)
      else
        rbind (task_mm s task) (\<lambda>mm.
        rbind (copy_to_uvm mm dest addr (p_filesz (read_phdr ph (mem s))) s) (\<lambda>(retcode, s).
        if retcode \<noteq> 0 then
          rbind (task_mm s task) (\<lambda>mm.
          rbind (mm_destroy_uvm fuel mm dest s) (\<lambda>(r, s).
          rbind (assert_that ''mm_destroy_uvm(task->mm, dest) == 0'' (r = 0)) (\<lambda>_.
          Inr (retcode, s))))
        else Inr (0, s))))))"

definition task_unload_seg :: "nat \<Rightarrow> task_ptr \<Rightarrow> addr_t \<Rightarrow> 's task_state_scheme \<Rightarrow> 's task_state_scheme result" where
  "task_unload_seg fuel task ph s =
     rbind (task_mm s task) (\<lambda>mm.
     rbind (mm_destroy_uvm fuel mm (p_vaddr (read_phdr ph (mem s))) s) (\<lambda>(_, s). Inr s))"

text \<open>The loops over the program headers, with \<open>n\<close> headers left and the next one at offset \<open>off\<close>.\<close>

fun load_segs_loop :: "nat \<Rightarrow> nat \<Rightarrow> task_ptr \<Rightarrow> addr_t \<Rightarrow> elf64hdr \<Rightarrow> size_t \<Rightarrow> 's task_state_scheme \<Rightarrow>
    (int \<times> 's task_state_scheme) result" where
  "load_segs_loop 0 fuel task addr hdr off s = Inr (0, s)"
| "load_segs_loop (Suc n) fuel task addr hdr off s =
     (let proghdr = addr + off in
      rbind (if p_type (read_phdr proghdr (mem s)) = PT_LOAD then task_load_seg_kmem fuel task addr proghdr s
             else Inr (0, s)) (\<lambda>(ret, s).
      if ret \<noteq> 0 then Inr (ret, s)
      else
        rbind (read_task s task) (\<lambda>x.
        let ph = read_phdr proghdr (mem s); top = p_vaddr ph + p_memsz ph in
        rbind (if t_progtop x < top then write_task task (\<lambda>x. x\<lparr>t_progtop := top\<rparr>) s else Inr s) (\<lambda>s.
        load_segs_loop n fuel task addr hdr (off + ucast (e_phentsize hdr)) s))))"

fun unload_segs_loop :: "nat \<Rightarrow> nat \<Rightarrow> task_ptr \<Rightarrow> addr_t \<Rightarrow> elf64hdr \<Rightarrow> size_t \<Rightarrow> 's task_state_scheme \<Rightarrow>
    's task_state_scheme result" where
  "unload_segs_loop 0 fuel task addr hdr off s = Inr s"
| "unload_segs_loop (Suc n) fuel task addr hdr off s =
     rbind (task_unload_seg fuel task (addr + off) s) (\<lambda>s.
     unload_segs_loop n fuel task addr hdr (off + ucast (e_phentsize hdr)) s)"

definition task_load_segs_kmem :: "nat \<Rightarrow> task_ptr \<Rightarrow> addr_t \<Rightarrow> elf64hdr \<Rightarrow> 's task_state_scheme \<Rightarrow>
    (int \<times> 's task_state_scheme) result" where
  "task_load_segs_kmem fuel task addr hdr s =
     rbind (load_segs_loop (unat (e_phnum hdr)) fuel task addr hdr (e_phoff hdr) s) (\<lambda>(ret, s).
     if ret = 0 then
       rbind (write_task task (\<lambda>x. x\<lparr>t_progtop := PGROUNDUP (t_progtop x) + PGSIZE\<rparr>) s) (\<lambda>s. Inr (0, s))
     else
       rbind (unload_segs_loop (unat (e_phnum hdr)) fuel task addr hdr (e_phoff hdr) s) (\<lambda>s. Inr (ret, s)))"

text \<open>The result is the return value, \<^verbatim>\<open>*entry\<close> when it has been stored, and the state.\<close>

definition task_load_elf_kmem :: "nat \<Rightarrow> task_ptr \<Rightarrow> addr_t \<Rightarrow> 's sys_state_scheme \<Rightarrow>
    (int \<times> addr_t option \<times> 's sys_state_scheme) result" where
  "task_load_elf_kmem fuel task addr s =
     (let s = s\<lparr>mem := memcpy (loc_hdr s) addr SIZEOF_EHDR (mem s)\<rparr>;
          hdr = read_ehdr (loc_hdr s) (mem s) in
      if strncmp (loc_hdr s) (lit_elfmag s) SELFMAG (mem s) \<noteq> 0 \<or>
         e_ident hdr ! EI_VERSION \<noteq> EV_CURRENT \<or> e_type hdr \<noteq> ET_EXEC then Inr (- ENOEXEC, None, s)
      else if e_ident hdr ! EI_CLASS \<noteq> ELFCLASS64 \<or> e_ident hdr ! EI_DATA \<noteq> ELFDATA2LSB \<or>
         e_machine hdr \<noteq> EM_MIPS then Inr (- EINVAL, None, s)
      else if e_phentsize hdr \<noteq> SIZEOF_PHDR \<or> e_shentsize hdr \<noteq> SIZEOF_SHDR then Inr (- ENOEXEC, None, s)
      else
        rbind (task_load_segs_kmem fuel task addr hdr s) (\<lambda>(ret, s). Inr (ret, Some (e_entry hdr), s)))"

end
