(* ===== verification/Task_Setup.thy ===== *)
theory Task_Setup
  imports Execve
begin

text \<open>
  Creating tasks: the task structure, its address space and kernel stack, the trap frame and
  context that start it, its arguments, and the first two processes
  (\<^verbatim>\<open>kern/sched/task.c\<close>, \<^verbatim>\<open>arch/mips/sched/task.c\<close>). Messages and
  \<^verbatim>\<open>dump_task\<close>, which only prints, are left out.
\<close>

section \<open>Constants\<close>

definition ST_CU0 :: u64 where "ST_CU0 = 0x10000000"
definition ST_EXCM :: u64 where "ST_EXCM = 0x1f"
definition KSU_USER :: u64 where "KSU_USER = 0x10"
definition ST_EXL :: u64 where "ST_EXL = 0x2"
definition ST_PX :: u64 where "ST_PX = 0x800000"
definition ST_UX :: u64 where "ST_UX = 0x20"
definition KSTACK_SIZE :: u64 where "KSTACK_SIZE = 8192"
definition USTACK_SIZE :: u64 where "USTACK_SIZE = 8192"
definition SIZEOF_TASK :: u64 where "SIZEOF_TASK = 472"
definition USTACK_PERM :: u64 where "USTACK_PERM = VMA_READ OR VMA_WRITE"

text \<open>The effect of \<^verbatim>\<open>strlcpy(task->name, lit, PROC_NAME_LEN_MAX)\<close> on the array.\<close>

definition set_name :: "string \<Rightarrow> u8 list \<Rightarrow> u8 list" where
  "set_name lit old =
     (let cs = take 255 (map of_char lit) in cs @ [0] @ drop (Suc (length cs)) old)"

section \<open>The hardware part\<close>

definition task_init_trapframe :: "task_ptr \<Rightarrow> addr_t \<Rightarrow> 's task_state_scheme \<Rightarrow> (addr_t \<times> 's task_state_scheme) result" where
  "task_init_trapframe task sp s =
     (let sp = sp - TF_SIZE in
      rbind (write_task task (\<lambda>x. x\<lparr>t_tf := sp\<rparr>) s) (\<lambda>s.
      let f = zero_frame\<lparr>tf_status := read_32bit_c0_register (cp0_status s),
                tf_cause := read_32bit_c0_register (cp0_cause s),
                tf_entryhi := ucast ASID_INVALID,
                tf_gpr := (tf_gpr zero_frame)(REG_GP := init_thread_union s)\<rparr>
      in Inr (sp, s\<lparr>tframes := (tframes s)(sp \<mapsto> f)\<rparr>)))"

definition task_bootstrap_context :: "task_ptr \<Rightarrow> addr_t \<Rightarrow> 's task_state_scheme \<Rightarrow> 's task_state_scheme result" where
  "task_bootstrap_context task sp s =
     rbind (read_task s task) (\<lambda>x.
     let ctx = zero_frame\<lparr>tf_status := read_32bit_c0_register (cp0_status s),
                tf_cause := read_32bit_c0_register (cp0_cause s),
                tf_gpr := (tf_gpr zero_frame)(REG_A0 := t_tf x, REG_RA := forkret_addr s,
                  REG_SP := sp, REG_GP := init_thread_union s)\<rparr>
     in Inr (s\<lparr>tframes := (tframes s)(t_context x \<mapsto> ctx)\<rparr>))"

definition update_task_frame :: "task_ptr \<Rightarrow> (trapframe \<Rightarrow> trapframe) \<Rightarrow> 's task_state_scheme \<Rightarrow> 's task_state_scheme result" where
  "update_task_frame task f s = rbind (read_task s task) (\<lambda>x. write_frame (t_tf x) f s)"

definition set_task_user :: "task_ptr \<Rightarrow> 's task_state_scheme \<Rightarrow> 's task_state_scheme result" where
  "set_task_user task = update_task_frame task (\<lambda>f. f\<lparr>tf_status :=
     ((tf_status f AND NOT ST_CU0) AND NOT ST_EXCM) OR (((KSU_USER OR ST_EXL) OR ST_PX) OR ST_UX)\<rparr>)"

definition set_task_enable_intr :: "task_ptr \<Rightarrow> 's task_state_scheme \<Rightarrow> 's task_state_scheme result" where
  "set_task_enable_intr task = update_task_frame task (\<lambda>f. f\<lparr>tf_status := tf_status f OR ST_IE\<rparr>)"

definition set_task_startsp :: "task_ptr \<Rightarrow> addr_t \<Rightarrow> 's task_state_scheme \<Rightarrow> 's task_state_scheme result" where
  "set_task_startsp task sp = update_task_frame task (\<lambda>f. f\<lparr>tf_gpr := (tf_gpr f)(REG_SP := sp)\<rparr>)"

definition set_task_main_args :: "task_ptr \<Rightarrow> u64 \<Rightarrow> addr_t \<Rightarrow> 's task_state_scheme \<Rightarrow> 's task_state_scheme result" where
  "set_task_main_args task argc argv =
     update_task_frame task (\<lambda>f. f\<lparr>tf_gpr := (tf_gpr f)(REG_A0 := argc, REG_A1 := argv)\<rparr>)"

definition set_task_entry :: "task_ptr \<Rightarrow> addr_t \<Rightarrow> 's task_state_scheme \<Rightarrow> 's task_state_scheme result" where
  "set_task_entry task entry = update_task_frame task (\<lambda>f. f\<lparr>tf_epc := entry\<rparr>)"

text \<open>
  The loop of \<^verbatim>\<open>set_task_argv\<close> over the argument strings; the result is \<open>strtop\<close>, or 0
  after a failed copy. \<open>fuel\<close> bounds the length of a string.
\<close>

fun argv_loop :: "addr_t list \<Rightarrow> nat \<Rightarrow> task_ptr \<Rightarrow> addr_t \<Rightarrow> addr_t \<Rightarrow> 's sys_state_scheme \<Rightarrow>
    (addr_t \<times> 's sys_state_scheme) result" where
  "argv_loop [] fuel task argvtop strtop s = Inr (strtop, s)"
| "argv_loop (arg # args) fuel task argvtop strtop s =
     rbind (strlen fuel arg (mem s)) (\<lambda>len.
     let strspace = POW2_ROUNDUP (len + 1) 3; s = s\<lparr>mem := store64 (loc_strtop s) strtop (mem s)\<rparr> in
     rbind (task_mm s task) (\<lambda>mm.
     rbind (copy_to_uvm mm strtop arg strspace s) (\<lambda>(r, s).
     if r \<noteq> 0 then Inr (0, s)
     else
       rbind (copy_to_uvm mm argvtop (loc_strtop s) 8 s) (\<lambda>(r, s).
       if r \<noteq> 0 then Inr (0, s)
       else argv_loop args fuel task (argvtop + 8) (strtop + strspace) s))))"

definition set_task_argv :: "nat \<Rightarrow> task_ptr \<Rightarrow> addr_t list \<Rightarrow> 's sys_state_scheme \<Rightarrow> (addr_t \<times> 's sys_state_scheme) result" where
  "set_task_argv fuel task argv s =
     rbind (read_task s task) (\<lambda>x.
     let argvtop = t_ustacktop x in
     argv_loop argv fuel task argvtop (argvtop + of_nat (length argv) * 8) s)"

section \<open>The generic part\<close>

definition task_new :: "'s task_state_scheme \<Rightarrow> (task_ptr \<times> 's task_state_scheme) result" where
  "task_new s =
     rbind (kmalloc 0 SIZEOF_TASK s) (\<lambda>(task, s).
     if task \<noteq> 0 then
       let s = s\<lparr>tasks := (tasks s)(task \<mapsto> zero_task\<lparr>t_flags := PF_STARTING, t_parent := task, t_thgroup_leader := task\<rparr>)\<rparr>;
           s = s\<lparr>sib_links := list_init task (sib_links s)\<rparr>;
           s = s\<lparr>thread_links := list_init task (thread_links s)\<rparr>;
           s = s\<lparr>proc_links := list_init (Proc task) (proc_links s)\<rparr>;
           s = s\<lparr>hash_links := list_init (Hash task) (hash_links s)\<rparr>
       in Inr (task, s)
     else Inr (0, s))"

text \<open>\<^verbatim>\<open>mm_new\<close> has made a page table already; this one replaces it.\<close>

definition task_setup_mm :: "task_ptr \<Rightarrow> 's task_state_scheme \<Rightarrow> (int \<times> 's task_state_scheme) result" where
  "task_setup_mm task s =
     rbind (mm_new s) (\<lambda>(mm, s).
     rbind (write_task task (\<lambda>x. x\<lparr>t_mm := Some mm\<rparr>) s) (\<lambda>s.
     rbind (arch_mm_new_pgtable s) (\<lambda>(retcode, pgd, s).
     rbind (case pgd of None \<Rightarrow> Inr s | Some d \<Rightarrow> write_mm mm (\<lambda>m. m\<lparr>mm_pgd := d\<rparr>) s) (\<lambda>s.
     Inr (retcode, s)))))"

definition task_setup_kstack :: "nat \<Rightarrow> task_ptr \<Rightarrow> 's task_state_scheme \<Rightarrow> (addr_t \<times> 's task_state_scheme) result" where
  "task_setup_kstack fuel task s =
     rbind (kmalloc fuel KSTACK_SIZE s) (\<lambda>(kstack, s).
     rbind (write_task task (\<lambda>x. x\<lparr>t_kstack := kstack\<rparr>) s) (\<lambda>s.
     if kstack = 0 then Inr (0, s)
     else
       let sp = kstack + KSTACK_SIZE - TF_SIZE in
       rbind (write_task task (\<lambda>x. x\<lparr>t_context := sp\<rparr>) s) (\<lambda>s. Inr (sp, s))))"

definition task_early_init :: "nat \<Rightarrow> task_ptr \<Rightarrow> 's task_state_scheme \<Rightarrow> 's task_state_scheme result" where
  "task_early_init fuel task s =
     rbind (task_setup_mm task s) (\<lambda>(r, s).
     rbind (assert_that ''task_setup_mm(task) == 0'' (r = 0)) (\<lambda>_.
     rbind (task_setup_kstack fuel task s) (\<lambda>(ksp, s).
     rbind (assert_that ''ksp != NULL'' (ksp \<noteq> 0)) (\<lambda>_.
     rbind (task_init_trapframe task ksp s) (\<lambda>(ksp, s).
     rbind (task_bootstrap_context task ksp s) (\<lambda>s.
     rbind (set_task_user task s) (\<lambda>s.
     set_task_enable_intr task s)))))))"

definition set_task_ustack :: "nat \<Rightarrow> task_ptr \<Rightarrow> 's task_state_scheme \<Rightarrow> (int \<times> 's task_state_scheme) result" where
  "set_task_ustack fuel task s =
     rbind (pgalloc s) (\<lambda>(p, s).
     rbind (task_mm s task) (\<lambda>mm.
     rbind (read_task s task) (\<lambda>x.
     rbind (map_pages fuel mm (t_progtop x) p USTACK_PERM s) (\<lambda>(ret, s).
     if ret \<noteq> 0 then rbind (pgfree p s) (\<lambda>s. Inr (ret, s))
     else
       rbind (write_task task (\<lambda>x. x\<lparr>t_ustacktop := t_progtop x + USTACK_SIZE\<rparr>) s) (\<lambda>s.
       rbind (read_task s task) (\<lambda>x.
       rbind (set_task_startsp task (t_ustacktop x) s) (\<lambda>s. Inr (0, s))))))))"

definition initproc_init :: "nat \<Rightarrow> addr_t list \<Rightarrow> 's sys_state_scheme \<Rightarrow> 's sys_state_scheme result" where
  "initproc_init fuel argv s =
     rbind (task_new s) (\<lambda>(t, s).
     let s = s\<lparr>initproc := t\<rparr> in
     if t = 0 then Inl (Panic ''failed to allocate process for init'')
     else
       rbind (task_early_init fuel (initproc s) s) (\<lambda>s.
       rbind (task_load_elf_kmem fuel (initproc s) (init_image s) s) (\<lambda>(ret, entry, s).
       if ret \<noteq> 0 then Inl (Panic ''init spawning failed'')
       else
         rbind (set_task_ustack fuel (initproc s) s) (\<lambda>(r, s).
         rbind (assert_that ''set_task_ustack(initproc) == 0'' (r = 0)) (\<lambda>_.
         rbind (read_task s (initproc s)) (\<lambda>x.
         rbind (set_task_main_args (initproc s) (of_nat (length argv)) (t_ustacktop x) s) (\<lambda>s.
         rbind (set_task_argv fuel (initproc s) argv s) (\<lambda>(utop, s).
         rbind (assert_that ''utop != 0'' (utop \<noteq> 0)) (\<lambda>_.
         rbind (write_task (initproc s) (\<lambda>x. x\<lparr>t_ustacktop := utop\<rparr>) s) (\<lambda>s.
         rbind (set_task_entry (initproc s) (the entry) s) (\<lambda>s.
         rbind (write_task (initproc s) (\<lambda>x. x\<lparr>t_pid := PID_INIT, t_name := set_name ''init'' (t_name x),
           t_state := TASK_RUNNABLE\<rparr>) s) (\<lambda>s.
         add_process fuel (initproc s) (initproc s) s))))))))))))"

definition idle_init :: "nat \<Rightarrow> 's task_state_scheme \<Rightarrow> 's task_state_scheme result" where
  "idle_init fuel s =
     rbind (task_new s) (\<lambda>(t, s).
     if unat (cpu_number s) \<ge> length (idleprocs s) then Inl (BadPointer ''idleprocs'')
     else
       let s = s\<lparr>idleprocs := (idleprocs s)[unat (cpu_number s) := t]\<rparr> in
       if t = 0 then Inl (Panic ''failed to spawn IDLE'')
       else
         rbind (write_task t (\<lambda>x. x\<lparr>t_mm := Some KernMm, t_pid := PID_IDLE, t_kstack := init_thread_union s,
           t_context := current_idle_context s, t_name := set_name ''IDLE'' (t_name x), t_state := TASK_RUNNABLE\<rparr>) s) (\<lambda>s.
         add_process fuel t t s))"

definition task_init :: "nat \<Rightarrow> 's sys_state_scheme \<Rightarrow> 's sys_state_scheme result" where
  "task_init fuel s =
     rbind (idle_init fuel (tasklist_init s)) (\<lambda>s.
     rbind (initproc_init fuel (take 3 (initargv s)) s) (\<lambda>s.
     rbind (idleproc s) (\<lambda>t. Inr (s\<lparr>current_task := t\<rparr>))))"

definition task_init_sched :: "'s task_state_scheme \<Rightarrow> 's task_state_scheme result" where
  "task_init_sched s = sched_enqueue (unat (cpu_number s)) (initproc s) s"

end
