(* ===== verification/Task_Props.thy ===== *)
theory Task_Props
  imports Task_Setup
begin

text \<open>What a new task starts with, seen from the first switch to it.\<close>

text \<open>The calls of \<^verbatim>\<open>task_early_init\<close> after the kernel stack is there.\<close>

definition setup_registers :: "task_ptr \<Rightarrow> addr_t \<Rightarrow> 's task_state_scheme \<Rightarrow> 's task_state_scheme result" where
  "setup_registers task ksp s =
     rbind (task_init_trapframe task ksp s) (\<lambda>(ksp, s).
     rbind (task_bootstrap_context task ksp s) (\<lambda>s.
     rbind (set_task_user task s) (\<lambda>s.
     set_task_enable_intr task s)))"

lemma task_early_init_registers:
  "task_early_init fuel task s =
     rbind (task_setup_mm task s) (\<lambda>(r, s).
     rbind (assert_that ''task_setup_mm(task) == 0'' (r = 0)) (\<lambda>_.
     rbind (task_setup_kstack fuel task s) (\<lambda>(ksp, s).
     rbind (assert_that ''ksp != NULL'' (ksp \<noteq> 0)) (\<lambda>_.
     setup_registers task ksp s))))"
  by (simp add: task_early_init_def setup_registers_def)

lemma user_status:
  fixes v :: u64
  shows "((((v AND NOT ST_CU0) AND NOT ST_EXCM) OR (((KSU_USER OR ST_EXL) OR ST_PX) OR ST_UX)) OR ST_IE) AND ST_EXCM
      = ((KSU_USER OR ST_EXL) OR ST_IE)"
    and "((((v AND NOT ST_CU0) AND NOT ST_EXCM) OR (((KSU_USER OR ST_EXL) OR ST_PX) OR ST_UX)) OR ST_IE) AND ST_CU0 = 0"
proof -
  have "((v AND NOT a) AND NOT b) AND b = 0" "((v AND NOT a) AND NOT b) AND a = 0" for a b :: u64
    by (auto intro!: bit_word_eqI simp: bit_simps)
  note z = this [of ST_CU0 ST_EXCM]
  show "((((v AND NOT ST_CU0) AND NOT ST_EXCM) OR (((KSU_USER OR ST_EXL) OR ST_PX) OR ST_UX)) OR ST_IE) AND ST_EXCM
      = ((KSU_USER OR ST_EXL) OR ST_IE)"
    unfolding bit.conj_disj_distrib2 z by (simp add: ST_EXCM_def KSU_USER_def ST_EXL_def ST_PX_def ST_UX_def ST_IE_def)
  show "((((v AND NOT ST_CU0) AND NOT ST_EXCM) OR (((KSU_USER OR ST_EXL) OR ST_PX) OR ST_UX)) OR ST_IE) AND ST_CU0 = 0"
    unfolding bit.conj_disj_distrib2 z by (simp add: ST_CU0_def KSU_USER_def ST_EXL_def ST_PX_def ST_UX_def ST_IE_def)
qed

lemma setup_registers_ok:
  assumes "tasks s t = Some x" "t_context x \<noteq> sp - TF_SIZE"
  shows "\<exists>s1 f c. setup_registers t sp s = Inr s1 \<and>
    tframes s1 = (tframes s)(sp - TF_SIZE \<mapsto> f, t_context x \<mapsto> c) \<and>
    tasks s1 = (tasks s)(t \<mapsto> x\<lparr>t_tf := sp - TF_SIZE\<rparr>) \<and> cpu_number s1 = cpu_number s \<and>
    tf_status f AND ST_EXCM = ((KSU_USER OR ST_EXL) OR ST_IE) \<and> tf_status f AND ST_CU0 = 0 \<and>
    tf_entryhi f = ucast ASID_INVALID \<and> tf_gpr f REG_GP = init_thread_union s \<and>
    tf_gpr c REG_A0 = sp - TF_SIZE \<and> tf_gpr c REG_SP = sp - TF_SIZE \<and> tf_gpr c REG_RA = forkret_addr s"
proof -
  let ?st = "read_32bit_c0_register (cp0_status s)"
  let ?f = "zero_frame\<lparr>tf_cause := read_32bit_c0_register (cp0_cause s), tf_entryhi := ucast ASID_INVALID,
    tf_gpr := (tf_gpr zero_frame)(REG_GP := init_thread_union s),
    tf_status := (((?st AND NOT ST_CU0) AND NOT ST_EXCM) OR (((KSU_USER OR ST_EXL) OR ST_PX) OR ST_UX)) OR ST_IE\<rparr>"
  let ?c = "zero_frame\<lparr>tf_status := ?st, tf_cause := read_32bit_c0_register (cp0_cause s),
    tf_gpr := (tf_gpr zero_frame)(REG_A0 := sp - TF_SIZE, REG_RA := forkret_addr s, REG_SP := sp - TF_SIZE,
      REG_GP := init_thread_union s)\<rparr>"
  have 1: "setup_registers t sp s = Inr (s\<lparr>tasks := (tasks s)(t \<mapsto> x\<lparr>t_tf := sp - TF_SIZE\<rparr>),
    tframes := (tframes s)(sp - TF_SIZE \<mapsto> ?f, t_context x \<mapsto> ?c)\<rparr>)"
    using assms by (simp add: setup_registers_def task_init_trapframe_def task_bootstrap_context_def set_task_user_def
        set_task_enable_intr_def update_task_frame_def Let_def fun_upd_twist)
  show ?thesis
    by (rule exI, rule exI [of _ ?f], rule exI [of _ ?c], intro conjI, rule 1) (simp_all add: user_status)
qed

text \<open>
  Property C22. The first switch to a task whose registers \<^verbatim>\<open>task_early_init\<close> has set up
  continues in \<^verbatim>\<open>forkret\<close> with the task's trap frame as argument and as stack top. That
  trap frame returns to user mode with interrupts enabled and no access to coprocessor 0, and
  carries the invalid ASID, so that the first access to user memory makes the page fault handler
  assign one.
\<close>
theorem new_task_starts_in_forkret:
  assumes "tasks s t = Some x" "tframes s old \<noteq> None" "old \<noteq> t_context x" "old \<noteq> sp - TF_SIZE"
    and "t_context x \<noteq> sp - TF_SIZE"
  shows "\<exists>s1 s2 f. setup_registers t sp s = Inr s1 \<and> switch_context old (t_context x) ksp s1 = Inr s2 \<and>
    cpu_gpr s2 REG_RA = forkret_addr s \<and> cpu_gpr s2 REG_A0 = sp - TF_SIZE \<and> cpu_gpr s2 REG_SP = sp - TF_SIZE \<and>
    tframes s2 (sp - TF_SIZE) = Some f \<and> tf_entryhi f = ucast ASID_INVALID \<and>
    tf_status f AND ST_EXCM = ((KSU_USER OR ST_EXL) OR ST_IE) \<and> tf_status f AND ST_CU0 = 0"
proof -
  obtain s1 f c where s1: "setup_registers t sp s = Inr s1"
    "tframes s1 = (tframes s)(sp - TF_SIZE \<mapsto> f, t_context x \<mapsto> c)"
    "tf_status f AND ST_EXCM = ((KSU_USER OR ST_EXL) OR ST_IE)" "tf_status f AND ST_CU0 = 0" "tf_entryhi f = ucast ASID_INVALID"
    "tf_gpr c REG_A0 = sp - TF_SIZE" "tf_gpr c REG_SP = sp - TF_SIZE" "tf_gpr c REG_RA = forkret_addr s"
    using setup_registers_ok [OF assms(1,5)] by blast
  obtain g where "tframes s1 old = Some g" "tframes s1 (t_context x) = Some c" using s1(2) assms(2,3,4) by auto
  from switch_context_ok [OF this refl, of ksp] show ?thesis
    using s1 assms(3-5) by (auto simp: load_frame_def)
qed

theorem new_task_starts_in_forkret_witness:
  "\<exists>s1 s2 f. setup_registers 0x2000 0xa000 task_example = Inr s1 \<and> switch_context 0x9010 0xa000 0xb000 s1 = Inr s2 \<and>
     cpu_gpr s2 REG_RA = forkret_addr task_example \<and> tframes s2 (0xa000 - TF_SIZE) = Some f \<and>
     tf_status f AND ST_EXCM = ((KSU_USER OR ST_EXL) OR ST_IE)"
proof -
  have "tasks task_example 0x2000 = Some init_example" "t_context init_example = 0xa000" by (simp_all add: init_example_def)
  then show ?thesis
    using new_task_starts_in_forkret [of task_example "0x2000" init_example "0x9010" "0xa000" "0xb000"]
    by (auto simp: TF_SIZE_def)
qed

end
