(* ===== verification/Decode.thy ===== *)
theory Decode
  imports Task_Props
begin

text \<open>
  Decoding branches (\<^verbatim>\<open>asm/decode.h\<close>) and the emulation of a branch whose delay slot
  has trapped (\<^verbatim>\<open>branch_target\<close> and \<^verbatim>\<open>skip_victim\<close> of \<^verbatim>\<open>arch/mips/traps.c\<close>).

  Instructions are fetched at virtual addresses, user addresses among them, which the processor
  translates; \<open>fetch\<close> stands for the words it reads there.
\<close>

section \<open>Fields\<close>

definition OPCODE :: "u32 \<Rightarrow> u32" where "OPCODE insn = drop_bit 26 insn AND 0x3f"
definition R_RS :: "u32 \<Rightarrow> u32" where "R_RS insn = drop_bit 21 insn AND 0x1f"
definition R_RT :: "u32 \<Rightarrow> u32" where "R_RT insn = drop_bit 16 insn AND 0x1f"
definition R_RD :: "u32 \<Rightarrow> u32" where "R_RD insn = drop_bit 11 insn AND 0x1f"
definition R_SHIFT :: "u32 \<Rightarrow> u32" where "R_SHIFT insn = drop_bit 6 insn AND 0x1f"
definition R_FUNC :: "u32 \<Rightarrow> u32" where "R_FUNC insn = insn AND 0x3f"
definition R_CODE :: "u32 \<Rightarrow> u32" where "R_CODE insn = drop_bit 6 insn AND 0xfffff"
definition I_RS :: "u32 \<Rightarrow> u32" where "I_RS insn = drop_bit 21 insn AND 0x1f"
definition I_RT :: "u32 \<Rightarrow> u32" where "I_RT insn = drop_bit 16 insn AND 0x1f"
definition I_IMMEDIATE :: "u32 \<Rightarrow> u32" where "I_IMMEDIATE insn = insn AND 0xffff"
definition I_OFFSET :: "u32 \<Rightarrow> u16" where "I_OFFSET insn = ucast (I_IMMEDIATE insn)"
definition I_IOFFSET :: "u32 \<Rightarrow> u64" where "I_IOFFSET insn = push_bit 2 (scast (I_OFFSET insn))"
definition I_FUNC :: "u32 \<Rightarrow> u32" where "I_FUNC insn = I_RT insn"
definition J_INDEX_MASK :: u32 where "J_INDEX_MASK = 0x03ffffff"
definition J_ACTUAL_INDEX_MASK :: u32 where "J_ACTUAL_INDEX_MASK = 0x0fffffff"
definition J_INDEX :: "u32 \<Rightarrow> u32" where "J_INDEX insn = push_bit 2 (insn AND J_INDEX_MASK)"

abbreviation (input) OP_SPECIAL :: u32 where "OP_SPECIAL \<equiv> 0x00"
abbreviation (input) FN_JR :: u32 where "FN_JR \<equiv> 0x08"
abbreviation (input) FN_JALR :: u32 where "FN_JALR \<equiv> 0x09"
abbreviation (input) OP_REGIMM :: u32 where "OP_REGIMM \<equiv> 0x01"
abbreviation (input) FN_BLTZ :: u32 where "FN_BLTZ \<equiv> 0x00"
abbreviation (input) FN_BGEZ :: u32 where "FN_BGEZ \<equiv> 0x01"
abbreviation (input) FN_BLTZL :: u32 where "FN_BLTZL \<equiv> 0x02"
abbreviation (input) FN_BGEZL :: u32 where "FN_BGEZL \<equiv> 0x03"
abbreviation (input) FN_BLTZAL :: u32 where "FN_BLTZAL \<equiv> 0x10"
abbreviation (input) FN_BGEZAL :: u32 where "FN_BGEZAL \<equiv> 0x11"
abbreviation (input) FN_BLTZALL :: u32 where "FN_BLTZALL \<equiv> 0x12"
abbreviation (input) FN_BGEZALL :: u32 where "FN_BGEZALL \<equiv> 0x13"
abbreviation (input) OP_J :: u32 where "OP_J \<equiv> 0x02"
abbreviation (input) OP_JAL :: u32 where "OP_JAL \<equiv> 0x03"
abbreviation (input) OP_BEQ :: u32 where "OP_BEQ \<equiv> 0x04"
abbreviation (input) OP_BNE :: u32 where "OP_BNE \<equiv> 0x05"
abbreviation (input) OP_BLEZ :: u32 where "OP_BLEZ \<equiv> 0x06"
abbreviation (input) OP_BGTZ :: u32 where "OP_BGTZ \<equiv> 0x07"
abbreviation (input) OP_BEQL :: u32 where "OP_BEQL \<equiv> 0x14"
abbreviation (input) OP_BNEL :: u32 where "OP_BNEL \<equiv> 0x15"
abbreviation (input) OP_BLEZL :: u32 where "OP_BLEZL \<equiv> 0x16"
abbreviation (input) OP_BGTZL :: u32 where "OP_BGTZL \<equiv> 0x17"

section \<open>branch\_target\<close>

definition set_gpr :: "nat \<Rightarrow> u64 \<Rightarrow> trapframe \<Rightarrow> trapframe" where
  "set_gpr r v f = f\<lparr>tf_gpr := (tf_gpr f)(r := v)\<rparr>"

text \<open>
  The registers are \<^verbatim>\<open>unsigned long\<close>: the tests \<^verbatim>\<open>< 0\<close>, \<^verbatim>\<open>>= 0\<close>,
  \<^verbatim>\<open><= 0\<close> and \<^verbatim>\<open>> 0\<close> are unsigned ones.
\<close>

definition branch_target :: "(addr_t \<Rightarrow> u32) \<Rightarrow> trapframe \<Rightarrow> u64 \<Rightarrow> (u64 \<times> trapframe) result" where
  "branch_target fetch tf pc =
     (let insn = fetch pc;
          opcode = OPCODE insn;
          cont_pc = pc + 8;
          fail = Inl (Panic ''branch_target(): not a branch instruction'') in
      if opcode = OP_SPECIAL then
        (let rs = unat (R_RS insn); rd = unat (R_RD insn); func = R_FUNC insn in
         if func = FN_JALR then (let tf = set_gpr rd cont_pc tf in Inr (tf_gpr tf rs, tf))
         else if func = FN_JR then Inr (tf_gpr tf rs, tf)
         else fail)
      else if opcode = OP_JAL then
        Inr ((pc AND NOT (ucast J_ACTUAL_INDEX_MASK)) OR ucast (J_INDEX insn), set_gpr REG_RA cont_pc tf)
      else if opcode = OP_J then
        Inr ((pc AND NOT (ucast J_ACTUAL_INDEX_MASK)) OR ucast (J_INDEX insn), tf)
      else
        let rs = unat (I_RS insn);
            offset = I_IOFFSET insn;
            branch_pc = pc + offset + 4 in
        if opcode = OP_REGIMM then
          (let func = I_FUNC insn in
           if func \<in> {FN_BLTZAL, FN_BLTZALL, FN_BLTZ, FN_BLTZL} then
             (let tf = (if func \<in> {FN_BLTZAL, FN_BLTZALL} \<and> tf_gpr tf rs < 0 then set_gpr REG_RA cont_pc tf else tf)
              in Inr (if tf_gpr tf rs < 0 then branch_pc else cont_pc, tf))
           else if func \<in> {FN_BGEZAL, FN_BGEZALL, FN_BGEZ, FN_BGEZL} then
             (let tf = (if func \<in> {FN_BGEZAL, FN_BGEZALL} \<and> tf_gpr tf rs \<ge> 0 then set_gpr REG_RA cont_pc tf else tf)
              in Inr (if tf_gpr tf rs \<ge> 0 then branch_pc else cont_pc, tf))
           else fail)
        else if opcode \<in> {OP_BLEZ, OP_BLEZL} then
          Inr (if tf_gpr tf rs \<le> 0 then branch_pc else cont_pc, tf)
        else if opcode \<in> {OP_BGTZ, OP_BGTZL} then
          Inr (if tf_gpr tf rs > 0 then branch_pc else cont_pc, tf)
        else
          let rt = unat (I_RT insn) in
          if opcode \<in> {OP_BEQ, OP_BEQL} then
            Inr (if tf_gpr tf rs = tf_gpr tf rt then branch_pc else cont_pc, tf)
          else if opcode \<in> {OP_BNE, OP_BNEL} then
            Inr (if tf_gpr tf rs \<noteq> tf_gpr tf rt then branch_pc else cont_pc, tf)
          else fail)"

definition CR_BD :: u64 where "CR_BD = 0x80000000"

definition skip_victim :: "(addr_t \<Rightarrow> u32) \<Rightarrow> trapframe \<Rightarrow> trapframe result" where
  "skip_victim fetch tf =
     (if tf_cause tf AND CR_BD \<noteq> 0 then
        rbind (branch_target fetch tf (tf_epc tf)) (\<lambda>(t, tf). Inr (tf\<lparr>tf_epc := t\<rparr>))
      else Inr (tf\<lparr>tf_epc := tf_epc tf + 4\<rparr>))"

section \<open>The branches of the architecture\<close>

text \<open>
  What the MIPS64 manual says of these instructions, as an assembler and a meaning: the encoding
  of each branch, and the address at which execution continues after its delay slot together with
  the registers. The linking branches write the return address whether they are taken or not.
\<close>

type_synonym reg = "5 word"

datatype branch =
    JR reg
  | JALR reg reg \<comment> \<open>destination, source\<close>
  | J "26 word"
  | JAL "26 word"
  | BEQ bool reg reg u16 \<comment> \<open>likely, registers, offset\<close>
  | BNE bool reg reg u16
  | BLEZ bool reg u16
  | BGTZ bool reg u16
  | BLTZ bool bool reg u16 \<comment> \<open>link, likely, register, offset\<close>
  | BGEZ bool bool reg u16

definition i_type :: "6 word \<Rightarrow> reg \<Rightarrow> reg \<Rightarrow> u16 \<Rightarrow> u32" where
  "i_type op rs rt imm = push_bit 26 (ucast op) OR push_bit 21 (ucast rs) OR push_bit 16 (ucast rt) OR ucast imm"

definition j_type :: "6 word \<Rightarrow> 26 word \<Rightarrow> u32" where
  "j_type op idx = push_bit 26 (ucast op) OR ucast idx"

fun encode_branch :: "branch \<Rightarrow> u32" where
  "encode_branch (JR rs) = i_type 0 rs 0 0x08"
| "encode_branch (JALR rd rs) = i_type 0 rs 0 (push_bit 11 (ucast rd) OR 0x09)"
| "encode_branch (J idx) = j_type 2 idx"
| "encode_branch (JAL idx) = j_type 3 idx"
| "encode_branch (BEQ likely rs rt off) = i_type (if likely then 0x14 else 4) rs rt off"
| "encode_branch (BNE likely rs rt off) = i_type (if likely then 0x15 else 5) rs rt off"
| "encode_branch (BLEZ likely rs off) = i_type (if likely then 0x16 else 6) rs 0 off"
| "encode_branch (BGTZ likely rs off) = i_type (if likely then 0x17 else 7) rs 0 off"
| "encode_branch (BLTZ link likely rs off) = i_type 1 rs ((if link then 0x10 else 0) + (if likely then 2 else 0)) off"
| "encode_branch (BGEZ link likely rs off) = i_type 1 rs ((if link then 0x11 else 1) + (if likely then 2 else 0)) off"

definition relative :: "u64 \<Rightarrow> u16 \<Rightarrow> u64" where
  "relative pc off = pc + 4 + scast off * 4"

definition cond_branch :: "bool \<Rightarrow> u64 \<Rightarrow> u16 \<Rightarrow> u64" where
  "cond_branch b pc off = (if b then relative pc off else pc + 8)"

fun branch_meaning :: "branch \<Rightarrow> (nat \<Rightarrow> u64) \<Rightarrow> u64 \<Rightarrow> u64 \<times> (nat \<Rightarrow> u64)" where
  "branch_meaning (JR rs) g pc = (g (unat rs), g)"
| "branch_meaning (JALR rd rs) g pc = (g (unat rs), if rd = 0 then g else g(unat rd := pc + 8))"
| "branch_meaning (J idx) g pc = (((pc + 4) AND NOT 0x0fffffff) OR push_bit 2 (ucast idx), g)"
| "branch_meaning (JAL idx) g pc = (((pc + 4) AND NOT 0x0fffffff) OR push_bit 2 (ucast idx), g(REG_RA := pc + 8))"
| "branch_meaning (BEQ likely rs rt off) g pc = (cond_branch (g (unat rs) = g (unat rt)) pc off, g)"
| "branch_meaning (BNE likely rs rt off) g pc = (cond_branch (g (unat rs) \<noteq> g (unat rt)) pc off, g)"
| "branch_meaning (BLEZ likely rs off) g pc = (cond_branch (sint (g (unat rs)) \<le> 0) pc off, g)"
| "branch_meaning (BGTZ likely rs off) g pc = (cond_branch (sint (g (unat rs)) > 0) pc off, g)"
| "branch_meaning (BLTZ link likely rs off) g pc =
     (cond_branch (sint (g (unat rs)) < 0) pc off, if link then g(REG_RA := pc + 8) else g)"
| "branch_meaning (BGEZ link likely rs off) g pc =
     (cond_branch (sint (g (unat rs)) \<ge> 0) pc off, if link then g(REG_RA := pc + 8) else g)"

section \<open>Lemmas\<close>

lemma field_masks:
  "(0x3f :: u32) = mask 6" "(0x1f :: u32) = mask 5" "(0xffff :: u32) = mask 16" "(0x03ffffff :: u32) = mask 26"
  by (simp_all add: mask_eq_exp_minus_1)

lemma bit_beyond:
  "6 \<le> n \<Longrightarrow> \<not> bit (w6 :: 6 word) n" "5 \<le> n \<Longrightarrow> \<not> bit (w5 :: reg) n" "16 \<le> n \<Longrightarrow> \<not> bit (w16 :: u16) n"
  "26 \<le> n \<Longrightarrow> \<not> bit (w26 :: 26 word) n" "32 \<le> n \<Longrightarrow> \<not> bit (w32 :: u32) n"
  by (auto dest: bit_imp_le_length)

lemma bit_within:
  "bit (w6 :: 6 word) n \<Longrightarrow> n < 6" "bit (w5 :: reg) n \<Longrightarrow> n < 5" "bit (w16 :: u16) n \<Longrightarrow> n < 16"
  "bit (w26 :: 26 word) n \<Longrightarrow> n < 26"
  by (auto dest: bit_imp_le_length)

lemma bit_i_type:
  "bit (i_type op rs rt imm) n =
     (if n < 16 then bit imm n else if n < 21 then bit rt (n - 16) else if n < 26 then bit rs (n - 21)
      else n < 32 \<and> bit op (n - 26))"
  unfolding i_type_def by (simp add: bit_simps bit_beyond) (auto simp: bit_beyond)

lemma bit_j_type:
  "bit (j_type op idx) n = (if n < 26 then bit idx n else n < 32 \<and> bit op (n - 26))"
  unfolding j_type_def by (simp add: bit_simps bit_beyond) (auto simp: bit_beyond)

lemma i_type_fields:
  "OPCODE (i_type op rs rt imm) = ucast op" "R_RS (i_type op rs rt imm) = ucast rs" "I_RS (i_type op rs rt imm) = ucast rs"
  "I_RT (i_type op rs rt imm) = ucast rt" "I_OFFSET (i_type op rs rt imm) = imm"
  unfolding OPCODE_def R_RS_def I_RS_def I_RT_def I_OFFSET_def I_IMMEDIATE_def field_masks
  by (auto intro!: bit_word_eqI simp: bit_simps bit_i_type bit_beyond dest: bit_within)

lemma i_type_low:
  "R_FUNC (i_type op rs rt imm) = ucast (imm AND 0x3f)" "R_RD (i_type op rs rt imm) = ucast (drop_bit 11 imm)"
proof -
  have m: "(0x3f :: u16) = mask 6" by (simp add: mask_eq_exp_minus_1)
  show "R_FUNC (i_type op rs rt imm) = ucast (imm AND 0x3f)"
    unfolding R_FUNC_def field_masks m
    by (auto intro!: bit_word_eqI simp: bit_simps bit_i_type bit_beyond dest: bit_within)
  show "R_RD (i_type op rs rt imm) = ucast (drop_bit 11 imm)"
    unfolding R_RD_def field_masks
    by (auto intro!: bit_word_eqI simp: bit_simps bit_i_type bit_beyond dest: bit_within)
      (drule bit_within(3), simp)
qed

lemma j_type_fields:
  "OPCODE (j_type op idx) = ucast op" "J_INDEX (j_type op idx) = push_bit 2 (ucast idx)"
  unfolding OPCODE_def J_INDEX_def J_INDEX_MASK_def field_masks
  by (auto intro!: bit_word_eqI simp: bit_simps bit_j_type bit_beyond dest: bit_within)

text \<open>
  Exactly where the emulation does what the manual says, for every branch and every value of the
  registers: a register jump must not overwrite its own source (unless with the value it has), a
  region jump must have its delay slot in the region of the branch, and in a comparison with zero
  the register must not be negative, because the code compares unsigned values (unless the target is
  the instruction behind the delay slot anyway); BLTZAL and BLTZALL must not have anything to link.
\<close>

fun follows_manual :: "branch \<Rightarrow> (nat \<Rightarrow> u64) \<Rightarrow> u64 \<Rightarrow> bool" where
  "follows_manual (JR rs) g pc = True"
| "follows_manual (JALR rd rs) g pc = (rd = rs \<longrightarrow> g (unat rs) = pc + 8)"
| "follows_manual (J idx) g pc = ((pc + 4) AND NOT 0x0fffffff = pc AND NOT 0x0fffffff)"
| "follows_manual (JAL idx) g pc = ((pc + 4) AND NOT 0x0fffffff = pc AND NOT 0x0fffffff)"
| "follows_manual (BEQ likely rs rt off) g pc = True"
| "follows_manual (BNE likely rs rt off) g pc = True"
| "follows_manual (BLEZ likely rs off) g pc = (0 \<le> sint (g (unat rs)) \<or> off = 1)"
| "follows_manual (BGTZ likely rs off) g pc = (0 \<le> sint (g (unat rs)) \<or> off = 1)"
| "follows_manual (BLTZ link likely rs off) g pc =
     ((0 \<le> sint (g (unat rs)) \<or> off = 1) \<and> (link \<longrightarrow> g REG_RA = pc + 8))"
| "follows_manual (BGEZ link likely rs off) g pc = (0 \<le> sint (g (unat rs)) \<or> off = 1)"

lemma relative_offset: "pc + I_IOFFSET (i_type op rs rt off) + 4 = relative pc off"
  unfolding I_IOFFSET_def i_type_fields relative_def by (simp add: push_bit_eq_mult)

lemma ucast_reg_u16 [simp]: "(ucast (ucast (r :: reg) :: u16) :: u32) = ucast r"
  by (rule bit_word_eqI) (auto simp: bit_simps dest: bit_within)

lemma ucast_reg [simp]: "unat (ucast (r :: reg) :: u32) = unat r"
  using unsigned_less [of r, where ?'a = nat] by (simp add: unsigned_ucast_eq take_bit_nat_eq_self)

lemma nonneg_cases:
  assumes "0 \<le> sint (w :: u64)"
  shows "sint w \<le> 0 \<longleftrightarrow> w = 0" "0 < sint w \<longleftrightarrow> w \<noteq> 0" "\<not> sint w < 0"
proof -
  have "sint w = 0 \<longleftrightarrow> w = 0" by (metis signed_0 signed_word_eqI)
  then show "sint w \<le> 0 \<longleftrightarrow> w = 0" "0 < sint w \<longleftrightarrow> w \<noteq> 0" "\<not> sint w < 0" using assms by auto
qed

lemma jalr_fields:
  "(push_bit 11 (ucast (rd :: reg)) OR 9) AND (0x3f :: u16) = 9"
  "drop_bit 11 (push_bit 11 (ucast (rd :: reg)) :: u16) = ucast rd"
  "drop_bit 11 (push_bit 11 (ucast (rd :: reg)) OR 9 :: u16) = ucast rd"
proof -
  have nine: "(9 :: u16) = push_bit 3 1 OR 1" by simp
  have bit9: "bit (9 :: u16) n \<longleftrightarrow> n = 0 \<or> n = 3" for n
    by (simp only: nine bit_or_iff bit_push_bit_iff bit_1_iff possible_bit_word) auto
  have m: "(0x3f :: u16) = mask 6" by (simp add: mask_eq_exp_minus_1)
  show "(push_bit 11 (ucast (rd :: reg)) OR 9) AND (0x3f :: u16) = 9"
    unfolding m by (rule bit_word_eqI) (simp only: bit_and_iff bit_or_iff bit_mask_iff bit_push_bit_iff bit9, auto)
  show "drop_bit 11 (push_bit 11 (ucast (rd :: reg)) :: u16) = ucast rd"
    by (rule bit_word_eqI) (auto simp: bit_simps dest: bit_within)
  show "drop_bit 11 (push_bit 11 (ucast (rd :: reg)) OR 9 :: u16) = ucast rd"
    by (rule bit_word_eqI) (simp only: bit_drop_bit_eq bit_or_iff bit_push_bit_iff bit9 o_apply, auto simp: bit_simps dest: bit_within)
qed

lemma ucast_index: "ucast (push_bit 2 (ucast (idx :: 26 word)) :: u32) = (push_bit 2 (ucast idx) :: u64)"
  by (rule bit_word_eqI) (auto simp: bit_simps bit_beyond dest: bit_within)

lemma branch_target_jr:
  "fetch pc = encode_branch (JR rs) \<Longrightarrow> branch_target fetch tf pc = Inr (tf_gpr tf (unat rs), tf)"
  unfolding branch_target_def Let_def by (simp add: i_type_fields i_type_low)

lemma branch_target_jalr:
  assumes "fetch pc = encode_branch (JALR rd rs)"
  shows "branch_target fetch tf pc = Inr (if rd = rs then pc + 8 else tf_gpr tf (unat rs),
    tf\<lparr>tf_gpr := (tf_gpr tf)(unat rd := pc + 8)\<rparr>)"
proof -
  have "unat rs = unat rd \<longleftrightarrow> rd = rs" by (metis unsigned_word_eqI)
  then show ?thesis using assms unfolding branch_target_def Let_def
    by (simp add: i_type_fields i_type_low jalr_fields set_gpr_def)
qed

lemma branch_target_j:
  "fetch pc = encode_branch (J idx) \<Longrightarrow>
   branch_target fetch tf pc = Inr ((pc AND NOT 0x0fffffff) OR push_bit 2 (ucast idx), tf)"
  unfolding branch_target_def Let_def by (simp add: j_type_fields ucast_index J_ACTUAL_INDEX_MASK_def)

lemma branch_target_jal:
  "fetch pc = encode_branch (JAL idx) \<Longrightarrow>
   branch_target fetch tf pc =
     Inr ((pc AND NOT 0x0fffffff) OR push_bit 2 (ucast idx), tf\<lparr>tf_gpr := (tf_gpr tf)(REG_RA := pc + 8)\<rparr>)"
  unfolding branch_target_def Let_def by (simp add: j_type_fields ucast_index J_ACTUAL_INDEX_MASK_def set_gpr_def)

lemma branch_target_compare:
  "fetch pc = encode_branch (BEQ likely rs rt off) \<Longrightarrow>
   branch_target fetch tf pc = Inr (cond_branch (tf_gpr tf (unat rs) = tf_gpr tf (unat rt)) pc off, tf)"
  "fetch pc = encode_branch (BNE likely rs rt off) \<Longrightarrow>
   branch_target fetch tf pc = Inr (cond_branch (tf_gpr tf (unat rs) \<noteq> tf_gpr tf (unat rt)) pc off, tf)"
  "fetch pc = encode_branch (BLEZ likely rs off) \<Longrightarrow>
   branch_target fetch tf pc = Inr (cond_branch (tf_gpr tf (unat rs) = 0) pc off, tf)"
  "fetch pc = encode_branch (BGTZ likely rs off) \<Longrightarrow>
   branch_target fetch tf pc = Inr (cond_branch (tf_gpr tf (unat rs) \<noteq> 0) pc off, tf)"
  unfolding branch_target_def Let_def
  by (cases likely; simp add: i_type_fields relative_offset cond_branch_def word_gt_0)+

text \<open>An unsigned register is never negative: BLTZ falls through and BGEZ is taken.\<close>

lemma branch_target_regimm:
  "fetch pc = encode_branch (BLTZ link likely rs off) \<Longrightarrow> branch_target fetch tf pc = Inr (pc + 8, tf)"
  "fetch pc = encode_branch (BGEZ link likely rs off) \<Longrightarrow>
   branch_target fetch tf pc =
     Inr (relative pc off, tf\<lparr>tf_gpr := (if link then (tf_gpr tf)(REG_RA := pc + 8) else tf_gpr tf)\<rparr>)"
  unfolding branch_target_def Let_def
  by (cases link; cases likely; simp add: i_type_fields I_FUNC_def relative_offset set_gpr_def)+

lemma relative_next: "relative pc off = pc + 8 \<longleftrightarrow> off = 1"
proof
  assume "relative pc off = pc + 8"
  then have "(scast off * 4 :: u64) = 4" unfolding relative_def by (simp add: algebra_simps)
  then have "word_of_int (sint off) * word_of_int 4 = (word_of_int 4 :: u64)"
    unfolding scast_eq by (simp only: word_of_int_numeral)
  then have "word_of_int (sint off * 4) = (word_of_int 4 :: u64)" by (simp only: wi_homs)
  then have "(2 :: int) ^ 64 dvd sint off * 4 - 4"
    unfolding word_of_int_eq_iff take_bit_eq_mod mod_eq_dvd_iff by simp
  moreover have "- (2 ^ 15) \<le> sint off" "sint off < 2 ^ 15"
    using signed_take_bit_int_greater_eq_minus_exp [of 15 "uint off"] signed_take_bit_int_less_exp [of 15 "uint off"]
    by (simp_all add: sint_uint)
  ultimately have "sint off * 4 - 4 = 0" using dvd_imp_le_int [of "sint off * 4 - 4" "2 ^ 64"] by fastforce
  then have "sint off = sint (1 :: u16)" by simp
  then show "off = 1" by (rule signed_word_eqI)
qed (simp add: relative_def)

section \<open>The emulation and the manual\<close>

lemma or_same:
  assumes "x AND n = 0"
  shows "(a AND n) OR x = (b AND n) OR x \<longleftrightarrow> a AND n = b AND (n :: u64)"
proof -
  have "((c AND n) OR x) AND n = c AND n" for c
    using assms by (simp add: bit.conj_disj_distrib2 and.assoc)
  then show ?thesis by metis
qed

lemma region_or:
  "(a AND - 0x10000000) OR push_bit 2 (ucast (idx :: 26 word)) = (b AND - 0x10000000) OR push_bit 2 (ucast idx) \<longleftrightarrow>
    a AND - 0x10000000 = b AND (- 0x10000000 :: u64)"
proof (rule or_same)
  have m: "(- 0x10000000 :: u64) = NOT (mask 28)" by (simp add: mask_eq_exp_minus_1)
  show "push_bit 2 (ucast idx) AND (- 0x10000000 :: u64) = 0"
    unfolding m by (rule bit_word_eqI) (auto simp: bit_simps bit_beyond dest!: bit_within(4))
qed

text \<open>
  Property C10. Whatever branch or jump instruction an exception hit the delay slot of, \<^verbatim>\<open>branch_target\<close>
  returns; and for every encoding, likely or not, linking or not, every register number and content, offset
  and address, it continues where the manual says and leaves registers 1 to 31 as the manual says if and only if
  \<open>follows_manual\<close> holds. (Slot 0 of the frame, which \<^verbatim>\<open>jalr $0\<close> overwrites, is never loaded.)
\<close>

theorem branch_target_matches_mips:
  assumes "fetch pc = encode_branch b"
  shows "\<exists>t g. branch_target fetch tf pc = Inr (t, tf\<lparr>tf_gpr := g\<rparr>) \<and>
    ((t = fst (branch_meaning b (tf_gpr tf) pc) \<and> (\<forall>r. r = 0 \<or> g r = snd (branch_meaning b (tf_gpr tf) pc) r)) \<longleftrightarrow>
     follows_manual b (tf_gpr tf) pc)"
proof -
  have answer: ?thesis
    if "branch_target fetch tf pc = Inr (t, tf\<lparr>tf_gpr := g\<rparr>)"
      "t = fst (branch_meaning b (tf_gpr tf) pc) \<and> (\<forall>r. r = 0 \<or> g r = snd (branch_meaning b (tf_gpr tf) pc) r) \<longleftrightarrow>
        follows_manual b (tf_gpr tf) pc" for t g
    using that by blast
  have same: ?thesis
    if "branch_target fetch tf pc = Inr (t, tf)"
      "t = fst (branch_meaning b (tf_gpr tf) pc) \<and> (\<forall>r. r = 0 \<or> tf_gpr tf r = snd (branch_meaning b (tf_gpr tf) pc) r) \<longleftrightarrow>
        follows_manual b (tf_gpr tf) pc" for t
    by (rule answer [of t "tf_gpr tf"]) (use that in simp_all)
  have nz: "unat (r :: reg) = 0 \<longleftrightarrow> r = 0" for r by (metis unsigned_0 unsigned_word_eqI)
  have near: "relative pc off = pc + 8 \<longleftrightarrow> off = 1" "pc + 8 = relative pc off \<longleftrightarrow> off = 1" for off
    using relative_next [of pc off] by auto
  show ?thesis
  proof (cases b)
    case (JR rs)
    show ?thesis by (rule same, rule branch_target_jr [of fetch pc rs tf, folded JR, OF assms]) (simp_all add: JR)
  next
    case (JALR rd rs)
    show ?thesis by (rule answer, rule branch_target_jalr [of fetch pc rd rs tf, folded JALR, OF assms]) (auto simp: JALR nz)
  next
    case (J idx)
    show ?thesis by (rule same, rule branch_target_j [of fetch pc idx tf, folded J, OF assms])
      (auto simp: J region_or)
  next
    case (JAL idx)
    show ?thesis by (rule answer, rule branch_target_jal [of fetch pc idx tf, folded JAL, OF assms]) (auto simp: JAL region_or)
  next
    case (BEQ likely rs rt off)
    show ?thesis by (rule same, rule branch_target_compare(1) [of fetch pc likely rs rt off tf, folded BEQ, OF assms]) (simp_all add: BEQ)
  next
    case (BNE likely rs rt off)
    show ?thesis by (rule same, rule branch_target_compare(2) [of fetch pc likely rs rt off tf, folded BNE, OF assms]) (simp_all add: BNE)
  next
    case (BLEZ likely rs off)
    show ?thesis by (rule same, rule branch_target_compare(3) [of fetch pc likely rs off tf, folded BLEZ, OF assms])
      (cases "0 \<le> sint (tf_gpr tf (unat rs))"; auto simp: BLEZ nonneg_cases cond_branch_def near)+
  next
    case (BGTZ likely rs off)
    show ?thesis by (rule same, rule branch_target_compare(4) [of fetch pc likely rs off tf, folded BGTZ, OF assms])
      (cases "0 \<le> sint (tf_gpr tf (unat rs))"; auto simp: BGTZ nonneg_cases cond_branch_def near)+
  next
    case (BLTZ link likely rs off)
    show ?thesis by (rule same, rule branch_target_regimm(1) [of fetch pc link likely rs off tf, folded BLTZ, OF assms])
      (cases link; auto simp: BLTZ cond_branch_def near not_less)+
  next
    case (BGEZ link likely rs off)
    show ?thesis by (rule answer, rule branch_target_regimm(2) [of fetch pc link likely rs off tf, folded BGEZ, OF assms])
      (cases link; auto simp: BGEZ cond_branch_def near not_le)+
  qed
qed

text \<open>
  \<^verbatim>\<open>bne $4, $5, -2\<close> with unequal registers goes back to the instruction before it;
  \<^verbatim>\<open>bgez $4\<close> with a negative register does not go where the processor would.
\<close>

theorem branch_target_matches_mips_witness:
  "\<exists>t g. branch_target (\<lambda>_. encode_branch (BNE False 4 5 0xfffe)) (zero_frame\<lparr>tf_gpr := (\<lambda>_. 0)(4 := 7)\<rparr>) 0x80200100 =
     Inr (t, zero_frame\<lparr>tf_gpr := g\<rparr>) \<and> t = 0x802000fc"
proof -
  have "follows_manual (BNE False 4 5 0xfffe) ((\<lambda>_. 0)(4 := 7)) 0x80200100" by simp
  moreover have "fst (branch_meaning (BNE False 4 5 0xfffe) ((\<lambda>_. 0)(4 := 7)) 0x80200100) = 0x802000fc"
    by (simp add: cond_branch_def relative_def)
  ultimately show ?thesis
    using branch_target_matches_mips [where b = "BNE False 4 5 0xfffe" and pc = "0x80200100" and
      fetch = "\<lambda>_. encode_branch (BNE False 4 5 0xfffe)" and tf = "zero_frame\<lparr>tf_gpr := (\<lambda>_. 0)(4 := 7)\<rparr>"]
    by (fastforce simp del: encode_branch.simps branch_meaning.simps)
qed

text \<open>
  Property C35. The comparisons with zero are unsigned. After an exception in its delay slot a BLTZ or BLTZAL
  (likely or not) on a negative register, which the processor takes, is resumed behind the delay slot, at
  \<open>pc + 8\<close>, with no register changed, so nothing is linked; that is not where the branch goes unless its offset
  says so.
\<close>

theorem branch_target_negative:
  assumes "fetch pc = encode_branch (BLTZ link likely rs off)" "sint (tf_gpr tf (unat rs)) < 0"
  shows "branch_target fetch tf pc = Inr (pc + 8, tf) \<and>
    fst (branch_meaning (BLTZ link likely rs off) (tf_gpr tf) pc) = relative pc off \<and>
    (relative pc off = pc + 8 \<longleftrightarrow> off = 1)"
  using branch_target_regimm(1) [of fetch pc link likely rs off tf] assms by (simp add: cond_branch_def relative_next del: encode_branch.simps)

theorem branch_target_negative_witness:
  "branch_target (\<lambda>_. encode_branch (BLTZ True False 4 0x10)) (zero_frame\<lparr>tf_gpr := (\<lambda>_. -1)\<rparr>) 0x80200100 =
      Inr (0x80200108, zero_frame\<lparr>tf_gpr := (\<lambda>_. -1)\<rparr>) \<and>
    fst (branch_meaning (BLTZ True False 4 0x10) (\<lambda>_. -1) 0x80200100) = 0x80200144"
  using branch_target_negative [where link = True and likely = False and rs = 4 and off = "0x10" and pc = "0x80200100" and
      fetch = "\<lambda>_. encode_branch (BLTZ True False 4 0x10)" and tf = "zero_frame\<lparr>tf_gpr := (\<lambda>_. -1)\<rparr>"]
  by (simp add: relative_def cond_branch_def del: encode_branch.simps)

end
