(* ===== verification/Traps.thy ===== *)
theory Traps
  imports Decode
begin

text \<open>
  Exceptions: what the entry and exit macros of \<^verbatim>\<open>asm/stackframe.h\<close> save and restore, the
  handlers of \<^verbatim>\<open>arch/mips/traps.c\<close>, system calls (\<^verbatim>\<open>arch/mips/syscall/syscall.c\<close>,
  \<^verbatim>\<open>fs/write.c\<close>) and the return of a new task (\<^verbatim>\<open>kern/syscall/fork.c\<close>).

  Diagnostic output of the handlers is left out; what \<^verbatim>\<open>write\<close> prints is not.
\<close>

section \<open>Saving and restoring registers\<close>

definition ST_KSU :: u64 where "ST_KSU = 0x18"

text \<open>The memory of a frame that has not been used yet reads as zeros.\<close>

definition stack_frame :: "'s task_state_scheme \<Rightarrow> addr_t \<Rightarrow> trapframe" where
  "stack_frame s a = (case tframes s a of Some f \<Rightarrow> f | None \<Rightarrow> zero_frame)"

definition set_cpu :: "nat \<Rightarrow> u64 \<Rightarrow> 's task_state_scheme \<Rightarrow> 's task_state_scheme" where
  "set_cpu r v s = s\<lparr>cpu_gpr := (cpu_gpr s)(r := v)\<rparr>"

text \<open>\<^verbatim>\<open>sd r, TF_r(sp)\<close> and \<^verbatim>\<open>ld r, TF_r(sp)\<close> for each register of a list.\<close>

definition at_sp :: "(trapframe \<Rightarrow> trapframe) \<Rightarrow> 's task_state_scheme \<Rightarrow> 's task_state_scheme" where
  "at_sp f s = (let sp = cpu_gpr s REG_SP in s\<lparr>tframes := (tframes s)(sp \<mapsto> f (stack_frame s sp))\<rparr>)"

definition save_regs :: "nat list \<Rightarrow> 's task_state_scheme \<Rightarrow> 's task_state_scheme" where
  "save_regs rs s = at_sp (\<lambda>f. f\<lparr>tf_gpr := (\<lambda>r. if r \<in> set rs then cpu_gpr s r else tf_gpr f r)\<rparr>) s"

definition load_regs :: "nat list \<Rightarrow> trapframe \<Rightarrow> 's task_state_scheme \<Rightarrow> 's task_state_scheme" where
  "load_regs rs f s = s\<lparr>cpu_gpr := (\<lambda>r. if r \<in> set rs then tf_gpr f r else cpu_gpr s r)\<rparr>"

text \<open>\<^verbatim>\<open>get_saved_sp\<close> indexes \<^verbatim>\<open>kernelsp\<close> with the processor number in \<^verbatim>\<open>EBASE\<close>.\<close>

definition get_saved_sp :: "'s task_state_scheme \<Rightarrow> u64" where
  "get_saved_sp s = kernelsp s ! unat (cpu_number s)"

definition SAVE_SOME :: "'s task_state_scheme \<Rightarrow> 's task_state_scheme" where
  "SAVE_SOME s =
     (let k0 = read_32bit_c0_register (cp0_status s) AND ST_KSU;
          k1 = (if k0 = 0 then cpu_gpr s REG_SP else get_saved_sp s);
          k0 = cpu_gpr s REG_SP;
          s = set_cpu REG_SP (k1 - TF_SIZE) (set_cpu 27 k1 (set_cpu 26 k0 s));
          s = at_sp (\<lambda>f. f\<lparr>tf_gpr := (tf_gpr f)(REG_SP := k0, 0 := 0)\<rparr>) s;
          s = save_regs [2, 3, 4, 5, 6, 7] s;
          s = at_sp (\<lambda>f. f\<lparr>tf_status := read_32bit_c0_register (cp0_status s),
                          tf_cause := read_32bit_c0_register (cp0_cause s),
                          tf_epc := cp0_epc s, tf_entryhi := cp0_entryhi s, tf_badvaddr := cp0_badvaddr s\<rparr>) s;
          s = set_cpu 3 (cp0_badvaddr s) s
      in save_regs [8, 9, 25, 28, 31] s)"

definition SAVE_AT :: "'s task_state_scheme \<Rightarrow> 's task_state_scheme" where
  "SAVE_AT s = save_regs [1] s"

definition SAVE_TEMP :: "'s task_state_scheme \<Rightarrow> 's task_state_scheme" where
  "SAVE_TEMP s =
     (let s = save_regs [10, 11, 12] (set_cpu 3 (cpu_hi s) s);
          s = at_sp (\<lambda>f. f\<lparr>tf_hi := cpu_gpr s 3\<rparr>) s;
          s = save_regs [13, 14, 15, 24] (set_cpu 3 (cpu_lo s) s)
      in at_sp (\<lambda>f. f\<lparr>tf_lo := cpu_gpr s 3\<rparr>) s)"

definition SAVE_STATIC :: "'s task_state_scheme \<Rightarrow> 's task_state_scheme" where
  "SAVE_STATIC s = save_regs [16, 17, 18, 19, 20, 21, 22, 23, 30] s"

definition SAVE_ALL :: "'s task_state_scheme \<Rightarrow> 's task_state_scheme" where
  "SAVE_ALL s = SAVE_STATIC (SAVE_TEMP (SAVE_AT (SAVE_SOME s)))"

definition RESTORE_TEMP :: "trapframe \<Rightarrow> 's task_state_scheme \<Rightarrow> 's task_state_scheme" where
  "RESTORE_TEMP f s =
     (let s = load_regs [10, 11, 12] f (set_cpu 24 (tf_hi f) s);
          s = set_cpu 24 (tf_lo f) (s\<lparr>cpu_hi := cpu_gpr s 24\<rparr>);
          s = load_regs [13, 14, 15] f s
      in load_regs [24] f (s\<lparr>cpu_lo := cpu_gpr s 24\<rparr>))"

definition RESTORE_STATIC :: "trapframe \<Rightarrow> 's task_state_scheme \<Rightarrow> 's task_state_scheme" where
  "RESTORE_STATIC f s = load_regs [16, 17, 18, 19, 20, 21, 22, 23, 30] f s"

definition RESTORE_AT :: "trapframe \<Rightarrow> 's task_state_scheme \<Rightarrow> 's task_state_scheme" where
  "RESTORE_AT f s = load_regs [1] f s"

text \<open>
  The interrupt mask of the processor is kept, the rest of the status register comes from the
  frame. \<^verbatim>\<open>EPC\<close> is a 64-bit register and receives the whole general register.
\<close>

definition RESTORE_SOME :: "trapframe \<Rightarrow> 's task_state_scheme \<Rightarrow> 's task_state_scheme" where
  "RESTORE_SOME f s =
     (let a0 = read_32bit_c0_register (cp0_status s);
          v1 = 0xff00;
          a0 = (a0 OR ST_EXCM) XOR ST_EXCM;
          s = s\<lparr>cp0_status := a0\<rparr>;
          a0 = a0 AND v1;
          v0 = tf_status f;
          v1 = NOT v1;
          v0 = v0 AND v1;
          v0 = v0 OR a0;
          s = s\<lparr>cp0_status := v0\<rparr>;
          s = s\<lparr>cp0_epc := tf_epc f\<rparr>;
          s = load_regs [31, 28] f s;
          s = s\<lparr>cp0_entryhi := tf_entryhi f\<rparr>
      in load_regs [25, 8, 9, 7, 6, 5, 4, 3, 2] f s)"

definition RESTORE_SP :: "trapframe \<Rightarrow> 's task_state_scheme \<Rightarrow> 's task_state_scheme" where
  "RESTORE_SP f s = load_regs [REG_SP] f s"

text \<open>\<^verbatim>\<open>eret\<close>: the address at which execution continues, and the state.\<close>

definition eret :: "'s task_state_scheme \<Rightarrow> addr_t \<times> 's task_state_scheme" where
  "eret s = (cp0_epc s, s\<lparr>cp0_status := cp0_status s AND NOT ST_EXL\<rparr>)"

definition RESTORE_ALL_AND_RET :: "'s task_state_scheme \<Rightarrow> (addr_t \<times> 's task_state_scheme) result" where
  "RESTORE_ALL_AND_RET s =
     rbind (read_frame s (cpu_gpr s REG_SP)) (\<lambda>f.
     Inr (eret (RESTORE_SP f (RESTORE_SOME f (RESTORE_AT f (RESTORE_STATIC f (RESTORE_TEMP f s)))))))"

text \<open>\<^verbatim>\<open>arch_forkret\<close> does not return, so neither does \<^verbatim>\<open>forkret\<close>.\<close>

definition forkret :: "addr_t \<Rightarrow> 's task_state_scheme \<Rightarrow> (addr_t \<times> 's task_state_scheme) result" where
  "forkret tf s = RESTORE_ALL_AND_RET (set_cpu REG_SP tf s)"

section \<open>System calls\<close>

abbreviation (input) EBADF :: int where "EBADF \<equiv> 9"
abbreviation (input) E2BIG :: int where "E2BIG \<equiv> 7"
abbreviation (input) STDOUT_FILENO :: u32 where "STDOUT_FILENO \<equiv> 1"
abbreviation (input) STDERR_FILENO :: u32 where "STDERR_FILENO \<equiv> 2"
abbreviation (input) NRSYS_write :: nat where "NRSYS_write \<equiv> 6"
abbreviation (input) NR_SYSCALLS :: nat where "NR_SYSCALLS \<equiv> 256"
definition MAX_WRITE_LEN :: size_t where "MAX_WRITE_LEN = BUFSIZ"

text \<open>The error number, \<^verbatim>\<open>*result\<close> and the state; the buffer is used whether \<^verbatim>\<open>kmalloc\<close> found one or not.\<close>

definition do_write :: "nat \<Rightarrow> u32 \<Rightarrow> addr_t \<Rightarrow> size_t \<Rightarrow> 's sys_state_scheme \<Rightarrow>
    (int \<times> u64 \<times> 's sys_state_scheme) result" where
  "do_write fuel fd buf len s =
     rbind (read_task s (current_task s)) (\<lambda>x.
     if \<not> userspace buf then Inr (- EFAULT, -1, s)
     else
       rbind (kmalloc fuel MAX_WRITE_LEN s) (\<lambda>(kbuf, s).
       rbind (if fd = STDOUT_FILENO \<or> fd = STDERR_FILENO then
                (case t_mm x of None \<Rightarrow> Inl NullPointer
                | Some mm \<Rightarrow>
                    rbind (copy_from_uvm mm buf kbuf MAX_WRITE_LEN s) (\<lambda>(r, s).
                    if r \<noteq> 0 then Inr (- E2BIG, -1, s)
                    else
                      rbind (printk fuel (lit_percent_s s) [kbuf]
                        (s\<lparr>mem := (mem s)(kbuf + (MAX_WRITE_LEN - 1) := 0)\<rparr>)) (\<lambda>(n, s).
                      Inr (0, scast n, s))))
              else Inr (- EBADF, -1, s)) (\<lambda>(errno, result, s).
       rbind (kfree kbuf s) (\<lambda>s. Inr (errno, result, s)))))"

definition sys_write :: "nat \<Rightarrow> addr_t \<Rightarrow> 's sys_state_scheme \<Rightarrow> 's sys_state_scheme result" where
  "sys_write fuel tf s =
     rbind (read_frame s tf) (\<lambda>f.
     let fd = ucast (tf_gpr f REG_A0); buf = tf_gpr f REG_A1; len = tf_gpr f REG_A2 in
     rbind (do_write fuel fd buf len s) (\<lambda>(errno, result, s).
     rbind (write_frame tf (set_gpr REG_A3 (word_of_int errno)) s) (\<lambda>s.
     write_frame tf (set_gpr REG_V0 result) s)))"

text \<open>The table has one entry that is not null; the index is not checked.\<close>

definition handle_sys :: "nat \<Rightarrow> addr_t \<Rightarrow> 's sys_state_scheme \<Rightarrow> 's sys_state_scheme result" where
  "handle_sys fuel tf s =
     rbind (read_frame s tf) (\<lambda>f.
     let nr = unat (tf_gpr f REG_V0) in
     if nr \<ge> NR_SYSCALLS then Inl (BadPointer ''__syscalls'')
     else if nr = NRSYS_write then sys_write fuel tf s
     else Inl NullPointer)"

section \<open>Handlers\<close>

definition CR_IPx :: "nat \<Rightarrow> u32" where "CR_IPx i = push_bit (i + 8) 1"
definition CR_TI :: u32 where "CR_TI = 0x40000000"
definition CR_EC :: u64 where "CR_EC = 0x7c"
definition EXCCODE :: "u64 \<Rightarrow> u64" where "EXCCODE x = drop_bit 2 (x AND CR_EC)"
abbreviation (input) EC_int :: u64 where "EC_int \<equiv> 0"
abbreviation (input) EC_tlbm :: u64 where "EC_tlbm \<equiv> 1"
abbreviation (input) EC_tlbl :: u64 where "EC_tlbl \<equiv> 2"
abbreviation (input) EC_tlbs :: u64 where "EC_tlbs \<equiv> 3"
abbreviation (input) EC_sys :: u64 where "EC_sys \<equiv> 8"
abbreviation (input) EC_bp :: u64 where "EC_bp \<equiv> 9"
abbreviation (input) EC_cacheerr :: u64 where "EC_cacheerr \<equiv> 30"

definition handle_int :: "u32 list \<Rightarrow> addr_t \<Rightarrow> 's task_state_scheme \<Rightarrow> (int \<times> 's task_state_scheme) result" where
  "handle_int counts tf s =
     rbind (read_frame s tf) (\<lambda>f.
     let cause = ucast (tf_cause f) in
     if cause AND CR_IPx 7 \<noteq> 0 \<and> cause AND CR_TI \<noteq> 0 then handle_clock counts s
     else Inr (-1, s))"

text \<open>\<^verbatim>\<open>skip_victim\<close> on the frame at \<open>tf\<close>.\<close>

definition skip_frame :: "(addr_t \<Rightarrow> u32) \<Rightarrow> addr_t \<Rightarrow> 's task_state_scheme \<Rightarrow> 's task_state_scheme result" where
  "skip_frame fetch tf s =
     rbind (read_frame s tf) (\<lambda>f.
     rbind (skip_victim fetch f) (\<lambda>f.
     write_frame tf (\<lambda>_. f) s))"

definition handle_bp :: "(addr_t \<Rightarrow> u32) \<Rightarrow> addr_t \<Rightarrow> 's task_state_scheme \<Rightarrow> (int \<times> 's task_state_scheme) result" where
  "handle_bp fetch tf s =
     rbind (read_frame s tf) (\<lambda>f.
     let victim = (if tf_cause f AND CR_BD \<noteq> 0 then tf_epc f + 4 else tf_epc f);
         code = R_CODE (fetch victim) in
     if code = 0 then rbind (skip_frame fetch tf s) (\<lambda>s. Inr (0, s))
     else Inr (-1, s))"

text \<open>What \<^verbatim>\<open>dump_trapframe\<close> does to the machine: the TLB is probed for the entry that faulted.\<close>

definition dump_trapframe :: "trapframe \<Rightarrow> 's task_state_scheme \<Rightarrow> 's task_state_scheme" where
  "dump_trapframe f s =
     (if EXCCODE (tf_cause f) \<in> {EC_tlbm, EC_tlbl, EC_tlbs} then
        let tmp_enthi = cp0_entryhi s;
            s = tlbp (s\<lparr>cp0_entryhi := tf_entryhi f\<rparr>);
            s = (if sint (cp0_index s) \<ge> 0 then tlbr s else s)
        in s\<lparr>cp0_entryhi := tmp_enthi\<rparr>
      else s)"

text \<open>The descriptions go up to \<^verbatim>\<open>EC_cacheerr\<close>.\<close>

definition exception_fatal :: "u64 \<Rightarrow> addr_t \<Rightarrow> 's task_state_scheme \<Rightarrow> 's task_state_scheme result" where
  "exception_fatal exccode tf s =
     (if exccode > EC_cacheerr then Inl (BadPointer ''ex_desc'')
      else
        rbind (read_frame s tf) (\<lambda>f.
        rbind (Inr (dump_trapframe f s)) (\<lambda>s.
        Inl (Panic ''SUSPENDING SYSTEM...''))))"

definition handle_exception :: "nat \<Rightarrow> (addr_t \<Rightarrow> u32) \<Rightarrow> u32 list \<Rightarrow> addr_t \<Rightarrow> 's sys_state_scheme \<Rightarrow>
    's sys_state_scheme result" where
  "handle_exception fuel fetch counts tf s =
     rbind (read_frame s tf) (\<lambda>f.
     let exccode = EXCCODE (tf_cause f);
         finish = (\<lambda>(r, s). if r = 0 then Inr s else exception_fatal exccode tf s) in
     if exccode = EC_int then rbind (handle_int counts tf s) finish
     else if exccode = EC_bp then rbind (handle_bp fetch tf s) finish
     else if exccode = EC_sys then rbind (handle_sys fuel tf s) (\<lambda>s. skip_frame fetch tf s)
     else if exccode = EC_tlbl \<or> exccode = EC_tlbs then rbind (handle_pgfault tf s) finish
     else exception_fatal exccode tf s)"

section \<open>trap\_init\<close>

text \<open>The exception base, and the addresses of the two entry routines of \<^verbatim>\<open>except.S\<close> and \<^verbatim>\<open>tlbex.S\<close>, are parameters.\<close>

definition trap_init :: "u64 \<Rightarrow> addr_t \<Rightarrow> addr_t \<Rightarrow> 's task_state_scheme \<Rightarrow> 's task_state_scheme" where
  "trap_init cp0_ebase except_generic except_tlb s =
     (let ebase = read_32bit_c0_register cp0_ebase;
          ebase = 0xffffffff00000000 OR ((ebase OR 0x3ff) XOR 0x3ff);
          s = s\<lparr>mem := memcpy (ebase + 0x180) except_generic 0x80 (mem s)\<rparr>;
          s = s\<lparr>mem := memcpy ebase except_tlb 0x80 (mem s)\<rparr>;
          s = s\<lparr>mem := memcpy (ebase + 0x80) except_tlb 0x80 (mem s)\<rparr>
      in s\<lparr>mem := memcpy (ebase + 0x100) except_generic 0x80 (mem s)\<rparr>)"

end
