(* ===== verification/Trap_Props.thy ===== *)
theory Trap_Props
  imports Traps
begin

text \<open>What a trap preserves, and what a failing system call does.\<close>

section \<open>Entry and exit\<close>

definition trap_sp :: "'s task_state_scheme \<Rightarrow> addr_t" where
  "trap_sp s = (if read_32bit_c0_register (cp0_status s) AND ST_KSU = 0 then cpu_gpr s REG_SP else get_saved_sp s) - TF_SIZE"

text \<open>The registers that the macros save: all but \<^verbatim>\<open>zero\<close> and the two the kernel keeps for itself.\<close>

definition saved_regs :: "nat set" where "saved_regs = {r. r < 32} - {0, 26, 27}"

definition save_frame_regs :: "nat list \<Rightarrow> (nat \<Rightarrow> u64) \<Rightarrow> trapframe \<Rightarrow> trapframe" where
  "save_frame_regs rs g f = f\<lparr>tf_gpr := (\<lambda>r. if r \<in> set rs then g r else tf_gpr f r)\<rparr>"

text \<open>Storing through \<^verbatim>\<open>sp\<close> with the frame already there.\<close>

lemma at_sp_again: "at_sp f (at_sp g s) = at_sp (f \<circ> g) s"
  by (simp add: at_sp_def stack_frame_def Let_def)

lemma at_sp_fields [simp]:
  "cpu_gpr (at_sp f s) = cpu_gpr s" "cpu_hi (at_sp f s) = cpu_hi s" "cpu_lo (at_sp f s) = cpu_lo s"
  "cp0_status (at_sp f s) = cp0_status s" "cp0_cause (at_sp f s) = cp0_cause s" "cp0_epc (at_sp f s) = cp0_epc s"
  "cp0_badvaddr (at_sp f s) = cp0_badvaddr s" "cp0_entryhi (at_sp f s) = cp0_entryhi s"
  by (simp_all add: at_sp_def Let_def)

lemma set_cpu_fields [simp]:
  "cpu_gpr (set_cpu r v s) = (cpu_gpr s)(r := v)" "cpu_hi (set_cpu r v s) = cpu_hi s" "cpu_lo (set_cpu r v s) = cpu_lo s"
  "cp0_status (set_cpu r v s) = cp0_status s" "cp0_cause (set_cpu r v s) = cp0_cause s" "cp0_epc (set_cpu r v s) = cp0_epc s"
  "cp0_badvaddr (set_cpu r v s) = cp0_badvaddr s" "cp0_entryhi (set_cpu r v s) = cp0_entryhi s"
  "tframes (set_cpu r v s) = tframes s"
  by (simp_all add: set_cpu_def)

lemma set_cpu_at_sp: "r \<noteq> REG_SP \<Longrightarrow> set_cpu r v (at_sp f s) = at_sp f (set_cpu r v s)"
  by (simp add: set_cpu_def at_sp_def stack_frame_def Let_def)

lemma save_regs_at_sp: "save_regs rs s = at_sp (save_frame_regs rs (cpu_gpr s)) s"
  by (simp add: save_regs_def save_frame_regs_def [abs_def])

lemma saved_regs_list:
  "saved_regs = set [1, 2, 3, 4, 5, 6, 7, 8, 9, 10, 11, 12, 13, 14, 15, 16, 17, 18, 19, 20, 21, 22, 23, 24, 25, 28, 29, 30, 31]"
proof -
  have "{r. r < (32 :: nat)} = set [0..<32]" by auto
  moreover have "set [0..<32] - {0, 26, 27} =
    set [1, 2, 3, 4, 5, 6, 7, 8, 9, 10, 11, 12, 13, 14, 15, 16, 17, 18, 19, 20, 21, 22, 23, 24, 25, 28, 29, 30, 31 :: nat]"
    by code_simp
  ultimately show ?thesis unfolding saved_regs_def by simp
qed

lemma SAVE_ALL_at_sp:
  "\<exists>f s'. SAVE_ALL s = at_sp f s' \<and> cpu_gpr s' REG_SP = trap_sp s \<and> cpu_gpr s' 0 = cpu_gpr s 0 \<and> tframes s' = tframes s \<and>
     (\<forall>g. \<forall>r\<in>saved_regs. tf_gpr (f g) r = cpu_gpr s r) \<and>
     (\<forall>g. tf_lo (f g) = cpu_lo s \<and> tf_hi (f g) = cpu_hi s \<and> tf_status (f g) = read_32bit_c0_register (cp0_status s) \<and>
       tf_epc (f g) = cp0_epc s \<and> tf_entryhi (f g) = cp0_entryhi s)"
  unfolding SAVE_ALL_def SAVE_SOME_def SAVE_AT_def SAVE_TEMP_def SAVE_STATIC_def Let_def
    save_regs_at_sp at_sp_again set_cpu_at_sp
  by (simp only: save_regs_at_sp at_sp_again set_cpu_at_sp at_sp_fields set_cpu_fields comp_assoc,
      rule exI, rule exI, rule conjI, rule refl)
    (simp add: trap_sp_def get_saved_sp_def saved_regs_list save_frame_regs_def)

text \<open>The status register an exit leaves: the interrupt mask of the processor, the rest from the frame.\<close>

definition exit_status :: "u64 \<Rightarrow> u64 \<Rightarrow> u64" where
  "exit_status saved now = ((saved AND NOT 0xff00) OR (read_32bit_c0_register now AND 0xff00)) AND NOT ST_EXL"

lemma mask_after_clear: "((a OR ST_EXCM) XOR ST_EXCM) AND 0xff00 = (a :: u64) AND 0xff00"
proof -
  have "(a OR e) XOR e = a AND NOT e" for e :: u64 by (auto intro!: bit_word_eqI simp: bit_simps)
  moreover have "NOT ST_EXCM AND 0xff00 = (0xff00 :: u64)" by (simp add: ST_EXCM_def)
  ultimately show ?thesis by (simp add: and.assoc)
qed

lemma load_regs_fields [simp]:
  "cpu_gpr (load_regs rs f s) r = (if r \<in> set rs then tf_gpr f r else cpu_gpr s r)"
  "cpu_hi (load_regs rs f s) = cpu_hi s" "cpu_lo (load_regs rs f s) = cpu_lo s"
  "cp0_status (load_regs rs f s) = cp0_status s" "cp0_epc (load_regs rs f s) = cp0_epc s"
  "cp0_entryhi (load_regs rs f s) = cp0_entryhi s"
  by (simp_all add: load_regs_def)

lemma RESTORE_ALL_AND_RET_frame:
  assumes "tframes s (cpu_gpr s REG_SP) = Some f"
  shows "\<exists>s'. RESTORE_ALL_AND_RET s = Inr (tf_epc f, s') \<and> (\<forall>r\<in>saved_regs. cpu_gpr s' r = tf_gpr f r) \<and>
    cpu_hi s' = tf_hi f \<and> cpu_lo s' = tf_lo f \<and> cp0_entryhi s' = tf_entryhi f \<and> cpu_gpr s' 0 = cpu_gpr s 0 \<and>
    cp0_status s' = exit_status (tf_status f) (cp0_status s)"
  using assms
  by (simp add: RESTORE_ALL_AND_RET_def RESTORE_TEMP_def RESTORE_STATIC_def RESTORE_AT_def RESTORE_SOME_def RESTORE_SP_def
      eret_def Let_def exit_status_def saved_regs_list mask_after_clear)

text \<open>
  Property C9. A trap and the return from it are invisible to the interrupted program. Take the
  registers \<^verbatim>\<open>SAVE_ALL\<close> leaves, any state the handlers make of them in which the stack
  pointer and the frame it points to are as they were, and return with
  \<^verbatim>\<open>RESTORE_ALL_AND_RET\<close>: execution continues at the interrupted instruction, with every
  general register but \<^verbatim>\<open>k0\<close> and \<^verbatim>\<open>k1\<close>, \<^verbatim>\<open>hi\<close>, \<^verbatim>\<open>lo\<close> and the address space
  as before, whatever stack the trap was taken on; the status register is the saved one but for
  the exception level and the interrupt mask, which is the current one.
\<close>

theorem trap_roundtrip:
  assumes "cpu_gpr s' REG_SP = cpu_gpr (SAVE_ALL s) REG_SP"
    and "tframes s' (cpu_gpr s' REG_SP) = tframes (SAVE_ALL s) (cpu_gpr s' REG_SP)"
  shows "\<exists>s''. RESTORE_ALL_AND_RET s' = Inr (cp0_epc s, s'') \<and> (\<forall>r\<in>saved_regs. cpu_gpr s'' r = cpu_gpr s r) \<and>
    cpu_hi s'' = cpu_hi s \<and> cpu_lo s'' = cpu_lo s \<and> cp0_entryhi s'' = cp0_entryhi s \<and>
    cp0_status s'' = exit_status (read_32bit_c0_register (cp0_status s)) (cp0_status s')"
proof -
  obtain f t where f: "SAVE_ALL s = at_sp f t" "\<forall>g. \<forall>r\<in>saved_regs. tf_gpr (f g) r = cpu_gpr s r"
    "\<forall>g. tf_lo (f g) = cpu_lo s \<and> tf_hi (f g) = cpu_hi s \<and> tf_status (f g) = read_32bit_c0_register (cp0_status s) \<and>
       tf_epc (f g) = cp0_epc s \<and> tf_entryhi (f g) = cp0_entryhi s"
    using SAVE_ALL_at_sp [of s] by blast
  have "tframes s' (cpu_gpr s' REG_SP) = Some (f (stack_frame t (cpu_gpr t REG_SP)))"
    using assms f(1) by (simp add: at_sp_def Let_def)
  from RESTORE_ALL_AND_RET_frame [OF this] show ?thesis using f(2,3) by auto
qed

text \<open>A trap taken at \<^verbatim>\<open>0x400100\<close> by a handler that does nothing.\<close>

theorem trap_roundtrip_witness:
  "\<exists>s''. RESTORE_ALL_AND_RET (SAVE_ALL (task_example\<lparr>cp0_epc := 0x400100\<rparr>)) = Inr (0x400100, s'') \<and>
     cpu_hi s'' = cpu_hi task_example"
  using trap_roundtrip [of "SAVE_ALL (task_example\<lparr>cp0_epc := 0x400100\<rparr>)" "task_example\<lparr>cp0_epc := 0x400100\<rparr>"]
  by auto

section \<open>System calls\<close>

text \<open>
  Property C29. A \<^verbatim>\<open>write\<close> from a buffer that is not a user address fails before anything is
  allocated or copied: the only change is in the frame, where \<^verbatim>\<open>v0\<close> is -1, \<^verbatim>\<open>a3\<close> is
  \<^verbatim>\<open>-EFAULT\<close> and the program counter is behind the \<^verbatim>\<open>syscall\<close> instruction.
\<close>

theorem write_bad_buffer:
  assumes "tframes s tf = Some f" "tasks s (current_task s) = Some x"
    and "EXCCODE (tf_cause f) = EC_sys" "tf_cause f AND CR_BD = 0"
    and "tf_gpr f REG_V0 = of_nat NRSYS_write" "\<not> userspace (tf_gpr f REG_A1)"
  shows "handle_exception fuel fetch counts tf s = Inr (s\<lparr>tframes := (tframes s)(tf \<mapsto>
    f\<lparr>tf_gpr := (tf_gpr f)(REG_A3 := word_of_int (- EFAULT), REG_V0 := -1), tf_epc := tf_epc f + 4\<rparr>)\<rparr>)"
  using assms
  by (simp add: handle_exception_def handle_sys_def sys_write_def do_write_def skip_frame_def skip_victim_def
      set_gpr_def Let_def)

text \<open>A task with a system call in its frame, and a console.\<close>

definition syscall_frame :: "u64 \<Rightarrow> addr_t \<Rightarrow> trapframe" where
  "syscall_frame nr buf = zero_frame\<lparr>tf_cause := 0x20, tf_epc := 0x400100,
     tf_gpr := (\<lambda>_. 0)(REG_V0 := nr, REG_A0 := 1, REG_A1 := buf, REG_A2 := 5)\<rparr>"

definition sys_example :: "trapframe \<Rightarrow> sys_state" where
  "sys_example f = task_state.extend (task_example\<lparr>tframes := [0x9010 \<mapsto> f]\<rparr>)
     \<lparr>uart_status = [], uart_writes = [], early_printk = True, prom_buf = 0x20000, lit_elfmag = 0x30000,
      lit_percent_s = 0x30010, initargv = [], loc_hdr = 0x20800, loc_strtop = 0x20900\<rparr>"

lemma sys_example_simps [simp]:
  "tframes (sys_example f) = [0x9010 \<mapsto> f]" "tasks (sys_example f) = [0x1000 \<mapsto> idle_example, 0x2000 \<mapsto> init_example]"
  "current_task (sys_example f) = 0x1000"
  by (simp_all add: sys_example_def task_example_def vm_with_def boot_mach_def boot_kmem_def
      task_state.defs vm_state.defs mach_state.defs kmem_state.defs kstate.defs)

theorem write_bad_buffer_witness:
  "\<exists>s. handle_exception 5 (\<lambda>_. 0xc) [] 0x9010 (sys_example (syscall_frame 6 0x9000000000000000)) = Inr s \<and>
     (\<exists>f. tframes s 0x9010 = Some f \<and> tf_epc f = 0x400104 \<and> tf_gpr f REG_V0 = -1)"
  using write_bad_buffer [where s = "sys_example (syscall_frame 6 0x9000000000000000)" and tf = "0x9010" and fuel = 5
      and fetch = "\<lambda>_. 0xc" and counts = "[]" and f = "syscall_frame 6 0x9000000000000000" and x = idle_example]
  by (simp add: syscall_frame_def EXCCODE_def CR_EC_def CR_BD_def userspace_def zero_frame_def)

end
