(* ===== verification/Rbtree.thy ===== *)
theory Rbtree
  imports Kernel_Prelude
begin

text \<open>
  Red-black trees (\<^verbatim>\<open>include/ds/rbtree.h\<close>, \<^verbatim>\<open>lib/rbtree.c\<close>). Nodes are found by their
  address; the parent and the colour share a word. Reading a node that is not there is a fault.
  Loops that follow pointers take fuel.
\<close>

section \<open>Nodes\<close>

record rb_node =
  rb_parent_color :: u64
  rb_right :: addr_t
  rb_left :: addr_t

record rb_tree =
  rb_mem :: "addr_t \<rightharpoonup> rb_node"
  rb_root :: addr_t

abbreviation (input) RB_RED :: u64 where "RB_RED \<equiv> 0"
abbreviation (input) RB_BLACK :: u64 where "RB_BLACK \<equiv> 1"

definition rb_get :: "'s rb_tree_scheme \<Rightarrow> addr_t \<Rightarrow> rb_node result" where
  "rb_get s a = (case rb_mem s a of
       None \<Rightarrow> Inl (if a = 0 then NullPointer else BadPointer ''rb_node'')
     | Some n \<Rightarrow> Inr n)"

definition rb_set :: "addr_t \<Rightarrow> (rb_node \<Rightarrow> rb_node) \<Rightarrow> 's rb_tree_scheme \<Rightarrow> 's rb_tree_scheme result" where
  "rb_set a f s = rbind (rb_get s a) (\<lambda>n. Inr (s\<lparr>rb_mem := (rb_mem s)(a \<mapsto> f n)\<rparr>))"

definition rb_parent :: "rb_node \<Rightarrow> addr_t" where "rb_parent r = rb_parent_color r AND NOT 3"
definition rb_color :: "rb_node \<Rightarrow> u64" where "rb_color r = rb_parent_color r AND 1"
definition rb_is_red :: "rb_node \<Rightarrow> bool" where "rb_is_red r = (rb_color r = 0)"
definition rb_is_black :: "rb_node \<Rightarrow> bool" where "rb_is_black r = (rb_color r \<noteq> 0)"

definition rb_set_red :: "addr_t \<Rightarrow> 's rb_tree_scheme \<Rightarrow> 's rb_tree_scheme result" where
  "rb_set_red a = rb_set a (\<lambda>r. r\<lparr>rb_parent_color := rb_parent_color r AND NOT 1\<rparr>)"

definition rb_set_black :: "addr_t \<Rightarrow> 's rb_tree_scheme \<Rightarrow> 's rb_tree_scheme result" where
  "rb_set_black a = rb_set a (\<lambda>r. r\<lparr>rb_parent_color := rb_parent_color r OR 1\<rparr>)"

definition rb_set_parent :: "addr_t \<Rightarrow> addr_t \<Rightarrow> 's rb_tree_scheme \<Rightarrow> 's rb_tree_scheme result" where
  "rb_set_parent a p = rb_set a (\<lambda>r. r\<lparr>rb_parent_color := (rb_parent_color r AND 3) OR p\<rparr>)"

definition rb_set_color :: "addr_t \<Rightarrow> u64 \<Rightarrow> 's rb_tree_scheme \<Rightarrow> 's rb_tree_scheme result" where
  "rb_set_color a color = rb_set a (\<lambda>r. r\<lparr>rb_parent_color := (rb_parent_color r AND NOT 1) OR color\<rparr>)"

definition set_left :: "addr_t \<Rightarrow> addr_t \<Rightarrow> 's rb_tree_scheme \<Rightarrow> 's rb_tree_scheme result" where
  "set_left a p = rb_set a (\<lambda>r. r\<lparr>rb_left := p\<rparr>)"

definition set_right :: "addr_t \<Rightarrow> addr_t \<Rightarrow> 's rb_tree_scheme \<Rightarrow> 's rb_tree_scheme result" where
  "set_right a p = rb_set a (\<lambda>r. r\<lparr>rb_right := p\<rparr>)"

text \<open>\<^verbatim>\<open>struct rb_node **rb_link\<close>: the root or a child field of a node.\<close>

datatype rb_link = Root_Link | Left_Link addr_t | Right_Link addr_t

fun set_link :: "rb_link \<Rightarrow> addr_t \<Rightarrow> 's rb_tree_scheme \<Rightarrow> 's rb_tree_scheme result" where
  "set_link Root_Link p s = Inr (s\<lparr>rb_root := p\<rparr>)"
| "set_link (Left_Link a) p s = set_left a p s"
| "set_link (Right_Link a) p s = set_right a p s"

definition rb_link_node :: "addr_t \<Rightarrow> addr_t \<Rightarrow> rb_link \<Rightarrow> 's rb_tree_scheme \<Rightarrow> 's rb_tree_scheme result" where
  "rb_link_node node parent link s =
     rbind (rb_set node (\<lambda>r. r\<lparr>rb_parent_color := parent\<rparr>) s) (\<lambda>s.
     rbind (set_right node 0 s) (\<lambda>s.
     rbind (set_left node 0 s) (\<lambda>s.
     set_link link node s)))"

text \<open>Putting \<open>new\<close> in the place of the child \<open>old\<close> of \<open>parent\<close>, or of the root.\<close>

definition replace_left_first :: "addr_t \<Rightarrow> addr_t \<Rightarrow> addr_t \<Rightarrow> 's rb_tree_scheme \<Rightarrow> 's rb_tree_scheme result" where
  "replace_left_first parent old new s =
     (if parent \<noteq> 0 then
        rbind (rb_get s parent) (\<lambda>p. if old = rb_left p then set_left parent new s else set_right parent new s)
      else Inr (s\<lparr>rb_root := new\<rparr>))"

definition replace_right_first :: "addr_t \<Rightarrow> addr_t \<Rightarrow> addr_t \<Rightarrow> 's rb_tree_scheme \<Rightarrow> 's rb_tree_scheme result" where
  "replace_right_first parent old new s =
     (if parent \<noteq> 0 then
        rbind (rb_get s parent) (\<lambda>p. if old = rb_right p then set_right parent new s else set_left parent new s)
      else Inr (s\<lparr>rb_root := new\<rparr>))"

section \<open>Rotations\<close>

definition rb_rotate_left :: "addr_t \<Rightarrow> 's rb_tree_scheme \<Rightarrow> 's rb_tree_scheme result" where
  "rb_rotate_left node s =
     rbind (rb_get s node) (\<lambda>n.
     let right = rb_right n; parent = rb_parent n in
     rbind (rb_get s right) (\<lambda>r.
     rbind (set_right node (rb_left r) s) (\<lambda>s.
     rbind (if rb_left r \<noteq> 0 then rb_set_parent (rb_left r) node s else Inr s) (\<lambda>s.
     rbind (set_left right node s) (\<lambda>s.
     rbind (rb_set_parent right parent s) (\<lambda>s.
     rbind (replace_left_first parent node right s) (\<lambda>s.
     rb_set_parent node right s)))))))"

definition rb_rotate_right :: "addr_t \<Rightarrow> 's rb_tree_scheme \<Rightarrow> 's rb_tree_scheme result" where
  "rb_rotate_right node s =
     rbind (rb_get s node) (\<lambda>n.
     let left = rb_left n; parent = rb_parent n in
     rbind (rb_get s left) (\<lambda>l.
     rbind (set_left node (rb_right l) s) (\<lambda>s.
     rbind (if rb_right l \<noteq> 0 then rb_set_parent (rb_right l) node s else Inr s) (\<lambda>s.
     rbind (set_right left node s) (\<lambda>s.
     rbind (rb_set_parent left parent s) (\<lambda>s.
     rbind (replace_right_first parent node left s) (\<lambda>s.
     rb_set_parent node left s)))))))"

section \<open>Insertion\<close>

text \<open>\<^verbatim>\<open>uncle && rb_is_red(uncle)\<close> and \<^verbatim>\<open>!node || rb_is_black(node)\<close>\<close>

definition is_red_node :: "addr_t \<Rightarrow> 's rb_tree_scheme \<Rightarrow> bool result" where
  "is_red_node a s = (if a \<noteq> 0 then rbind (rb_get s a) (\<lambda>n. Inr (rb_is_red n)) else Inr False)"

definition is_black_or_null :: "addr_t \<Rightarrow> 's rb_tree_scheme \<Rightarrow> bool result" where
  "is_black_or_null a s = (if a = 0 then Inr True else rbind (rb_get s a) (\<lambda>n. Inr (rb_is_black n)))"

text \<open>A red uncle: the colours move up one level.\<close>

definition rb_flip :: "addr_t \<Rightarrow> addr_t \<Rightarrow> addr_t \<Rightarrow> 's rb_tree_scheme \<Rightarrow> 's rb_tree_scheme result" where
  "rb_flip uncle parent gparent s =
     rbind (rb_set_black uncle s) (\<lambda>s.
     rbind (rb_set_black parent s) (\<lambda>s.
     rb_set_red gparent s))"

text \<open>The first rotation of a bent path, after which \<^verbatim>\<open>node\<close> and \<^verbatim>\<open>parent\<close> are exchanged.\<close>

definition straighten_left :: "addr_t \<Rightarrow> addr_t \<Rightarrow> 's rb_tree_scheme \<Rightarrow>
    (addr_t \<times> addr_t \<times> 's rb_tree_scheme) result" where
  "straighten_left node parent s =
     rbind (rb_get s parent) (\<lambda>p.
     if rb_right p = node then rbind (rb_rotate_left parent s) (\<lambda>s. Inr (parent, node, s))
     else Inr (node, parent, s))"

definition straighten_right :: "addr_t \<Rightarrow> addr_t \<Rightarrow> 's rb_tree_scheme \<Rightarrow>
    (addr_t \<times> addr_t \<times> 's rb_tree_scheme) result" where
  "straighten_right node parent s =
     rbind (rb_get s parent) (\<lambda>p.
     if rb_left p = node then rbind (rb_rotate_right parent s) (\<lambda>s. Inr (parent, node, s))
     else Inr (node, parent, s))"

fun rb_insert_loop :: "nat \<Rightarrow> addr_t \<Rightarrow> 's rb_tree_scheme \<Rightarrow> 's rb_tree_scheme result" where
  "rb_insert_loop 0 node s = Inl Hang"
| "rb_insert_loop (Suc fuel) node s =
     rbind (rb_get s node) (\<lambda>n.
     let parent = rb_parent n in
     if parent = 0 then Inr s
     else
       rbind (rb_get s parent) (\<lambda>p.
       if \<not> rb_is_red p then Inr s
       else
         let gparent = rb_parent p in
         rbind (rb_get s gparent) (\<lambda>g.
         if parent = rb_left g then
           rbind (is_red_node (rb_right g) s) (\<lambda>red.
           if red then rbind (rb_flip (rb_right g) parent gparent s) (\<lambda>s. rb_insert_loop fuel gparent s)
           else
             rbind (straighten_left node parent s) (\<lambda>(node, parent, s).
             rbind (rb_set_black parent s) (\<lambda>s.
             rbind (rb_set_red gparent s) (\<lambda>s.
             rbind (rb_rotate_right gparent s) (\<lambda>s. rb_insert_loop fuel node s)))))
         else
           rbind (is_red_node (rb_left g) s) (\<lambda>red.
           if red then rbind (rb_flip (rb_left g) parent gparent s) (\<lambda>s. rb_insert_loop fuel gparent s)
           else
             rbind (straighten_right node parent s) (\<lambda>(node, parent, s).
             rbind (rb_set_black parent s) (\<lambda>s.
             rbind (rb_set_red gparent s) (\<lambda>s.
             rbind (rb_rotate_left gparent s) (\<lambda>s. rb_insert_loop fuel node s))))))))"

definition rb_insert_color :: "nat \<Rightarrow> addr_t \<Rightarrow> 's rb_tree_scheme \<Rightarrow> 's rb_tree_scheme result" where
  "rb_insert_color fuel node s =
     rbind (rb_insert_loop fuel node s) (\<lambda>s. rb_set_black (rb_root s) s)"

section \<open>Removal\<close>

text \<open>Both children of the sibling black: the missing black moves up.\<close>

definition children_black :: "addr_t \<Rightarrow> 's rb_tree_scheme \<Rightarrow> bool result" where
  "children_black a s =
     rbind (rb_get s a) (\<lambda>n.
     rbind (is_black_or_null (rb_left n) s) (\<lambda>l.
     if l then is_black_or_null (rb_right n) s else Inr False))"

text \<open>A red sibling on the right is rotated above the parent; the result is the new sibling.\<close>

definition red_sibling_right :: "addr_t \<Rightarrow> 's rb_tree_scheme \<Rightarrow> (addr_t \<times> 's rb_tree_scheme) result" where
  "red_sibling_right parent s =
     rbind (rb_get s parent) (\<lambda>p.
     rbind (rb_get s (rb_right p)) (\<lambda>other.
     if rb_is_red other then
       rbind (rb_set_black (rb_right p) s) (\<lambda>s.
       rbind (rb_set_red parent s) (\<lambda>s.
       rbind (rb_rotate_left parent s) (\<lambda>s.
       rbind (rb_get s parent) (\<lambda>p. Inr (rb_right p, s)))))
     else Inr (rb_right p, s)))"

definition red_sibling_left :: "addr_t \<Rightarrow> 's rb_tree_scheme \<Rightarrow> (addr_t \<times> 's rb_tree_scheme) result" where
  "red_sibling_left parent s =
     rbind (rb_get s parent) (\<lambda>p.
     rbind (rb_get s (rb_left p)) (\<lambda>other.
     if rb_is_red other then
       rbind (rb_set_black (rb_left p) s) (\<lambda>s.
       rbind (rb_set_red parent s) (\<lambda>s.
       rbind (rb_rotate_right parent s) (\<lambda>s.
       rbind (rb_get s parent) (\<lambda>p. Inr (rb_left p, s)))))
     else Inr (rb_left p, s)))"

text \<open>The rotations that end the loop, with the sibling on the right or on the left.\<close>

definition erase_rotate_left :: "addr_t \<Rightarrow> addr_t \<Rightarrow> 's rb_tree_scheme \<Rightarrow> 's rb_tree_scheme result" where
  "erase_rotate_left parent other s =
     rbind (rb_get s other) (\<lambda>oth.
     rbind (is_black_or_null (rb_right oth) s) (\<lambda>b.
     rbind (if b then
              rbind (rb_set_black (rb_left oth) s) (\<lambda>s.
              rbind (rb_set_red other s) (\<lambda>s.
              rbind (rb_rotate_right other s) (\<lambda>s.
              rbind (rb_get s parent) (\<lambda>p. Inr (rb_right p, s)))))
            else Inr (other, s)) (\<lambda>(other, s).
     rbind (rb_get s parent) (\<lambda>p.
     rbind (rb_set_color other (rb_color p) s) (\<lambda>s.
     rbind (rb_set_black parent s) (\<lambda>s.
     rbind (rb_get s other) (\<lambda>oth.
     rbind (rb_set_black (rb_right oth) s) (\<lambda>s.
     rb_rotate_left parent s))))))))"

definition erase_rotate_right :: "addr_t \<Rightarrow> addr_t \<Rightarrow> 's rb_tree_scheme \<Rightarrow> 's rb_tree_scheme result" where
  "erase_rotate_right parent other s =
     rbind (rb_get s other) (\<lambda>oth.
     rbind (is_black_or_null (rb_left oth) s) (\<lambda>b.
     rbind (if b then
              rbind (rb_set_black (rb_right oth) s) (\<lambda>s.
              rbind (rb_set_red other s) (\<lambda>s.
              rbind (rb_rotate_left other s) (\<lambda>s.
              rbind (rb_get s parent) (\<lambda>p. Inr (rb_left p, s)))))
            else Inr (other, s)) (\<lambda>(other, s).
     rbind (rb_get s parent) (\<lambda>p.
     rbind (rb_set_color other (rb_color p) s) (\<lambda>s.
     rbind (rb_set_black parent s) (\<lambda>s.
     rbind (rb_get s other) (\<lambda>oth.
     rbind (rb_set_black (rb_left oth) s) (\<lambda>s.
     rb_rotate_right parent s))))))))"

text \<open>The loop of \<^verbatim>\<open>__rb_erase_color\<close>; the result is \<^verbatim>\<open>node\<close>.\<close>

fun rb_erase_loop :: "nat \<Rightarrow> addr_t \<Rightarrow> addr_t \<Rightarrow> 's rb_tree_scheme \<Rightarrow> (addr_t \<times> 's rb_tree_scheme) result" where
  "rb_erase_loop 0 node parent s = Inl Hang"
| "rb_erase_loop (Suc fuel) node parent s =
     rbind (is_black_or_null node s) (\<lambda>b.
     if \<not> (b \<and> node \<noteq> rb_root s) then Inr (node, s)
     else
       rbind (rb_get s parent) (\<lambda>p.
       if rb_left p = node then
         rbind (red_sibling_right parent s) (\<lambda>(other, s).
         rbind (children_black other s) (\<lambda>b.
         if b then
           rbind (rb_set_red other s) (\<lambda>s.
           rbind (rb_get s parent) (\<lambda>p. rb_erase_loop fuel parent (rb_parent p) s))
         else rbind (erase_rotate_left parent other s) (\<lambda>s. Inr (rb_root s, s))))
       else
         rbind (red_sibling_left parent s) (\<lambda>(other, s).
         rbind (children_black other s) (\<lambda>b.
         if b then
           rbind (rb_set_red other s) (\<lambda>s.
           rbind (rb_get s parent) (\<lambda>p. rb_erase_loop fuel parent (rb_parent p) s))
         else rbind (erase_rotate_right parent other s) (\<lambda>s. Inr (rb_root s, s))))))"

definition rb_erase_color :: "nat \<Rightarrow> addr_t \<Rightarrow> addr_t \<Rightarrow> 's rb_tree_scheme \<Rightarrow> 's rb_tree_scheme result" where
  "rb_erase_color fuel node parent s =
     rbind (rb_erase_loop fuel node parent s) (\<lambda>(node, s).
     if node \<noteq> 0 then rb_set_black node s else Inr s)"

fun leftmost :: "nat \<Rightarrow> addr_t \<Rightarrow> 's rb_tree_scheme \<Rightarrow> addr_t result" where
  "leftmost 0 node s = Inl Hang"
| "leftmost (Suc fuel) node s =
     rbind (rb_get s node) (\<lambda>n. if rb_left n \<noteq> 0 then leftmost fuel (rb_left n) s else Inr node)"

fun rightmost :: "nat \<Rightarrow> addr_t \<Rightarrow> 's rb_tree_scheme \<Rightarrow> addr_t result" where
  "rightmost 0 node s = Inl Hang"
| "rightmost (Suc fuel) node s =
     rbind (rb_get s node) (\<lambda>n. if rb_right n \<noteq> 0 then rightmost fuel (rb_right n) s else Inr node)"

text \<open>A node with two children: its successor takes its place. The result is what the colour repair needs.\<close>

definition erase_inner :: "nat \<Rightarrow> addr_t \<Rightarrow> 's rb_tree_scheme \<Rightarrow>
    (addr_t \<times> addr_t \<times> u64 \<times> 's rb_tree_scheme) result" where
  "erase_inner fuel old s =
     rbind (rb_get s old) (\<lambda>o1.
     rbind (leftmost fuel (rb_right o1) s) (\<lambda>node.
     rbind (replace_left_first (rb_parent o1) old node s) (\<lambda>s.
     rbind (rb_get s node) (\<lambda>n.
     let child = rb_right n; parent = rb_parent n; color = rb_color n in
     rbind (if parent = old then Inr (node, s)
            else
              rbind (if child \<noteq> 0 then rb_set_parent child parent s else Inr s) (\<lambda>s.
              rbind (set_left parent child s) (\<lambda>s.
              rbind (rb_get s old) (\<lambda>o1.
              rbind (set_right node (rb_right o1) s) (\<lambda>s.
              rbind (rb_get s old) (\<lambda>o1.
              rbind (rb_set_parent (rb_right o1) node s) (\<lambda>s. Inr (parent, s)))))))) (\<lambda>(parent, s).
     rbind (rb_get s old) (\<lambda>o1.
     rbind (rb_set node (\<lambda>r. r\<lparr>rb_parent_color := rb_parent_color o1\<rparr>) s) (\<lambda>s.
     rbind (rb_get s old) (\<lambda>o1.
     rbind (set_left node (rb_left o1) s) (\<lambda>s.
     rbind (rb_get s old) (\<lambda>o1.
     rbind (rb_set_parent (rb_left o1) node s) (\<lambda>s.
     Inr (child, parent, color, s))))))))))))"

text \<open>A node with at most one child, \<open>child\<close>.\<close>

definition erase_outer :: "addr_t \<Rightarrow> addr_t \<Rightarrow> 's rb_tree_scheme \<Rightarrow>
    (addr_t \<times> addr_t \<times> u64 \<times> 's rb_tree_scheme) result" where
  "erase_outer node child s =
     rbind (rb_get s node) (\<lambda>n.
     let parent = rb_parent n; color = rb_color n in
     rbind (if child \<noteq> 0 then rb_set_parent child parent s else Inr s) (\<lambda>s.
     rbind (replace_left_first parent node child s) (\<lambda>s. Inr (child, parent, color, s))))"

definition rb_erase :: "nat \<Rightarrow> addr_t \<Rightarrow> 's rb_tree_scheme \<Rightarrow> 's rb_tree_scheme result" where
  "rb_erase fuel node s =
     rbind (rb_get s node) (\<lambda>n.
     rbind (if rb_left n = 0 then erase_outer node (rb_right n) s
            else if rb_right n = 0 then erase_outer node (rb_left n) s
            else erase_inner fuel node s) (\<lambda>(child, parent, color, s).
     if color = RB_BLACK then rb_erase_color fuel child parent s else Inr s))"

section \<open>Traversal\<close>

definition rb_first :: "nat \<Rightarrow> 's rb_tree_scheme \<Rightarrow> addr_t result" where
  "rb_first fuel s = (if rb_root s = 0 then Inr 0 else leftmost fuel (rb_root s) s)"

definition rb_last :: "nat \<Rightarrow> 's rb_tree_scheme \<Rightarrow> addr_t result" where
  "rb_last fuel s = (if rb_root s = 0 then Inr 0 else rightmost fuel (rb_root s) s)"

text \<open>Up to the first ancestor of which the path is the left, or the right, child.\<close>

fun up_right :: "nat \<Rightarrow> addr_t \<Rightarrow> 's rb_tree_scheme \<Rightarrow> addr_t result" where
  "up_right 0 node s = Inl Hang"
| "up_right (Suc fuel) node s =
     rbind (rb_get s node) (\<lambda>n.
     let parent = rb_parent n in
     if parent = 0 then Inr 0
     else rbind (rb_get s parent) (\<lambda>p. if node = rb_right p then up_right fuel parent s else Inr parent))"

fun up_left :: "nat \<Rightarrow> addr_t \<Rightarrow> 's rb_tree_scheme \<Rightarrow> addr_t result" where
  "up_left 0 node s = Inl Hang"
| "up_left (Suc fuel) node s =
     rbind (rb_get s node) (\<lambda>n.
     let parent = rb_parent n in
     if parent = 0 then Inr 0
     else rbind (rb_get s parent) (\<lambda>p. if node = rb_left p then up_left fuel parent s else Inr parent))"

definition rb_next :: "nat \<Rightarrow> addr_t \<Rightarrow> 's rb_tree_scheme \<Rightarrow> addr_t result" where
  "rb_next fuel node s =
     rbind (rb_get s node) (\<lambda>n.
     if rb_parent n = node then Inr 0
     else if rb_right n \<noteq> 0 then leftmost fuel (rb_right n) s
     else up_right fuel node s)"

definition rb_prev :: "nat \<Rightarrow> addr_t \<Rightarrow> 's rb_tree_scheme \<Rightarrow> addr_t result" where
  "rb_prev fuel node s =
     rbind (rb_get s node) (\<lambda>n.
     if rb_parent n = node then Inr 0
     else if rb_left n \<noteq> 0 then rightmost fuel (rb_left n) s
     else up_left fuel node s)"

definition rb_replace_node :: "addr_t \<Rightarrow> addr_t \<Rightarrow> 's rb_tree_scheme \<Rightarrow> 's rb_tree_scheme result" where
  "rb_replace_node victim new s =
     rbind (rb_get s victim) (\<lambda>v.
     rbind (replace_left_first (rb_parent v) victim new s) (\<lambda>s.
     rbind (rb_get s victim) (\<lambda>v.
     rbind (if rb_left v \<noteq> 0 then rb_set_parent (rb_left v) new s else Inr s) (\<lambda>s.
     rbind (rb_get s victim) (\<lambda>v.
     rbind (if rb_right v \<noteq> 0 then rb_set_parent (rb_right v) new s else Inr s) (\<lambda>s.
     rbind (rb_get s victim) (\<lambda>v. rb_set new (\<lambda>_. v) s)))))))"

section \<open>Augmented trees\<close>

text \<open>The callback of the client is a parameter; it may change the tree and the rest of the state.\<close>

fun rb_augment_path :: "nat \<Rightarrow> addr_t \<Rightarrow> (addr_t \<Rightarrow> 's rb_tree_scheme \<Rightarrow> 's rb_tree_scheme result) \<Rightarrow>
    's rb_tree_scheme \<Rightarrow> 's rb_tree_scheme result" where
  "rb_augment_path 0 node func s = Inl Hang"
| "rb_augment_path (Suc fuel) node func s =
     rbind (func node s) (\<lambda>s.
     rbind (rb_get s node) (\<lambda>n.
     let parent = rb_parent n in
     if parent = 0 then Inr s
     else
       rbind (rb_get s parent) (\<lambda>p.
       rbind (if node = rb_left p \<and> rb_right p \<noteq> 0 then func (rb_right p) s
              else if rb_left p \<noteq> 0 then func (rb_left p) s else Inr s) (\<lambda>s.
       rb_augment_path fuel parent func s))))"

definition rb_augment_insert :: "nat \<Rightarrow> addr_t \<Rightarrow> (addr_t \<Rightarrow> 's rb_tree_scheme \<Rightarrow> 's rb_tree_scheme result) \<Rightarrow>
    's rb_tree_scheme \<Rightarrow> 's rb_tree_scheme result" where
  "rb_augment_insert fuel node func s =
     rbind (rb_get s node) (\<lambda>n.
     let node = (if rb_left n \<noteq> 0 then rb_left n else if rb_right n \<noteq> 0 then rb_right n else node) in
     rb_augment_path fuel node func s)"

definition rb_augment_erase_begin :: "nat \<Rightarrow> addr_t \<Rightarrow> 's rb_tree_scheme \<Rightarrow> addr_t result" where
  "rb_augment_erase_begin fuel node s =
     rbind (rb_get s node) (\<lambda>n.
     if rb_right n = 0 \<and> rb_left n = 0 then Inr (rb_parent n)
     else if rb_right n = 0 then Inr (rb_left n)
     else if rb_left n = 0 then Inr (rb_right n)
     else
       rbind (rb_next fuel node s) (\<lambda>deepest.
       rbind (rb_get s deepest) (\<lambda>d.
       if rb_right d \<noteq> 0 then Inr (rb_right d)
       else if rb_parent d \<noteq> node then Inr (rb_parent d)
       else Inr deepest)))"

definition rb_augment_erase_end :: "nat \<Rightarrow> addr_t \<Rightarrow> (addr_t \<Rightarrow> 's rb_tree_scheme \<Rightarrow> 's rb_tree_scheme result) \<Rightarrow>
    's rb_tree_scheme \<Rightarrow> 's rb_tree_scheme result" where
  "rb_augment_erase_end fuel node func s = (if node \<noteq> 0 then rb_augment_path fuel node func s else Inr s)"

end
