(* ===== verification/Rbtree_Props.thy ===== *)
theory Rbtree_Props
  imports Rbtree
begin

text \<open>
  What a tree of nodes represents, and insertion: the rotations and recolourings on the nodes are
  refined from tree transformations inside a context (a zipper), on which the red-black
  conditions are shown.
\<close>

section \<open>Trees and contexts\<close>

datatype colour = Red | Black

fun colour_bit :: "colour \<Rightarrow> u64" where
  "colour_bit Red = RB_RED"
| "colour_bit Black = RB_BLACK"

datatype tree = Leaf | Node colour tree addr_t tree

fun root_of :: "tree \<Rightarrow> addr_t" where
  "root_of Leaf = 0"
| "root_of (Node c l a r) = a"

fun inorder :: "tree \<Rightarrow> addr_t list" where
  "inorder Leaf = []"
| "inorder (Node c l a r) = inorder l @ a # inorder r"

text \<open>\<open>tree_at m p t\<close>: the nodes of \<open>t\<close> are in memory, below the parent \<open>p\<close>.\<close>

fun tree_at :: "(addr_t \<rightharpoonup> rb_node) \<Rightarrow> addr_t \<Rightarrow> tree \<Rightarrow> bool" where
  "tree_at m p Leaf = True"
| "tree_at m p (Node c l a r) =
     (m a = Some \<lparr>rb_parent_color = p OR colour_bit c, rb_right = root_of r, rb_left = root_of l\<rparr> \<and>
      tree_at m a l \<and> tree_at m a r)"

text \<open>One level of a path: the hole is the left or the right child of the node.\<close>

datatype frame = FL colour addr_t tree | FR colour tree addr_t

fun fill :: "frame \<Rightarrow> tree \<Rightarrow> tree" where
  "fill (FL c a r) t = Node c t a r"
| "fill (FR c l a) t = Node c l a t"

fun plug :: "frame list \<Rightarrow> tree \<Rightarrow> tree" where
  "plug [] t = t"
| "plug (f # k) t = plug k (fill f t)"

fun frame_addr :: "frame \<Rightarrow> addr_t" where
  "frame_addr (FL c a r) = a"
| "frame_addr (FR c l a) = a"

fun ctx_addr :: "frame list \<Rightarrow> addr_t" where
  "ctx_addr [] = 0"
| "ctx_addr (f # k) = frame_addr f"

fun before :: "frame list \<Rightarrow> addr_t list" where
  "before [] = []"
| "before (FL c a r # k) = before k"
| "before (FR c l a # k) = before k @ inorder l @ [a]"

fun after :: "frame list \<Rightarrow> addr_t list" where
  "after [] = []"
| "after (FL c a r # k) = a # inorder r @ after k"
| "after (FR c l a # k) = after k"

fun ctx_at :: "(addr_t \<rightharpoonup> rb_node) \<Rightarrow> addr_t \<Rightarrow> frame list \<Rightarrow> addr_t \<Rightarrow> bool" where
  "ctx_at m root [] p = (root = p)"
| "ctx_at m root (FL c a r # k) p =
     (m a = Some \<lparr>rb_parent_color = ctx_addr k OR colour_bit c, rb_right = root_of r, rb_left = p\<rparr> \<and>
      tree_at m a r \<and> ctx_at m root k a)"
| "ctx_at m root (FR c l a # k) p =
     (m a = Some \<lparr>rb_parent_color = ctx_addr k OR colour_bit c, rb_right = p, rb_left = root_of l\<rparr> \<and>
      tree_at m a l \<and> ctx_at m root k a)"

text \<open>Node addresses are aligned to words, which leaves two bits for the colour.\<close>

definition addresses :: "addr_t list \<Rightarrow> bool" where
  "addresses xs \<longleftrightarrow> distinct xs \<and> (\<forall>a\<in>set xs. a \<noteq> 0 \<and> a AND 3 = 0)"

definition represents :: "'s rb_tree_scheme \<Rightarrow> tree \<Rightarrow> bool" where
  "represents s t \<longleftrightarrow> tree_at (rb_mem s) 0 t \<and> rb_root s = root_of t \<and> addresses (inorder t)"

lemma inorder_plug: "inorder (plug k t) = before k @ inorder t @ after k"
proof (induction k arbitrary: t)
  case (Cons f k)
  then show ?case by (cases f) simp_all
qed simp

lemma plug_at:
  "tree_at m 0 (plug k t) \<and> root = root_of (plug k t) \<longleftrightarrow> ctx_at m root k (root_of t) \<and> tree_at m (ctx_addr k) t"
proof (induction k arbitrary: t)
  case (Cons f k)
  then show ?case by (cases f) auto
qed auto

lemma tree_at_cong: "\<forall>a\<in>set (inorder t). m' a = m a \<Longrightarrow> tree_at m p t \<Longrightarrow> tree_at m' p t"
  by (induction t arbitrary: p) auto

lemma ctx_at_cong: "\<forall>a\<in>set (before k) \<union> set (after k). m' a = m a \<Longrightarrow> ctx_at m root k p \<Longrightarrow> ctx_at m' root k p"
proof (induction k arbitrary: p)
  case (Cons f k)
  then show ?case by (cases f) (auto elim!: tree_at_cong [rotated])
qed simp

text \<open>A state represents a tree in a context: the parts.\<close>

definition in_context :: "'s rb_tree_scheme \<Rightarrow> frame list \<Rightarrow> tree \<Rightarrow> bool" where
  "in_context s k t \<longleftrightarrow> ctx_at (rb_mem s) (rb_root s) k (root_of t) \<and> tree_at (rb_mem s) (ctx_addr k) t \<and>
     addresses (before k @ inorder t @ after k)"

lemma represents_plug: "represents s (plug k t) \<longleftrightarrow> in_context s k t"
  using plug_at [of "rb_mem s" k t "rb_root s"] by (auto simp: represents_def in_context_def inorder_plug)

lemma in_context_fill: "in_context s (f # k) t \<longleftrightarrow> in_context s k (fill f t)"
  using represents_plug [of s "f # k" t] represents_plug [of s k "fill f t"] by simp

lemma aligned_ctx:
  assumes "addresses (before k @ xs @ after k)" shows "ctx_addr k AND 3 = 0"
proof (cases k)
  case (Cons f k')
  then show ?thesis using assms by (cases f) (auto simp: addresses_def)
qed simp

section \<open>The parent and colour word\<close>

lemma parent_colour:
  assumes "p AND 3 = (0 :: u64)"
  shows "(p OR colour_bit c) AND NOT 3 = p" "(p OR colour_bit c) AND 1 = colour_bit c"
    "((p OR colour_bit c) AND 3) OR q = q OR colour_bit c"
    "(p OR colour_bit c) OR 1 = p OR colour_bit Black" "(p OR colour_bit c) AND NOT 1 = p OR colour_bit Red"
proof -
  have "p AND 1 = (p AND 3) AND 1" by (simp add: and.assoc)
  then have p1: "p AND 1 = 0" using assms by simp
  have split: "p = (p AND q) OR (p AND NOT q)" for q
    by (metis bit.conj_disj_distrib bit.disj_cancel_right bit.conj_one_right)
  have n3: "p AND NOT 3 = p" using split [of 3] assms by simp
  have n1: "p AND NOT 1 = p" using split [of 1] p1 by simp
  have b: "colour_bit c AND NOT 3 = 0" "colour_bit c AND 1 = colour_bit c" "colour_bit c AND 3 = colour_bit c"
    "colour_bit c OR 1 = 1" "colour_bit c AND NOT 1 = 0" by (cases c; simp)+
  show "(p OR colour_bit c) AND NOT 3 = p" unfolding bit.conj_disj_distrib2 n3 b by simp
  show "(p OR colour_bit c) AND 1 = colour_bit c" unfolding bit.conj_disj_distrib2 p1 b by simp
  show "((p OR colour_bit c) AND 3) OR q = q OR colour_bit c"
    unfolding bit.conj_disj_distrib2 assms b by (simp add: or.commute)
  show "(p OR colour_bit c) OR 1 = p OR colour_bit Black" unfolding or.assoc b by simp
  show "(p OR colour_bit c) AND NOT 1 = p OR colour_bit Red" unfolding bit.conj_disj_distrib2 n1 b by simp
qed

section \<open>Reading and recolouring\<close>

lemma in_context_node:
  assumes "in_context s k (Node c l a r)"
  shows "rb_mem s a = Some \<lparr>rb_parent_color = ctx_addr k OR colour_bit c, rb_right = root_of r, rb_left = root_of l\<rparr>"
    "rb_get s a = Inr \<lparr>rb_parent_color = ctx_addr k OR colour_bit c, rb_right = root_of r, rb_left = root_of l\<rparr>"
    "ctx_addr k AND 3 = 0" "a \<noteq> 0"
  using assms aligned_ctx [of k "inorder (Node c l a r)"]
  by (auto simp: in_context_def rb_get_def addresses_def)

lemma node_fields:
  assumes "p AND 3 = 0"
  shows "rb_parent \<lparr>rb_parent_color = p OR colour_bit c, rb_right = x, rb_left = y\<rparr> = p"
    "rb_is_red \<lparr>rb_parent_color = p OR colour_bit c, rb_right = x, rb_left = y\<rparr> \<longleftrightarrow> c = Red"
  using parent_colour [OF assms, of c] by (cases c; simp add: rb_parent_def rb_is_red_def rb_color_def)+

lemma in_context_get:
  assumes "in_context s k (Node c l a r)"
  obtains n where "rb_get s a = Inr n" "rb_parent n = ctx_addr k" "rb_is_red n \<longleftrightarrow> c = Red"
    "rb_left n = root_of l" "rb_right n = root_of r" "a \<noteq> 0"
  using in_context_node [OF assms] node_fields [of "ctx_addr k" c] by fastforce

lemma in_context_recolour:
  assumes "in_context s k (Node c l a r)"
    "rb_mem s' = (rb_mem s)(a \<mapsto> \<lparr>rb_parent_color = ctx_addr k OR colour_bit c', rb_right = root_of r, rb_left = root_of l\<rparr>)"
    "rb_root s' = rb_root s"
  shows "in_context s' k (Node c' l a r)"
  using assms unfolding in_context_def
  by (auto simp: addresses_def elim!: ctx_at_cong [rotated] tree_at_cong [rotated])

lemma set_colour_ok:
  assumes "in_context s k (Node c l a r)"
  shows "\<exists>s'. rb_set_black a s = Inr s' \<and> in_context s' k (Node Black l a r)"
    "\<exists>s'. rb_set_red a s = Inr s' \<and> in_context s' k (Node Red l a r)"
proof -
  let ?s = "\<lambda>c'. s\<lparr>rb_mem := (rb_mem s)(a \<mapsto>
    \<lparr>rb_parent_color = ctx_addr k OR colour_bit c', rb_right = root_of r, rb_left = root_of l\<rparr>)\<rparr>"
  note node = in_context_node [OF assms]
  have "rb_set_black a s = Inr (?s Black)" "rb_set_red a s = Inr (?s Red)"
    unfolding rb_set_black_def rb_set_red_def rb_set_def node(2) using parent_colour(4,5) [OF node(3), of c] by simp_all
  moreover have "in_context (?s c') k (Node c' l a r)" for c' by (rule in_context_recolour [OF assms]) simp_all
  ultimately show "\<exists>s'. rb_set_black a s = Inr s' \<and> in_context s' k (Node Black l a r)"
    "\<exists>s'. rb_set_red a s = Inr s' \<and> in_context s' k (Node Red l a r)" by blast+
qed

section \<open>Rotations\<close>

lemma root_of_in: "root_of t \<noteq> 0 \<Longrightarrow> root_of t \<in> set (inorder t)"
  by (cases t) auto

lemma rb_set_Some: "rb_mem s a = Some n \<Longrightarrow> rb_set a f s = Inr (s\<lparr>rb_mem := (rb_mem s)(a \<mapsto> f n)\<rparr>)"
  by (simp add: rb_set_def rb_get_def)

lemma replace_child:
  assumes "ctx_at (rb_mem s) (rb_root s) k x" "addresses (before k @ xs @ after k)" "x \<in> set xs"
  shows "\<exists>s'. replace_left_first (ctx_addr k) x y s = Inr s' \<and> ctx_at (rb_mem s') (rb_root s') k y \<and>
      (\<forall>a\<in>set xs. rb_mem s' a = rb_mem s a)" (is ?L)
    "\<exists>s'. replace_right_first (ctx_addr k) x y s = Inr s' \<and> ctx_at (rb_mem s') (rb_root s') k y \<and>
      (\<forall>a\<in>set xs. rb_mem s' a = rb_mem s a)" (is ?R)
proof -
  have x0: "x \<noteq> 0" using assms(2,3) by (auto simp: addresses_def)
  have "?L \<and> ?R"
  proof (cases k)
    case Nil
    then show ?thesis by (simp add: replace_left_first_def replace_right_first_def)
  next
    case (Cons f k')
    show ?thesis
    proof (cases f)
      case (FL c a r)
      have a: "a \<noteq> 0" "a \<notin> set xs" "a \<notin> set (inorder r)" "a \<notin> set (before k')" "a \<notin> set (after k')" "x \<notin> set (inorder r)"
        using assms(2,3) Cons FL by (auto simp: addresses_def)
      have m: "rb_mem s a = Some \<lparr>rb_parent_color = ctx_addr k' OR colour_bit c, rb_right = root_of r, rb_left = x\<rparr>"
        "tree_at (rb_mem s) a r" "ctx_at (rb_mem s) (rb_root s) k' a"
        using assms(1) Cons FL by simp_all
      have xr: "root_of r \<noteq> x" using root_of_in [of r] a(6) x0 by auto
      let ?s = "s\<lparr>rb_mem := (rb_mem s)(a \<mapsto> \<lparr>rb_parent_color = ctx_addr k' OR colour_bit c, rb_right = root_of r, rb_left = y\<rparr>)\<rparr>"
      have "replace_left_first (ctx_addr k) x y s = Inr ?s" "replace_right_first (ctx_addr k) x y s = Inr ?s"
        using Cons FL a(1) m(1) xr
        by (simp_all add: replace_left_first_def replace_right_first_def rb_get_def set_left_def set_right_def rb_set_def)
      moreover have "ctx_at (rb_mem ?s) (rb_root ?s) k y \<and> (\<forall>b\<in>set xs. rb_mem ?s b = rb_mem s b)"
        using Cons FL a m by (auto elim!: ctx_at_cong [rotated] tree_at_cong [rotated])
      ultimately show ?thesis by blast
    next
      case (FR c l a)
      have a: "a \<noteq> 0" "a \<notin> set xs" "a \<notin> set (inorder l)" "a \<notin> set (before k')" "a \<notin> set (after k')" "x \<notin> set (inorder l)"
        using assms(2,3) Cons FR by (auto simp: addresses_def)
      have m: "rb_mem s a = Some \<lparr>rb_parent_color = ctx_addr k' OR colour_bit c, rb_right = x, rb_left = root_of l\<rparr>"
        "tree_at (rb_mem s) a l" "ctx_at (rb_mem s) (rb_root s) k' a"
        using assms(1) Cons FR by simp_all
      have xl: "root_of l \<noteq> x" using root_of_in [of l] a(6) x0 by auto
      let ?s = "s\<lparr>rb_mem := (rb_mem s)(a \<mapsto> \<lparr>rb_parent_color = ctx_addr k' OR colour_bit c, rb_right = y, rb_left = root_of l\<rparr>)\<rparr>"
      have "replace_left_first (ctx_addr k) x y s = Inr ?s" "replace_right_first (ctx_addr k) x y s = Inr ?s"
        using Cons FR a(1) m(1) xl
        by (simp_all add: replace_left_first_def replace_right_first_def rb_get_def set_left_def set_right_def rb_set_def)
      moreover have "ctx_at (rb_mem ?s) (rb_root ?s) k y \<and> (\<forall>b\<in>set xs. rb_mem ?s b = rb_mem s b)"
        using Cons FR a m by (auto elim!: ctx_at_cong [rotated] tree_at_cong [rotated])
      ultimately show ?thesis by blast
    qed
  qed
  then show ?L ?R by blast+
qed

lemma reparent:
  assumes "tree_at (rb_mem s) p t" "addresses (inorder t)" "p AND 3 = 0"
  shows "\<exists>s'. (if root_of t \<noteq> 0 then rb_set_parent (root_of t) q s else Inr s) = Inr s' \<and> tree_at (rb_mem s') q t \<and>
    (\<forall>a. a \<notin> set (inorder t) \<longrightarrow> rb_mem s' a = rb_mem s a) \<and> rb_root s' = rb_root s"
proof (cases t)
  case (Node c l a r)
  have a: "a \<noteq> 0" "a \<notin> set (inorder l)" "a \<notin> set (inorder r)" using assms(2) Node by (auto simp: addresses_def)
  have "rb_set_parent (root_of t) q s = Inr (s\<lparr>rb_mem := (rb_mem s)(a \<mapsto>
      \<lparr>rb_parent_color = q OR colour_bit c, rb_right = root_of r, rb_left = root_of l\<rparr>)\<rparr>)"
    using assms(1) Node parent_colour(3) [OF assms(3)] by (simp add: rb_set_parent_def rb_set_Some)
  then show ?thesis using Node a assms(1) by (auto elim!: tree_at_cong [rotated])
qed simp

text \<open>
  The writes both rotations make, with \<open>fx\<close> and \<open>fy\<close> the changes of a child field: \<open>y\<close> takes
  the place of \<open>x\<close>, \<open>x\<close> and the subtree \<open>b\<close> get new parents, all else stays.
\<close>

lemma rotation_steps:
  assumes node: "rb_mem s x = Some nx" "rb_mem s y = Some ny" "tree_at (rb_mem s) y b"
      "ctx_at (rb_mem s) (rb_root s) k x" "addresses (before k @ xs @ after k)"
    and xs: "set xs = {x, y} \<union> set (inorder b) \<union> rest" "x \<noteq> y" "x \<notin> set (inorder b)" "y \<notin> set (inorder b)"
      "distinct (inorder b)" "rest \<inter> ({x, y} \<union> set (inorder b)) = {}"
    and parents: "rb_parent_color nx = ctx_addr k OR colour_bit c1" "rb_parent_color ny = x OR colour_bit c2"
    and fields: "\<And>n. rb_parent_color (fx n) = rb_parent_color n" "\<And>n. rb_parent_color (fy n) = rb_parent_color n"
    and repl: "repl = replace_left_first \<or> repl = replace_right_first"
  shows "\<exists>s'. rbind (rb_set x fx s) (\<lambda>s.
      rbind (if root_of b \<noteq> 0 then rb_set_parent (root_of b) x s else Inr s) (\<lambda>s.
      rbind (rb_set y fy s) (\<lambda>s.
      rbind (rb_set_parent y (ctx_addr k) s) (\<lambda>s.
      rbind (repl (ctx_addr k) x y s) (\<lambda>s.
      rb_set_parent x y s))))) = Inr s' \<and>
    rb_mem s' x = Some ((fx nx)\<lparr>rb_parent_color := y OR colour_bit c1\<rparr>) \<and>
    rb_mem s' y = Some ((fy ny)\<lparr>rb_parent_color := ctx_addr k OR colour_bit c2\<rparr>) \<and>
    tree_at (rb_mem s') x b \<and> ctx_at (rb_mem s') (rb_root s') k y \<and> (\<forall>z\<in>rest. rb_mem s' z = rb_mem s z)"
proof -
  let ?K = "ctx_addr k"
  have al: "?K AND 3 = 0" "x AND 3 = 0" "y AND 3 = 0" "addresses (inorder b)"
    and ctx: "\<forall>z\<in>set (before k) \<union> set (after k). z \<noteq> x \<and> z \<noteq> y \<and> z \<notin> set (inorder b)"
    using node(5) xs aligned_ctx [OF node(5)] by (auto simp: addresses_def)
  let ?s1 = "s\<lparr>rb_mem := (rb_mem s)(x \<mapsto> fx nx)\<rparr>"
  have "tree_at (rb_mem ?s1) y b" using node(3) xs(3) by (auto elim!: tree_at_cong [rotated])
  from reparent [OF this al(4,3), of x] obtain s2 where
    s2: "(if root_of b \<noteq> 0 then rb_set_parent (root_of b) x ?s1 else Inr ?s1) = Inr s2" "tree_at (rb_mem s2) x b"
      "\<forall>z. z \<notin> set (inorder b) \<longrightarrow> rb_mem s2 z = rb_mem ?s1 z" "rb_root s2 = rb_root s" by auto
  have y2: "rb_mem s2 y = Some ny" using s2(3) xs(2,4) node(2) by auto
  let ?y = "(fy ny)\<lparr>rb_parent_color := ?K OR colour_bit c2\<rparr>"
  let ?s4 = "s2\<lparr>rb_mem := (rb_mem s2)(y \<mapsto> ?y)\<rparr>"
  have s4: "rbind (rb_set y fy s2) (rb_set_parent y ?K) = Inr ?s4"
    using y2 parents(2) fields(2) parent_colour(3) [OF al(2)] by (simp add: rb_set_parent_def rb_set_Some)
  have m4: "\<forall>z\<in>set (before k) \<union> set (after k). rb_mem ?s4 z = rb_mem s z" using ctx s2(3) by auto
  have root4: "rb_root ?s4 = rb_root s" using s2(4) by simp
  have "ctx_at (rb_mem ?s4) (rb_root ?s4) k x" unfolding root4 by (rule ctx_at_cong [OF m4 node(4)])
  from replace_child [OF this node(5), of y] repl xs(1) obtain s5 where
    s5: "repl ?K x y ?s4 = Inr s5" "ctx_at (rb_mem s5) (rb_root s5) k y" "\<forall>z\<in>set xs. rb_mem s5 z = rb_mem ?s4 z"
    by fastforce
  have x5: "rb_mem s5 x = Some (fx nx)" using s5(3) s2(3) xs by simp
  let ?s6 = "s5\<lparr>rb_mem := (rb_mem s5)(x \<mapsto> (fx nx)\<lparr>rb_parent_color := y OR colour_bit c1\<rparr>)\<rparr>"
  have s6: "rb_set_parent x y s5 = Inr ?s6"
    using x5 parents(1) fields(1) parent_colour(3) [OF al(1)] by (simp add: rb_set_parent_def rb_set_Some)
  have "ctx_at (rb_mem ?s6) (rb_root ?s6) k y" using s5(2) ctx by (auto elim!: ctx_at_cong [rotated])
  moreover have "tree_at (rb_mem ?s6) x b" using s2(2) s5(3) xs by (auto elim!: tree_at_cong [rotated])
  moreover have "rb_mem ?s6 y = Some ?y" using s5(3) xs by simp
  moreover have "\<forall>z\<in>rest. rb_mem ?s6 z = rb_mem s z" using s5(3) s2(3) xs by auto
  moreover have "rbind (rb_set x fx s) (\<lambda>s.
      rbind (if root_of b \<noteq> 0 then rb_set_parent (root_of b) x s else Inr s) (\<lambda>s.
      rbind (rb_set y fy s) (\<lambda>s.
      rbind (rb_set_parent y (ctx_addr k) s) (\<lambda>s.
      rbind (repl (ctx_addr k) x y s) (\<lambda>s.
      rb_set_parent x y s))))) = Inr ?s6"
    using node(1) s2(1) s4 s5(1) s6 by (simp add: rb_set_Some [OF node(1)] rb_set_Some [OF y2])
  ultimately show ?thesis by (intro exI [of _ ?s6]) simp
qed

lemma rotate_left_ok:
  assumes "in_context s k (Node c1 a x (Node c2 b y d))"
  shows "\<exists>s'. rb_rotate_left x s = Inr s' \<and> in_context s' k (Node c2 (Node c1 a x b) y d)"
proof -
  let ?K = "ctx_addr k" and ?xs = "inorder a @ x # inorder b @ y # inorder d"
  have m: "rb_mem s x = Some \<lparr>rb_parent_color = ?K OR colour_bit c1, rb_right = y, rb_left = root_of a\<rparr>"
    "rb_mem s y = Some \<lparr>rb_parent_color = x OR colour_bit c2, rb_right = root_of d, rb_left = root_of b\<rparr>"
    "tree_at (rb_mem s) x a" "tree_at (rb_mem s) y b" "tree_at (rb_mem s) y d" "ctx_at (rb_mem s) (rb_root s) k x"
    and adr: "addresses (before k @ ?xs @ after k)"
    using assms by (simp_all add: in_context_def)
  have xs: "set ?xs = {x, y} \<union> set (inorder b) \<union> (set (inorder a) \<union> set (inorder d))" by auto
  obtain s' where s': "rbind (set_right x (root_of b) s) (\<lambda>s.
      rbind (if root_of b \<noteq> 0 then rb_set_parent (root_of b) x s else Inr s) (\<lambda>s.
      rbind (set_left y x s) (\<lambda>s.
      rbind (rb_set_parent y (ctx_addr k) s) (\<lambda>s.
      rbind (replace_left_first (ctx_addr k) x y s) (\<lambda>s.
      rb_set_parent x y s))))) = Inr s'"
    "rb_mem s' x = Some \<lparr>rb_parent_color = y OR colour_bit c1, rb_right = root_of b, rb_left = root_of a\<rparr>"
    "rb_mem s' y = Some \<lparr>rb_parent_color = ?K OR colour_bit c2, rb_right = root_of d, rb_left = x\<rparr>"
    "tree_at (rb_mem s') x b" "ctx_at (rb_mem s') (rb_root s') k y"
    "\<forall>z\<in>set (inorder a) \<union> set (inorder d). rb_mem s' z = rb_mem s z"
    using rotation_steps [OF m(1,2,4,6) adr xs, where fx = "\<lambda>r. r\<lparr>rb_right := root_of b\<rparr>" and fy = "\<lambda>r. r\<lparr>rb_left := x\<rparr>"
        and repl = replace_left_first and ?c1.0 = c1 and ?c2.0 = c2] adr
    by (auto simp: addresses_def set_left_def set_right_def)
  have "rb_rotate_left x s = Inr s'"
    using m(1,2) s'(1) parent_colour(1) [OF aligned_ctx [OF adr], of c1] by (simp add: rb_rotate_left_def rb_get_def rb_parent_def Let_def cong: if_cong)
  moreover have "in_context s' k (Node c2 (Node c1 a x b) y d)"
    using s' m(3,5) adr by (auto simp: in_context_def elim!: tree_at_cong [rotated])
  ultimately show ?thesis by blast
qed

lemma rotate_right_ok:
  assumes "in_context s k (Node c1 (Node c2 a y b) x d)"
  shows "\<exists>s'. rb_rotate_right x s = Inr s' \<and> in_context s' k (Node c2 a y (Node c1 b x d))"
proof -
  let ?K = "ctx_addr k" and ?xs = "inorder a @ y # inorder b @ x # inorder d"
  have m: "rb_mem s x = Some \<lparr>rb_parent_color = ?K OR colour_bit c1, rb_right = root_of d, rb_left = y\<rparr>"
    "rb_mem s y = Some \<lparr>rb_parent_color = x OR colour_bit c2, rb_right = root_of b, rb_left = root_of a\<rparr>"
    "tree_at (rb_mem s) y a" "tree_at (rb_mem s) y b" "tree_at (rb_mem s) x d" "ctx_at (rb_mem s) (rb_root s) k x"
    and adr: "addresses (before k @ ?xs @ after k)"
    using assms by (simp_all add: in_context_def)
  have xs: "set ?xs = {x, y} \<union> set (inorder b) \<union> (set (inorder a) \<union> set (inorder d))" by auto
  obtain s' where s': "rbind (set_left x (root_of b) s) (\<lambda>s.
      rbind (if root_of b \<noteq> 0 then rb_set_parent (root_of b) x s else Inr s) (\<lambda>s.
      rbind (set_right y x s) (\<lambda>s.
      rbind (rb_set_parent y (ctx_addr k) s) (\<lambda>s.
      rbind (replace_right_first (ctx_addr k) x y s) (\<lambda>s.
      rb_set_parent x y s))))) = Inr s'"
    "rb_mem s' x = Some \<lparr>rb_parent_color = y OR colour_bit c1, rb_right = root_of d, rb_left = root_of b\<rparr>"
    "rb_mem s' y = Some \<lparr>rb_parent_color = ?K OR colour_bit c2, rb_right = x, rb_left = root_of a\<rparr>"
    "tree_at (rb_mem s') x b" "ctx_at (rb_mem s') (rb_root s') k y"
    "\<forall>z\<in>set (inorder a) \<union> set (inorder d). rb_mem s' z = rb_mem s z"
    using rotation_steps [OF m(1,2,4,6) adr xs, where fx = "\<lambda>r. r\<lparr>rb_left := root_of b\<rparr>" and fy = "\<lambda>r. r\<lparr>rb_right := x\<rparr>"
        and repl = replace_right_first and ?c1.0 = c1 and ?c2.0 = c2] adr
    by (auto simp: addresses_def set_left_def set_right_def)
  have "rb_rotate_right x s = Inr s'"
    using m(1,2) s'(1) parent_colour(1) [OF aligned_ctx [OF adr], of c1] by (simp add: rb_rotate_right_def rb_get_def rb_parent_def Let_def cong: if_cong)
  moreover have "in_context s' k (Node c2 a y (Node c1 b x d))"
    using s' m(3,5) adr by (auto simp: in_context_def elim!: tree_at_cong [rotated])
  ultimately show ?thesis by blast
qed

section \<open>The red-black conditions\<close>

fun colour_of :: "tree \<Rightarrow> colour" where
  "colour_of Leaf = Black"
| "colour_of (Node c l a r) = c"

text \<open>No red node has a red child; every path has \<open>h\<close> black nodes.\<close>

fun red_ok :: "tree \<Rightarrow> bool" where
  "red_ok Leaf = True"
| "red_ok (Node c l a r) = (red_ok l \<and> red_ok r \<and> (c = Red \<longrightarrow> colour_of l = Black \<and> colour_of r = Black))"

fun black_height :: "nat \<Rightarrow> tree \<Rightarrow> bool" where
  "black_height h Leaf = (h = 0)"
| "black_height h (Node Red l a r) = (black_height h l \<and> black_height h r)"
| "black_height h (Node Black l a r) = (0 < h \<and> black_height (h - 1) l \<and> black_height (h - 1) r)"

definition red_black :: "tree \<Rightarrow> bool" where
  "red_black t \<longleftrightarrow> colour_of t = Black \<and> red_ok t \<and> (\<exists>h. black_height h t)"

text \<open>The same for a context whose hole takes a tree of black height \<open>h\<close>.\<close>

fun frame_colour :: "frame \<Rightarrow> colour" where
  "frame_colour (FL c a r) = c"
| "frame_colour (FR c l a) = c"

fun sibling :: "frame \<Rightarrow> tree" where
  "sibling (FL c a r) = r"
| "sibling (FR c l a) = l"

fun ctx_colour :: "frame list \<Rightarrow> colour" where
  "ctx_colour [] = Black"
| "ctx_colour (f # k) = frame_colour f"

fun ctx_red_ok :: "frame list \<Rightarrow> bool" where
  "ctx_red_ok [] = True"
| "ctx_red_ok (f # k) = (red_ok (sibling f) \<and> ctx_red_ok k \<and>
     (frame_colour f = Red \<longrightarrow> colour_of (sibling f) = Black \<and> ctx_colour k = Black \<and> k \<noteq> []))"

fun ctx_height :: "nat \<Rightarrow> frame list \<Rightarrow> bool" where
  "ctx_height h [] = True"
| "ctx_height h (f # k) = (black_height h (sibling f) \<and> ctx_height (if frame_colour f = Red then h else Suc h) k)"

lemma plug_red_black:
  "red_ok t \<Longrightarrow> black_height h t \<Longrightarrow> ctx_red_ok k \<Longrightarrow> ctx_height h k \<Longrightarrow> (colour_of t = Red \<longrightarrow> ctx_colour k = Black) \<Longrightarrow>
   red_ok (plug k t) \<and> (\<exists>h. black_height h (plug k t))"
proof (induction k arbitrary: t h)
  case (Cons f k)
  show ?case
  proof (cases f)
    case (FL c a r)
    then show ?thesis using Cons.prems Cons.IH [of "fill f t" h] Cons.IH [of "fill f t" "Suc h"]
      by (cases c; cases "colour_of t"; simp)
  next
    case (FR c l a)
    then show ?thesis using Cons.prems Cons.IH [of "fill f t" h] Cons.IH [of "fill f t" "Suc h"]
      by (cases c; cases "colour_of t"; simp)
  qed
qed auto

text \<open>The parts of a red-black tree.\<close>

lemma red_black_plug:
  "colour_of (plug k t) = Black \<Longrightarrow> red_ok (plug k t) \<Longrightarrow> black_height h (plug k t) \<Longrightarrow>
   \<exists>h'. red_ok t \<and> black_height h' t \<and> ctx_red_ok k \<and> ctx_height h' k \<and> (colour_of t = Red \<longrightarrow> ctx_colour k = Black \<and> k \<noteq> [])"
proof (induction k arbitrary: t)
  case (Cons f k)
  then obtain h' where h: "red_ok (fill f t)" "black_height h' (fill f t)" "ctx_red_ok k" "ctx_height h' k"
    "colour_of (fill f t) = Red \<longrightarrow> ctx_colour k = Black \<and> k \<noteq> []" by fastforce
  show ?case
  proof (cases f)
    case (FL c a r)
    then show ?thesis using h by (cases c) (auto intro: exI [of _ h'] exI [of _ "h' - 1"])
  next
    case (FR c l a)
    then show ?thesis using h by (cases c) (auto intro: exI [of _ h'] exI [of _ "h' - 1"])
  qed
qed auto

section \<open>Insertion\<close>

text \<open>The loop ends when the parent is black or there is none.\<close>

lemma insert_loop_stops:
  assumes "in_context s k (Node Red l n r)" "ctx_colour k = Black"
  shows "rb_insert_loop (Suc fuel) n s = Inr s"
proof -
  obtain nd where n: "rb_get s n = Inr nd" "rb_parent nd = ctx_addr k" using in_context_get [OF assms(1)] by metis
  show ?thesis
  proof (cases k)
    case Nil
    then show ?thesis using n by (simp add: Let_def)
  next
    case (Cons f k')
    obtain c' l' a' r' where f: "fill f (Node Red l n r) = Node c' l' a' r'" by (cases f) auto
    then have a: "a' = frame_addr f" "c' = Black" using assms(2) Cons by (cases f; simp)+
    have "in_context s k' (Node c' l' a' r')" using assms(1) f Cons in_context_fill by metis
    then obtain pd where "rb_get s a' = Inr pd" "\<not> rb_is_red pd" "a' \<noteq> 0" using a(2) by (metis colour.distinct(1) in_context_get)
    then show ?thesis using n a Cons by (simp add: Let_def)
  qed
qed

lemma is_red_node_ok:
  assumes "in_context s k t" shows "is_red_node (root_of t) s = Inr (colour_of t = Red)"
proof (cases t)
  case (Node c l a r)
  then obtain n where "rb_get s a = Inr n" "rb_is_red n \<longleftrightarrow> c = Red" "a \<noteq> 0" using assms in_context_get by metis
  then show ?thesis using Node by (simp add: is_red_node_def)
qed (simp add: is_red_node_def)

lemma rb_flip_ok:
  assumes "in_context s k (Node c (Node c1 a x b) y (Node c2 d z e))"
  shows "\<exists>s'. rb_flip z x y s = Inr s' \<and> in_context s' k (Node Red (Node Black a x b) y (Node Black d z e))"
    "\<exists>s'. rb_flip x z y s = Inr s' \<and> in_context s' k (Node Red (Node Black a x b) y (Node Black d z e))"
proof -
  let ?r = "FR c (Node c1 a x b) y # k"
  have zy: "in_context s ?r (Node c2 d z e)" using assms by (simp add: in_context_fill)
  have xy: "in_context s (FL c y (Node c2 d z e) # k) (Node c1 a x b)" using assms by (simp add: in_context_fill)
  obtain s1 where s1: "rb_set_black z s = Inr s1" "in_context s1 (FL c y (Node Black d z e) # k) (Node c1 a x b)"
    using set_colour_ok(1) [OF zy] by (auto simp: in_context_fill)
  obtain s2 where s2: "rb_set_black x s1 = Inr s2" "in_context s2 k (Node c (Node Black a x b) y (Node Black d z e))"
    using set_colour_ok(1) [OF s1(2)] by (auto simp: in_context_fill)
  obtain t1 where t1: "rb_set_black x s = Inr t1" "in_context t1 (FR c (Node Black a x b) y # k) (Node c2 d z e)"
    using set_colour_ok(1) [OF xy] by (auto simp: in_context_fill)
  obtain t2 where t2: "rb_set_black z t1 = Inr t2" "in_context t2 k (Node c (Node Black a x b) y (Node Black d z e))"
    using set_colour_ok(1) [OF t1(2)] by (auto simp: in_context_fill)
  show "\<exists>s'. rb_flip z x y s = Inr s' \<and> in_context s' k (Node Red (Node Black a x b) y (Node Black d z e))"
    using set_colour_ok(2) [OF s2(2)] s1(1) s2(1) by (simp add: rb_flip_def)
  show "\<exists>s'. rb_flip x z y s = Inr s' \<and> in_context s' k (Node Red (Node Black a x b) y (Node Black d z e))"
    using set_colour_ok(2) [OF t2(2)] t1(1) t2(1) by (simp add: rb_flip_def)
qed

text \<open>The two last steps: the parent black, the grandparent red and rotated below it.\<close>

lemma lift_left:
  assumes "in_context s k (Node Black (Node Red t p m) g u)"
  shows "\<exists>s'. rbind (rb_set_black p s) (\<lambda>s. rbind (rb_set_red g s) (\<lambda>s. rb_rotate_right g s)) = Inr s' \<and>
    in_context s' k (Node Black t p (Node Red m g u))"
proof -
  have "in_context s (FL Black g u # k) (Node Red t p m)" using assms by (simp add: in_context_fill)
  then obtain s1 where s1: "rb_set_black p s = Inr s1" "in_context s1 k (Node Black (Node Black t p m) g u)"
    using set_colour_ok(1) by (fastforce simp: in_context_fill)
  obtain s2 where s2: "rb_set_red g s1 = Inr s2" "in_context s2 k (Node Red (Node Black t p m) g u)"
    using set_colour_ok(2) [OF s1(2)] by auto
  show ?thesis using rotate_right_ok [OF s2(2)] s1(1) s2(1) by simp
qed

lemma lift_right:
  assumes "in_context s k (Node Black u g (Node Red m p t))"
  shows "\<exists>s'. rbind (rb_set_black p s) (\<lambda>s. rbind (rb_set_red g s) (\<lambda>s. rb_rotate_left g s)) = Inr s' \<and>
    in_context s' k (Node Black (Node Red u g m) p t)"
proof -
  have "in_context s (FR Black u g # k) (Node Red m p t)" using assms by (simp add: in_context_fill)
  then obtain s1 where s1: "rb_set_black p s = Inr s1" "in_context s1 k (Node Black u g (Node Black m p t))"
    using set_colour_ok(1) by (fastforce simp: in_context_fill)
  obtain s2 where s2: "rb_set_red g s1 = Inr s2" "in_context s2 k (Node Red u g (Node Black m p t))"
    using set_colour_ok(2) [OF s1(2)] by auto
  show ?thesis using rotate_left_ok [OF s2(2)] s1(1) s2(1) by simp
qed

text \<open>What the loop needs of the subtrees it moves around.\<close>

definition black_part :: "nat \<Rightarrow> tree \<Rightarrow> bool" where
  "black_part h t \<longleftrightarrow> red_ok t \<and> black_height h t \<and> colour_of t = Black"

lemma in_context_distinct:
  assumes "in_context s k (Node c l a r)"
  shows "root_of l \<noteq> a" "root_of r \<noteq> a" "root_of l \<noteq> root_of r \<or> l = Leaf \<and> r = Leaf"
proof -
  have d: "addresses (before k @ inorder (Node c l a r) @ after k)" using assms by (simp add: in_context_def)
  show "root_of l \<noteq> a" using d by (cases l) (auto simp: addresses_def)
  show "root_of r \<noteq> a" using d by (cases r) (auto simp: addresses_def)
  show "root_of l \<noteq> root_of r \<or> l = Leaf \<and> r = Leaf"
    using d by (cases l; cases r) (auto simp: addresses_def)
qed

lemma straighten_left_ok:
  assumes "in_context s (f # k) (Node Red l n r)" "frame_colour f = Red"
    "black_part h l" "black_part h r" "black_part h (sibling f)"
  shows "\<exists>x y s' a b d. straighten_left n (frame_addr f) s = Inr (x, y, s') \<and> in_context s' k (Node Red (Node Red a x b) y d) \<and>
    inorder (Node Red (Node Red a x b) y d) = inorder (fill f (Node Red l n r)) \<and>
    black_part h a \<and> black_part h b \<and> black_part h d"
proof (cases f)
  case (FL c p sp)
  have i: "in_context s k (Node Red (Node Red l n r) p sp)" using assms(1,2) FL by (simp add: in_context_fill)
  obtain pd where "rb_get s p = Inr pd" "rb_right pd = root_of sp" using in_context_get [OF i] by metis
  moreover have "root_of sp \<noteq> n" using in_context_distinct(3) [OF i] by auto
  ultimately have "straighten_left n p s = Inr (n, p, s)" by (simp add: straighten_left_def)
  then show ?thesis using i FL assms by force
next
  case (FR c sp p)
  have i: "in_context s k (Node Red sp p (Node Red l n r))" using assms(1,2) FR by (simp add: in_context_fill)
  obtain pd where "rb_get s p = Inr pd" "rb_right pd = n" using in_context_get [OF i] by (metis root_of.simps(2))
  moreover obtain s' where "rb_rotate_left p s = Inr s'" "in_context s' k (Node Red (Node Red sp p l) n r)"
    using rotate_left_ok [OF i] by blast
  ultimately show ?thesis using FR assms
    by (intro exI [of _ p] exI [of _ n] exI [of _ s'] exI [of _ sp] exI [of _ l] exI [of _ r]) (simp add: straighten_left_def)
qed

lemma straighten_right_ok:
  assumes "in_context s (f # k) (Node Red l n r)" "frame_colour f = Red"
    "black_part h l" "black_part h r" "black_part h (sibling f)"
  shows "\<exists>x y s' a b d. straighten_right n (frame_addr f) s = Inr (x, y, s') \<and> in_context s' k (Node Red a y (Node Red b x d)) \<and>
    inorder (Node Red a y (Node Red b x d)) = inorder (fill f (Node Red l n r)) \<and>
    black_part h a \<and> black_part h b \<and> black_part h d"
proof (cases f)
  case (FR c sp p)
  have i: "in_context s k (Node Red sp p (Node Red l n r))" using assms(1,2) FR by (simp add: in_context_fill)
  obtain pd where "rb_get s p = Inr pd" "rb_left pd = root_of sp" using in_context_get [OF i] by metis
  moreover have "root_of sp \<noteq> n" using in_context_distinct(3) [OF i] by auto
  ultimately have "straighten_right n p s = Inr (n, p, s)" by (simp add: straighten_right_def)
  then show ?thesis using i FR assms by force
next
  case (FL c p sp)
  have i: "in_context s k (Node Red (Node Red l n r) p sp)" using assms(1,2) FL by (simp add: in_context_fill)
  obtain pd where "rb_get s p = Inr pd" "rb_left pd = n" using in_context_get [OF i] by (metis root_of.simps(2))
  moreover obtain s' where "rb_rotate_right p s = Inr s'" "in_context s' k (Node Red l n (Node Red r p sp))"
    using rotate_right_ok [OF i] by blast
  ultimately show ?thesis using FL assms
    by (intro exI [of _ p] exI [of _ n] exI [of _ s'] exI [of _ l] exI [of _ r] exI [of _ sp]) (simp add: straighten_right_def)
qed

text \<open>The body of the loop with a red parent, for each side of the grandparent.\<close>

lemma insert_loop_body:
  assumes "in_context s (f # g # k) (Node Red l n r)" "frame_colour f = Red"
  shows "g = FL c a u \<Longrightarrow> rb_insert_loop (Suc fuel) n s =
      (if colour_of u = Red then rbind (rb_flip (root_of u) (frame_addr f) a s) (rb_insert_loop fuel a)
       else rbind (straighten_left n (frame_addr f) s) (\<lambda>(node, parent, s).
         rbind (rbind (rb_set_black parent s) (\<lambda>s. rbind (rb_set_red a s) (\<lambda>s. rb_rotate_right a s))) (rb_insert_loop fuel node)))"
    and "g = FR c u a \<Longrightarrow> rb_insert_loop (Suc fuel) n s =
      (if colour_of u = Red then rbind (rb_flip (root_of u) (frame_addr f) a s) (rb_insert_loop fuel a)
       else rbind (straighten_right n (frame_addr f) s) (\<lambda>(node, parent, s).
         rbind (rbind (rb_set_black parent s) (\<lambda>s. rbind (rb_set_red a s) (\<lambda>s. rb_rotate_left a s))) (rb_insert_loop fuel node)))"
proof -
  have assoc: "rbind (rbind m f) h = rbind m (\<lambda>x. rbind (f x) h)" for m :: "'x result" and f :: "'x \<Rightarrow> 'y result" and h :: "'y \<Rightarrow> 'z result"
    by (cases m) simp_all
  obtain nd where n: "rb_get s n = Inr nd" "rb_parent nd = frame_addr f" using in_context_get [OF assms(1)] by (metis ctx_addr.simps(2))
  obtain lp rp where p: "fill f (Node Red l n r) = Node Red lp (frame_addr f) rp" using assms(2) by (cases f) auto
  then have ip: "in_context s (g # k) (Node Red lp (frame_addr f) rp)" using assms(1) in_context_fill by metis
  then obtain pd where pd: "rb_get s (frame_addr f) = Inr pd" "rb_parent pd = frame_addr g" "rb_is_red pd" "frame_addr f \<noteq> 0"
    by (metis ctx_addr.simps(2) in_context_get)
  show "rb_insert_loop (Suc fuel) n s =
      (if colour_of u = Red then rbind (rb_flip (root_of u) (frame_addr f) a s) (rb_insert_loop fuel a)
       else rbind (straighten_left n (frame_addr f) s) (\<lambda>(node, parent, s).
         rbind (rbind (rb_set_black parent s) (\<lambda>s. rbind (rb_set_red a s) (\<lambda>s. rb_rotate_right a s))) (rb_insert_loop fuel node)))"
    if g: "g = FL c a u"
  proof -
    have ig: "in_context s k (Node c (Node Red lp (frame_addr f) rp) a u)" using ip g by (simp add: in_context_fill)
    then obtain gd where gd: "rb_get s a = Inr gd" "rb_left gd = frame_addr f" "rb_right gd = root_of u"
      by (metis in_context_get root_of.simps(2))
    have "in_context s (FR c (Node Red lp (frame_addr f) rp) a # k) u" using ig by (simp add: in_context_fill)
    from is_red_node_ok [OF this] show ?thesis using n pd gd g by (auto simp: Let_def assoc)
  qed
  show "rb_insert_loop (Suc fuel) n s =
      (if colour_of u = Red then rbind (rb_flip (root_of u) (frame_addr f) a s) (rb_insert_loop fuel a)
       else rbind (straighten_right n (frame_addr f) s) (\<lambda>(node, parent, s).
         rbind (rbind (rb_set_black parent s) (\<lambda>s. rbind (rb_set_red a s) (\<lambda>s. rb_rotate_left a s))) (rb_insert_loop fuel node)))"
    if g: "g = FR c u a"
  proof -
    have ig: "in_context s k (Node c u a (Node Red lp (frame_addr f) rp))" using ip g by (simp add: in_context_fill)
    then obtain gd where gd: "rb_get s a = Inr gd" "rb_left gd = root_of u" by (metis in_context_get)
    have "frame_addr f \<noteq> root_of u" using in_context_distinct(3) [OF ig] by auto
    moreover have "in_context s (FL c a (Node Red lp (frame_addr f) rp) # k) u" using ig by (simp add: in_context_fill)
    from is_red_node_ok [OF this] show ?thesis using n pd gd g calculation by (auto simp: Let_def assoc)
  qed
qed

declare rb_insert_loop.simps(2) [simp del]

lemma order_fill: "before (f # k) @ inorder t @ after (f # k) = before k @ inorder (fill f t) @ after k"
  by (cases f) simp_all

definition inserted :: "'s rb_tree_scheme \<Rightarrow> addr_t list \<Rightarrow> bool" where
  "inserted s xs \<longleftrightarrow> (\<exists>t. represents s t \<and> inorder t = xs \<and> red_ok t \<and> (\<exists>h. black_height h t))"

lemma insertedI:
  assumes "in_context s k t" "red_ok t" "black_height h t" "ctx_red_ok k" "ctx_height h k"
    "colour_of t = Red \<longrightarrow> ctx_colour k = Black"
  shows "inserted s (before k @ inorder t @ after k)"
  using assms plug_red_black [of t h k] represents_plug [of s k t] unfolding inserted_def
  by (intro exI [of _ "plug k t"]) (simp add: inorder_plug)

lemma insert_loop_rotates:
  assumes "in_context s (f # g # k) (Node Red l n r)" "frame_colour f = Red" "frame_colour g = Black"
    "black_part h l" "black_part h r" "black_part h (sibling f)" "black_part h (sibling g)" "ctx_red_ok k" "ctx_height (Suc h) k"
  shows "\<exists>s'. rb_insert_loop (Suc (Suc fuel)) n s = Inr s' \<and>
    inserted s' (before k @ inorder (fill g (fill f (Node Red l n r))) @ after k)"
proof (cases g)
  case (FL c a u)
  obtain x y s1 ta tb td where s1: "straighten_left n (frame_addr f) s = Inr (x, y, s1)"
    "in_context s1 (g # k) (Node Red (Node Red ta x tb) y td)"
    "inorder (Node Red (Node Red ta x tb) y td) = inorder (fill f (Node Red l n r))"
    "black_part h ta" "black_part h tb" "black_part h td"
    using straighten_left_ok [OF assms(1,2,4,5,6)] by blast
  have "in_context s1 k (Node Black (Node Red (Node Red ta x tb) y td) a u)" using s1(2) FL assms(3) by (simp add: in_context_fill)
  from lift_left [OF this] obtain s2 where
    s2: "rbind (rb_set_black y s1) (\<lambda>s. rbind (rb_set_red a s) (\<lambda>s. rb_rotate_right a s)) = Inr s2"
      "in_context s2 k (Node Black (Node Red ta x tb) y (Node Red td a u))" by blast
  have "rb_insert_loop (Suc fuel) x s2 = Inr s2"
    by (rule insert_loop_stops [where k = "FL Black y (Node Red td a u) # k"]) (use s2(2) in \<open>simp_all add: in_context_fill\<close>)
  then have "rb_insert_loop (Suc (Suc fuel)) n s = Inr s2"
    using insert_loop_body(1) [OF assms(1,2) FL, of "Suc fuel"] s1(1) s2(1) assms(7) FL by (simp add: black_part_def)
  moreover have "inserted s2 (before k @ inorder (Node Black (Node Red ta x tb) y (Node Red td a u)) @ after k)"
    by (rule insertedI [OF s2(2), of "Suc h"]) (use s1 assms FL in \<open>simp_all add: black_part_def\<close>)
  ultimately show ?thesis using s1(3) [symmetric] FL by auto
next
  case (FR c u a)
  obtain x y s1 ta tb td where s1: "straighten_right n (frame_addr f) s = Inr (x, y, s1)"
    "in_context s1 (g # k) (Node Red ta y (Node Red tb x td))"
    "inorder (Node Red ta y (Node Red tb x td)) = inorder (fill f (Node Red l n r))"
    "black_part h ta" "black_part h tb" "black_part h td"
    using straighten_right_ok [OF assms(1,2,4,5,6)] by blast
  have "in_context s1 k (Node Black u a (Node Red ta y (Node Red tb x td)))" using s1(2) FR assms(3) by (simp add: in_context_fill)
  from lift_right [OF this] obtain s2 where
    s2: "rbind (rb_set_black y s1) (\<lambda>s. rbind (rb_set_red a s) (\<lambda>s. rb_rotate_left a s)) = Inr s2"
      "in_context s2 k (Node Black (Node Red u a ta) y (Node Red tb x td))" by blast
  have "rb_insert_loop (Suc fuel) x s2 = Inr s2"
    by (rule insert_loop_stops [where k = "FR Black (Node Red u a ta) y # k"]) (use s2(2) in \<open>simp_all add: in_context_fill\<close>)
  then have "rb_insert_loop (Suc (Suc fuel)) n s = Inr s2"
    using insert_loop_body(2) [OF assms(1,2) FR, of "Suc fuel"] s1(1) s2(1) assms(7) FR by (simp add: black_part_def)
  moreover have "inserted s2 (before k @ inorder (Node Black (Node Red u a ta) y (Node Red tb x td)) @ after k)"
    by (rule insertedI [OF s2(2), of "Suc h"]) (use s1 assms FR in \<open>simp_all add: black_part_def\<close>)
  ultimately show ?thesis using s1(3) [symmetric] FR by auto
qed

text \<open>A red uncle: the loop goes on two levels higher, with a red node whose children are black.\<close>

lemma insert_loop_flips:
  assumes "in_context s (f # g # k) (Node Red l n r)" "frame_colour f = Red" "sibling g = Node Red ul ua ur"
    "black_part h l" "black_part h r" "black_part h (sibling f)" "black_part h ul" "black_part h ur"
  shows "\<exists>s' a b. rb_insert_loop (Suc fuel) n s = rb_insert_loop fuel (frame_addr g) s' \<and>
    in_context s' k (Node Red a (frame_addr g) b) \<and> black_part (Suc h) a \<and> black_part (Suc h) b \<and>
    inorder (Node Red a (frame_addr g) b) = inorder (fill g (fill f (Node Red l n r)))"
proof -
  obtain lp rp where p: "fill f (Node Red l n r) = Node Red lp (frame_addr f) rp"
    "red_ok lp" "red_ok rp" "black_height h lp" "black_height h rp"
    using assms(2,4-6) by (cases f) (auto simp: black_part_def)
  show ?thesis
  proof (cases g)
    case (FL c a u)
    have i: "in_context s k (Node c (Node Red lp (frame_addr f) rp) a (Node Red ul ua ur))"
      using assms(1,3) FL p(1) by (simp add: in_context_fill)
    show ?thesis
      using rb_flip_ok(1) [OF i] insert_loop_body(1) [OF assms(1,2) FL, of fuel] FL assms(3,7,8) p
      by (fastforce simp: black_part_def)
  next
    case (FR c u a)
    have i: "in_context s k (Node c (Node Red ul ua ur) a (Node Red lp (frame_addr f) rp))"
      using assms(1,3) FR p(1) by (simp add: in_context_fill)
    show ?thesis
      using rb_flip_ok(2) [OF i] insert_loop_body(2) [OF assms(1,2) FR, of fuel] FR assms(3,7,8) p
      by (fastforce simp: black_part_def)
  qed
qed

lemma insert_loop_ok:
  "in_context s k (Node Red l n r) \<Longrightarrow> black_part h l \<Longrightarrow> black_part h r \<Longrightarrow> ctx_red_ok k \<Longrightarrow> ctx_height h k \<Longrightarrow>
   length k < fuel \<Longrightarrow>
   \<exists>s'. rb_insert_loop fuel n s = Inr s' \<and> inserted s' (before k @ inorder (Node Red l n r) @ after k)"
proof (induction k arbitrary: s l n r h fuel rule: length_induct)
  case (1 k)
  then obtain fu where fuel: "fuel = Suc fu" by (cases fuel) auto
  show ?case
  proof (cases "ctx_colour k")
    case Black
    then show ?thesis
      using insert_loop_stops [OF 1(2) Black, of fu] insertedI [OF 1(2), of h] 1 fuel by (auto simp: black_part_def)
  next
    case Red
    then obtain f g k' where k: "k = f # g # k'" "frame_colour f = Red"
      using 1(5) by (cases k rule: remdups_adj.cases) auto
    have c: "frame_colour g = Black" "black_part h (sibling f)" "red_ok (sibling g)" "ctx_red_ok k'" "ctx_height (Suc h) k'"
      "black_height h (sibling g)"
      using 1(5,6) k by (auto simp: black_part_def)
    note order = order_fill [of g k' "fill f (Node Red l n r)"] order_fill [of f "g # k'" "Node Red l n r"]
    show ?thesis
    proof (cases "colour_of (sibling g)")
      case Black
      obtain fu' where "fuel = Suc (Suc fu')" using 1(7) k fuel by (cases fu) auto
      then show ?thesis
        using insert_loop_rotates [OF 1(2) [unfolded k(1)] k(2) c(1) 1(3,4) c(2) _ c(4,5), of fu'] c(3,6) Black order k(1)
        by (auto simp: black_part_def)
    next
      case Red
      then obtain ul ua ur where u: "sibling g = Node Red ul ua ur" by (cases "sibling g") auto
      then have "black_part h ul" "black_part h ur" using c(3,6) by (auto simp: black_part_def)
      from insert_loop_flips [OF 1(2) [unfolded k(1)] k(2) u 1(3,4) c(2) this, of fu]
      obtain s' a b where s': "rb_insert_loop fuel n s = rb_insert_loop fu (frame_addr g) s'"
        "in_context s' k' (Node Red a (frame_addr g) b)" "black_part (Suc h) a" "black_part (Suc h) b"
        "inorder (Node Red a (frame_addr g) b) = inorder (fill g (fill f (Node Red l n r)))"
        using fuel by auto
      have "length k' < length k" "length k' < fu" using k(1) 1(7) fuel by auto
      then show ?thesis using 1(1) s' c(4,5) order k(1) by (metis (no_types, lifting))
    qed
  qed
qed

section \<open>Linking a node\<close>

text \<open>The link field a search that ends at the hole of a context has in its hands.\<close>

fun link_of :: "frame list \<Rightarrow> rb_link" where
  "link_of [] = Root_Link"
| "link_of (FL c a r # k) = Left_Link a"
| "link_of (FR c l a # k) = Right_Link a"

lemma rb_link_node_ok:
  assumes "represents s (plug k Leaf)" "n \<notin> set (before k @ after k)" "n \<noteq> 0" "n AND 3 = 0" "rb_mem s n \<noteq> None"
  shows "\<exists>s'. rb_link_node n (ctx_addr k) (link_of k) s = Inr s' \<and> in_context s' k (Node Red Leaf n Leaf)"
proof -
  have i: "ctx_at (rb_mem s) (rb_root s) k 0" "addresses (before k @ after k)"
    using assms(1) by (simp_all add: represents_plug in_context_def)
  let ?s1 = "s\<lparr>rb_mem := (rb_mem s)(n \<mapsto> \<lparr>rb_parent_color = ctx_addr k, rb_right = 0, rb_left = 0\<rparr>)\<rparr>"
  have l: "rb_link_node n (ctx_addr k) (link_of k) s = set_link (link_of k) n ?s1"
  proof -
    obtain p q r where "rb_mem s n = Some \<lparr>rb_parent_color = p, rb_right = q, rb_left = r\<rparr>"
      using assms(5) by (metis not_None_eq rb_node.cases)
    then show ?thesis by (simp add: rb_link_node_def rb_set_Some set_left_def set_right_def)
  qed
  have adr: "addresses (before k @ inorder (Node Red Leaf n Leaf) @ after k)" using i(2) assms(2-4) by (auto simp: addresses_def)
  have m: "\<forall>a\<in>set (before k) \<union> set (after k). rb_mem ?s1 a = rb_mem s a" using assms(2) by auto
  have ctx: "ctx_at (rb_mem ?s1) (rb_root s) k 0" by (rule ctx_at_cong [OF m i(1)])
  show ?thesis
  proof (cases k)
    case Nil
    then show ?thesis using l adr by (simp add: in_context_def)
  next
    case (Cons f k')
    let ?s2 = "?s1\<lparr>rb_mem := (rb_mem ?s1)(frame_addr f \<mapsto> (case f of
        FL c a r \<Rightarrow> \<lparr>rb_parent_color = ctx_addr k' OR colour_bit c, rb_right = root_of r, rb_left = n\<rparr>
      | FR c lt a \<Rightarrow> \<lparr>rb_parent_color = ctx_addr k' OR colour_bit c, rb_right = n, rb_left = root_of lt\<rparr>))\<rparr>"
    have "set_link (link_of k) n ?s1 = Inr ?s2"
      using ctx Cons by (cases f) (simp_all add: set_left_def set_right_def rb_set_Some)
    moreover have "in_context ?s2 k (Node Red Leaf n Leaf)"
      using ctx Cons adr by (cases f) (auto simp: in_context_def addresses_def elim!: ctx_at_cong [rotated] tree_at_cong [rotated])
    ultimately show ?thesis using l by simp
  qed
qed

section \<open>Insertion is correct\<close>

lemma length_ctx: "length k \<le> length (before k @ after k)"
proof (induction k)
  case (Cons f k)
  then show ?case by (cases f) auto
qed simp

text \<open>
  Property C4. Inserting into a red-black tree: whatever place the client's search has found,
  linking the node there and calling \<^verbatim>\<open>rb_insert_color\<close> succeeds and leaves in memory a
  red-black tree -- black root, no red node with a red child, the same number of black nodes on
  every path, all parent pointers right -- with the node at its place in the order and every
  other node where it was. The loop needs no more rounds than the tree has nodes.
\<close>

theorem rb_insert_correct:
  assumes "represents s t" "red_black t" "t = plug k Leaf"
    and "n \<notin> set (inorder t)" "n \<noteq> 0" "n AND 3 = 0" "rb_mem s n \<noteq> None" "length (inorder t) < fuel"
  shows "\<exists>s1 s2 t'. rb_link_node n (ctx_addr k) (link_of k) s = Inr s1 \<and> rb_insert_color fuel n s1 = Inr s2 \<and>
    represents s2 t' \<and> red_black t' \<and> inorder t' = before k @ n # after k"
proof -
  have order: "inorder t = before k @ after k" using assms(3) by (simp add: inorder_plug)
  obtain s1 where s1: "rb_link_node n (ctx_addr k) (link_of k) s = Inr s1" "in_context s1 k (Node Red Leaf n Leaf)"
    using rb_link_node_ok [of s k n] assms order by auto
  obtain h where h: "black_height h Leaf" "ctx_red_ok k" "ctx_height h k"
    using assms(2) red_black_plug [of k Leaf] unfolding assms(3) red_black_def by blast
  have "length k < fuel" using length_ctx [of k] order assms(8) by simp
  from insert_loop_ok [OF s1(2) _ _ h(2,3) this] h(1) obtain s' t1 h1 where
    s': "rb_insert_loop fuel n s1 = Inr s'" "represents s' t1" "inorder t1 = before k @ n # after k" "red_ok t1" "black_height h1 t1"
    by (auto simp: black_part_def inserted_def)
  obtain c l a r where t1: "t1 = Node c l a r" using s'(3) by (cases t1) auto
  have "in_context s' [] (Node c l a r)" using s'(2) t1 represents_plug [of s' "[]"] by simp
  from set_colour_ok(1) [OF this] obtain s2 where s2: "rb_set_black a s' = Inr s2" "represents s2 (Node Black l a r)"
    using represents_plug [of _ "[]" "Node Black l a r"] by auto
  have "red_black (Node Black l a r)" using s'(4,5) t1 by (cases c) (auto simp: red_black_def intro: exI [of _ h1] exI [of _ "Suc h1"])
  moreover have "rb_insert_color fuel n s1 = Inr s2" using s'(1,2) s2(1) t1 by (simp add: rb_insert_color_def represents_def)
  ultimately show ?thesis using s1(1) s2(2) s'(3) t1 by (intro exI [of _ s1] exI [of _ s2] exI [of _ "Node Black l a r"]) simp
qed

text \<open>A black root with a red left child; a node goes between the two, which needs both rotations.\<close>

theorem rb_insert_correct_witness:
  "\<exists>s1 s2 t'. rb_link_node 16 8 (Right_Link 8)
      \<lparr>rb_mem = [24 \<mapsto> \<lparr>rb_parent_color = 1, rb_right = 0, rb_left = 8\<rparr>, 8 \<mapsto> \<lparr>rb_parent_color = 24, rb_right = 0, rb_left = 0\<rparr>,
         16 \<mapsto> \<lparr>rb_parent_color = 0, rb_right = 0, rb_left = 0\<rparr>], rb_root = 24\<rparr> = Inr s1 \<and>
     rb_insert_color 3 16 s1 = Inr s2 \<and> represents s2 t' \<and> inorder t' = [8, 16, 24]"
proof -
  let ?s = "\<lparr>rb_mem = [24 \<mapsto> \<lparr>rb_parent_color = 1, rb_right = 0, rb_left = 8\<rparr>, 8 \<mapsto> \<lparr>rb_parent_color = 24, rb_right = 0, rb_left = 0\<rparr>,
     16 \<mapsto> \<lparr>rb_parent_color = 0, rb_right = 0, rb_left = 0\<rparr>], rb_root = 24\<rparr> :: rb_tree"
  let ?k = "[FR Red Leaf 8, FL Black 24 Leaf]" and ?t = "Node Black (Node Red Leaf 8 Leaf) 24 Leaf"
  have "represents ?s ?t" by (simp add: represents_def addresses_def)
  moreover have "red_black ?t" by (auto simp: red_black_def intro!: exI [of _ "Suc 0"])
  moreover have "?t = plug ?k Leaf" "16 \<notin> set (inorder ?t)" "(16 :: addr_t) \<noteq> 0" "(16 :: addr_t) AND 3 = 0" "rb_mem ?s 16 \<noteq> None"
    "length (inorder ?t) < 3" by simp_all
  ultimately obtain s1 s2 t' where "rb_link_node 16 (ctx_addr ?k) (link_of ?k) ?s = Inr s1" "rb_insert_color 3 16 s1 = Inr s2"
    "represents s2 t'" "inorder t' = before ?k @ 16 # after ?k"
    using rb_insert_correct by blast
  then show ?thesis by (intro exI [of _ s1] exI [of _ s2] exI [of _ t']) simp
qed

end
