(* ===== verification/Page_Memory.thy ===== *)
theory Page_Memory
  imports Page_Alloc_Props
begin

text \<open>
  Pages as memory: the kernel addresses of the pages of the array and of bytes inside them, that
  blocks in different places do not meet, and the page operations of a single page with their
  effect on the memory, for the components that keep their data in pages.
\<close>

section \<open>Addresses of pages\<close>

text \<open>The page frames are below 2^48, so that no kernel address of a page wraps around.\<close>

definition frames_ok :: "'s kstate_scheme \<Rightarrow> bool" where
  "frames_ok s \<longleftrightarrow> unat (highmem_base_pfn s) + nr_pages s \<le> 2 ^ 34"

abbreviation kv :: "'s kstate_scheme \<Rightarrow> nat \<Rightarrow> addr_t" where
  "kv s g \<equiv> page_to_kvaddr s (Some (Pg g))"

lemma unat_kernbase: "unat KERNBASE = 0x9800000000000000"
  by (simp add: KERNBASE_def)

lemma unat_pfn: 
  assumes "frames_ok s" "g < nr_pages s"
  shows "unat (PAGE_TO_PFN s (Pg g)) = unat (highmem_base_pfn s) + g"
proof -
  have "unat (of_nat g + highmem_base_pfn s) = (g + unat (highmem_base_pfn s)) mod 2 ^ 64"
    by (simp add: unat_word_ariths unat_of_nat mod_add_left_eq)
  also have "\<dots> = g + unat (highmem_base_pfn s)"
    using assms by (intro mod_less) (simp add: frames_ok_def)
  finally show ?thesis by simp
qed

lemma unat_push_bit: "unat (x :: u64) * 2 ^ n < 2 ^ 64 \<Longrightarrow> unat (push_bit n x) = unat x * 2 ^ n"
proof -
  assume a: "unat x * 2 ^ n < 2 ^ 64"
  have "unat (push_bit n x) = take_bit LENGTH(64) (push_bit n (unat x))" by (rule unsigned_push_bit_eq)
  also have "\<dots> = unat x * 2 ^ n mod 2 ^ 64" by (simp add: push_bit_eq_mult take_bit_eq_mod)
  finally show ?thesis using a by simp
qed

lemma unat_paddr:
  assumes "frames_ok s" "g < nr_pages s"
  shows "unat (PAGE_TO_PADDR s (Pg g)) = (unat (highmem_base_pfn s) + g) * 2 ^ 14"
    "(unat (highmem_base_pfn s) + g) * 2 ^ 14 + 2 ^ 14 \<le> 2 ^ 48"
proof -
  show b: "(unat (highmem_base_pfn s) + g) * 2 ^ 14 + 2 ^ 14 \<le> 2 ^ 48"
    using assms by (simp add: frames_ok_def)
  have "unat (push_bit 14 (PAGE_TO_PFN s (Pg g))) = unat (PAGE_TO_PFN s (Pg g)) * 2 ^ 14"
    by (rule unat_push_bit) (use b unat_pfn [OF assms] in simp)
  then show "unat (PAGE_TO_PADDR s (Pg g)) = (unat (highmem_base_pfn s) + g) * 2 ^ 14"
    by (simp only: PAGE_TO_PADDR_def unat_pfn [OF assms])
qed

lemma unat_kv:
  assumes "frames_ok s" "g < nr_pages s"
  shows "unat (kv s g) = 0x9800000000000000 + (unat (highmem_base_pfn s) + g) * 2 ^ 14"
proof -
  have "unat (PAGE_TO_PADDR s (Pg g) + KERNBASE) = (unat (PAGE_TO_PADDR s (Pg g)) + unat KERNBASE) mod 2 ^ 64"
    by (simp add: unat_word_ariths)
  also have "\<dots> = unat (PAGE_TO_PADDR s (Pg g)) + unat KERNBASE"
    using unat_paddr [OF assms] by (intro mod_less) (simp add: unat_kernbase)
  finally show ?thesis
    using unat_paddr [OF assms] by (simp add: page_to_kvaddr_def PADDR_TO_KVADDR_def unat_kernbase)
qed

lemma kv_nonzero [simp]:
  assumes "frames_ok s" "g < nr_pages s"
  shows "kv s g \<noteq> 0"
proof
  assume "kv s g = 0"
  then have "unat (kv s g) = 0" by simp
  then show False unfolding unat_kv [OF assms] by simp
qed

lemma kv_inj:
  assumes "frames_ok s" "g < nr_pages s" "h < nr_pages s"
  shows "kv s g = kv s h \<longleftrightarrow> g = h"
proof
  assume "kv s g = kv s h"
  then have "unat (kv s g) = unat (kv s h)" by (rule arg_cong)
  then show "g = h" unfolding unat_kv [OF assms(1,2)] unat_kv [OF assms(1,3)] by simp
qed simp

lemma kvaddr_to_page_kv [simp]:
  assumes "frames_ok s" "g < nr_pages s"
  shows "kvaddr_to_page s (kv s g) = Inr (Some (Pg g))"
proof -
  have "unat (drop_bit 14 (PAGE_TO_PADDR s (Pg g))) = unat (highmem_base_pfn s) + g"
    unfolding unat_drop_bit unat_paddr [OF assms] by simp
  then have p: "unat (drop_bit 14 (PAGE_TO_PADDR s (Pg g))) = unat (PAGE_TO_PFN s (Pg g))"
    using unat_pfn [OF assms] by simp
  then have "drop_bit 14 (PAGE_TO_PADDR s (Pg g)) = PAGE_TO_PFN s (Pg g)"
    by (rule unsigned_word_eqI)
  moreover have "\<not> PAGE_TO_PFN s (Pg g) < highmem_base_pfn s"
    using unat_pfn [OF assms] by (simp add: word_less_nat_alt)
  moreover have "unat (PAGE_TO_PFN s (Pg g) - highmem_base_pfn s) = g"
    using assms by (simp add: frames_ok_def unat_of_nat_u64)
  ultimately show ?thesis using kv_nonzero [OF assms]
    by (simp add: kvaddr_to_page_def page_to_kvaddr_def PADDR_TO_KVADDR_def PADDR_TO_PAGE_def
        KVADDR_TO_PADDR_def PADDR_TO_PFN_def pfn_to_page_def)
qed

text \<open>Offsets inside the kernel window of two pages.\<close>

lemma unat_kv_offset:
  assumes "frames_ok s" "g < nr_pages s" "k < 2 ^ 14"
  shows "unat (kv s g + of_nat k) = unat (kv s g) + k"
  using unat_kv [OF assms(1,2)] unat_paddr(2) [OF assms(1,2)] assms(3) by (intro unat_add_offset) simp

lemma apart_intervals:
  assumes "unat a + n \<le> unat b \<or> unat b + k \<le> unat a" "unat a + n \<le> 2 ^ 64" "unat b + k \<le> 2 ^ 64" "0 < k"
  shows "apart a n b k"
proof (cases "unat a \<le> unat b")
  case True
  then have "unat (b - a) = unat b - unat a" by (simp add: unat_sub_if')
  then show ?thesis using assms True by (auto simp: apart_def)
next
  case False
  then have "unat (b - a) = unat b + 2 ^ 64 - unat a" by (simp add: unat_sub_if')
  then show ?thesis using assms False by (auto simp: apart_def)
qed

lemma page_to_kvaddr_cong: "highmem_base_pfn s' = highmem_base_pfn s \<Longrightarrow> page_to_kvaddr s' p = page_to_kvaddr s p"
  by (cases p; cases "the p") (simp_all add: page_to_kvaddr_def PAGE_TO_PADDR_def)

lemma page_to_kvaddr_update [simp]:
  "page_to_kvaddr (s\<lparr>pages := P\<rparr>) p = page_to_kvaddr s p" "page_to_kvaddr (s\<lparr>mem := m\<rparr>) p = page_to_kvaddr s p"
  by (rule page_to_kvaddr_cong, simp)+

lemma PAGE_TO_PADDR_cong: "highmem_base_pfn s' = highmem_base_pfn s \<Longrightarrow> PAGE_TO_PADDR s' p = PAGE_TO_PADDR s p"
  by (cases p) (simp_all add: PAGE_TO_PADDR_def)

lemma PAGE_TO_PADDR_update [simp]:
  "PAGE_TO_PADDR (s\<lparr>pages := P\<rparr>) p = PAGE_TO_PADDR s p" "PAGE_TO_PADDR (s\<lparr>mem := m\<rparr>) p = PAGE_TO_PADDR s p"
  by (rule PAGE_TO_PADDR_cong, simp)+

lemma frames_ok_update [simp]:
  "frames_ok (s\<lparr>pages := P\<rparr>) = frames_ok s" "frames_ok (s\<lparr>mem := m\<rparr>) = frames_ok s"
  by (simp_all add: frames_ok_def)

lemma page_inv_mem [simp]: "page_inv (s\<lparr>mem := m\<rparr>) F As = page_inv s F As"
  by (simp add: page_inv_def free_list_def alloc_set_def)

lemma page_inv_retype:
  assumes "page_inv s F As"
    and "\<And>q. reserved (P q) = reserved (pages s q) \<and> pg_count (P q) = pg_count (pages s q) \<and>
      pg_first (P q) = pg_first (pages s q) \<and> (pg_type (P q) = PGTYPE_TAIL \<longleftrightarrow> pg_type (pages s q) = PGTYPE_TAIL)"
  shows "page_inv (s\<lparr>pages := P\<rparr>) F As"
  using assms by (simp add: page_inv_def free_list_def alloc_set_def)

lemma page_inv_pages_update:
  assumes "page_inv s F As" "reserved g = reserved (pages s q)" "pg_count g = pg_count (pages s q)"
    "pg_first g = pg_first (pages s q)" "pg_type g = PGTYPE_TAIL \<longleftrightarrow> pg_type (pages s q) = PGTYPE_TAIL"
  shows "page_inv (s\<lparr>pages := (pages s)(q := g)\<rparr>) F As"
  using assms by (intro page_inv_retype) auto

text \<open>Every address inside a page leads back to it.\<close>

lemma kvaddr_to_page_inside:
  assumes "frames_ok s" "g < nr_pages s" "x < 2 ^ 14"
  shows "kvaddr_to_page s (kv s g + of_nat x) = Inr (Some (Pg g))"
proof -
  let ?a = "kv s g + of_nat x" and ?b = "unat (highmem_base_pfn s)"
  have a: "unat ?a = 0x9800000000000000 + ((?b + g) * 2 ^ 14 + x)"
    using unat_kv_offset [OF assms] unat_kv [OF assms(1,2)] by simp
  have w: "unat (?a - KERNBASE) = (?b + g) * 2 ^ 14 + x"
    using a by (simp add: unat_sub_if' unat_kernbase)
  have d: "unat (drop_bit 14 (?a - KERNBASE)) = ?b + g"
    unfolding unat_drop_bit w using assms(3) by (simp add: drop_bit_eq_div)
  then have "\<not> drop_bit 14 (?a - KERNBASE) < highmem_base_pfn s" by (simp add: word_less_nat_alt)
  moreover have "unat (drop_bit 14 (?a - KERNBASE) - highmem_base_pfn s) = g" using d by (simp add: unat_sub_if')
  moreover have "?a \<noteq> 0" using a by (metis add_eq_0_iff_both_eq_0 unsigned_0 zero_neq_numeral)
  ultimately show ?thesis
    by (simp add: kvaddr_to_page_def PADDR_TO_PAGE_def KVADDR_TO_PADDR_def PADDR_TO_PFN_def pfn_to_page_def)
qed

text \<open>Blocks in two pages, or in different places of one page, are apart.\<close>

lemma kv_apart:
  assumes f: "frames_ok s" and p: "p < nr_pages s" "q < nr_pages s"
    and x: "x + n \<le> 2 ^ 14" "y + k \<le> 2 ^ 14" "0 < n" "0 < k" and d: "p \<noteq> q \<or> x + n \<le> y \<or> y + k \<le> x"
  shows "apart (kv s p + of_nat x) n (kv s q + of_nat y) k"
proof -
  have "x < 2 ^ 14" "y < 2 ^ 14" using x by simp_all
  note u = unat_kv_offset [OF f p(1) this(1)] unat_kv_offset [OF f p(2) this(2)] unat_kv [OF f p(1)] unat_kv [OF f p(2)]
    unat_paddr(2) [OF f p(1)] unat_paddr(2) [OF f p(2)]
  let ?b = "unat (highmem_base_pfn s)"
  consider "p < q" | "q < p" | "p = q" by linarith
  then show ?thesis
  proof cases
    case 1
    then have "(?b + p) * 2 ^ 14 + 2 ^ 14 \<le> (?b + q) * 2 ^ 14" by simp
    then show ?thesis using u x by (intro apart_intervals) simp_all
  next
    case 2
    then have "(?b + q) * 2 ^ 14 + 2 ^ 14 \<le> (?b + p) * 2 ^ 14" by simp
    then show ?thesis using u x by (intro apart_intervals) simp_all
  next
    case 3
    then show ?thesis using u x d by (intro apart_intervals) auto
  qed
qed

lemma load_bytes_memset_apart: "apart a (unat n) b k \<Longrightarrow> load_bytes b k (memset a c n m) = load_bytes b k m"
  using unat_less_u64 [of n] by (simp add: memset_store_bytes load_bytes_store_bytes_apart)

lemma load_bytes_store32_apart: "apart a 4 b k \<Longrightarrow> load_bytes b k (store32 a w m) = load_bytes b k m"
  by (simp add: store32_def load_bytes_store_bytes_apart)

lemma load_bytes_memset: "unat n = k \<Longrightarrow> load_bytes a k (memset a c n m) = replicate k (ucast c)"
  using unat_less_u64 [of n] by (auto simp add: memset_store_bytes intro!: load_bytes_store_bytes_same)

section \<open>Allocating and freeing one page\<close>

text \<open>The memory of a freed page is filled with 0x01; no other page changes.\<close>

lemma pgfree_inv:
  assumes inv: "page_inv s F As" and q: "[q] \<in> set As"
  obtains s' As' where "pgfree (Some (Pg q)) s = Inr s'" "page_inv s' (sorted_list_of_set (insert q (set F))) As'"
    "page_frame s s'" "mem s' = memset (kv s q) 1 PGSIZE (mem s)" "\<And>d. d \<noteq> q \<Longrightarrow> pages s' (Pg d) = pages s (Pg d)"
    "set As = insert [q] (set As')" "[q] \<notin> set As'"
proof -
  obtain As1 As2 where As: "As = As1 @ [q] # As2" using q by (auto simp: in_set_conv_decomp)
  then have "page_inv s F (As1 @ ([] @ [q] @ []) # As2)" using inv by simp
  from free_pages_inv_frame [OF this, of 1] obtain s' where s':
    "free_pages (Some (Pg q)) 1 s = Inr (Some (Pg q), s')" "page_inv s' (sorted_list_of_set (set (F @ [q]))) (As1 @ As2)"
    "page_frame s s'" "mem s' = shred_mem (highmem_base_pfn s) [q] (mem s)"
    "\<And>d. d \<noteq> q \<Longrightarrow> pages s' (Pg d) = pages s (Pg d)"
    by (auto simp: parts_def)
  have "mem s' = memset (kv s q) 1 PGSIZE (mem s)"
    by (simp add: s'(4) shred_mem_def page_to_kvaddr_def PAGE_TO_PADDR_def)
  moreover have "pgfree (Some (Pg q)) s = Inr s'" using s'(1) by (simp add: pgfree_def)
  moreover have "[q] \<notin> set (As1 @ As2)" using inv As by (auto simp: page_inv_def)
  ultimately show ?thesis using that [of s' "As1 @ As2"] s'(2,3,5) As by (auto simp: Un_insert_right)
qed

lemma pgalloc_inv:
  assumes inv: "page_inv s F As" and F: "F \<noteq> []"
  obtains s' where "pgalloc s = Inr (Some (Pg (hd F)), s')" "page_inv s' (tl F) ([hd F] # As)" "page_frame s s'" "mem s' = mem s"
    "pg_type (pages s' (Pg (hd F))) = PGTYPE_GENERIC" "\<And>q. q \<noteq> Pg (hd F) \<Longrightarrow> pages s' q = pages s q" "hd F < nr_pages s"
proof -
  have c: "drop (Suc 0) F = tl F" "take (Suc 0) F = [hd F]" using F by (cases F; simp)+
  have "0 < unat (1::u64)" "unat (1::u64) \<le> length F" using F by (simp_all add: Suc_leI)
  from alloc_pages_inv [OF inv this] obtain s1 where s1: "alloc_pages 1 s = Inr (Some (Pg (hd F)), s1)"
    "page_inv s1 (tl F) ([hd F] # As)" "page_frame s s1" "mem s1 = mem s"
    "pg_type (pages s1 (Pg (hd F))) = PGTYPE_GENERIC" "\<forall>q. q \<noteq> Pg (hd F) \<longrightarrow> pages s1 q = pages s q"
    by (auto simp: c)
  moreover have "hd F < nr_pages s" using inv F by (auto simp: page_inv_def free_list_def)
  ultimately show ?thesis using that [of s1] by (simp add: pgalloc_def)
qed

end
