(* ===== verification/Page_Table_Inv.thy ===== *)
theory Page_Table_Inv
  imports Page_Table Page_Memory
begin

text \<open>
  What the page table represents and what the directory operations do to it. The entries of the
  directories are seen through the pages they are in (\<open>ent\<close>); a shape names the directories, and
  the invariant \<open>pt_inv\<close> says that the entries of every directory point to the directories of the
  shape, that every directory counts its entries, and that no page is used twice.
\<close>

section \<open>Addresses of entries\<close>

lemma ucast_of_nat_u16: "i < 2 ^ 16 \<Longrightarrow> ucast (of_nat i :: u16) = (of_nat i :: u64)"
proof -
  assume "i < 2 ^ 16"
  then have "unat (of_nat i :: u16) = i" by (simp add: unat_of_nat)
  then show ?thesis by (metis of_nat_unat)
qed

definition ent :: "'s kstate_scheme \<Rightarrow> nat \<Rightarrow> nat \<Rightarrow> u64" where
  "ent s g i = load64 (kv s g + 8 * of_nat i) (mem s)"

definition slot :: "'s kstate_scheme \<Rightarrow> nat \<Rightarrow> nat \<Rightarrow> addr_t" where
  "slot s g i = kv s g + 8 * of_nat i"

lemma unat_slot:
  assumes "frames_ok s" "g < nr_pages s" "i < 2048"
  shows "unat (slot s g i) = unat (kv s g) + 8 * i"
  using unat_kv_offset [OF assms(1,2), of "8 * i"] assms(3) by (simp add: slot_def)

lemma slots_apart:
  assumes "frames_ok s" "g < nr_pages s" "i < 2048" "h < nr_pages s" "j < 2048" "(g, i) \<noteq> (h, j)"
  shows "apart (slot s g i) 8 (slot s h j) 8"
proof -
  note u = unat_slot [OF assms(1-3)] unat_slot [OF assms(1,4,5)] unat_kv [OF assms(1,2)] unat_kv [OF assms(1,4)]
    unat_paddr(2) [OF assms(1,2)] unat_paddr(2) [OF assms(1,4)]
  consider "g < h" | "h < g" | "g = h" "i < j" | "g = h" "j < i" using assms(6) by force
  then show ?thesis
  proof cases
    case 1
    have "unat (slot s g i) + 8 \<le> unat (slot s h j)" using 1 u assms(3) by simp
    then show ?thesis using u assms by (intro apart_intervals) simp_all
  next
    case 2
    have "unat (slot s h j) + 8 \<le> unat (slot s g i)" using 2 u assms(5) by simp
    then show ?thesis using u assms by (intro apart_intervals) simp_all
  next
    case 3
    then show ?thesis using u assms by (intro apart_intervals) simp_all
  next
    case 4
    then show ?thesis using u assms by (intro apart_intervals) simp_all
  qed
qed

lemma dir_entry_slot: "i < 2048 \<Longrightarrow> dir_entry (kv s g) (of_nat i) = slot s g i"
  by (simp add: dir_entry_def slot_def ucast_of_nat_u16)


section \<open>Loads and stores of entries\<close>

lemma ent_slot: "ent s g i = load64 (slot s g i) (mem s)"
  by (simp add: ent_def slot_def)

lemma slot_update [simp]: "slot (s\<lparr>pages := P\<rparr>) g i = slot s g i" "slot (s\<lparr>mem := m\<rparr>) g i = slot s g i"
  by (simp_all add: slot_def)

lemma ent_pages [simp]: "ent (s\<lparr>pages := P\<rparr>) g i = ent s g i"
  by (simp add: ent_def)

lemma ent_store:
  assumes "frames_ok s" "g < nr_pages s" "i < 2048" "h < nr_pages s" "j < 2048"
  shows "ent (s\<lparr>mem := store64 (slot s g i) w (mem s)\<rparr>) h j = (if h = g \<and> j = i then w else ent s h j)"
  using slots_apart [OF assms] by (auto simp: ent_slot load64_store64_apart)

lemma load64_zero: "(\<And>k. k < 8 \<Longrightarrow> m (a + of_nat k) = 0) \<Longrightarrow> load64 a m = 0"
proof -
  assume z: "\<And>k. k < 8 \<Longrightarrow> m (a + of_nat k) = 0"
  have "load_bytes a 8 m = replicate 8 0"
    by (rule nth_equalityI) (simp_all add: load_bytes_def z)
  then show ?thesis by (simp add: load64_def numeral_eq_Suc)
qed

lemma load64_cong: "(\<And>k. k < 8 \<Longrightarrow> m (a + of_nat k) = m' (a + of_nat k)) \<Longrightarrow> load64 a m = load64 a m'"
proof -
  assume e: "\<And>k. k < 8 \<Longrightarrow> m (a + of_nat k) = m' (a + of_nat k)"
  have "load_bytes a 8 m = load_bytes a 8 m'" by (simp add: load_bytes_def e)
  then show ?thesis by (simp add: load64_def)
qed

lemma ent_memset:
  assumes "frames_ok s" "n < nr_pages s" "h < nr_pages s" "j < 2048"
  shows "ent (s\<lparr>mem := memset (kv s n) 0 PGSIZE (mem s)\<rparr>) h j = (if h = n then 0 else ent s h j)"
    "h \<noteq> n \<Longrightarrow> ent (s\<lparr>mem := memset (kv s n) c PGSIZE (mem s)\<rparr>) h j = ent s h j"
proof -
  note u = unat_kv [OF assms(1,2)] unat_kv [OF assms(1,3)] unat_paddr(2) [OF assms(1,2)] unat_paddr(2) [OF assms(1,3)]
  have pg: "unat PGSIZE = 2 ^ 14" by (simp add: PGSIZE_def)
  have b: "unat (slot s h j + of_nat k) = unat (kv s h) + 8 * j + k" if "k < 8" for k
  proof -
    have "slot s h j + of_nat k = kv s h + of_nat (8 * j + k)" by (simp add: slot_def)
    then show ?thesis using unat_kv_offset [OF assms(1,3), of "8 * j + k"] that assms(4) by (simp add: add.assoc)
  qed
  have d: "unat (slot s h j + of_nat k - kv s n) < 2 ^ 14 \<longleftrightarrow> h = n" if k: "k < 8" for k
  proof (cases "n \<le> h")
    case True
    then have "unat (kv s n) \<le> unat (slot s h j + of_nat k)" unfolding b [OF k] u by simp
    then have "unat (slot s h j + of_nat k - kv s n) = unat (slot s h j + of_nat k) - unat (kv s n)"
      by (simp add: unat_sub_if')
    then show ?thesis using True k assms(4) unfolding b [OF k] u by auto
  next
    case False
    then have "(unat (highmem_base_pfn s) + h) * 2 ^ 14 + 2 ^ 14 \<le> (unat (highmem_base_pfn s) + n) * 2 ^ 14" by simp
    then have "unat (slot s h j + of_nat k) < unat (kv s n)" using k assms(4) unfolding b [OF k] u by simp
    then have "unat (slot s h j + of_nat k - kv s n) = unat (slot s h j + of_nat k) + 2 ^ 64 - unat (kv s n)"
      by (simp add: unat_sub_if')
    moreover have "unat (kv s n) \<le> 2 ^ 64 - 2 ^ 14" using u by simp
    ultimately show ?thesis using False by simp
  qed
  show other: "ent (s\<lparr>mem := memset (kv s n) c PGSIZE (mem s)\<rparr>) h j = ent s h j" if "h \<noteq> n" for c
    unfolding ent_slot by (simp, rule load64_cong) (use d that in \<open>simp add: memset_apply pg\<close>)
  have "ent (s\<lparr>mem := memset (kv s n) 0 PGSIZE (mem s)\<rparr>) h j = 0" if "h = n"
    unfolding ent_slot by (rule load64_zero) (use d that in \<open>simp add: memset_apply pg\<close>)
  then show "ent (s\<lparr>mem := memset (kv s n) 0 PGSIZE (mem s)\<rparr>) h j = (if h = n then 0 else ent s h j)"
    using other by simp
qed

section \<open>The directory operations\<close>

lemma pgdir_check_ok [simp]:
  "page_ok s p \<Longrightarrow> pg_type (pages s p) = PGTYPE_PGDIR \<Longrightarrow> pgdir_check s p = Inr ()"
  by (simp add: pgdir_check_def)

lemma pgdir_add_entry_ok:
  assumes "g < nr_pages s" "i < 2048" "pg_type (pages s (Pg g)) = PGTYPE_PGDIR" "ent s g i = 0"
  shows "pgdir_add_entry (Pg g) (of_nat i) p flags s = Inr (page_to_kvaddr s (Some p),
    s\<lparr>pages := (pages s)(Pg g := (pages s (Pg g))\<lparr>pgdir_entries := pgdir_entries (pages s (Pg g)) + 1\<rparr>),
      mem := store64 (slot s g i) (if flags AND PTE_PHYS = 0 then page_to_kvaddr s (Some p)
        else PAGE_TO_PADDR s p OR ucast (flags AND PTE_LOWMASK)) (mem s)\<rparr>)"
  using assms by (simp add: pgdir_add_entry_def dir_entry_slot ent_slot)

lemma pgdir_new_ok:
  assumes "page_inv s F As" "F \<noteq> []" "frames_ok s"
  shows "\<exists>s'. pgdir_new asid s = Inr (Some (Pg (hd F)), s') \<and> page_inv s' (tl F) ([hd F] # As) \<and>
    page_frame s s' \<and> (\<forall>q. q \<noteq> Pg (hd F) \<longrightarrow> pages s' q = pages s q) \<and>
    pg_type (pages s' (Pg (hd F))) = PGTYPE_PGDIR \<and> pgdir_entries (pages s' (Pg (hd F))) = 0 \<and>
    mem s' = memset (kv s (hd F)) 0 PGSIZE (mem s)"
proof -
  obtain s1 where s1: "pgalloc s = Inr (Some (Pg (hd F)), s1)"
    "page_inv s1 (tl F) ([hd F] # As)" "page_frame s s1" "mem s1 = mem s"
    "pg_type (pages s1 (Pg (hd F))) = PGTYPE_GENERIC" "\<And>q. q \<noteq> Pg (hd F) \<Longrightarrow> pages s1 q = pages s q" "hd F < nr_pages s"
    by (rule pgalloc_inv [OF assms(1,2)]) (rule that)
  have n: "hd F < nr_pages s1"
    using s1(2) by (simp add: page_inv_def alloc_set_def)
  have kv: "page_to_kvaddr s1 p = page_to_kvaddr s p" for p
    using s1(3) by (intro page_to_kvaddr_cong) (simp add: page_frame_def)
  let ?g = "(pages s1 (Pg (hd F)))\<lparr>pg_type := PGTYPE_PGDIR, pgdir_entries := 0, pgdir_asid := ucast asid\<rparr>"
  let ?s = "s1\<lparr>pages := (pages s1)(Pg (hd F) := ?g), mem := memset (kv s (hd F)) 0 PGSIZE (mem s)\<rparr>"
  have "page_inv (s1\<lparr>pages := (pages s1)(Pg (hd F) := ?g)\<rparr>) (tl F) ([hd F] # As)"
    by (rule page_inv_pages_update [OF s1(2)]) (simp_all add: s1(5))
  then have "page_inv ?s (tl F) ([hd F] # As)" by simp
  moreover have "pgdir_new asid s = Inr (Some (Pg (hd F)), ?s)"
    using s1(1,4) n by (simp add: pgdir_new_def kv)
  ultimately show ?thesis using s1(3,6) by (auto simp: page_frame_def)
qed

lemma pgdir_add_pgdir_ok:
  assumes inv: "page_inv s F As" "F \<noteq> []" "frames_ok s"
    and g: "g < nr_pages s" "i < 2048" "pg_type (pages s (Pg g)) = PGTYPE_PGDIR" "ent s g i = 0" "g \<noteq> hd F"
  shows "\<exists>s'. pgdir_add_pgdir (Pg g) (of_nat i) s = Inr (kv s (hd F), s') \<and> page_inv s' (tl F) ([hd F] # As) \<and>
    page_frame s s' \<and> (\<forall>q. q \<noteq> Pg (hd F) \<longrightarrow> q \<noteq> Pg g \<longrightarrow> pages s' q = pages s q) \<and>
    pages s' (Pg g) = (pages s (Pg g))\<lparr>pgdir_entries := pgdir_entries (pages s (Pg g)) + 1\<rparr> \<and>
    pg_type (pages s' (Pg (hd F))) = PGTYPE_PGDIR \<and> pgdir_entries (pages s' (Pg (hd F))) = 0 \<and>
    mem s' = store64 (slot s g i) (kv s (hd F)) (memset (kv s (hd F)) 0 PGSIZE (mem s))"
proof -
  obtain s1 where s1: "pgdir_new (ucast (pgdir_asid (pages s (Pg g)))) s = Inr (Some (Pg (hd F)), s1)"
    "page_inv s1 (tl F) ([hd F] # As)" "page_frame s s1" "\<forall>q. q \<noteq> Pg (hd F) \<longrightarrow> pages s1 q = pages s q"
    "pg_type (pages s1 (Pg (hd F))) = PGTYPE_PGDIR" "pgdir_entries (pages s1 (Pg (hd F))) = 0"
    "mem s1 = memset (kv s (hd F)) 0 PGSIZE (mem s)"
    using pgdir_new_ok [OF inv] by blast
  have kv: "page_to_kvaddr s1 p = page_to_kvaddr s p" for p
    using s1(3) by (intro page_to_kvaddr_cong) (simp add: page_frame_def)
  have n: "hd F < nr_pages s" using inv(1,2) by (auto simp: page_inv_def free_list_def)
  have nr: "nr_pages s1 = nr_pages s" using s1(3) by (simp add: page_frame_def)
  have "ent s1 g i = ent (s\<lparr>mem := memset (kv s (hd F)) 0 PGSIZE (mem s)\<rparr>) g i"
    by (simp add: ent_def kv s1(7))
  then have "ent s1 g i = 0" using ent_memset(1) [OF inv(3) n g(1,2)] g(4) by simp
  moreover have "pages s1 (Pg g) = pages s (Pg g)" using s1(4) g(5) by simp
  ultimately have "pgdir_add_pgdir (Pg g) (of_nat i) s = Inr (kv s (hd F),
      s1\<lparr>pages := (pages s1)(Pg g := (pages s (Pg g))\<lparr>pgdir_entries := pgdir_entries (pages s (Pg g)) + 1\<rparr>),
        mem := store64 (slot s g i) (kv s (hd F)) (mem s1)\<rparr>)" (is "_ = Inr (_, ?s)")
    using g s1(1) nr by (simp add: pgdir_add_pgdir_def pgdir_add_entry_ok kv slot_def)
  moreover have "page_inv (s1\<lparr>pages := (pages s1)(Pg g := (pages s (Pg g))\<lparr>pgdir_entries := pgdir_entries (pages s (Pg g)) + 1\<rparr>)\<rparr>)
      (tl F) ([hd F] # As)"
    by (rule page_inv_pages_update [OF s1(2)]) (use s1(4) g(5) in simp_all)
  then have "page_inv ?s (tl F) ([hd F] # As)" by simp
  ultimately show ?thesis using s1(3-7) g(5) by (auto simp: page_frame_def)
qed


section \<open>Shapes\<close>

record pt_shape =
  root :: nat
  mids :: "nat \<Rightarrow> nat option"
  leaves :: "nat \<Rightarrow> nat \<Rightarrow> nat option"

definition dirs :: "pt_shape \<Rightarrow> nat set" where
  "dirs sh = insert (root sh) (ran (mids sh) \<union> (\<Union>i. ran (leaves sh i)))"

definition shape_ok :: "pt_shape \<Rightarrow> bool" where
  "shape_ok sh \<longleftrightarrow>
     (\<forall>i d. mids sh i = Some d \<longrightarrow> i < 2048 \<and> d \<noteq> root sh) \<and>
     (\<forall>i j e. leaves sh i j = Some e \<longrightarrow> j < 2048 \<and> mids sh i \<noteq> None \<and> e \<noteq> root sh) \<and>
     (\<forall>i i' d. mids sh i = Some d \<longrightarrow> mids sh i' = Some d \<longrightarrow> i = i') \<and>
     (\<forall>i j i' j' e. leaves sh i j = Some e \<longrightarrow> leaves sh i' j' = Some e \<longrightarrow> i = i' \<and> j = j') \<and>
     (\<forall>i i' j' e. leaves sh i' j' = Some e \<longrightarrow> mids sh i \<noteq> Some e)"

definition dir_count :: "'s kstate_scheme \<Rightarrow> nat \<Rightarrow> nat" where
  "dir_count s d = card {i. i < 2048 \<and> ent s d i \<noteq> 0}"

definition dir_ok :: "'s kstate_scheme \<Rightarrow> nat \<Rightarrow> bool" where
  "dir_ok s d \<longleftrightarrow> d < nr_pages s \<and> pg_type (pages s (Pg d)) = PGTYPE_PGDIR \<and>
     pgdir_entries (pages s (Pg d)) = of_nat (dir_count s d)"

definition links_to :: "'s kstate_scheme \<Rightarrow> nat \<Rightarrow> (nat \<Rightarrow> nat option) \<Rightarrow> bool" where
  "links_to s g D \<longleftrightarrow> (\<forall>i<2048. ent s g i = page_to_kvaddr s (map_option Pg (D i)))"

definition pt_inv :: "'s kstate_scheme \<Rightarrow> nat list list \<Rightarrow> pt_shape \<Rightarrow> bool" where
  "pt_inv s As sh \<longleftrightarrow> frames_ok s \<and> shape_ok sh \<and> (\<forall>d\<in>dirs sh. [d] \<in> set As \<and> dir_ok s d) \<and>
     links_to s (root sh) (mids sh) \<and> (\<forall>i d. mids sh i = Some d \<longrightarrow> links_to s d (leaves sh i))"

definition pt_entry :: "'s kstate_scheme \<Rightarrow> pt_shape \<Rightarrow> nat \<Rightarrow> nat \<Rightarrow> nat \<Rightarrow> u64" where
  "pt_entry s sh i j k = (case leaves sh i j of None \<Rightarrow> 0 | Some e \<Rightarrow> ent s e k)"

lemma dirs_intros:
  "root sh \<in> dirs sh" "mids sh i = Some d \<Longrightarrow> d \<in> dirs sh" "leaves sh i j = Some e \<Longrightarrow> e \<in> dirs sh"
  by (auto simp: dirs_def ran_def)

lemma shape_leaf_inj:
  "shape_ok sh \<Longrightarrow> leaves sh i j = Some e \<Longrightarrow> leaves sh i' j' = Some e \<Longrightarrow> i' = i \<and> j' = j"
  unfolding shape_ok_def by metis

lemma dir_count_add:
  assumes "ent s d i = 0" "i < 2048" "w \<noteq> 0" "\<And>j. j < 2048 \<Longrightarrow> ent s' d j = (if j = i then w else ent s d j)"
  shows "dir_count s' d = Suc (dir_count s d)"
proof -
  have "{j. j < 2048 \<and> ent s' d j \<noteq> 0} = insert i {j. j < 2048 \<and> ent s d j \<noteq> 0}"
    using assms by (auto split: if_splits)
  then show ?thesis using assms(1) by (simp add: dir_count_def)
qed

lemma dir_count_cong: "(\<And>j. j < 2048 \<Longrightarrow> ent s' d j = ent s d j) \<Longrightarrow> dir_count s' d = dir_count s d"
  unfolding dir_count_def by (metis (no_types, lifting))

lemma dir_ok_add:
  assumes "dir_ok s d" "ent s d i = 0" "i < 2048" "w \<noteq> 0" "\<And>j. j < 2048 \<Longrightarrow> ent s' d j = (if j = i then w else ent s d j)"
    and "nr_pages s' = nr_pages s" "pages s' (Pg d) = (pages s (Pg d))\<lparr>pgdir_entries := pgdir_entries (pages s (Pg d)) + 1\<rparr>"
  shows "dir_ok s' d"
  using assms dir_count_add [OF assms(2-5)] by (simp add: dir_ok_def)

lemma dir_ok_cong:
  assumes "dir_ok s d" "\<And>j. j < 2048 \<Longrightarrow> ent s' d j = ent s d j" "nr_pages s' = nr_pages s" "pages s' (Pg d) = pages s (Pg d)"
  shows "dir_ok s' d"
  using assms dir_count_cong [of s' d s] by (simp add: dir_ok_def)

lemma links_to_cong:
  assumes "links_to s g D" "\<And>j. j < 2048 \<Longrightarrow> ent s' g j = ent s g j" "highmem_base_pfn s' = highmem_base_pfn s"
  shows "links_to s' g D"
  using assms page_to_kvaddr_cong [of s' s] by (simp add: links_to_def)

lemma links_to_upd:
  assumes "links_to s g D" "\<And>j. j < 2048 \<Longrightarrow> ent s' g j = (if j = i then kv s n else ent s g j)"
    "highmem_base_pfn s' = highmem_base_pfn s"
  shows "links_to s' g (D(i \<mapsto> n))"
  using assms page_to_kvaddr_cong [of s' s] by (simp add: links_to_def)

text \<open>The pages of the table are allocated, so a free page is none of them.\<close>

lemma pt_dirs_not_free:
  assumes "pt_inv s As sh" "page_inv s F As" "d \<in> dirs sh"
  shows "d \<notin> set F"
  using assms by (force simp: pt_inv_def page_inv_def)


text \<open>What hanging a new directory into entry \<open>i\<close> of \<open>g\<close> does to the entries and directories.\<close>

lemma pgdir_add_pgdir_ent:
  assumes inv: "page_inv s F As" "F \<noteq> []" "frames_ok s"
    and g: "g < nr_pages s" "i < 2048" "pg_type (pages s (Pg g)) = PGTYPE_PGDIR" "ent s g i = 0" "g \<noteq> hd F"
  obtains s' where "pgdir_add_pgdir (Pg g) (of_nat i) s = Inr (kv s (hd F), s')" "page_inv s' (tl F) ([hd F] # As)"
    "page_frame s s'" "hd F < nr_pages s" "dir_ok s' (hd F)" "dir_ok s g \<Longrightarrow> dir_ok s' g"
    "\<And>d. dir_ok s d \<Longrightarrow> d \<noteq> hd F \<Longrightarrow> d \<noteq> g \<Longrightarrow> dir_ok s' d"
    "\<And>h j. h < nr_pages s \<Longrightarrow> j < 2048 \<Longrightarrow>
       ent s' h j = (if h = hd F then 0 else if h = g \<and> j = i then kv s (hd F) else ent s h j)"
proof -
  let ?n = "hd F"
  obtain s' where s': "pgdir_add_pgdir (Pg g) (of_nat i) s = Inr (kv s ?n, s')" "page_inv s' (tl F) ([?n] # As)"
    "page_frame s s'" "\<forall>q. q \<noteq> Pg ?n \<longrightarrow> q \<noteq> Pg g \<longrightarrow> pages s' q = pages s q"
    "pages s' (Pg g) = (pages s (Pg g))\<lparr>pgdir_entries := pgdir_entries (pages s (Pg g)) + 1\<rparr>"
    "pg_type (pages s' (Pg ?n)) = PGTYPE_PGDIR" "pgdir_entries (pages s' (Pg ?n)) = 0"
    "mem s' = store64 (slot s g i) (kv s ?n) (memset (kv s ?n) 0 PGSIZE (mem s))"
    using pgdir_add_pgdir_ok [OF inv g] by blast
  have n: "?n < nr_pages s" using inv(1,2) by (auto simp: page_inv_def free_list_def)
  have nr: "nr_pages s' = nr_pages s" and base: "highmem_base_pfn s' = highmem_base_pfn s"
    using s'(3) by (simp_all add: page_frame_def)
  let ?m = "s\<lparr>mem := memset (kv s ?n) 0 PGSIZE (mem s)\<rparr>"
  have ent: "ent s' h j = (if h = ?n then 0 else if h = g \<and> j = i then kv s ?n else ent s h j)"
    if "h < nr_pages s" "j < 2048" for h j
  proof -
    have "ent s' h j = ent (?m\<lparr>mem := store64 (slot ?m g i) (kv s ?n) (mem ?m)\<rparr>) h j"
      by (simp add: ent_def page_to_kvaddr_cong [OF base] s'(8))
    also have "\<dots> = (if h = g \<and> j = i then kv s ?n else ent ?m h j)"
      using inv(3) g that by (intro ent_store) simp_all
    finally show ?thesis unfolding ent_memset(1) [OF inv(3) n that] using g(5) by auto
  qed
  have "dir_count s' ?n = 0" using ent [OF n] by (simp add: dir_count_def)
  then have "dir_ok s' ?n" using s'(6,7) n nr by (simp add: dir_ok_def)
  moreover have "dir_ok s' g" if "dir_ok s g"
  proof (rule dir_ok_add [OF that g(4,2) kv_nonzero [OF inv(3) n]])
    show "ent s' g j = (if j = i then kv s ?n else ent s g j)" if "j < 2048" for j
      using ent [OF g(1) that] g(5) by simp
  qed (simp_all add: nr s'(5))
  moreover have "dir_ok s' d" if "dir_ok s d" "d \<noteq> ?n" "d \<noteq> g" for d
  proof (rule dir_ok_cong [OF that(1)])
    have d: "d < nr_pages s" using that(1) by (simp add: dir_ok_def)
    show "ent s' d j = ent s d j" if "j < 2048" for j
      using ent [OF d that] \<open>d \<noteq> ?n\<close> \<open>d \<noteq> g\<close> by simp
  qed (simp_all add: nr s'(4) that)
  ultimately show ?thesis using that [OF s'(1-3) n] ent by simp
qed

lemma shape_ok_mid:
  assumes "shape_ok sh" "n \<notin> dirs sh" "i < 2048"
  shows "shape_ok (sh\<lparr>mids := (mids sh)(i \<mapsto> n)\<rparr>)"
  using assms by (auto simp: shape_ok_def dirs_def ran_def)

lemma shape_ok_leaf:
  assumes "shape_ok sh" "n \<notin> dirs sh" "mids sh i = Some d" "j < 2048"
  shows "shape_ok (sh\<lparr>leaves := (leaves sh)(i := (leaves sh i)(j \<mapsto> n))\<rparr>)"
  using assms by (auto simp: shape_ok_def dirs_def ran_def split: if_splits)

lemma dirs_mid: "mids sh i = None \<Longrightarrow> dirs (sh\<lparr>mids := (mids sh)(i \<mapsto> n)\<rparr>) = insert n (dirs sh)"
  by (auto simp: dirs_def ran_map_upd)

lemma dirs_leaf:
  assumes "leaves sh i j = None"
  shows "dirs (sh\<lparr>leaves := (leaves sh)(i := (leaves sh i)(j \<mapsto> n))\<rparr>) = insert n (dirs sh)"
proof -
  let ?L = "(leaves sh)(i := (leaves sh i)(j \<mapsto> n))"
  have i: "ran (?L i) = insert n (ran (leaves sh i))" using assms by (simp add: ran_map_upd)
  have "(\<Union>x. ran (?L x)) = ran (?L i) \<union> (\<Union>x\<in>- {i}. ran (leaves sh x))" by (auto split: if_splits)
  also have "\<dots> = insert n (ran (leaves sh i) \<union> (\<Union>x\<in>- {i}. ran (leaves sh x)))" by (simp only: i) simp
  also have "ran (leaves sh i) \<union> (\<Union>x\<in>- {i}. ran (leaves sh x)) = (\<Union>x. ran (leaves sh x))" by auto
  finally show ?thesis by (simp add: dirs_def insert_commute del: fun_upd_apply)
qed

section \<open>Growing the table\<close>

text \<open>A missing middle directory is created.\<close>

lemma pt_add_mid:
  assumes pt: "pt_inv s As sh" and inv: "page_inv s F As" "F \<noteq> []" and i: "i < 2048" "mids sh i = None"
  obtains s' where "pgdir_add_pgdir (Pg (root sh)) (of_nat i) s = Inr (kv s (hd F), s')"
    "page_inv s' (tl F) ([hd F] # As)" "page_frame s s'" "hd F < nr_pages s"
    "pt_inv s' ([hd F] # As) (sh\<lparr>mids := (mids sh)(i \<mapsto> hd F)\<rparr>)"
    "\<And>h j. h \<in> dirs sh \<Longrightarrow> h \<noteq> root sh \<Longrightarrow> j < 2048 \<Longrightarrow> ent s' h j = ent s h j"
proof -
  let ?n = "hd F" and ?sh = "sh\<lparr>mids := (mids sh)(i \<mapsto> hd F)\<rparr>"
  have fr: "frames_ok s" and sh: "shape_ok sh" and dok: "\<And>d. d \<in> dirs sh \<Longrightarrow> [d] \<in> set As \<and> dir_ok s d"
    and rt: "links_to s (root sh) (mids sh)" and md: "\<And>i d. mids sh i = Some d \<Longrightarrow> links_to s d (leaves sh i)"
    using pt by (auto simp: pt_inv_def)
  have dn: "d < nr_pages s" if "d \<in> dirs sh" for d using dok [OF that] by (simp add: dir_ok_def)
  have free: "?n \<notin> dirs sh" using pt_dirs_not_free [OF pt inv(1)] hd_in_set [OF inv(2)] by blast
  have e0: "ent s (root sh) i = 0" using rt i by (simp add: links_to_def page_to_kvaddr_def)
  have rr: "root sh < nr_pages s" "pg_type (pages s (Pg (root sh))) = PGTYPE_PGDIR" "root sh \<noteq> ?n"
    using dok [OF dirs_intros(1)] free dirs_intros(1) [of sh] by (auto simp: dir_ok_def)
  obtain s' where s': "pgdir_add_pgdir (Pg (root sh)) (of_nat i) s = Inr (kv s ?n, s')" "page_inv s' (tl F) ([?n] # As)"
    "page_frame s s'" "?n < nr_pages s" "dir_ok s' ?n" "dir_ok s (root sh) \<Longrightarrow> dir_ok s' (root sh)"
    "\<And>d. dir_ok s d \<Longrightarrow> d \<noteq> ?n \<Longrightarrow> d \<noteq> root sh \<Longrightarrow> dir_ok s' d"
    "\<And>h j. h < nr_pages s \<Longrightarrow> j < 2048 \<Longrightarrow>
       ent s' h j = (if h = ?n then 0 else if h = root sh \<and> j = i then kv s ?n else ent s h j)"
    by (rule pgdir_add_pgdir_ent [OF inv fr rr(1) i(1) rr(2) e0 rr(3)]) (rule that)
  have base: "highmem_base_pfn s' = highmem_base_pfn s" "nr_pages s' = nr_pages s"
    using s'(3) by (simp_all add: page_frame_def)
  have same: "ent s' h j = ent s h j" if "h \<in> dirs sh" "h \<noteq> root sh" "j < 2048" for h j
    using that s'(8) [OF dn [OF that(1)]] free by auto
  have "leaves sh i k = None" for k
    using sh i(2) unfolding shape_ok_def by (cases "leaves sh i k") force+
  then have "leaves sh i = Map.empty" by blast
  then have "links_to s' ?n (leaves sh i)" using s'(4,8) by (simp add: links_to_def page_to_kvaddr_def)
  moreover have "links_to s' d (leaves sh k)" if "mids sh k = Some d" for k d
  proof -
    have "d \<noteq> root sh" using sh that unfolding shape_ok_def by metis
    then show ?thesis by (rule links_to_cong [OF md [OF that] same [OF dirs_intros(2) [OF that]] base(1)])
  qed
  moreover have "links_to s' (root sh) ((mids sh)(i \<mapsto> ?n))"
    using s'(8) [OF rr(1)] rr(3) base by (intro links_to_upd [OF rt]) auto
  moreover have "\<forall>d\<in>dirs ?sh. [d] \<in> set ([?n] # As) \<and> dir_ok s' d"
    using s'(5-7) dok free unfolding dirs_mid [OF i(2)] by auto
  moreover have "shape_ok ?sh" by (rule shape_ok_mid [OF sh free i(1)])
  moreover have "frames_ok s'" using fr base by (simp add: frames_ok_def)
  ultimately have "pt_inv s' ([?n] # As) ?sh" by (simp add: pt_inv_def)
  then show ?thesis using that s'(1-4) same by blast
qed

text \<open>A missing leaf directory is created.\<close>

lemma pt_add_leaf:
  assumes pt: "pt_inv s As sh" and inv: "page_inv s F As" "F \<noteq> []"
    and i: "mids sh i = Some d" "j < 2048" "leaves sh i j = None"
  obtains s' where "pgdir_add_pgdir (Pg d) (of_nat j) s = Inr (kv s (hd F), s')"
    "page_inv s' (tl F) ([hd F] # As)" "page_frame s s'" "hd F < nr_pages s"
    "pt_inv s' ([hd F] # As) (sh\<lparr>leaves := (leaves sh)(i := (leaves sh i)(j \<mapsto> hd F))\<rparr>)"
    "\<And>h k. h \<in> dirs sh \<Longrightarrow> h \<noteq> d \<Longrightarrow> k < 2048 \<Longrightarrow> ent s' h k = ent s h k"
    "\<And>k. k < 2048 \<Longrightarrow> ent s' (hd F) k = 0"
proof -
  let ?n = "hd F" and ?sh = "sh\<lparr>leaves := (leaves sh)(i := (leaves sh i)(j \<mapsto> hd F))\<rparr>"
  have fr: "frames_ok s" and sh: "shape_ok sh" and dok: "\<And>d. d \<in> dirs sh \<Longrightarrow> [d] \<in> set As \<and> dir_ok s d"
    and rt: "links_to s (root sh) (mids sh)" and md: "\<And>i d. mids sh i = Some d \<Longrightarrow> links_to s d (leaves sh i)"
    using pt by (auto simp: pt_inv_def)
  have dn: "d < nr_pages s" if "d \<in> dirs sh" for d using dok [OF that] by (simp add: dir_ok_def)
  have free: "?n \<notin> dirs sh" using pt_dirs_not_free [OF pt inv(1)] hd_in_set [OF inv(2)] by blast
  have e0: "ent s d j = 0" using md [OF i(1)] i by (simp add: links_to_def page_to_kvaddr_def)
  have dd: "d \<in> dirs sh" "d \<noteq> root sh" using dirs_intros(2) [OF i(1)] sh i(1) by (auto simp: shape_ok_def)
  have rr: "d < nr_pages s" "pg_type (pages s (Pg d)) = PGTYPE_PGDIR" "d \<noteq> ?n"
    using dok [OF dd(1)] free dd(1) by (auto simp: dir_ok_def)
  obtain s' where s': "pgdir_add_pgdir (Pg d) (of_nat j) s = Inr (kv s ?n, s')" "page_inv s' (tl F) ([?n] # As)"
    "page_frame s s'" "?n < nr_pages s" "dir_ok s' ?n" "dir_ok s d \<Longrightarrow> dir_ok s' d"
    "\<And>h. dir_ok s h \<Longrightarrow> h \<noteq> ?n \<Longrightarrow> h \<noteq> d \<Longrightarrow> dir_ok s' h"
    "\<And>h k. h < nr_pages s \<Longrightarrow> k < 2048 \<Longrightarrow>
       ent s' h k = (if h = ?n then 0 else if h = d \<and> k = j then kv s ?n else ent s h k)"
    by (rule pgdir_add_pgdir_ent [OF inv fr rr(1) i(2) rr(2) e0 rr(3)]) (rule that)
  have base: "highmem_base_pfn s' = highmem_base_pfn s" "nr_pages s' = nr_pages s"
    using s'(3) by (simp_all add: page_frame_def)
  have same: "ent s' h k = ent s h k" if "h \<in> dirs sh" "h \<noteq> d" "k < 2048" for h k
    using that s'(8) [OF dn [OF that(1)]] free by auto
  have "links_to s' d ((leaves sh i)(j \<mapsto> ?n))"
    using s'(8) [OF rr(1)] rr(3) base by (intro links_to_upd [OF md [OF i(1)]]) auto
  moreover have "links_to s' h (leaves sh k)" if "mids sh k = Some h" "k \<noteq> i" for k h
  proof -
    have "h \<noteq> d" using sh i(1) that unfolding shape_ok_def by metis
    then show ?thesis by (rule links_to_cong [OF md [OF that(1)] same [OF dirs_intros(2) [OF that(1)]] base(1)])
  qed
  moreover have "links_to s' (root sh) (mids sh)"
    using same dirs_intros(1) dd(2) base by (intro links_to_cong [OF rt]) auto
  moreover have "\<forall>d\<in>dirs ?sh. [d] \<in> set ([?n] # As) \<and> dir_ok s' d"
    using s'(5-7) dok free unfolding dirs_leaf [OF i(3)] by auto
  moreover have "shape_ok ?sh" by (rule shape_ok_leaf [OF sh free i(1,2)])
  moreover have "frames_ok s'" using fr base by (simp add: frames_ok_def)
  ultimately have "pt_inv s' ([?n] # As) ?sh" using i(1) by (auto simp: pt_inv_def)
  then show ?thesis using that s'(1-4) same s'(8) [OF s'(4)] by auto
qed


section \<open>Walking with creation\<close>

lemma pde_get_entry_ent: "i < 2048 \<Longrightarrow> pde_get_entry s (kv s g) (of_nat i) = ent s g i"
  by (simp add: pde_get_entry_def dir_entry_slot ent_slot)

lemma pgdir_load_kv [simp]: "frames_ok s \<Longrightarrow> g < nr_pages s \<Longrightarrow> pgdir_load s (kv s g) = Inr (Pg g)"
  by (simp add: pgdir_load_def)

lemma pt_dir_facts:
  assumes "pt_inv s As sh" "d \<in> dirs sh"
  shows "d < nr_pages s" "pg_type (pages s (Pg d)) = PGTYPE_PGDIR" "dir_ok s d" "frames_ok s"
  using assms by (auto simp: pt_inv_def dir_ok_def)

lemma pt_links:
  assumes "pt_inv s As sh"
  shows "i < 2048 \<Longrightarrow> ent s (root sh) i = page_to_kvaddr s (map_option Pg (mids sh i))"
    "mids sh i = Some d \<Longrightarrow> j < 2048 \<Longrightarrow> ent s d j = page_to_kvaddr s (map_option Pg (leaves sh i j))"
  using assms by (auto simp: pt_inv_def links_to_def)

lemma page_to_kvaddr_None [simp]: "page_to_kvaddr s None = 0"
  by (simp add: page_to_kvaddr_def)

text \<open>The new state, free list and shape of a step that may have taken pages.\<close>

definition pt_grown :: "'s kstate_scheme \<Rightarrow> nat list \<Rightarrow> nat list list \<Rightarrow> pt_shape \<Rightarrow>
    's kstate_scheme \<Rightarrow> nat list \<Rightarrow> nat list list \<Rightarrow> pt_shape \<Rightarrow> bool" where
  "pt_grown s F As sh s' F' As' sh' \<longleftrightarrow> page_inv s' F' As' \<and> pt_inv s' As' sh' \<and> page_frame s s' \<and>
     root sh' = root sh \<and> dirs sh' \<subseteq> dirs sh \<union> set F \<and> (\<exists>ns. F = ns @ F' \<and> As' = rev (map (\<lambda>n. [n]) ns) @ As) \<and>
     (\<forall>i j k. k < 2048 \<longrightarrow> pt_entry s' sh' i j k = pt_entry s sh i j k)"

lemma pt_grown_refl: "page_inv s F As \<Longrightarrow> pt_inv s As sh \<Longrightarrow> pt_grown s F As sh s F As sh"
  by (simp add: pt_grown_def page_frame_def)

lemma pt_grown_trans:
  assumes "pt_grown s F As sh s' F' As' sh'" "pt_grown s' F' As' sh' s'' F'' As'' sh''"
  shows "pt_grown s F As sh s'' F'' As'' sh''"
proof -
  from assms obtain ns ms where "F = ns @ F'" "As' = rev (map (\<lambda>n. [n]) ns) @ As"
    "F' = ms @ F''" "As'' = rev (map (\<lambda>n. [n]) ms) @ As'" by (auto simp: pt_grown_def)
  then have "F = (ns @ ms) @ F''" "As'' = rev (map (\<lambda>n. [n]) (ns @ ms)) @ As" by simp_all
  then have ex: "\<exists>ns. F = ns @ F'' \<and> As'' = rev (map (\<lambda>n. [n]) ns) @ As" by blast
  have "set F' \<subseteq> set F" using \<open>F = ns @ F'\<close> by simp
  then have "dirs sh'' \<subseteq> dirs sh \<union> set F" using assms unfolding pt_grown_def by blast
  with ex show ?thesis using assms unfolding pt_grown_def page_frame_def by simp
qed

lemma ensure_mid:
  assumes pt: "pt_inv s As sh" and inv: "page_inv s F As" and i: "i < 2048" "mids sh i = None \<longrightarrow> F \<noteq> []"
  obtains s' F' As' sh' d where
    "(if ent s (root sh) i = 0 then pde_add_pgdir (kv s (root sh)) (of_nat i) s else Inr (ent s (root sh) i, s)) = Inr (kv s d, s')"
    "pt_grown s F As sh s' F' As' sh'" "mids sh' i = Some d" "leaves sh' = leaves sh" "d < nr_pages s"
    "length F = length F' + (if mids sh i = None then 1 else 0)"
proof (cases "mids sh i")
  case (Some d)
  have d: "d < nr_pages s" "frames_ok s" using pt_dir_facts [OF pt dirs_intros(2) [OF Some]] by simp_all
  have "ent s (root sh) i = kv s d" using pt_links(1) [OF pt i(1)] Some by simp
  moreover have "kv s d \<noteq> 0" using d by simp
  ultimately show ?thesis using that [of d s F As sh] pt_grown_refl [OF inv pt] Some d(1) by simp
next
  case None
  then have F: "F \<noteq> []" using i by simp
  let ?sh = "sh\<lparr>mids := (mids sh)(i \<mapsto> hd F)\<rparr>"
  obtain s' where s': "pgdir_add_pgdir (Pg (root sh)) (of_nat i) s = Inr (kv s (hd F), s')"
    "page_inv s' (tl F) ([hd F] # As)" "page_frame s s'" "hd F < nr_pages s" "pt_inv s' ([hd F] # As) ?sh"
    "\<And>h j. h \<in> dirs sh \<Longrightarrow> h \<noteq> root sh \<Longrightarrow> j < 2048 \<Longrightarrow> ent s' h j = ent s h j"
    by (rule pt_add_mid [OF pt inv F i(1) None]) (rule that)
  have e0: "ent s (root sh) i = 0" using pt_links(1) [OF pt i(1)] None by simp
  have p: "pde_add_pgdir (kv s (root sh)) (of_nat i) s = Inr (kv s (hd F), s')"
    using s'(1) pt_dir_facts [OF pt dirs_intros(1)] by (simp add: pde_add_pgdir_def)
  have pe: "pt_entry s' ?sh i' j' k = pt_entry s sh i' j' k" if "k < 2048" for i' j' k
  proof (cases "leaves sh i' j'")
    case (Some e)
    then have "e \<noteq> root sh" using pt by (auto simp: pt_inv_def shape_ok_def)
    then show ?thesis using s'(6) [OF dirs_intros(3) [OF Some]] Some that by (simp add: pt_entry_def)
  qed (simp add: pt_entry_def)
  have len: "length F = length (tl F) + 1" using F by (cases F) simp_all
  have ex: "\<exists>ns. F = ns @ tl F \<and> [hd F] # As = rev (map (\<lambda>n. [n]) ns) @ As" using F by (intro exI [of _ "[hd F]"]) simp
  have "pt_grown s F As sh s' (tl F) ([hd F] # As) ?sh"
    unfolding pt_grown_def using s'(2,3,5) pe ex dirs_mid [OF None, of "hd F"] F by auto
  moreover have "length F = length (tl F) + (if mids sh i = None then 1 else 0)" using len None by simp
  ultimately show ?thesis
    by (intro that [of "hd F" s' "tl F" "[hd F] # As" ?sh]) (use s'(4) e0 p in simp_all)
qed

lemma ensure_leaf:
  assumes pt: "pt_inv s As sh" and inv: "page_inv s F As" and i: "mids sh i = Some d" "j < 2048" "leaves sh i j = None \<longrightarrow> F \<noteq> []"
  obtains s' F' As' sh' e where
    "(if ent s d j = 0 then pde_add_pgdir (kv s d) (of_nat j) s else Inr (ent s d j, s)) = Inr (kv s e, s')"
    "pt_grown s F As sh s' F' As' sh'" "leaves sh' i j = Some e" "e < nr_pages s"
proof (cases "leaves sh i j")
  case (Some e)
  have e: "e < nr_pages s" "frames_ok s" using pt_dir_facts [OF pt dirs_intros(3) [OF Some]] by simp_all
  have "ent s d j = kv s e" using pt_links(2) [OF pt i(1,2)] Some by simp
  moreover have "kv s e \<noteq> 0" using e by simp
  ultimately show ?thesis using that [of e s F As sh] pt_grown_refl [OF inv pt] Some e(1) by simp
next
  case None
  then have F: "F \<noteq> []" using i by simp
  let ?sh = "sh\<lparr>leaves := (leaves sh)(i := (leaves sh i)(j \<mapsto> hd F))\<rparr>"
  obtain s' where s': "pgdir_add_pgdir (Pg d) (of_nat j) s = Inr (kv s (hd F), s')"
    "page_inv s' (tl F) ([hd F] # As)" "page_frame s s'" "hd F < nr_pages s" "pt_inv s' ([hd F] # As) ?sh"
    "\<And>h k. h \<in> dirs sh \<Longrightarrow> h \<noteq> d \<Longrightarrow> k < 2048 \<Longrightarrow> ent s' h k = ent s h k"
    "\<And>k. k < 2048 \<Longrightarrow> ent s' (hd F) k = 0"
    by (rule pt_add_leaf [OF pt inv F i(1,2) None]) (rule that)
  have "ent s d j = 0" using pt_links(2) [OF pt i(1,2)] None by simp
  moreover have "pde_add_pgdir (kv s d) (of_nat j) s = Inr (kv s (hd F), s')"
    using s'(1) pt_dir_facts [OF pt dirs_intros(2) [OF i(1)]] by (simp add: pde_add_pgdir_def)
  moreover have "pt_entry s' ?sh i' j' k = pt_entry s sh i' j' k" if "k < 2048" for i' j' k
  proof (cases "leaves sh i' j'")
    case (Some e)
    then have "e \<noteq> d" using pt i(1) by (auto simp: pt_inv_def shape_ok_def)
    then show ?thesis using s'(6) [OF dirs_intros(3) [OF Some]] Some that None by (auto simp: pt_entry_def)
  next
    case None
    then show ?thesis using s'(7) [OF that] by (auto simp: pt_entry_def)
  qed
  moreover have "\<exists>ns. F = ns @ tl F \<and> [hd F] # As = rev (map (\<lambda>n. [n]) ns) @ As" using F by (intro exI [of _ "[hd F]"]) simp
  moreover have "dirs ?sh \<subseteq> dirs sh \<union> set F" using dirs_leaf [OF None, of "hd F"] F by auto
  ultimately show ?thesis
    using that [of "hd F" s' "tl F" "[hd F] # As" ?sh] s'(2-5) by (simp add: pt_grown_def)
qed

definition pt_need :: "pt_shape \<Rightarrow> nat \<Rightarrow> nat \<Rightarrow> nat" where
  "pt_need sh i j = (if mids sh i = None then 2 else if leaves sh i j = None then 1 else 0)"

lemma pgtable_create_ok:
  assumes pt: "pt_inv s As sh" and inv: "page_inv s F As" and i: "i < 2048" "j < 2048" "pt_need sh i j \<le> length F"
    and d: "pd_pgd pd = kv s (root sh)" "pd_pgx pd = of_nat i" "pd_pmx pd = of_nat j"
  obtains s' F' As' sh' m e where
    "pgtable_create pd s = Inr (0, pd\<lparr>pd_pmd := kv s m, pd_pte := kv s e\<rparr>, s')"
    "pt_grown s F As sh s' F' As' sh'" "leaves sh' i j = Some e"
proof -
  have "mids sh i = None \<longrightarrow> F \<noteq> []" using i by (auto simp: pt_need_def)
  then obtain s1 F1 As1 sh1 m where s1:
    "(if ent s (root sh) i = 0 then pde_add_pgdir (kv s (root sh)) (of_nat i) s else Inr (ent s (root sh) i, s)) = Inr (kv s m, s1)"
    "pt_grown s F As sh s1 F1 As1 sh1" "mids sh1 i = Some m" "leaves sh1 = leaves sh" "m < nr_pages s"
    "length F = length F1 + (if mids sh i = None then 1 else 0)"
    by (rule ensure_mid [OF pt inv i(1)]) (rule that)
  have g1: "pt_inv s1 As1 sh1" "page_inv s1 F1 As1" and base: "highmem_base_pfn s1 = highmem_base_pfn s" "nr_pages s1 = nr_pages s"
    using s1(2) by (simp_all add: pt_grown_def page_frame_def)
  have kv: "page_to_kvaddr s1 p = page_to_kvaddr s p" for p by (rule page_to_kvaddr_cong [OF base(1)])
  have "leaves sh1 i j = None \<longrightarrow> F1 \<noteq> []"
    using i(3) s1(4,6) by (auto simp: pt_need_def split: if_splits)
  then obtain s2 F2 As2 sh2 e where s2:
    "(if ent s1 m j = 0 then pde_add_pgdir (kv s1 m) (of_nat j) s1 else Inr (ent s1 m j, s1)) = Inr (kv s1 e, s2)"
    "pt_grown s1 F1 As1 sh1 s2 F2 As2 sh2" "leaves sh2 i j = Some e" "e < nr_pages s1"
    by (rule ensure_leaf [OF g1 s1(3) i(2)]) (rule that)
  have fr: "frames_ok s" using pt by (simp add: pt_inv_def)
  then have nz: "kv s m \<noteq> 0" "kv s e \<noteq> 0" using s1(5) s2(4) base by simp_all
  have "pgtable_create pd s = Inr (0, pd\<lparr>pd_pmd := kv s m, pd_pte := kv s e\<rparr>, s2)"
    unfolding pgtable_create_def Let_def d pde_get_entry_ent [OF i(1)] s1(1) rbind_Inr prod.case
    using nz d(3) pde_get_entry_ent [OF i(2), of s1 m] s2(1) by (cases "ent s1 m j = 0") (auto simp: kv)
  then show ?thesis using that pt_grown_trans [OF s1(2) s2(2)] s2(3) by blast
qed


section \<open>Leaf entries\<close>

definition new_pte :: "'s kstate_scheme \<Rightarrow> page_ptr \<Rightarrow> u32 \<Rightarrow> u64" where
  "new_pte s p perm = PAGE_TO_PADDR s p OR
     ucast (((perm AND (PTE_LOWMASK - PTE_CACHE_MASK)) OR (PTE_CACHEABLE OR PTE_PHYS)) AND PTE_LOWMASK)"

lemma pte_flag_bits:
  "bit (PTE_LOWMASK - PTE_CACHE_MASK) n \<longleftrightarrow> n < 9" "bit PTE_LOWMASK n \<longleftrightarrow> n < 12"
  "bit PTE_CACHEABLE n \<longleftrightarrow> n = 9 \<or> n = 10" "bit PTE_PHYS n \<longleftrightarrow> n = 0"
proof -
  have a: "PTE_LOWMASK - PTE_CACHE_MASK = mask 9" "PTE_LOWMASK = mask 12" "PTE_PHYS = 1"
    "PTE_CACHEABLE = push_bit 9 1 OR push_bit 10 1"
    by (simp_all add: pte_bits_defs mask_eq_exp_minus_1)
  show "bit (PTE_LOWMASK - PTE_CACHE_MASK) n \<longleftrightarrow> n < 9" by (auto simp: a(1) bit_simps)
  show "bit PTE_LOWMASK n \<longleftrightarrow> n < 12" by (auto simp: a(2) bit_simps)
  show "bit PTE_CACHEABLE n \<longleftrightarrow> n = 9 \<or> n = 10"
    by (simp only: a(4) bit_or_iff bit_push_bit_iff bit_1_iff) auto
  show "bit PTE_PHYS n \<longleftrightarrow> n = 0" by (auto simp: a(3) bit_simps)
qed

lemma bit_new_pte:
  "bit (new_pte s p perm) n \<longleftrightarrow> (if n < 14 then n = 0 \<or> n = 9 \<or> n = 10 \<or> n < 9 \<and> bit perm n
     else n < 64 \<and> bit (PAGE_TO_PFN s p) (n - 14))"
  by (cases p) (auto simp: new_pte_def PAGE_TO_PADDR_def bit_simps pte_flag_bits)

lemma new_pte_nonzero [simp]: "new_pte s p perm \<noteq> 0"
proof
  assume "new_pte s p perm = 0"
  moreover have "bit (new_pte s p perm) 0" by (simp add: bit_new_pte)
  ultimately show False by simp
qed

lemma new_pte_frame:
  assumes "frames_ok s" "g < nr_pages s"
  shows "PADDR_TO_PFN (new_pte s (Pg g) perm) = PAGE_TO_PFN s (Pg g)"
proof (rule bit_word_eqI)
  fix n assume "n < LENGTH(64)"
  have "unat (PAGE_TO_PFN s (Pg g)) < 2 ^ 50"
    using unat_pfn [OF assms] assms by (simp add: frames_ok_def)
  then have "\<not> bit (PAGE_TO_PFN s (Pg g)) n" if "50 \<le> n" using that not_bit_ge by blast
  then show "bit (PADDR_TO_PFN (new_pte s (Pg g) perm)) n = bit (PAGE_TO_PFN s (Pg g)) n"
    by (cases "n < 50") (auto simp: PADDR_TO_PFN_def bit_drop_bit_eq bit_new_pte dest: bit_imp_le_length)
qed

lemma pfn_to_page_ok:
  assumes "frames_ok s" "g < nr_pages s"
  shows "pfn_to_page s (PAGE_TO_PFN s (Pg g)) = Inr (Pg g)"
proof -
  have "\<not> PAGE_TO_PFN s (Pg g) < highmem_base_pfn s"
    using unat_pfn [OF assms] by (simp add: word_less_nat_alt)
  then show ?thesis using assms by (simp add: pfn_to_page_def frames_ok_def unat_of_nat_u64)
qed

lemma new_pte_page:
  "frames_ok s \<Longrightarrow> g < nr_pages s \<Longrightarrow> PADDR_TO_PAGE s (new_pte s (Pg g) perm) = Inr (Pg g)"
  by (simp add: PADDR_TO_PAGE_def new_pte_frame pfn_to_page_ok del: PAGE_TO_PFN.simps)

lemma new_pte_clear:
  "(new_pte s p perm OR ucast PTE_LOWMASK) XOR ucast PTE_LOWMASK = PAGE_TO_PADDR s p"
  by (cases p; rule bit_word_eqI)
    (auto simp: bit_simps bit_new_pte pte_flag_bits PAGE_TO_PADDR_def)

lemma new_pte_phys: "new_pte s p perm AND ucast PTE_PHYS \<noteq> 0"
proof
  assume "new_pte s p perm AND ucast PTE_PHYS = 0"
  moreover have "bit (new_pte s p perm AND ucast PTE_PHYS) 0" by (simp add: bit_simps bit_new_pte pte_flag_bits)
  ultimately show False by simp
qed

text \<open>Writing one entry of a leaf.\<close>

lemma pt_set_leaf:
  assumes pt: "pt_inv s As sh" and inv: "page_inv s F As" and e: "leaves sh i j = Some e" "k < 2048"
    and s': "s' = s\<lparr>pages := (pages s)(Pg e := (pages s (Pg e))\<lparr>pgdir_entries := c\<rparr>), mem := store64 (slot s e k) w (mem s)\<rparr>"
    and c: "c = of_nat (dir_count s' e)"
  shows "pt_inv s' As sh" "page_inv s' F As" "page_frame s s'"
    "k' < 2048 \<Longrightarrow> pt_entry s' sh i' j' k' = (if i' = i \<and> j' = j \<and> k' = k then w else pt_entry s sh i' j' k')"
proof -
  note ed = dirs_intros(3) [OF e(1)]
  have fr: "frames_ok s" and sh: "shape_ok sh" and dok: "\<And>d. d \<in> dirs sh \<Longrightarrow> [d] \<in> set As \<and> dir_ok s d"
    and rt: "links_to s (root sh) (mids sh)" and md: "\<And>i d. mids sh i = Some d \<Longrightarrow> links_to s d (leaves sh i)"
    using pt by (auto simp: pt_inv_def)
  have en: "e < nr_pages s" using dok [OF ed] by (simp add: dir_ok_def)
  have ent: "ent s' h l = (if h = e \<and> l = k then w else ent s h l)" if "h < nr_pages s" "l < 2048" for h l
  proof -
    have "ent s' h l = ent (s\<lparr>mem := store64 (slot s e k) w (mem s)\<rparr>) h l" by (simp add: s' ent_def)
    then show ?thesis using ent_store [OF fr en e(2) that] by simp
  qed
  have nr: "nr_pages s' = nr_pages s" "highmem_base_pfn s' = highmem_base_pfn s" by (simp_all add: s')
  have same: "ent s' h l = ent s h l" if "h \<in> dirs sh" "h \<noteq> e" "l < 2048" for h l
    using ent [of h l] dok [OF that(1)] that by (simp add: dir_ok_def)
  have "dir_ok s' d" if "d \<in> dirs sh" for d
  proof (cases "d = e")
    case True
    then show ?thesis using dok [OF ed] c by (simp add: dir_ok_def s')
  next
    case False
    show ?thesis
    proof (rule dir_ok_cong [of s])
      show "dir_ok s d" using dok [OF that] by blast
      show "ent s' d j = ent s d j" if "j < 2048" for j by (rule same [OF \<open>d \<in> dirs sh\<close> False that])
      show "pages s' (Pg d) = pages s (Pg d)" using False by (simp add: s')
    qed (rule nr)
  qed
  moreover have "e \<noteq> root sh" using sh e(1) unfolding shape_ok_def by metis
  then have "links_to s' (root sh) (mids sh)" by (intro links_to_cong [OF rt same [OF dirs_intros(1)] nr(2)]) auto
  moreover have "links_to s' d (leaves sh i)" if "mids sh i = Some d" for i d
  proof -
    have "d \<noteq> e" using sh e(1) that unfolding shape_ok_def by metis
    then show ?thesis by (rule links_to_cong [OF md [OF that] same [OF dirs_intros(2) [OF that]] nr(2)])
  qed
  moreover have "frames_ok s'" using fr by (simp add: s')
  ultimately show "pt_inv s' As sh" using dok sh by (auto simp: pt_inv_def)
  have "page_inv (s\<lparr>pages := (pages s)(Pg e := (pages s (Pg e))\<lparr>pgdir_entries := c\<rparr>)\<rparr>) F As"
    by (rule page_inv_pages_update [OF inv]) simp_all
  then show "page_inv s' F As" by (simp add: s')
  show "page_frame s s'" by (simp add: s' page_frame_def)
  show "pt_entry s' sh i' j' k' = (if i' = i \<and> j' = j \<and> k' = k then w else pt_entry s sh i' j' k')" if "k' < 2048"
  proof (cases "leaves sh i' j'")
    case None
    then show ?thesis using e(1) by (auto simp: pt_entry_def)
  next
    case (Some f)
    have "f = e \<longleftrightarrow> i' = i \<and> j' = j" using shape_leaf_inj [OF sh e(1), of i' j'] e(1) Some by auto
    moreover have "f < nr_pages s" using dok [OF dirs_intros(3) [OF Some]] by (simp add: dir_ok_def)
    ultimately show ?thesis using ent [of f k'] Some e(1) that by (auto simp: pt_entry_def)
  qed
qed


lemma dir_count_remove:
  assumes "ent s d i \<noteq> 0" "i < 2048" "\<And>j. j < 2048 \<Longrightarrow> ent s' d j = (if j = i then 0 else ent s d j)"
  shows "dir_count s d = Suc (dir_count s' d)"
proof (rule dir_count_add [of s' d i "ent s d i"])
  show "ent s' d i = 0" using assms(3) [OF assms(2)] by simp
  show "ent s d j = (if j = i then ent s d i else ent s' d j)" if "j < 2048" for j
    using assms(3) [OF that] by simp
qed (use assms in simp_all)

text \<open>A leaf entry is added, and removed.\<close>

lemma ent_store_leaf:
  assumes "pt_inv s As sh" "leaves sh i j = Some e" "k < 2048" "l < 2048"
  shows "ent (s\<lparr>pages := P, mem := store64 (slot s e k) w (mem s)\<rparr>) e l = (if l = k then w else ent s e l)"
proof -
  note f = pt_dir_facts [OF assms(1) dirs_intros(3) [OF assms(2)]]
  have "ent (s\<lparr>pages := P, mem := store64 (slot s e k) w (mem s)\<rparr>) e l =
      ent (s\<lparr>mem := store64 (slot s e k) w (mem s)\<rparr>) e l" by (simp add: ent_def)
  then show ?thesis using ent_store [OF f(4,1) assms(3) f(1) assms(4)] by simp
qed

lemma add_leaf_entry:
  assumes pt: "pt_inv s As sh" and inv: "page_inv s F As" and e: "leaves sh i j = Some e" "k < 2048" "ent s e k = 0"
    and fl: "flags = ((perm AND (PTE_LOWMASK - PTE_CACHE_MASK)) OR (PTE_CACHEABLE OR PTE_PHYS))"
  obtains s' where "pde_add_entry (kv s e) (of_nat k) p flags s = Inr (page_to_kvaddr s (Some p), s')"
    "pt_inv s' As sh" "page_inv s' F As" "page_frame s s'"
    "\<And>i' j' k'. k' < 2048 \<Longrightarrow>
      pt_entry s' sh i' j' k' = (if i' = i \<and> j' = j \<and> k' = k then new_pte s p perm else pt_entry s sh i' j' k')"
proof -
  note f = pt_dir_facts [OF pt dirs_intros(3) [OF e(1)]]
  let ?c = "pgdir_entries (pages s (Pg e)) + 1"
  let ?s = "s\<lparr>pages := (pages s)(Pg e := (pages s (Pg e))\<lparr>pgdir_entries := ?c\<rparr>), mem := store64 (slot s e k) (new_pte s p perm) (mem s)\<rparr>"
  have "bit (flags AND PTE_PHYS) 0" by (simp add: fl bit_simps pte_flag_bits)
  then have "flags AND PTE_PHYS \<noteq> 0" by force
  then have op: "pde_add_entry (kv s e) (of_nat k) p flags s = Inr (page_to_kvaddr s (Some p), ?s)"
    using f e by (simp add: pde_add_entry_def pgdir_add_entry_ok new_pte_def fl)
  have "dir_count ?s e = Suc (dir_count s e)"
    by (rule dir_count_add [OF e(3,2) new_pte_nonzero]) (rule ent_store_leaf [OF pt e(1,2)])
  then have c: "?c = of_nat (dir_count ?s e)" using f(3) by (simp add: dir_ok_def)
  note st = pt_set_leaf [OF pt inv e(1,2) refl c]
  show ?thesis by (rule that [OF op st(1-3)]) (rule st(4))
qed

lemma remove_leaf_entry:
  assumes pt: "pt_inv s As sh" and inv: "page_inv s F As" and e: "leaves sh i j = Some e" "k < 2048"
    and q: "ent s e k = new_pte s (Pg q) perm" "q < nr_pages s"
  obtains s' where "pde_remove_entry (kv s e) (of_nat k) s = Inr (kv s q, s')"
    "pt_inv s' As sh" "page_inv s' F As" "page_frame s s'"
    "\<And>i' j' k'. k' < 2048 \<Longrightarrow>
      pt_entry s' sh i' j' k' = (if i' = i \<and> j' = j \<and> k' = k then 0 else pt_entry s sh i' j' k')"
proof -
  note f = pt_dir_facts [OF pt dirs_intros(3) [OF e(1)]]
  let ?c = "pgdir_entries (pages s (Pg e)) - 1"
  let ?s = "s\<lparr>pages := (pages s)(Pg e := (pages s (Pg e))\<lparr>pgdir_entries := ?c\<rparr>), mem := store64 (slot s e k) 0 (mem s)\<rparr>"
  have "PADDR_TO_KVADDR ((new_pte s (Pg q) perm OR ucast PTE_LOWMASK) XOR ucast PTE_LOWMASK) = kv s q"
    by (simp only: new_pte_clear) (simp add: page_to_kvaddr_def)
  then have op: "pde_remove_entry (kv s e) (of_nat k) s = Inr (kv s q, ?s)"
    using f e(2) q(1) new_pte_phys [of s "Pg q" perm]
    by (simp add: pde_remove_entry_def pgdir_remove_entry_def dir_entry_slot ent_slot Let_def)
  have "dir_count s e = Suc (dir_count ?s e)"
    by (rule dir_count_remove [OF _ e(2)]) (simp add: q(1), rule ent_store_leaf [OF pt e(1,2)])
  moreover have "pgdir_entries (pages s (Pg e)) = of_nat (dir_count s e)" using f(3) by (simp add: dir_ok_def)
  ultimately have c: "?c = of_nat (dir_count ?s e)" by (metis add_diff_cancel_left' of_nat_Suc)
  note st = pt_set_leaf [OF pt inv e(1,2) refl c]
  show ?thesis by (rule that [OF op st(1-3)]) (rule st(4))
qed

section \<open>Shrinking the table\<close>

lemma kv_not_phys: 
  assumes "frames_ok s" "g < nr_pages s"
  shows "kv s g AND ucast PTE_PHYS = 0"
proof -
  have "even (unat (kv s g))" unfolding unat_kv [OF assms] by simp
  then have "\<not> bit (unat (kv s g)) 0" by (simp add: bit_0)
  then have "\<not> bit (kv s g) 0" by (simp add: bit_unsigned_iff)
  moreover have p: "bit (ucast PTE_PHYS :: u64) n \<longleftrightarrow> n = 0" for n
    by (auto simp: bit_simps pte_flag_bits)
  ultimately have "bit (kv s g AND ucast PTE_PHYS) n = bit 0 n" for n
    by (cases "n = 0") (simp_all add: bit_and_iff p)
  then show ?thesis by (rule bit_word_eqI)
qed

text \<open>Taking an empty directory \<open>c\<close> out of entry \<open>i\<close> of \<open>g\<close> and freeing it.\<close>

lemma drop_dir:
  assumes inv: "page_inv s F As" "frames_ok s" "[c] \<in> set As"
    and g: "dir_ok s g" "i < 2048" "ent s g i = kv s c" "dir_ok s c" "dir_count s c = 0" "g \<noteq> c"
  obtains s' F' As1 As2 where "pde_remove_pgdir (kv s g) (of_nat i) s = Inr s'" "As = As1 @ [c] # As2"
    "page_inv s' F' (As1 @ As2)" "set F' = insert c (set F)" "page_frame s s'"
    "\<And>d. dir_ok s d \<Longrightarrow> d \<noteq> c \<Longrightarrow> dir_ok s' d"
    "\<And>h j. h < nr_pages s \<Longrightarrow> h \<noteq> c \<Longrightarrow> j < 2048 \<Longrightarrow> ent s' h j = (if h = g \<and> j = i then 0 else ent s h j)"
proof -
  obtain As1 As2 where As: "As = As1 @ [c] # As2" using inv(3) by (auto simp: in_set_conv_decomp)
  have gn: "g < nr_pages s" "pg_type (pages s (Pg g)) = PGTYPE_PGDIR" and cn: "c < nr_pages s" "pg_type (pages s (Pg c)) = PGTYPE_PGDIR"
    and ce: "pgdir_entries (pages s (Pg c)) = 0"
    using g(1,4,5) by (simp_all add: dir_ok_def)
  let ?x = "pgdir_entries (pages s (Pg g)) - 1"
  let ?s1 = "s\<lparr>pages := (pages s)(Pg g := (pages s (Pg g))\<lparr>pgdir_entries := ?x\<rparr>), mem := store64 (slot s g i) 0 (mem s)\<rparr>"
  have op1: "pgdir_remove_entry (Pg g) (of_nat i) s = Inr (kv s c, ?s1)"
    using gn g(2,3) kv_not_phys [OF inv(2) cn(1)]
    by (simp add: pgdir_remove_entry_def dir_entry_slot ent_slot Let_def)
  have ent1: "ent ?s1 h j = (if h = g \<and> j = i then 0 else ent s h j)" if "h < nr_pages s" "j < 2048" for h j
  proof -
    have "ent ?s1 h j = ent (s\<lparr>mem := store64 (slot s g i) 0 (mem s)\<rparr>) h j" by (simp add: ent_def)
    then show ?thesis using ent_store [OF inv(2) gn(1) g(2) that] by simp
  qed
  have "page_inv (s\<lparr>pages := (pages s)(Pg g := (pages s (Pg g))\<lparr>pgdir_entries := ?x\<rparr>)\<rparr>) F As"
    by (rule page_inv_pages_update [OF inv(1)]) simp_all
  then have "page_inv ?s1 F (As1 @ ([] @ [c] @ []) # As2)" using As by simp
  from free_pages_inv_frame [OF this, of 1] obtain s' where s':
    "free_pages (Some (Pg c)) 1 ?s1 = Inr (Some (Pg c), s')" "page_inv s' (sorted_list_of_set (set (F @ [c]))) (As1 @ As2)"
    "page_frame ?s1 s'" "mem s' = shred_mem (highmem_base_pfn s) [c] (mem ?s1)"
    "\<And>d. d \<noteq> c \<Longrightarrow> pages s' (Pg d) = pages ?s1 (Pg d)"
    by (auto simp: parts_def)
  have base: "highmem_base_pfn s' = highmem_base_pfn s" "nr_pages s' = nr_pages s"
    using s'(3) by (simp_all add: page_frame_def)
  have kv1: "kvaddr_to_page ?s1 (kv s c) = Inr (Some (Pg c))"
    using kvaddr_to_page_kv [of ?s1 c] inv(2) cn(1) by simp
  have op: "pde_remove_pgdir (kv s g) (of_nat i) s = Inr s'"
    using gn cn ce inv(2) g(6) op1 kv1 s'(1)
    by (simp add: pde_remove_pgdir_def pgdir_remove_pgdir_def pgdir_empty_def pgdir_delete_def pgfree_def)
  have ms: "mem s' = memset (kv s c) 1 PGSIZE (mem ?s1)"
    by (simp add: s'(4) shred_mem_def page_to_kvaddr_def PAGE_TO_PADDR_def)
  have ent: "ent s' h j = (if h = g \<and> j = i then 0 else ent s h j)" if "h < nr_pages s" "h \<noteq> c" "j < 2048" for h j
  proof -
    have "ent s' h j = ent (?s1\<lparr>mem := memset (kv ?s1 c) 1 PGSIZE (mem ?s1)\<rparr>) h j"
      by (simp add: ent_def page_to_kvaddr_cong [OF base(1)] ms)
    also have "\<dots> = ent ?s1 h j"
      by (rule ent_memset(2)) (use inv(2) cn(1) that in simp_all)
    finally show ?thesis using ent1 that by simp
  qed
  have dok: "dir_ok s' d" if d: "dir_ok s d" "d \<noteq> c" for d
  proof (cases "d = g")
    case False
    show ?thesis
    proof (rule dir_ok_cong [OF d(1)])
      show "ent s' d j = ent s d j" if "j < 2048" for j
        using ent [OF _ d(2) that] d(1) False by (simp add: dir_ok_def)
      show "pages s' (Pg d) = pages s (Pg d)" using s'(5) [OF d(2)] False by simp
    qed (rule base)
  next
    case True
    have "dir_count s g = Suc (dir_count s' g)"
    proof (rule dir_count_remove [OF _ g(2)])
      show "ent s g i \<noteq> 0" using g(3) inv(2) cn(1) by simp
      show "ent s' g j = (if j = i then 0 else ent s g j)" if "j < 2048" for j
        using ent [OF gn(1) g(6) that] by simp
    qed
    then have "pgdir_entries (pages s (Pg g)) = of_nat (Suc (dir_count s' g))"
      using g(1) by (simp add: dir_ok_def)
    then have "?x = of_nat (dir_count s' g)" by (metis add_diff_cancel_left' of_nat_Suc)
    then show ?thesis using True s'(5) [OF g(6)] gn base by (simp add: dir_ok_def)
  qed
  have "set (sorted_list_of_set (set (F @ [c]))) = insert c (set F)" by (subst set_sorted_list_of_set) auto
  moreover have "page_frame s s'" using s'(3) by (simp add: page_frame_def)
  ultimately show ?thesis using that [OF op As s'(2)] dok ent by blast
qed


text \<open>An empty leaf directory, and an empty middle directory, is taken out.\<close>

lemma shape_ok_drop:
  "shape_ok sh \<Longrightarrow> shape_ok (sh\<lparr>leaves := (leaves sh)(i := (leaves sh i)(j := None))\<rparr>)"
  "shape_ok sh \<Longrightarrow> \<forall>j. leaves sh i j = None \<Longrightarrow> shape_ok (sh\<lparr>mids := (mids sh)(i := None)\<rparr>)"
  by (auto simp: shape_ok_def split: if_splits)

lemma dirs_drop_leaf:
  assumes "shape_ok sh" "leaves sh i j = Some e"
  shows "dirs (sh\<lparr>leaves := (leaves sh)(i := (leaves sh i)(j := None))\<rparr>) \<subseteq> dirs sh - {e}"
proof
  fix d assume "d \<in> dirs (sh\<lparr>leaves := (leaves sh)(i := (leaves sh i)(j := None))\<rparr>)"
  then consider "d = root sh" | k where "mids sh k = Some d" | k l where "leaves sh k l = Some d" "(k, l) \<noteq> (i, j)"
    by (auto simp: dirs_def ran_def split: if_splits)
  then show "d \<in> dirs sh - {e}"
  proof cases
    case 1
    then show ?thesis using assms dirs_intros(1) [of sh] unfolding shape_ok_def by blast
  next
    case (2 k)
    then show ?thesis using assms dirs_intros(2) [OF 2] unfolding shape_ok_def by auto
  next
    case (3 k l)
    then show ?thesis using dirs_intros(3) [OF 3(1)] shape_leaf_inj [OF assms, of k l] by auto
  qed
qed

lemma dirs_drop_mid:
  assumes "shape_ok sh" "mids sh i = Some m"
  shows "dirs (sh\<lparr>mids := (mids sh)(i := None)\<rparr>) \<subseteq> dirs sh - {m}"
proof
  fix d assume "d \<in> dirs (sh\<lparr>mids := (mids sh)(i := None)\<rparr>)"
  then consider "d = root sh" | k where "mids sh k = Some d" "k \<noteq> i" | k l where "leaves sh k l = Some d"
    by (auto simp: dirs_def ran_def split: if_splits)
  then show "d \<in> dirs sh - {m}"
  proof cases
    case 1
    then show ?thesis using assms dirs_intros(1) [of sh] unfolding shape_ok_def by blast
  next
    case (2 k)
    then show ?thesis using assms dirs_intros(2) [OF 2(1)] unfolding shape_ok_def by blast
  next
    case (3 k l)
    then show ?thesis using assms dirs_intros(3) [OF 3] unfolding shape_ok_def by auto
  qed
qed

lemma dirs_drop_leaf_eq:
  assumes "shape_ok sh" "leaves sh i j = Some e"
  shows "dirs (sh\<lparr>leaves := (leaves sh)(i := (leaves sh i)(j := None))\<rparr>) = dirs sh - {e}"
proof (rule antisym [OF dirs_drop_leaf [OF assms]], rule subsetI)
  fix d assume d: "d \<in> dirs sh - {e}"
  then consider "d = root sh" | k where "mids sh k = Some d" | k l where "leaves sh k l = Some d"
    by (auto simp: dirs_def ran_def)
  then show "d \<in> dirs (sh\<lparr>leaves := (leaves sh)(i := (leaves sh i)(j := None))\<rparr>)"
  proof cases
    case (3 k l)
    then have "(k, l) \<noteq> (i, j)" using d assms(2) by auto
    then have "((leaves sh)(i := (leaves sh i)(j := None))) k l = Some d" using 3 by auto
    then show ?thesis unfolding dirs_def ran_def by fastforce
  qed (auto simp: dirs_def ran_def)
qed

lemma dirs_drop_mid_eq:
  assumes "shape_ok sh" "mids sh i = Some m"
  shows "dirs (sh\<lparr>mids := (mids sh)(i := None)\<rparr>) = dirs sh - {m}"
proof (rule antisym [OF dirs_drop_mid [OF assms]], rule subsetI)
  fix d assume d: "d \<in> dirs sh - {m}"
  then consider "d = root sh" | k where "mids sh k = Some d" | k l where "leaves sh k l = Some d"
    by (auto simp: dirs_def ran_def)
  then show "d \<in> dirs (sh\<lparr>mids := (mids sh)(i := None)\<rparr>)"
  proof cases
    case (2 k)
    then have "((mids sh)(i := None)) k = Some d" using d assms(2) by auto
    then show ?thesis unfolding dirs_def ran_def by fastforce
  qed (auto simp: dirs_def ran_def)
qed

lemma pt_drop_leaf:
  assumes pt: "pt_inv s As sh" and inv: "page_inv s F As"
    and m: "mids sh i = Some m" "leaves sh i j = Some e" "dir_count s e = 0"
  obtains s' F' As' where "pde_remove_pgdir (kv s m) (of_nat j) s = Inr s'"
    "page_inv s' F' As'" "set F' = insert e (set F)" "page_frame s s'"
    "pt_inv s' As' (sh\<lparr>leaves := (leaves sh)(i := (leaves sh i)(j := None))\<rparr>)"
    "\<And>i' j' k. k < 2048 \<Longrightarrow>
       pt_entry s' (sh\<lparr>leaves := (leaves sh)(i := (leaves sh i)(j := None))\<rparr>) i' j' k = pt_entry s sh i' j' k"
proof -
  let ?sh = "sh\<lparr>leaves := (leaves sh)(i := (leaves sh i)(j := None))\<rparr>"
  have fr: "frames_ok s" and sh: "shape_ok sh" and dok: "\<And>d. d \<in> dirs sh \<Longrightarrow> [d] \<in> set As \<and> dir_ok s d"
    and rt: "links_to s (root sh) (mids sh)" and md: "\<And>i d. mids sh i = Some d \<Longrightarrow> links_to s d (leaves sh i)"
    using pt by (auto simp: pt_inv_def)
  have j: "j < 2048" "m \<noteq> e" "e \<noteq> root sh" "m \<noteq> root sh" using sh m(1,2) unfolding shape_ok_def by metis+
  note md' = dirs_intros(2) [OF m(1)] and ed = dirs_intros(3) [OF m(2)]
  have en: "ent s m j = kv s e" using pt_links(2) [OF pt m(1) j(1)] m(2) by simp
  have ms: "dir_ok s m" "dir_ok s e" "[e] \<in> set As" using dok [OF md'] dok [OF ed] by auto
  obtain s' F' As1 As2 where s': "pde_remove_pgdir (kv s m) (of_nat j) s = Inr s'" "As = As1 @ [e] # As2"
    "page_inv s' F' (As1 @ As2)" "set F' = insert e (set F)" "page_frame s s'"
    "\<And>d. dir_ok s d \<Longrightarrow> d \<noteq> e \<Longrightarrow> dir_ok s' d"
    "\<And>h k. h < nr_pages s \<Longrightarrow> h \<noteq> e \<Longrightarrow> k < 2048 \<Longrightarrow> ent s' h k = (if h = m \<and> k = j then 0 else ent s h k)"
    by (rule drop_dir [OF inv fr ms(3,1) j(1) en ms(2) m(3) j(2)]) (rule that)
  have base: "highmem_base_pfn s' = highmem_base_pfn s" "nr_pages s' = nr_pages s"
    using s'(5) by (simp_all add: page_frame_def)
  have dn: "d < nr_pages s" if "d \<in> dirs sh" for d using dok [OF that] by (simp add: dir_ok_def)
  have same: "ent s' h k = ent s h k" if "h \<in> dirs sh" "h \<noteq> e" "h \<noteq> m" "k < 2048" for h k
    using s'(7) [OF dn [OF that(1)] that(2,4)] that(3) by simp
  have notm: "e \<noteq> h" if "mids sh k = Some h" for h k using sh m(2) that unfolding shape_ok_def by blast
  have "links_to s' m ((leaves sh i)(j := None))"
    using md [OF m(1)] s'(7) [OF dn [OF md'] j(2)] page_to_kvaddr_cong [OF base(1)] by (auto simp: links_to_def)
  moreover have "links_to s' h (leaves sh k)" if "mids sh k = Some h" "k \<noteq> i" for h k
  proof -
    have "h \<noteq> m" using sh m(1) that unfolding shape_ok_def by metis
    then show ?thesis
      using notm [OF that(1)] by (intro links_to_cong [OF md [OF that(1)] same [OF dirs_intros(2) [OF that(1)]] base(1)]) auto
  qed
  moreover have "links_to s' (root sh) (mids sh)"
    using j(3,4) by (intro links_to_cong [OF rt same [OF dirs_intros(1)] base(1)]) auto
  moreover have "[d] \<in> set (As1 @ As2) \<and> dir_ok s' d" if "d \<in> dirs ?sh" for d
    using dirs_drop_leaf [OF sh m(2)] that dok [of d] s'(2,6) by auto
  moreover have "frames_ok s'" using fr base by (simp add: frames_ok_def)
  ultimately have "pt_inv s' (As1 @ As2) ?sh" using m(1) shape_ok_drop(1) [OF sh] by (auto simp: pt_inv_def)
  moreover have "pt_entry s' ?sh i' j' k = pt_entry s sh i' j' k" if k: "k < 2048" for i' j' k
  proof (cases "(i', j') = (i, j)")
    case True
    have "finite {k. k < 2048 \<and> ent s e k \<noteq> 0}" by simp
    then have "ent s e k = 0" using m(3) k by (auto simp: dir_count_def)
    then show ?thesis using True m(2) by (simp add: pt_entry_def)
  next
    case False
    show ?thesis
    proof (cases "leaves sh i' j'")
      case None
      then show ?thesis using False by (auto simp: pt_entry_def)
    next
      case (Some f)
      have "f \<noteq> e" using shape_leaf_inj [OF sh m(2), of i' j'] Some False by auto
      moreover have "f \<noteq> m" using sh m(1) Some unfolding shape_ok_def by blast
      ultimately show ?thesis using same [OF dirs_intros(3) [OF Some] _ _ k] Some False by (auto simp: pt_entry_def)
    qed
  qed
  ultimately show ?thesis by (rule that [OF s'(1,3,4,5)])
qed

lemma pt_drop_mid:
  assumes pt: "pt_inv s As sh" and inv: "page_inv s F As" and m: "mids sh i = Some m" "dir_count s m = 0"
  obtains s' F' As' where "pde_remove_pgdir (kv s (root sh)) (of_nat i) s = Inr s'"
    "page_inv s' F' As'" "set F' = insert m (set F)" "page_frame s s'"
    "pt_inv s' As' (sh\<lparr>mids := (mids sh)(i := None)\<rparr>)"
    "\<And>i' j' k. k < 2048 \<Longrightarrow> pt_entry s' (sh\<lparr>mids := (mids sh)(i := None)\<rparr>) i' j' k = pt_entry s sh i' j' k"
proof -
  let ?sh = "sh\<lparr>mids := (mids sh)(i := None)\<rparr>"
  have fr: "frames_ok s" and sh: "shape_ok sh" and dok: "\<And>d. d \<in> dirs sh \<Longrightarrow> [d] \<in> set As \<and> dir_ok s d"
    and rt: "links_to s (root sh) (mids sh)" and md: "\<And>i d. mids sh i = Some d \<Longrightarrow> links_to s d (leaves sh i)"
    using pt by (auto simp: pt_inv_def)
  have i: "i < 2048" "root sh \<noteq> m" using sh m(1) unfolding shape_ok_def by metis+
  note mdir = dirs_intros(2) [OF m(1)] and rdir = dirs_intros(1) [of sh]
  have en: "ent s (root sh) i = kv s m" using pt_links(1) [OF pt i(1)] m(1) by simp
  have ms: "dir_ok s (root sh)" "dir_ok s m" "[m] \<in> set As" using dok [OF mdir] dok [OF rdir] by auto
  obtain s' F' As1 As2 where s': "pde_remove_pgdir (kv s (root sh)) (of_nat i) s = Inr s'" "As = As1 @ [m] # As2"
    "page_inv s' F' (As1 @ As2)" "set F' = insert m (set F)" "page_frame s s'"
    "\<And>d. dir_ok s d \<Longrightarrow> d \<noteq> m \<Longrightarrow> dir_ok s' d"
    "\<And>h k. h < nr_pages s \<Longrightarrow> h \<noteq> m \<Longrightarrow> k < 2048 \<Longrightarrow> ent s' h k = (if h = root sh \<and> k = i then 0 else ent s h k)"
    by (rule drop_dir [OF inv fr ms(3,1) i(1) en ms(2) m(2) i(2)]) (rule that)
  have base: "highmem_base_pfn s' = highmem_base_pfn s" "nr_pages s' = nr_pages s"
    using s'(5) by (simp_all add: page_frame_def)
  have dn: "d < nr_pages s" if "d \<in> dirs sh" for d using dok [OF that] by (simp add: dir_ok_def)
  have same: "ent s' h k = ent s h k" if "h \<in> dirs sh" "h \<noteq> m" "h \<noteq> root sh" "k < 2048" for h k
    using s'(7) [OF dn [OF that(1)] that(2,4)] that(3) by simp
  have z: "ent s m k = 0" if "k < 2048" for k
    using m(2) that by (auto simp: dir_count_def)
  have empt: "leaves sh i j = None" for j
  proof (rule ccontr)
    assume "leaves sh i j \<noteq> None"
    then obtain e where e: "leaves sh i j = Some e" by blast
    then have "j < 2048" using sh unfolding shape_ok_def by metis
    then have "kv s e = 0" using pt_links(2) [OF pt m(1), of j] z e by simp
    then show False using pt_dir_facts [OF pt dirs_intros(3) [OF e]] by simp
  qed
  have "links_to s' (root sh) ((mids sh)(i := None))"
    using rt s'(7) [OF dn [OF rdir] i(2)] page_to_kvaddr_cong [OF base(1)] by (auto simp: links_to_def)
  moreover have "links_to s' h (leaves sh k)" if "mids sh k = Some h" "k \<noteq> i" for h k
  proof -
    have "h \<noteq> m" "h \<noteq> root sh" using sh m(1) that unfolding shape_ok_def by metis+
    then show ?thesis
      by (intro links_to_cong [OF md [OF that(1)] same [OF dirs_intros(2) [OF that(1)]] base(1)]) auto
  qed
  moreover have "[d] \<in> set (As1 @ As2) \<and> dir_ok s' d" if "d \<in> dirs ?sh" for d
    using dirs_drop_mid [OF sh m(1)] that dok [of d] s'(2,6) by auto
  moreover have "frames_ok s'" using fr base by (simp add: frames_ok_def)
  ultimately have "pt_inv s' (As1 @ As2) ?sh" using shape_ok_drop(2) [OF sh] empt by (auto simp: pt_inv_def)
  moreover have "pt_entry s' ?sh i' j' k = pt_entry s sh i' j' k" if k: "k < 2048" for i' j' k
  proof (cases "leaves sh i' j'")
    case (Some f)
    have "f \<noteq> m" "f \<noteq> root sh" using sh m(1) Some unfolding shape_ok_def by blast+
    then show ?thesis using same [OF dirs_intros(3) [OF Some] _ _ k] Some by (auto simp: pt_entry_def)
  qed (simp add: pt_entry_def)
  ultimately show ?thesis by (rule that [OF s'(1,3,4,5)])
qed


section \<open>New tables and other pages\<close>

abbreviation empty_shape :: "nat \<Rightarrow> pt_shape" where
  "empty_shape g \<equiv> \<lparr>root = g, mids = (\<lambda>_. None), leaves = (\<lambda>_ _. None)\<rparr>"

text \<open>A page global directory that has just been made is an empty table.\<close>

lemma pgdir_new_pt:
  assumes inv: "page_inv s F As" "F \<noteq> []" "frames_ok s"
  obtains s' where "pgdir_new asid s = Inr (Some (Pg (hd F)), s')" "page_inv s' (tl F) ([hd F] # As)"
    "page_frame s s'" "pt_inv s' ([hd F] # As) (empty_shape (hd F))"
    "\<And>d. d < nr_pages s \<Longrightarrow> d \<noteq> hd F \<Longrightarrow> pages s' (Pg d) = pages s (Pg d)"
proof -
  let ?n = "hd F"
  obtain s' where s': "pgdir_new asid s = Inr (Some (Pg ?n), s')" "page_inv s' (tl F) ([?n] # As)"
    "page_frame s s'" "\<forall>q. q \<noteq> Pg ?n \<longrightarrow> pages s' q = pages s q"
    "pg_type (pages s' (Pg ?n)) = PGTYPE_PGDIR" "pgdir_entries (pages s' (Pg ?n)) = 0"
    "mem s' = memset (kv s ?n) 0 PGSIZE (mem s)"
    using pgdir_new_ok [OF inv] by blast
  have n: "?n < nr_pages s" using inv(1,2) by (auto simp: page_inv_def free_list_def)
  have base: "highmem_base_pfn s' = highmem_base_pfn s" "nr_pages s' = nr_pages s"
    using s'(3) by (simp_all add: page_frame_def)
  have z: "ent s' ?n j = 0" if "j < 2048" for j
  proof -
    have "ent s' ?n j = ent (s\<lparr>mem := memset (kv s ?n) 0 PGSIZE (mem s)\<rparr>) ?n j"
      by (simp add: ent_def page_to_kvaddr_cong [OF base(1)] s'(7))
    then show ?thesis using ent_memset(1) [OF inv(3) n n that] by simp
  qed
  then have "dir_count s' ?n = 0" by (simp add: dir_count_def)
  then have "dir_ok s' ?n" using s'(5,6) n base by (simp add: dir_ok_def)
  moreover have "links_to s' ?n (\<lambda>_. None)" using z by (simp add: links_to_def)
  moreover have "frames_ok s'" using inv(3) base by (simp add: frames_ok_def)
  ultimately have "pt_inv s' ([?n] # As) (empty_shape ?n)"
    by (simp add: pt_inv_def shape_ok_def dirs_def)
  then show ?thesis using that s'(1-4) by blast
qed

lemma arch_mm_new_pgtable_inv:
  assumes inv: "page_inv s F As" "F \<noteq> []" "frames_ok s"
  obtains s' where "arch_mm_new_pgtable s = Inr (0, Some (kv s (hd F)), s')" "page_inv s' (tl F) ([hd F] # As)"
    "page_frame s s'" "pt_inv s' ([hd F] # As) (empty_shape (hd F))"
    "\<And>d. d < nr_pages s \<Longrightarrow> d \<noteq> hd F \<Longrightarrow> pages s' (Pg d) = pages s (Pg d)"
proof (rule pgdir_new_pt [OF inv, of "ucast ASID_INVALID"])
  fix s' assume s': "pgdir_new (ucast ASID_INVALID) s = Inr (Some (Pg (hd F)), s')" "page_inv s' (tl F) ([hd F] # As)"
    "page_frame s s'" "pt_inv s' ([hd F] # As) (empty_shape (hd F))"
    "\<And>d. d < nr_pages s \<Longrightarrow> d \<noteq> hd F \<Longrightarrow> pages s' (Pg d) = pages s (Pg d)"
  then have "page_to_kvaddr s' p = page_to_kvaddr s p" for p by (intro page_to_kvaddr_cong) (simp add: page_frame_def)
  then have "arch_mm_new_pgtable s = Inr (0, Some (kv s (hd F)), s')"
    using s'(1) by (simp add: arch_mm_new_pgtable_def)
  then show thesis by (rule that [OF _ s'(2-5)])
qed

text \<open>Freeing a page that is no directory of the table.\<close>

lemma pt_inv_pgfree:
  assumes pt: "pt_inv s As sh" and inv: "page_inv s F As" and q: "[q] \<in> set As" "q \<notin> dirs sh" "q < nr_pages s"
  obtains s' F' As' where "pgfree (Some (Pg q)) s = Inr s'" "page_inv s' F' As'" "set F' = insert q (set F)"
    "page_frame s s'" "pt_inv s' As' sh"
    "\<And>i j k. k < 2048 \<Longrightarrow> pt_entry s' sh i j k = pt_entry s sh i j k"
proof -
  have fr: "frames_ok s" and sh: "shape_ok sh" and dok: "\<And>d. d \<in> dirs sh \<Longrightarrow> [d] \<in> set As \<and> dir_ok s d"
    and rt: "links_to s (root sh) (mids sh)" and md: "\<And>i d. mids sh i = Some d \<Longrightarrow> links_to s d (leaves sh i)"
    using pt by (auto simp: pt_inv_def)
  obtain s' As' where s': "pgfree (Some (Pg q)) s = Inr s'" "page_inv s' (sorted_list_of_set (insert q (set F))) As'"
    "page_frame s s'" "mem s' = memset (kv s q) 1 PGSIZE (mem s)" "\<And>d. d \<noteq> q \<Longrightarrow> pages s' (Pg d) = pages s (Pg d)"
    "set As = insert [q] (set As')" "[q] \<notin> set As'"
    by (rule pgfree_inv [OF inv q(1)]) (rule that)
  have base: "highmem_base_pfn s' = highmem_base_pfn s" "nr_pages s' = nr_pages s"
    using s'(3) by (simp_all add: page_frame_def)
  have same: "ent s' h j = ent s h j" if "h \<in> dirs sh" "j < 2048" for h j
  proof -
    have h: "h < nr_pages s" "h \<noteq> q" using dok [OF that(1)] q(2) that(1) by (auto simp: dir_ok_def)
    have "ent s' h j = ent (s\<lparr>mem := memset (kv s q) 1 PGSIZE (mem s)\<rparr>) h j"
      by (simp add: ent_def page_to_kvaddr_cong [OF base(1)] s'(4))
    then show ?thesis using ent_memset(2) [OF fr q(3) h(1) that(2) h(2)] by simp
  qed
  have "[d] \<in> set As' \<and> dir_ok s' d" if d: "d \<in> dirs sh" for d
  proof -
    have "d \<noteq> q" using q(2) d by auto
    moreover have "dir_ok s' d"
    proof (rule dir_ok_cong [of s])
      show "dir_ok s d" using dok [OF d] by blast
      show "ent s' d j = ent s d j" if "j < 2048" for j by (rule same [OF d that])
      show "pages s' (Pg d) = pages s (Pg d)" by (rule s'(5)) fact
    qed (rule base)
    ultimately show ?thesis using dok [OF d] s'(6) by auto
  qed
  moreover have "links_to s' (root sh) (mids sh)" by (rule links_to_cong [OF rt same [OF dirs_intros(1)] base(1)])
  moreover have "links_to s' d (leaves sh i)" if "mids sh i = Some d" for i d
    by (rule links_to_cong [OF md [OF that] same [OF dirs_intros(2) [OF that]] base(1)])
  moreover have "frames_ok s'" using fr base by (simp add: frames_ok_def)
  ultimately have "pt_inv s' As' sh" using sh by (auto simp: pt_inv_def)
  moreover have "set (sorted_list_of_set (insert q (set F))) = insert q (set F)" by (subst set_sorted_list_of_set) auto
  moreover have "pt_entry s' sh i j k = pt_entry s sh i j k" if "k < 2048" for i j k
    using same [OF dirs_intros(3) that] by (auto simp: pt_entry_def split: option.splits)
  ultimately show ?thesis using that s'(1-3) by blast
qed

end
