(* ===== verification/Page_Table_Props.thy ===== *)
theory Page_Table_Props
  imports Page_Table_Inv Frames
begin

text \<open>
  The page table as a function from virtual addresses to entries (\<open>pte_at\<close>), and what mapping and
  unmapping a page do to it.
\<close>

section \<open>The table as a function of the virtual address\<close>

definition pte_at :: "'s mach_state_scheme \<Rightarrow> addr_t \<Rightarrow> addr_t \<Rightarrow> u64" where
  "pte_at s pgd vaddr =
     (let (ret, d) = pgtable_lookup (vaddr_split vaddr
            \<lparr>pd_pgd = pgd, pd_pmd = 0, pd_pte = 0, pd_pgx = 0, pd_pmx = 0, pd_ptx = 0\<rparr>) s
      in if ret = 0 then pde_get_entry s (pd_pte d) (pd_ptx d) else 0)"

definition same_page :: "addr_t \<Rightarrow> addr_t \<Rightarrow> bool" where
  "same_page v w \<longleftrightarrow> PGX v = PGX w \<and> PMX v = PMX w \<and> PTX v = PTX w"

lemma same_page_unat:
  "same_page v w \<longleftrightarrow> unat (PGX w) = unat (PGX v) \<and> unat (PMX w) = unat (PMX v) \<and> unat (PTX w) = unat (PTX v)"
  unfolding same_page_def by (metis unsigned_word_eqI)

lemma same_page_iff: "same_page v w \<longleftrightarrow> take_bit 47 (PGROUNDDOWN v) = take_bit 47 (PGROUNDDOWN w)"
proof -
  have a: "take_bit 47 (PGROUNDDOWN v) =
      push_bit PGD_OFFSET (PGX v) OR push_bit PMD_OFFSET (PMX v) OR push_bit PTE_OFFSET (PTX v)" for v
  proof (rule bit_word_eqI)
    fix n assume "n < LENGTH(64)"
    then show "bit (take_bit 47 (PGROUNDDOWN v)) n =
        bit (push_bit PGD_OFFSET (PGX v) OR push_bit PMD_OFFSET (PMX v) OR push_bit PTE_OFFSET (PTX v)) n"
      by (cases "36 \<le> n"; cases "25 \<le> n"; cases "14 \<le> n") (auto simp: split_alt PGROUNDDOWN_eq bit_simps)
  qed
  have b: "PGX v = drop_bit 36 (take_bit 47 (PGROUNDDOWN v))" "PMX v = take_bit 11 (drop_bit 25 (take_bit 47 (PGROUNDDOWN v)))"
    "PTX v = take_bit 11 (drop_bit 14 (take_bit 47 (PGROUNDDOWN v)))" for v
    by (rule bit_word_eqI; auto simp: split_alt PGROUNDDOWN_eq bit_simps)+
  show ?thesis
  proof
    assume "same_page v w"
    then show "take_bit 47 (PGROUNDDOWN v) = take_bit 47 (PGROUNDDOWN w)" unfolding a same_page_def by simp
  next
    assume eq: "take_bit 47 (PGROUNDDOWN v) = take_bit 47 (PGROUNDDOWN w)"
    show "same_page v w" unfolding same_page_def b eq by simp
  qed
qed

lemma split_PGROUNDDOWN [simp]: "PGX (PGROUNDDOWN v) = PGX v" "PMX (PGROUNDDOWN v) = PMX v" "PTX (PGROUNDDOWN v) = PTX v"
  by (rule bit_word_eqI; auto simp: split_alt PGROUNDDOWN_eq bit_simps)+

lemma ucast_of_index: "ucast (x :: u64) = (of_nat (unat x) :: u16)"
  by simp

lemma pte_at_shape:
  assumes "pt_inv s As sh"
  shows "pte_at s (kv s (root sh)) v = pt_entry s sh (unat (PGX v)) (unat (PMX v)) (unat (PTX v))"
proof (cases "mids sh (unat (PGX v))")
  case None
  have "leaves sh (unat (PGX v)) (unat (PMX v)) = None"
    using assms None unfolding pt_inv_def shape_ok_def by (metis not_None_eq)
  then show ?thesis
    using pt_links(1) [OF assms split_bounds(1), of v] None split_bounds(1) [of v]
    by (simp add: pte_at_def vaddr_split_def pgtable_lookup_def pde_get_entry_ent ucast_of_index pt_entry_def Let_def ENOENT_def del: of_nat_unat)
next
  case (Some d)
  have d: "kv s d \<noteq> 0" using pt_dir_facts [OF assms dirs_intros(2) [OF Some]] by simp
  note l = pt_links(1) [OF assms split_bounds(1), of v] pt_links(2) [OF assms Some split_bounds(2), of v]
  show ?thesis
  proof (cases "leaves sh (unat (PGX v)) (unat (PMX v))")
    case None
    then show ?thesis using l Some d split_bounds [of v]
      by (simp add: pte_at_def vaddr_split_def pgtable_lookup_def pde_get_entry_ent ucast_of_index pt_entry_def Let_def ENOENT_def del: of_nat_unat)
  next
    case (Some e)
    then have "kv s e \<noteq> 0" using pt_dir_facts [OF assms dirs_intros(3) [OF Some]] by simp
    then show ?thesis using l Some \<open>mids sh _ = _\<close> d split_bounds [of v]
      by (simp add: pte_at_def vaddr_split_def pgtable_lookup_def pde_get_entry_ent ucast_of_index pt_entry_def Let_def ENOENT_def del: of_nat_unat)
  qed
qed


section \<open>Inserting a mapping\<close>

lemma rbind_assoc: "rbind (rbind m f) g = rbind m (\<lambda>x. rbind (f x) g)"
  by (cases m) simp_all

text \<open>The pages two states of the table agree on, up to growth, give the same view.\<close>

lemma pt_grown_view:
  assumes "pt_inv s As sh" "pt_grown s F As sh s' F' As' sh'"
  shows "pte_at s' (kv s (root sh)) v = pte_at s (kv s (root sh)) v"
proof -
  have inv: "pt_inv s' As' sh'" and r: "root sh' = root sh" and b: "highmem_base_pfn s' = highmem_base_pfn s"
    using assms(2) by (simp_all add: pt_grown_def page_frame_def)
  have "kv s (root sh) = kv s' (root sh')" by (simp add: r page_to_kvaddr_cong [OF b])
  then have "pte_at s' (kv s (root sh)) v = pt_entry s' sh' (unat (PGX v)) (unat (PMX v)) (unat (PTX v))"
    using pte_at_shape [OF inv] by simp
  also have "\<dots> = pt_entry s sh (unat (PGX v)) (unat (PMX v)) (unat (PTX v))"
    using assms(2) split_bounds(3) by (simp add: pt_grown_def)
  finally show ?thesis using pte_at_shape [OF assms(1)] by simp
qed

definition pt_pages_needed :: "pt_shape \<Rightarrow> addr_t \<Rightarrow> nat" where
  "pt_pages_needed sh v = pt_need sh (unat (PGX v)) (unat (PMX v))"

definition old_mapping :: "'s mach_state_scheme \<Rightarrow> addr_t \<Rightarrow> addr_t \<Rightarrow> page_ptr option \<Rightarrow> bool" where
  "old_mapping s pgd v r \<longleftrightarrow>
     (case r of None \<Rightarrow> pte_at s pgd v = 0
      | Some p \<Rightarrow> page_ok s p \<and> (\<exists>perm. pte_at s pgd v = new_pte s p perm))"

lemma pgtable_insert_maps:
  assumes pt: "pt_inv s As sh" and inv: "page_inv s F As"
    and room: "pt_pages_needed sh v \<le> length F" and v: "PGROUNDDOWN v \<noteq> 0"
    and old: "old_mapping s (kv s (root sh)) v r" "r \<noteq> None \<longrightarrow> replace \<and> r \<noteq> Some p"
  obtains s' F' As' sh' where "pgtable_insert (kv s (root sh)) v p perm replace s = Inr (0, r, s')"
    "page_inv s' F' As'" "pt_inv s' As' sh'" "page_frame s s'" "root sh' = root sh"
    "\<exists>ns. F = ns @ F' \<and> As' = rev (map (\<lambda>n. [n]) ns) @ As"
    "\<And>w. pte_at s' (kv s (root sh)) w = (if same_page v w then new_pte s p perm else pte_at s (kv s (root sh)) w)"
    "dirs sh' \<subseteq> dirs sh \<union> set F"
proof -
  let ?pgd = "kv s (root sh)" and ?i = "unat (PGX v)" and ?j = "unat (PMX v)" and ?k = "unat (PTX v)"
  let ?v = "PGROUNDDOWN v"
  let ?d = "vaddr_split ?v \<lparr>pd_pgd = ?pgd, pd_pmd = 0, pd_pte = 0, pd_pgx = 0, pd_pmx = 0, pd_ptx = 0\<rparr>"
  have d: "pd_pgd ?d = ?pgd" "pd_pgx ?d = of_nat ?i" "pd_pmx ?d = of_nat ?j" "pd_ptx ?d = of_nat ?k"
    by (simp_all add: vaddr_split_def ucast_of_index del: of_nat_unat)
  have b: "?i < 2048" "?j < 2048" "?k < 2048" by (rule split_bounds)+
  from room have "pt_need sh ?i ?j \<le> length F" by (simp add: pt_pages_needed_def)
  then obtain s1 F1 As1 sh1 m e where s1: "pgtable_create ?d s = Inr (0, ?d\<lparr>pd_pmd := kv s m, pd_pte := kv s e\<rparr>, s1)"
    "pt_grown s F As sh s1 F1 As1 sh1" "leaves sh1 ?i ?j = Some e"
    by (rule pgtable_create_ok [OF pt inv b(1,2) _ d(1-3)]) (rule that)
  have g1: "pt_inv s1 As1 sh1" "page_inv s1 F1 As1" "root sh1 = root sh" and base: "highmem_base_pfn s1 = highmem_base_pfn s" "nr_pages s1 = nr_pages s"
    using s1(2) by (simp_all add: pt_grown_def page_frame_def)
  have kv: "page_to_kvaddr s1 q = page_to_kvaddr s q" for q by (rule page_to_kvaddr_cong [OF base(1)])
  have np: "new_pte s1 q f = new_pte s q f" for q f by (simp add: new_pte_def PAGE_TO_PADDR_cong [OF base(1)])
  have "pte_at s1 ?pgd v = pt_entry s1 sh1 ?i ?j ?k" using pte_at_shape [OF g1(1), of v] g1(3) kv by simp
  then have cur: "ent s1 e ?k = pte_at s ?pgd v" using pt_grown_view [OF pt s1(2)] s1(3) by (simp add: pt_entry_def)
  define flags where fl: "flags = ((perm AND (PTE_LOWMASK - PTE_CACHE_MASK)) OR (PTE_CACHEABLE OR PTE_PHYS))"
  have "pgtable_get ?pgd ?v True s = Inr (0, ?d\<lparr>pd_pmd := kv s m, pd_pte := kv s e\<rparr>, s1)"
    by (simp add: pgtable_get_def s1(1) Let_def)
  then obtain D where D: "pgtable_get ?pgd ?v True s = Inr (0, D, s1)" "pd_pte D = kv s e" "pd_ptx D = of_nat ?k"
    using d(4) by simp
  have idx: "pde_get_entry s1 (kv s e) (of_nat ?k) = ent s1 e ?k"
    using pde_get_entry_ent [OF b(3), of s1 e] by (simp add: kv)
  text \<open>First the old entry goes, if there is one.\<close>
  obtain s2 where s2: "(if pte_at s ?pgd v \<noteq> 0 then rbind (PADDR_TO_PAGE s1 (pte_at s ?pgd v)) (\<lambda>q. Inr (q \<noteq> p)) else Inr False) =
       Inr (r \<noteq> None)"
    "(if r \<noteq> None then rbind (pde_remove_entry (kv s e) (of_nat ?k) s1) (\<lambda>(a, s). rbind (kvaddr_to_page s a) (\<lambda>p. Inr (p, s)))
      else Inr (None, s1)) = Inr (r, s2)"
    "pt_inv s2 As1 sh1" "page_inv s2 F1 As1" "page_frame s1 s2"
    "\<And>i' j' k'. k' < 2048 \<Longrightarrow>
      pt_entry s2 sh1 i' j' k' = (if i' = ?i \<and> j' = ?j \<and> k' = ?k then 0 else pt_entry s1 sh1 i' j' k')"
  proof (cases r)
    case None
    then have "pt_entry s1 sh1 ?i ?j ?k = 0" using old(1) cur s1(3) by (simp add: old_mapping_def pt_entry_def)
    then show ?thesis using that [of s1] g1 None old(1) by (auto simp: old_mapping_def page_frame_def)
  next
    case (Some q')
    then obtain q pm where q: "q' = Pg q" "q < nr_pages s" "pte_at s ?pgd v = new_pte s (Pg q) pm"
      using old(1) by (cases q') (auto simp: old_mapping_def)
    have "ent s1 e ?k = new_pte s1 (Pg q) pm" "q < nr_pages s1" using cur q(2,3) base np by simp_all
    then obtain s2 where s2: "pde_remove_entry (kv s1 e) (of_nat ?k) s1 = Inr (kv s1 q, s2)"
      "pt_inv s2 As1 sh1" "page_inv s2 F1 As1" "page_frame s1 s2"
      "\<And>i' j' k'. k' < 2048 \<Longrightarrow>
        pt_entry s2 sh1 i' j' k' = (if i' = ?i \<and> j' = ?j \<and> k' = ?k then 0 else pt_entry s1 sh1 i' j' k')"
      by (rule remove_leaf_entry [OF g1(1,2) s1(3) b(3)]) (rule that)
    have b2: "highmem_base_pfn s2 = highmem_base_pfn s1" "nr_pages s2 = nr_pages s1" using s2(4) by (simp_all add: page_frame_def)
    have "kvaddr_to_page s2 (kv s2 q) = Inr (Some (Pg q))"
      by (rule kvaddr_to_page_kv) (use s2(2) q(2) base b2 in \<open>simp_all add: pt_inv_def\<close>)
    then have gone: "kvaddr_to_page s2 (kv s1 q) = Inr r" using Some q(1) page_to_kvaddr_cong [OF b2(1)] by simp
    have "PADDR_TO_PAGE s1 (new_pte s1 (Pg q) pm) = Inr (Pg q)"
      by (rule new_pte_page) (use g1(1) q(2) base in \<open>simp_all add: pt_inv_def\<close>)
    then have "PADDR_TO_PAGE s1 (pte_at s ?pgd v) = Inr q'" using q np by simp
    moreover have "q' \<noteq> p" using old(2) Some by auto
    ultimately show ?thesis using that [OF _ _ s2(2-5)] s2(1) gone q(3) Some by (simp add: kv)
  qed
  have kv2: "page_to_kvaddr s2 q = page_to_kvaddr s q" for q
    using page_to_kvaddr_cong [of s2 s1] s2(5) kv by (simp add: page_frame_def)
  have np2: "new_pte s2 q f = new_pte s q f" for q f
    using PAGE_TO_PADDR_cong [of s2 s1] PAGE_TO_PADDR_cong [OF base(1)] s2(5) by (simp add: new_pte_def page_frame_def)
  have "ent s2 e ?k = 0" using s2(6) [OF b(3), of ?i ?j] s1(3) by (simp add: pt_entry_def)
  then obtain s3 where s3: "pde_add_entry (kv s2 e) (of_nat ?k) p flags s2 = Inr (page_to_kvaddr s2 (Some p), s3)"
    "pt_inv s3 As1 sh1" "page_inv s3 F1 As1" "page_frame s2 s3"
    "\<And>i' j' k'. k' < 2048 \<Longrightarrow>
      pt_entry s3 sh1 i' j' k' = (if i' = ?i \<and> j' = ?j \<and> k' = ?k then new_pte s2 p perm else pt_entry s2 sh1 i' j' k')"
    by (rule add_leaf_entry [OF s2(3,4) s1(3) b(3) _ fl]) (rule that)
  have res: "pgtable_insert ?pgd v p perm replace s = Inr (0, r, s3)"
  proof (cases r)
    case None
    then have "pte_at s ?pgd v = 0" using old(1) by (simp add: old_mapping_def)
    then show ?thesis using None v D s2(2) s3(1) idx cur
      by (simp add: pgtable_insert_def Let_def kv2 fl del: of_nat_unat)
  next
    case (Some q)
    then have "pte_at s ?pgd v \<noteq> 0" using old(1) by (auto simp: old_mapping_def)
    then show ?thesis using Some v D s2(1,2) s3(1) idx cur old(2)
      by (simp add: pgtable_insert_def Let_def kv2 fl del: of_nat_unat)
  qed
  have b3: "highmem_base_pfn s3 = highmem_base_pfn s" "page_frame s s3"
    using s1(2) s2(5) s3(4) by (simp_all add: pt_grown_def page_frame_def)
  have "pte_at s3 ?pgd w = (if same_page v w then new_pte s p perm else pte_at s ?pgd w)" for w
  proof -
    have "pte_at s3 ?pgd w = pt_entry s3 sh1 (unat (PGX w)) (unat (PMX w)) (unat (PTX w))"
      using pte_at_shape [OF s3(2), of w] g1(3) page_to_kvaddr_cong [OF b3(1)] by simp
    also have "\<dots> = (if same_page v w then new_pte s p perm else pt_entry s1 sh1 (unat (PGX w)) (unat (PMX w)) (unat (PTX w)))"
      using s3(5) [OF split_bounds(3), of _ _ w] s2(6) [OF split_bounds(3), of _ _ w] np2 by (simp add: same_page_unat)
    also have "pt_entry s1 sh1 (unat (PGX w)) (unat (PMX w)) (unat (PTX w)) = pte_at s ?pgd w"
      using pte_at_shape [OF g1(1), of w] g1(3) kv pt_grown_view [OF pt s1(2)] by simp
    finally show ?thesis .
  qed
  then show ?thesis using that [OF res s3(3,2) b3(2) g1(3)] s1(2) by (auto simp: pt_grown_def)
qed


section \<open>Removing a mapping\<close>

lemma pde_empty_iff:
  assumes "pt_inv s As sh" "d \<in> dirs sh"
  shows "pde_empty s (kv s d) = Inr (dir_count s d = 0)"
proof -
  note f = pt_dir_facts [OF assms]
  have "card {i. i < 2048 \<and> ent s d i \<noteq> 0} \<le> card {..<2048::nat}" by (rule card_mono) auto
  then have "dir_count s d \<le> 2048" by (simp add: dir_count_def)
  then have u: "unat (of_nat (dir_count s d) :: u32) = dir_count s d" by (simp add: unat_of_nat)
  have z: "(of_nat (dir_count s d) :: u32) = 0 \<longleftrightarrow> dir_count s d = 0"
  proof
    assume "(of_nat (dir_count s d) :: u32) = 0"
    then have "unat (of_nat (dir_count s d) :: u32) = 0" by (simp only: unat_0)
    then show "dir_count s d = 0" by (simp only: u)
  qed simp
  have "pgdir_entries (pages s (Pg d)) = of_nat (dir_count s d)" using f(3) by (simp add: dir_ok_def)
  moreover have "pde_empty s (kv s d) = Inr (pgdir_entries (pages s (Pg d)) = 0)"
    using f by (simp add: pde_empty_def pgdir_empty_def)
  ultimately show ?thesis using z by (simp only:)
qed

text \<open>
  The two steps of \<^verbatim>\<open>pgtable_remove\<close> that give a directory back: it goes exactly when it has no
  entry left.
\<close>

lemma shrink_leaf:
  assumes pt: "pt_inv s As sh" and inv: "page_inv s F As" and m: "mids sh i = Some m" "leaves sh i j = Some e"
  obtains s' F' As' sh' where
    "rbind (pde_empty s (kv s e)) (\<lambda>x. if x then pde_remove_pgdir (kv s m) (of_nat j) s else Inr s) = Inr s'"
    "page_inv s' F' As'" "pt_inv s' As' sh'" "page_frame s s'" "root sh' = root sh" "mids sh' = mids sh"
    "leaves sh' i j = None \<and> dirs sh' = dirs sh - {e} \<and> set F' = insert e (set F) \<or>
     leaves sh' i j = Some e \<and> dir_count s' e \<noteq> 0 \<and> dirs sh' = dirs sh \<and> set F' = set F"
    "\<And>i' j' k. k < 2048 \<Longrightarrow> pt_entry s' sh' i' j' k = pt_entry s sh i' j' k"
proof (cases "dir_count s e = 0")
  case True
  obtain s' F' As' where d: "pde_remove_pgdir (kv s m) (of_nat j) s = Inr s'"
    "page_inv s' F' As'" "set F' = insert e (set F)" "page_frame s s'"
    "pt_inv s' As' (sh\<lparr>leaves := (leaves sh)(i := (leaves sh i)(j := None))\<rparr>)"
    "\<And>i' j' k. k < 2048 \<Longrightarrow>
       pt_entry s' (sh\<lparr>leaves := (leaves sh)(i := (leaves sh i)(j := None))\<rparr>) i' j' k = pt_entry s sh i' j' k"
    by (rule pt_drop_leaf [OF pt inv m True]) (rule that)
  have "shape_ok sh" using pt by (simp add: pt_inv_def)
  note eq = dirs_drop_leaf_eq [OF this m(2)]
  show ?thesis
    by (rule that [OF _ d(2,5,4) _ _ _ d(6)])
      (use d(1,3) eq in \<open>simp_all add: pde_empty_iff [OF pt dirs_intros(3) [OF m(2)]] True\<close>)
next
  case False
  show ?thesis
    by (rule that [of s F As sh])
      (simp_all add: pde_empty_iff [OF pt dirs_intros(3) [OF m(2)]] False m pt inv page_frame_def)
qed

lemma shrink_mid:
  assumes pt: "pt_inv s As sh" and inv: "page_inv s F As" and m: "mids sh i = Some m"
  obtains s' F' As' sh' where
    "rbind (pde_empty s (kv s m)) (\<lambda>x. if x then pde_remove_pgdir (kv s (root sh)) (of_nat i) s else Inr s) = Inr s'"
    "page_inv s' F' As'" "pt_inv s' As' sh'" "page_frame s s'" "root sh' = root sh" "leaves sh' = leaves sh"
    "dirs sh' = dirs sh - {m} \<and> set F' = insert m (set F) \<or> dir_count s' m \<noteq> 0 \<and> dirs sh' = dirs sh \<and> set F' = set F"
    "\<And>i' j' k. k < 2048 \<Longrightarrow> pt_entry s' sh' i' j' k = pt_entry s sh i' j' k"
proof (cases "dir_count s m = 0")
  case True
  obtain s' F' As' where d: "pde_remove_pgdir (kv s (root sh)) (of_nat i) s = Inr s'"
    "page_inv s' F' As'" "set F' = insert m (set F)" "page_frame s s'" "pt_inv s' As' (sh\<lparr>mids := (mids sh)(i := None)\<rparr>)"
    "\<And>i' j' k. k < 2048 \<Longrightarrow> pt_entry s' (sh\<lparr>mids := (mids sh)(i := None)\<rparr>) i' j' k = pt_entry s sh i' j' k"
    by (rule pt_drop_mid [OF pt inv m True]) (rule that)
  have "shape_ok sh" using pt by (simp add: pt_inv_def)
  note eq = dirs_drop_mid_eq [OF this m]
  show ?thesis
    by (rule that [OF _ d(2,5,4) _ _ _ d(6)])
      (use d(1,3) eq in \<open>simp_all add: pde_empty_iff [OF pt dirs_intros(2) [OF m]] True\<close>)
next
  case False
  show ?thesis
    by (rule that [of s F As sh])
      (simp_all add: pde_empty_iff [OF pt dirs_intros(2) [OF m]] False pt inv page_frame_def)
qed

lemma pt_inv_same_kstate:
  assumes "pages s' = pages s" "plinks s' = plinks s" "nr_free_pages s' = nr_free_pages s" "nr_pages s' = nr_pages s"
    "highmem_base_pfn s' = highmem_base_pfn s" "mem s' = mem s"
  shows "pt_inv s' As sh = pt_inv s As sh" "page_inv s' F As = page_inv s F As" "ent s' g i = ent s g i"
proof -
  have kv: "page_to_kvaddr s' = page_to_kvaddr s" by (rule ext, rule page_to_kvaddr_cong [OF assms(5)])
  show ent: "ent s' g i = ent s g i" for g i by (simp add: ent_def kv assms)
  then have "dir_count s' = dir_count s" by (simp add: dir_count_def fun_eq_iff)
  then show "pt_inv s' As sh = pt_inv s As sh"
    using kv ent assms by (simp add: pt_inv_def frames_ok_def dir_ok_def links_to_def)
  show "page_inv s' F As = page_inv s F As"
    by (simp add: page_inv_def free_list_def alloc_set_def assms)
qed


text \<open>The directories below the root that the look-up of an address goes through.\<close>

definition pt_path :: "pt_shape \<Rightarrow> addr_t \<Rightarrow> nat set" where
  "pt_path sh v = set_option (mids sh (unat (PGX v))) \<union> set_option (leaves sh (unat (PGX v)) (unat (PMX v)))"

text \<open>
  What removing a mapping does to the directories: those that leave the table are on the path of
  the address and go to the free list; those of the path that stay have an entry.
\<close>

definition dirs_given_back :: "'s kstate_scheme \<Rightarrow> pt_shape \<Rightarrow> pt_shape \<Rightarrow> addr_t \<Rightarrow> nat list \<Rightarrow> nat list \<Rightarrow> bool" where
  "dirs_given_back s' sh sh' v F F' \<longleftrightarrow> dirs sh' \<subseteq> dirs sh \<and> dirs sh - dirs sh' \<subseteq> pt_path sh v \<and>
     set F' = set F \<union> (dirs sh - dirs sh') \<and> (\<forall>d\<in>pt_path sh v \<inter> dirs sh'. dir_count s' d \<noteq> 0)"

lemma pgtable_remove_unmaps:
  assumes pt: "pt_inv s As sh" and inv: "page_inv s F As" and p: "p < nr_pages s"
    and old: "pte_at s (kv s (root sh)) v = new_pte s (Pg p) perm"
  obtains s' F' As' sh' where "pgtable_remove (kv s (root sh)) v s = Inr (Some (Pg p), tlb_remove v s')"
    "page_inv s' F' As'" "pt_inv s' As' sh'" "page_frame s s'" "root sh' = root sh" "dirs_given_back s' sh sh' v F F'"
    "\<And>w. pte_at s' (kv s (root sh)) w = (if same_page v w then 0 else pte_at s (kv s (root sh)) w)"
proof -
  let ?pgd = "kv s (root sh)" and ?i = "unat (PGX v)" and ?j = "unat (PMX v)" and ?k = "unat (PTX v)"
  have b: "?i < 2048" "?j < 2048" "?k < 2048" by (rule split_bounds)+
  have "pt_entry s sh ?i ?j ?k = new_pte s (Pg p) perm" using pte_at_shape [OF pt, of v] old by simp
  then obtain e where e: "leaves sh ?i ?j = Some e" "ent s e ?k = new_pte s (Pg p) perm"
    by (cases "leaves sh ?i ?j") (auto simp: pt_entry_def new_pte_nonzero [symmetric])
  obtain m where m: "mids sh ?i = Some m"
    using pt e(1) unfolding pt_inv_def shape_ok_def by (metis not_None_eq)
  note me = dirs_intros(2) [OF m] dirs_intros(3) [OF e(1)]
  have nz: "kv s m \<noteq> 0" "kv s e \<noteq> 0" using pt_dir_facts [OF pt me(1)] pt_dir_facts [OF pt me(2)] by simp_all
  have l: "ent s (root sh) ?i = kv s m" "ent s m ?j = kv s e"
    using pt_links(1) [OF pt b(1)] pt_links(2) [OF pt m b(2)] m e(1) by simp_all
  obtain D where D: "pgtable_get ?pgd v False s = Inr (0, D, s)" "pd_pgd D = ?pgd" "pd_pmd D = kv s m" "pd_pte D = kv s e"
    "pd_pgx D = of_nat ?i" "pd_pmx D = of_nat ?j" "pd_ptx D = of_nat ?k"
  proof (rule that)
    let ?d = "\<lparr>pd_pgd = ?pgd, pd_pmd = kv s m, pd_pte = kv s e, pd_pgx = of_nat ?i, pd_pmx = of_nat ?j, pd_ptx = of_nat ?k\<rparr>"
    show "pgtable_get ?pgd v False s = Inr (0, ?d, s)"
      using l nz pde_get_entry_ent [OF b(1), of s "root sh"] pde_get_entry_ent [OF b(2), of s m]
      by (simp add: pgtable_get_def vaddr_split_def pgtable_lookup_def Let_def ucast_of_index del: of_nat_unat)
  qed simp_all
  obtain s1 where s1: "pde_remove_entry (kv s e) (of_nat ?k) s = Inr (kv s p, s1)"
    "pt_inv s1 As sh" "page_inv s1 F As" "page_frame s s1"
    "\<And>i' j' k'. k' < 2048 \<Longrightarrow>
      pt_entry s1 sh i' j' k' = (if i' = ?i \<and> j' = ?j \<and> k' = ?k then 0 else pt_entry s sh i' j' k')"
    by (rule remove_leaf_entry [OF pt inv e(1) b(3) e(2) p]) (rule that)
  have kv1: "page_to_kvaddr s1 q = page_to_kvaddr s q" for q
    using s1(4) by (intro page_to_kvaddr_cong) (simp add: page_frame_def)
  obtain s2 F2 As2 sh2 where s2:
    "rbind (pde_empty s1 (kv s1 e)) (\<lambda>x. if x then pde_remove_pgdir (kv s1 m) (of_nat ?j) s1 else Inr s1) = Inr s2"
    "page_inv s2 F2 As2" "pt_inv s2 As2 sh2" "page_frame s1 s2" "root sh2 = root sh" "mids sh2 = mids sh"
    "leaves sh2 ?i ?j = None \<and> dirs sh2 = dirs sh - {e} \<and> set F2 = insert e (set F) \<or>
     leaves sh2 ?i ?j = Some e \<and> dir_count s2 e \<noteq> 0 \<and> dirs sh2 = dirs sh \<and> set F2 = set F"
    "\<And>i' j' k. k < 2048 \<Longrightarrow> pt_entry s2 sh2 i' j' k = pt_entry s1 sh i' j' k"
    by (rule shrink_leaf [OF s1(2,3) m e(1)]) (rule that)
  have kv2: "page_to_kvaddr s2 q = page_to_kvaddr s q" for q
    using s2(4) kv1 page_to_kvaddr_cong [of s2 s1] by (simp add: page_frame_def)
  have m2: "mids sh2 ?i = Some m" using s2(6) m by simp
  obtain s3 F3 As3 sh3 where s3:
    "rbind (pde_empty s2 (kv s2 m)) (\<lambda>x. if x then pde_remove_pgdir (kv s2 (root sh2)) (of_nat ?i) s2 else Inr s2) = Inr s3"
    "page_inv s3 F3 As3" "pt_inv s3 As3 sh3" "page_frame s2 s3" "root sh3 = root sh2" "leaves sh3 = leaves sh2"
    "dirs sh3 = dirs sh2 - {m} \<and> set F3 = insert m (set F2) \<or> dir_count s3 m \<noteq> 0 \<and> dirs sh3 = dirs sh2 \<and> set F3 = set F2"
    "\<And>i' j' k. k < 2048 \<Longrightarrow> pt_entry s3 sh3 i' j' k = pt_entry s2 sh2 i' j' k"
    by (rule shrink_mid [OF s2(3,2) m2]) (rule that)
  have fr: "page_frame s s3" using s1(4) s2(4) s3(4) by (simp add: page_frame_def)
  have "kvaddr_to_page s1 (kv s1 p) = Inr (Some (Pg p))"
    by (rule kvaddr_to_page_kv) (use s1(2,4) p in \<open>simp_all add: pt_inv_def page_frame_def\<close>)
  then have gone: "kvaddr_to_page s1 (kv s p) = Inr (Some (Pg p))" by (simp add: kv1)
  have res: "pgtable_remove ?pgd v s = Inr (Some (Pg p), tlb_remove v s3)"
  proof -
    define s0 where "s0 = s"
    have kv0: "page_to_kvaddr s0 q = page_to_kvaddr s q" for q by (simp add: s0_def)
    have "pde_get_entry s (kv s e) (of_nat ?k) \<noteq> 0" using pde_get_entry_ent [OF b(3), of s e] e(2) by simp
    then have "pgtable_remove ?pgd v s =
        rbind (pde_empty s1 (kv s e)) (\<lambda>x. rbind (if x then pde_remove_pgdir (kv s m) (of_nat ?j) s1 else Inr s1) (\<lambda>s.
        rbind (pde_empty s (kv s0 m)) (\<lambda>x. rbind (if x then pde_remove_pgdir (kv s0 (root sh)) (of_nat ?i) s else Inr s) (\<lambda>s.
        Inr (Some (Pg p), tlb_remove v s)))))"
      unfolding pgtable_remove_def D rbind_Inr prod.case s0_def using nz s1(1) gone by (simp del: of_nat_unat)
    also have "\<dots> = rbind (rbind (pde_empty s1 (kv s1 e)) (\<lambda>x. if x then pde_remove_pgdir (kv s1 m) (of_nat ?j) s1 else Inr s1)) (\<lambda>s.
        rbind (pde_empty s (kv s0 m)) (\<lambda>x. rbind (if x then pde_remove_pgdir (kv s0 (root sh)) (of_nat ?i) s else Inr s) (\<lambda>s.
        Inr (Some (Pg p), tlb_remove v s))))"
      by (simp only: rbind_assoc kv1)
    also have "\<dots> = rbind (rbind (pde_empty s2 (kv s2 m)) (\<lambda>x. if x then pde_remove_pgdir (kv s2 (root sh2)) (of_nat ?i) s2 else Inr s2)) (\<lambda>s.
        Inr (Some (Pg p), tlb_remove v s))"
      by (simp only: rbind_assoc kv2 kv0 s2(1,5) rbind_Inr)
    finally show ?thesis by (simp only: s3(1) rbind_Inr)
  qed
  have "pte_at s3 ?pgd w = (if same_page v w then 0 else pte_at s ?pgd w)" for w
  proof -
    have "?pgd = kv s3 (root sh3)" using s3(5) s2(5) fr page_to_kvaddr_cong [of s3 s] by (simp add: page_frame_def)
    then have "pte_at s3 ?pgd w = pt_entry s3 sh3 (unat (PGX w)) (unat (PMX w)) (unat (PTX w))"
      using pte_at_shape [OF s3(3), of w] by simp
    also have "\<dots> = pt_entry s1 sh (unat (PGX w)) (unat (PMX w)) (unat (PTX w))"
      using s3(8) [OF split_bounds(3), of _ _ w] s2(8) [OF split_bounds(3), of _ _ w] by simp
    also have "\<dots> = (if same_page v w then 0 else pt_entry s sh (unat (PGX w)) (unat (PMX w)) (unat (PTX w)))"
      using s1(5) [OF split_bounds(3), of _ _ w] by (simp add: same_page_unat)
    finally show ?thesis using pte_at_shape [OF pt, of w] by simp
  qed
  moreover have "dirs_given_back s3 sh sh3 v F F3"
  proof -
    have path: "pt_path sh v = {m, e}" using m e(1) by (auto simp: pt_path_def)
    have "dir_count s3 e = dir_count s2 e" if "leaves sh2 ?i ?j = Some e"
      using s3(8) [of _ ?i ?j] s3(6) that by (intro dir_count_cong) (simp add: pt_entry_def)
    moreover have "m \<noteq> e" using pt m e(1) unfolding pt_inv_def shape_ok_def by metis
    ultimately show ?thesis using s2(7) s3(7) me unfolding dirs_given_back_def path by auto
  qed
  moreover have "root sh3 = root sh" using s3(5) s2(5) by simp
  ultimately show ?thesis using that [OF res s3(2,3) fr] by blast
qed


section \<open>Mapping over a mapping\<close>

lemma tlb_more: "kstate.more s' = kstate.more s \<Longrightarrow> tlb (s' :: 's mach_state_scheme) = tlb s"
  by (cases s; cases s') simp

lemma tlb_of_frame: "page_frame s s' \<Longrightarrow> tlb (s' :: 's mach_state_scheme) = tlb s"
  by (cases s; cases s') (simp add: page_frame_def)

lemma arch_map_page_replaces:
  assumes pt: "pt_inv s As sh" and inv: "page_inv s F As"
    and room: "pt_pages_needed sh v \<le> length F" and v: "PGROUNDDOWN v \<noteq> 0"
    and old: "pte_at s (kv s (root sh)) v = new_pte s (Pg q) perm'" "q < nr_pages s" "q \<noteq> p" "[q] \<in> set As" "q \<notin> dirs sh"
  obtains s' F' As' sh' where "arch_map_page (kv s (root sh)) v (Pg p) perm s = Inr (0, s')"
    "page_inv s' F' As'" "pt_inv s' As' sh'" "root sh' = root sh" "q \<in> set F'" "tlb s' = tlb s"
    "pte_at s' (kv s (root sh)) v = new_pte s (Pg p) perm"
proof -
  have om: "old_mapping s (kv s (root sh)) v (Some (Pg q))" "Some (Pg q) \<noteq> None \<longrightarrow> True \<and> Some (Pg q) \<noteq> Some (Pg p)"
    using old(1-3) by (auto simp: old_mapping_def)
  obtain s1 F1 As1 sh1 where s1: "pgtable_insert (kv s (root sh)) v (Pg p) perm True s = Inr (0, Some (Pg q), s1)"
    "page_inv s1 F1 As1" "pt_inv s1 As1 sh1" "page_frame s s1" "root sh1 = root sh"
    "\<exists>ns. F = ns @ F1 \<and> As1 = rev (map (\<lambda>n. [n]) ns) @ As"
    "\<And>w. pte_at s1 (kv s (root sh)) w = (if same_page v w then new_pte s (Pg p) perm else pte_at s (kv s (root sh)) w)"
    "dirs sh1 \<subseteq> dirs sh \<union> set F"
    by (rule pgtable_insert_maps [OF pt inv room v om]) (rule that)
  have "q \<notin> set F" using old(4) inv by (force simp: page_inv_def)
  then have q1: "q \<notin> dirs sh1" using s1(8) old(5) by blast
  obtain ns where "As1 = rev (map (\<lambda>n. [n]) ns) @ As" using s1(6) by blast
  then have q2: "[q] \<in> set As1" using old(4) by simp
  have q3: "q < nr_pages s1" using s1(4) old(2) by (simp add: page_frame_def)
  obtain s2 F2 As2 where s2: "pgfree (Some (Pg q)) s1 = Inr s2" "page_inv s2 F2 As2" "set F2 = insert q (set F1)"
    "page_frame s1 s2" "pt_inv s2 As2 sh1"
    "\<And>i j k. k < 2048 \<Longrightarrow> pt_entry s2 sh1 i j k = pt_entry s1 sh1 i j k"
    by (rule pt_inv_pgfree [OF s1(3,2) q2 q1 q3]) (rule that)
  have fr: "page_frame s s2" using s1(4) s2(4) by (simp add: page_frame_def)
  have kv: "page_to_kvaddr s2 x = page_to_kvaddr s x" "page_to_kvaddr s1 x = page_to_kvaddr s x" for x
    by (rule page_to_kvaddr_cong, use fr s1(4) in \<open>simp add: page_frame_def\<close>)+
  have "pte_at s2 (kv s (root sh)) v = pte_at s1 (kv s (root sh)) v"
    using pte_at_shape [OF s2(5), of v] pte_at_shape [OF s1(3), of v] s2(6) [OF split_bounds(3)] by (simp add: kv s1(5))
  then have "pte_at s2 (kv s (root sh)) v = new_pte s (Pg p) perm" using s1(7) [of v] by (simp add: same_page_def)
  moreover have "arch_map_page (kv s (root sh)) v (Pg p) perm s = Inr (0, s2)"
    using s1(1) s2(1) by (simp add: arch_map_page_def)
  ultimately show ?thesis using that [of s2 F2 As2 sh1] s2(2,3,5) s1(5) tlb_of_frame [OF fr] by auto
qed


section \<open>Properties\<close>

text \<open>A machine with ten pages: one handed out, one an empty table, seven free.\<close>

lemma boot_table:
  fixes m :: "'s mach_state_scheme"
  assumes m: "highmem_base_pfn m = 0x24000"
  obtains s :: "'s mach_state_scheme" where "page_inv s [3, 4, 5, 6, 7, 8, 9] [[2], [1]]" "pt_inv s [[2], [1]] (empty_shape 2)"
    "nr_pages s = 10" "kstate.more s = kstate.more m" "highmem_base_pfn s = 0x24000"
proof -
  have k: "1 = unat (NR_PAGES_NEEDED (of_nat 10 * sizeof_page))" using array_pages_bound(2) [of 10] by simp
  have e: "[1..<10] = [1::nat, 2, 3, 4, 5, 6, 7, 8, 9]" by (simp add: upt_rec)
  obtain s0 :: "'s mach_state_scheme" where s0: "page_inv s0 [1, 2, 3, 4, 5, 6, 7, 8, 9] []" "nr_pages s0 = 10"
    "highmem_base_pfn s0 = highmem_base_pfn m" "kstate.more s0 = kstate.more m"
    using init_page_array_inv [of 10 1 m, OF _ k] unfolding e by auto
  obtain s where s: "page_inv s [2, 3, 4, 5, 6, 7, 8, 9] [[1]]" "page_frame s0 s"
    using alloc_pages_inv [OF s0(1), of 1] by auto
  have fr: "frames_ok s" using s(2) s0(2,3) m by (simp add: frames_ok_def page_frame_def)
  obtain s' where s': "page_inv s' (tl [2, 3, 4, 5, 6, 7, 8, 9]) ([hd [2, 3, 4, 5, 6, 7, 8, 9]] # [[1]])" "page_frame s s'"
    "pt_inv s' ([hd [2, 3, 4, 5, 6, 7, 8, 9]] # [[1]]) (empty_shape (hd [2, 3, 4, 5, 6, 7, 8, 9]))"
    by (rule arch_mm_new_pgtable_inv [OF s(1) _ fr]) (simp, rule that)
  have "kstate.more s' = kstate.more m" using s'(2) s(2) s0(4) by (simp add: page_frame_def)
  moreover have "nr_pages s' = 10" "highmem_base_pfn s' = 0x24000" using s'(2) s(2) s0(2,3) m by (simp_all add: page_frame_def)
  ultimately show ?thesis using that s'(1,3) by simp
qed

lemma boot_mach_base: "highmem_base_pfn boot_mach = 0x24000"
  by (simp add: boot_mach_def boot_kmem_def kmem_state.defs)

lemma mapped_needs_none:
  assumes "pt_inv s As sh" "pte_at s (kv s (root sh)) v \<noteq> 0"
  shows "pt_pages_needed sh v = 0"
proof -
  have "leaves sh (unat (PGX v)) (unat (PMX v)) \<noteq> None"
    using assms(2) unfolding pte_at_shape [OF assms(1)] pt_entry_def by (auto split: option.splits)
  moreover from this have "mids sh (unat (PGX v)) \<noteq> None"
    using assms(1) unfolding pt_inv_def shape_ok_def by blast
  ultimately show ?thesis by (simp add: pt_pages_needed_def pt_need_def)
qed

lemma va_page: "PGROUNDDOWN 0x14000 \<noteq> 0"
  by (simp add: PGROUNDDOWN_eq)

lemma va_apart: "\<not> same_page 0x14000 0x10000"
  by (simp add: same_page_def PTX_alt)

lemma va_same: "same_page v v"
  by (simp add: same_page_def)

lemma pte_at_empty: "pt_inv s As (empty_shape g) \<Longrightarrow> pte_at s (kv s g) v = 0"
  using pte_at_shape [of s As "empty_shape g" v] by (simp add: pt_entry_def)

text \<open>
  Property C5. \<^verbatim>\<open>pgtable_insert\<close> on a well-formed page table, with enough free pages for the
  directories it lacks, at an address whose page is not page 0, where nothing is mapped or another
  page than the one inserted with \<^verbatim>\<open>replace\<close> set (inserting the mapped page again panics): it maps
  the page at the address with the given permissions, reports the page it replaced, changes the
  entry of no other page of the address space, and leaves a well-formed table and a consistent page
  allocator.
\<close>
theorem pgtable_insert_correct:
  assumes "pt_inv s As sh" "page_inv s F As" "pt_pages_needed sh v \<le> length F" "PGROUNDDOWN v \<noteq> 0"
    and "old_mapping s (kv s (root sh)) v r" "r \<noteq> None \<longrightarrow> replace \<and> r \<noteq> Some p"
  shows "\<exists>s' F' As' sh'. pgtable_insert (kv s (root sh)) v p perm replace s = Inr (0, r, s') \<and>
    page_inv s' F' As' \<and> pt_inv s' As' sh' \<and> root sh' = root sh \<and>
    (\<forall>w. pte_at s' (kv s (root sh)) w = (if same_page v w then new_pte s p perm else pte_at s (kv s (root sh)) w))"
proof -
  obtain s' F' As' sh' where "pgtable_insert (kv s (root sh)) v p perm replace s = Inr (0, r, s')"
    "page_inv s' F' As'" "pt_inv s' As' sh'" "root sh' = root sh"
    "\<And>w. pte_at s' (kv s (root sh)) w = (if same_page v w then new_pte s p perm else pte_at s (kv s (root sh)) w)"
    by (rule pgtable_insert_maps [OF assms]) (rule that)
  then show ?thesis by blast
qed

theorem pgtable_insert_correct_witness:
  "\<exists>(s :: mach_state) s'. pgtable_insert (kv s 2) 0x14000 (Pg 1) 0x180 False s = Inr (0, None, s') \<and>
     pte_at s' (kv s 2) 0x14000 = new_pte s (Pg 1) 0x180 \<and> pte_at s' (kv s 2) 0x10000 = 0"
proof -
  obtain s :: mach_state where s: "page_inv s [3, 4, 5, 6, 7, 8, 9] [[2], [1]]" "pt_inv s [[2], [1]] (empty_shape 2)"
    "nr_pages s = 10" "kstate.more s = kstate.more boot_mach" "highmem_base_pfn s = 0x24000"
    by (rule boot_table [OF boot_mach_base]) (rule that)
  have z: "pte_at s (kv s 2) v = 0" for v by (rule pte_at_empty [OF s(2)])
  have room: "pt_pages_needed (empty_shape 2) 0x14000 \<le> length [3, 4, 5, 6, 7, 8, 9 :: nat]"
    by (simp add: pt_pages_needed_def pt_need_def)
  have old: "old_mapping s (kv s (root (empty_shape 2))) 0x14000 None" by (simp add: old_mapping_def z)
  obtain s' where "pgtable_insert (kv s 2) 0x14000 (Pg 1) 0x180 False s = Inr (0, None, s')"
    "\<forall>w. pte_at s' (kv s 2) w = (if same_page 0x14000 w then new_pte s (Pg 1) 0x180 else pte_at s (kv s 2) w)"
    using pgtable_insert_correct [OF s(2,1) room va_page old, of False "Pg 1" "0x180"] by auto
  then show ?thesis using z va_apart va_same by metis
qed

text \<open>
  Property C8. \<^verbatim>\<open>pgtable_remove\<close> of a mapped address returns the page, clears the entry of that
  page alone and leaves a well-formed table and a consistent page allocator. A directory on the
  path of the address that has no entry left is taken out of the table and is on the free list
  afterwards; one that still has an entry stays, and so does every directory off the path.
\<close>
theorem pgtable_remove_correct:
  assumes "pt_inv s As sh" "page_inv s F As" "p < nr_pages s" "pte_at s (kv s (root sh)) v = new_pte s (Pg p) perm"
  shows "\<exists>s' F' As' sh'. pgtable_remove (kv s (root sh)) v s = Inr (Some (Pg p), tlb_remove v s') \<and>
    page_inv s' F' As' \<and> pt_inv s' As' sh' \<and> root sh' = root sh \<and> dirs_given_back s' sh sh' v F F' \<and>
    (\<forall>w. pte_at s' (kv s (root sh)) w = (if same_page v w then 0 else pte_at s (kv s (root sh)) w))"
proof -
  obtain s' F' As' sh' where "pgtable_remove (kv s (root sh)) v s = Inr (Some (Pg p), tlb_remove v s')"
    "page_inv s' F' As'" "pt_inv s' As' sh'" "root sh' = root sh" "dirs_given_back s' sh sh' v F F'"
    "\<And>w. pte_at s' (kv s (root sh)) w = (if same_page v w then 0 else pte_at s (kv s (root sh)) w)"
    by (rule pgtable_remove_unmaps [OF assms]) (rule that)
  then show ?thesis by blast
qed

text \<open>The machine with the page mapped.\<close>

lemma boot_mapped:
  fixes m :: "'s mach_state_scheme"
  assumes m: "highmem_base_pfn m = 0x24000"
  obtains s :: "'s mach_state_scheme" and F As sh where "page_inv s F As" "pt_inv s As sh"
    "pte_at s (kv s (root sh)) 0x14000 = new_pte s (Pg 1) 0x180" "nr_pages s = 10" "kstate.more s = kstate.more m"
    "[1] \<in> set As" "1 \<notin> dirs sh" "root sh = 2" "highmem_base_pfn s = 0x24000"
    "\<And>w. \<not> same_page 0x14000 w \<Longrightarrow> pte_at s (kv s (root sh)) w = 0"
proof -
  obtain s :: "'s mach_state_scheme" where s: "page_inv s [3, 4, 5, 6, 7, 8, 9] [[2], [1]]" "pt_inv s [[2], [1]] (empty_shape 2)"
    "nr_pages s = 10" "kstate.more s = kstate.more m" "highmem_base_pfn s = 0x24000"
    by (rule boot_table [OF m]) (rule that)
  have z: "pte_at s (kv s 2) v = 0" for v by (rule pte_at_empty [OF s(2)])
  have room: "pt_pages_needed (empty_shape 2) 0x14000 \<le> length [3, 4, 5, 6, 7, 8, 9 :: nat]"
    by (simp add: pt_pages_needed_def pt_need_def)
  have old: "old_mapping s (kv s (root (empty_shape 2))) 0x14000 None" by (simp add: old_mapping_def z)
  have rp: "None \<noteq> None \<longrightarrow> False \<and> None \<noteq> Some (Pg 1)" by simp
  obtain s' F' As' sh' where s': "pgtable_insert (kv s (root (empty_shape 2))) 0x14000 (Pg 1) 0x180 False s = Inr (0, None, s')"
    "page_inv s' F' As'" "pt_inv s' As' sh'" "page_frame s s'" "root sh' = root (empty_shape 2)"
    "\<exists>ns. [3, 4, 5, 6, 7, 8, 9] = ns @ F' \<and> As' = rev (map (\<lambda>n. [n]) ns) @ [[2], [1]]"
    "\<And>w. pte_at s' (kv s (root (empty_shape 2))) w =
       (if same_page 0x14000 w then new_pte s (Pg 1) 0x180 else pte_at s (kv s (root (empty_shape 2))) w)"
    "dirs sh' \<subseteq> dirs (empty_shape 2) \<union> set [3, 4, 5, 6, 7, 8, 9]"
    by (rule pgtable_insert_maps [OF s(2,1) room va_page old rp]) (rule that)
  have b: "highmem_base_pfn s' = highmem_base_pfn s" "nr_pages s' = 10" using s'(4) s(3) by (simp_all add: page_frame_def)
  have "1 \<notin> dirs (empty_shape 2) \<union> set [3, 4, 5, 6, 7, 8, 9]" by (auto simp: dirs_def)
  then have "1 \<notin> dirs sh'" using s'(8) by blast
  moreover have "[1] \<in> set As'" using s'(6) by auto
  moreover have "new_pte s' q f = new_pte s q f" for q f by (simp add: new_pte_def PAGE_TO_PADDR_cong [OF b(1)])
  moreover have "kstate.more s' = kstate.more m" using s'(4) s(4) by (simp add: page_frame_def)
  ultimately show ?thesis
    using that [OF s'(2,3)] s'(5,7) b s(5) z va_same page_to_kvaddr_cong [OF b(1)] by simp
qed

theorem pgtable_remove_correct_witness:
  "\<exists>(s :: mach_state) s' g. pte_at s (kv s g) 0x14000 \<noteq> 0 \<and>
     pgtable_remove (kv s g) 0x14000 s = Inr (Some (Pg 1), tlb_remove 0x14000 s') \<and> (\<forall>w. pte_at s' (kv s g) w = 0)"
proof -
  obtain s :: mach_state and F As sh where s: "page_inv s F As" "pt_inv s As sh"
    "pte_at s (kv s (root sh)) 0x14000 = new_pte s (Pg 1) 0x180" "nr_pages s = 10" "kstate.more s = kstate.more boot_mach"
    "[1] \<in> set As" "1 \<notin> dirs sh" "root sh = 2" "highmem_base_pfn s = 0x24000"
    and z: "\<And>w. \<not> same_page 0x14000 w \<Longrightarrow> pte_at s (kv s (root sh)) w = 0"
    by (rule boot_mapped [OF boot_mach_base]) (rule that)
  have "1 < nr_pages s" using s(4) by simp
  from pgtable_remove_correct [OF s(2,1) this s(3)] obtain s' where
    "pgtable_remove (kv s (root sh)) 0x14000 s = Inr (Some (Pg 1), tlb_remove 0x14000 s')"
    "\<forall>w. pte_at s' (kv s (root sh)) w = (if same_page 0x14000 w then 0 else pte_at s (kv s (root sh)) w)" by blast
  moreover have "pte_at s (kv s (root sh)) 0x14000 \<noteq> 0" using s(3) by simp
  ultimately show ?thesis using z by metis
qed

text \<open>
  Property C31. \<^verbatim>\<open>arch_map_page\<close> over a mapped page frees the old page but leaves the TLB as it
  was: after it has returned, a translation the TLB held for the address still leads to the page
  that is on the free list again, although the table maps the new page.
\<close>
theorem arch_map_page_stale_tlb:
  assumes "pt_inv s As sh" "page_inv s F As" "PGROUNDDOWN v \<noteq> 0"
    and "pte_at s (kv s (root sh)) v = new_pte s (Pg q) perm'" "q < nr_pages s" "q \<noteq> p" "[q] \<in> set As" "q \<notin> dirs sh"
  shows "\<exists>s' F' As'. arch_map_page (kv s (root sh)) v (Pg p) perm s = Inr (0, s') \<and> page_inv s' F' As' \<and>
    q \<in> set F' \<and> pte_at s' (kv s (root sh)) v = new_pte s (Pg p) perm \<and> tlb s' = tlb s"
proof -
  have "pt_pages_needed sh v \<le> length F"
    using mapped_needs_none [OF assms(1), of v] assms(4) by simp
  then show ?thesis
    by (rule arch_map_page_replaces [OF assms(1,2) _ assms(3-8)]) blast
qed

theorem arch_map_page_stale_tlb_witness:
  "\<exists>(s :: mach_state) s' F As g. arch_map_page (kv s g) 0x14000 (Pg 9) 0x180 s = Inr (0, s') \<and> page_inv s' F As \<and>
     1 \<in> set F \<and> pte_at s (kv s g) 0x14000 = new_pte s (Pg 1) 0x180 \<and> tlb s' = tlb boot_mach"
proof -
  obtain s :: mach_state and F As sh where s: "page_inv s F As" "pt_inv s As sh"
    "pte_at s (kv s (root sh)) 0x14000 = new_pte s (Pg 1) 0x180" "nr_pages s = 10" "kstate.more s = kstate.more boot_mach"
    "[1] \<in> set As" "1 \<notin> dirs sh" "root sh = 2" "highmem_base_pfn s = 0x24000" "\<And>w. \<not> same_page 0x14000 w \<Longrightarrow> pte_at s (kv s (root sh)) w = 0"
    by (rule boot_mapped [OF boot_mach_base]) (rule that)
  have "1 < nr_pages s" "1 \<noteq> (9::nat)" using s(4) by simp_all
  from arch_map_page_stale_tlb [OF s(2,1) va_page s(3) this s(6,7)] obtain s' F' As' where
    "arch_map_page (kv s (root sh)) 0x14000 (Pg 9) 0x180 s = Inr (0, s')" "page_inv s' F' As'" "1 \<in> set F'" "tlb s' = tlb s"
    by blast
  moreover have "tlb s = tlb boot_mach" by (rule tlb_more [OF s(5)])
  ultimately show ?thesis using s(3) by metis
qed

end
