(* ===== verification/Refill.thy ===== *)
theory Refill
  imports Asid Page_Table_Props
begin

text \<open>
  The TLB refill handler (\<^verbatim>\<open>arch/mips/mm/hier/tlbex.S\<close>): the walk the exception vector does in
  assembly when no TLB entry matches, and what the processor translates with the entry it writes.
\<close>

section \<open>The handler\<close>

definition PTE_SOFT_SHIFT :: nat where "PTE_SOFT_SHIFT = 6"

text \<open>
  The instructions from the load of the page global directory to the two leaf entries, for a
  directory at \<open>k1\<close> and the address in \<^verbatim>\<open>BADVADDR\<close>; \<open>None\<close> is a jump to the label
  \<^verbatim>\<open>1\<close>, the general handler.
\<close>

definition refill_walk :: "addr_t \<Rightarrow> addr_t \<Rightarrow> memory \<Rightarrow> (u64 \<times> u64) option" where
  "refill_walk k1 badvaddr m =
     (if k1 = 0 then None
      else
        let k0 = drop_bit PGD_OFFSET badvaddr AND PDE_MASK;
            k1 = load64 (k1 + push_bit 3 k0) m in
        if k1 = 0 then None
        else
          let k0 = drop_bit PMD_OFFSET badvaddr AND PDE_MASK;
              k1 = load64 (k1 + push_bit 3 k0) m in
          if k1 = 0 then None
          else
            let k0 = drop_bit PTE_OFFSET badvaddr AND (PDE_MASK - 1);
                k1 = k1 + push_bit 3 k0;
                k0 = k1 + 8;
                k1 = load64 k1 m;
                k0 = load64 k0 m in
            if k1 \<noteq> 0 \<or> k0 \<noteq> 0 then Some (k1, k0) else None)"

text \<open>\<^verbatim>\<open>ori\<close> and \<^verbatim>\<open>xori\<close> clear the marker bit, \<^verbatim>\<open>drotr\<close> brings the entry in the layout of the TLB.\<close>

definition entry_lo :: "u64 \<Rightarrow> u64" where
  "entry_lo e = word_rotr PTE_SOFT_SHIFT ((e OR ucast PTE_PHYS) XOR ucast PTE_PHYS)"

text \<open>\<^verbatim>\<open>tlbwr\<close> writes the entry the random register names, one of the entries of the TLB.\<close>

definition tlbwr :: "nat \<Rightarrow> 's mach_state_scheme \<Rightarrow> 's mach_state_scheme" where
  "tlbwr random s = s\<lparr>tlb := (tlb s)[random :=
     \<lparr>te_hi = cp0_entryhi s, te_lo0 = cp0_entrylo0 s, te_lo1 = cp0_entrylo1 s\<rparr>]\<rparr>"

text \<open>
  The whole handler. The result says whether it returned from the exception; otherwise it jumped
  to the general handler, with nothing changed but the registers k0 and k1, which are not modelled
  here: the general handler overwrites them first.
\<close>

definition xtlb_refill :: "nat \<Rightarrow> 's task_state_scheme \<Rightarrow> bool \<times> 's task_state_scheme" where
  "xtlb_refill random s =
     (let k1 = cp0_entryhi s AND ENTHI_ASID_MASK;
          k1 = online_hpt s ! unat k1 in
      case refill_walk k1 (cp0_badvaddr s) (mem s) of
        None \<Rightarrow> (False, s)
      | Some (k1, k0) \<Rightarrow>
          (True, tlbwr random (s\<lparr>cp0_entrylo0 := entry_lo k1, cp0_entrylo1 := entry_lo k0\<rparr>)))"

section \<open>The walk finds what the software walk finds\<close>

text \<open>The two pages of a TLB entry, and the index of the even one.\<close>

definition even_page :: "addr_t \<Rightarrow> addr_t" where "even_page v = v AND NOT PGSIZE"
definition odd_page :: "addr_t \<Rightarrow> addr_t" where "odd_page v = v OR PGSIZE"

lemma PGSIZE_bit: "bit PGSIZE n \<longleftrightarrow> n = 14"
  by (simp only: PGSIZE_def bit_push_bit_iff bit_1_iff) auto

lemma even_odd_split:
  "PGX (even_page v) = PGX v" "PMX (even_page v) = PMX v" "PGX (odd_page v) = PGX v" "PMX (odd_page v) = PMX v"
  "PTX (even_page v) = PTX v AND NOT 1" "PTX (odd_page v) = PTX v OR 1"
  by (rule bit_word_eqI; auto simp: split_alt even_page_def odd_page_def bit_simps PGSIZE_bit)+

lemma odd_page_index: "unat (PTX (odd_page v)) = Suc (unat (PTX (even_page v)))"
proof -
  have e: "\<not> bit (PTX (even_page v)) 0" by (simp add: even_odd_split bit_simps)
  have "PTX (odd_page v) = PTX (even_page v) OR 1"
    unfolding even_odd_split by (rule bit_word_eqI) (auto simp: bit_simps)
  also have "\<dots> = PTX (even_page v) + 1"
  proof (rule disjunctive_add [symmetric])
    show "\<not> bit (PTX (even_page v)) n \<or> \<not> bit 1 n" for n using e by (cases "n = 0") (simp_all add: bit_1_iff)
  qed
  finally have "PTX (odd_page v) = PTX (even_page v) + 1" .
  moreover have "unat (PTX (even_page v) + 1) = unat (PTX (even_page v)) + 1"
    using split_bounds(3) [of "even_page v"] by (simp add: unat_word_ariths)
  ultimately show ?thesis by simp
qed

lemma walk_indices:
  "drop_bit 36 v AND PDE_MASK = PGX v" "drop_bit 25 v AND PDE_MASK = PMX v"
  "drop_bit 14 v AND (PDE_MASK - 1) = PTX (even_page v)"
proof -
  have "PDE_MASK - 1 = mask 11 AND NOT 1" by (simp add: PDE_MASK_mask mask_eq_exp_minus_1)
  then show "drop_bit 14 v AND (PDE_MASK - 1) = PTX (even_page v)"
    unfolding even_odd_split by (intro bit_word_eqI) (auto simp: split_alt bit_simps)
qed (rule bit_word_eqI; auto simp: split_alt PDE_MASK_mask bit_simps)+

lemma entry_address: "load64 (kv s g + push_bit 3 x) (mem s) = ent s g (unat x)"
  by (simp add: ent_def push_bit_eq_mult mult.commute)

lemma refill_walk_finds:
  assumes pt: "pt_inv s As sh"
  shows "refill_walk (kv s (root sh)) v (mem s) =
    (if pte_at s (kv s (root sh)) (even_page v) \<noteq> 0 \<or> pte_at s (kv s (root sh)) (odd_page v) \<noteq> 0
     then Some (pte_at s (kv s (root sh)) (even_page v), pte_at s (kv s (root sh)) (odd_page v)) else None)"
proof -
  let ?i = "unat (PGX v)" and ?j = "unat (PMX v)" and ?k = "unat (PTX (even_page v))"
  have r0: "kv s (root sh) \<noteq> 0" using pt_dir_facts [OF pt dirs_intros(1)] by simp
  have e: "pte_at s (kv s (root sh)) (even_page v) = pt_entry s sh ?i ?j ?k"
    "pte_at s (kv s (root sh)) (odd_page v) = pt_entry s sh ?i ?j (Suc ?k)"
    unfolding pte_at_shape [OF pt] odd_page_index by (simp_all add: even_odd_split)
  have a8: "load64 (kv s g + push_bit 3 (PTX (even_page v)) + 8) (mem s) = ent s g (Suc ?k)" for g
    by (simp add: ent_def push_bit_eq_mult algebra_simps)
  show ?thesis
  proof (cases "mids sh ?i")
    case None
    have "leaves sh ?i ?j = None" using pt None unfolding pt_inv_def shape_ok_def by (metis not_None_eq)
    moreover have "ent s (root sh) ?i = 0" using pt_links(1) [OF pt split_bounds(1), of v] None by simp
    ultimately show ?thesis using r0 unfolding e by (simp add: refill_walk_def walk_indices entry_address pt_entry_def Let_def)
  next
    case (Some d)
    have m: "ent s (root sh) ?i = kv s d" "kv s d \<noteq> 0"
      using pt_links(1) [OF pt split_bounds(1), of v] Some pt_dir_facts [OF pt dirs_intros(2) [OF Some]] by simp_all
    show ?thesis
    proof (cases "leaves sh ?i ?j")
      case None
      have "ent s d ?j = 0" using pt_links(2) [OF pt Some split_bounds(2), of v] None by simp
      then show ?thesis using r0 m None unfolding e by (simp add: refill_walk_def walk_indices entry_address pt_entry_def Let_def)
    next
      case (Some l)
      have "ent s d ?j = kv s l" "kv s l \<noteq> 0"
        using pt_links(2) [OF pt \<open>mids sh ?i = Some d\<close> split_bounds(2), of v] Some
          pt_dir_facts [OF pt dirs_intros(3) [OF Some]] by simp_all
      then show ?thesis using r0 m Some a8 unfolding e
        by (simp add: refill_walk_def walk_indices entry_address pt_entry_def Let_def)
    qed
  qed
qed

section \<open>What the processor translates\<close>

text \<open>
  A TLB entry maps an even and an odd page. An EntryLo word holds the frame number, in units of 4K,
  from bit 6, the dirty (writable) bit in bit 2 and the valid bit in bit 1.
\<close>

definition tlb_half :: "u64 \<Rightarrow> tlb_entry \<Rightarrow> u64" where
  "tlb_half va e = (if bit va 14 then te_lo1 e else te_lo0 e)"

definition tlb_translate :: "'s mach_state_scheme \<Rightarrow> u64 \<Rightarrow> addr_t \<Rightarrow> (addr_t \<times> bool) option" where
  "tlb_translate s asid va =
     (case probe_from 0 (push_bit 15 (drop_bit 15 va) OR asid) (tlb s) of
        None \<Rightarrow> None
      | Some i \<Rightarrow>
          let lo = tlb_half va (tlb s ! i) in
          if bit lo 1 then Some (push_bit 12 (take_bit 36 (drop_bit 6 lo)) OR PAGE_OFF va, bit lo 2) else None)"


lemma probe_from_write:
  "probe_from i hi es = None \<Longrightarrow> r < length es \<Longrightarrow> tlb_match hi e \<Longrightarrow> probe_from i hi (es[r := e]) = Some (i + r)"
  by (induction es arbitrary: i r) (auto split: if_splits nat.splits)

lemma bit_entry_lo: "n < 58 \<Longrightarrow> bit (entry_lo e) n \<longleftrightarrow> bit e (n + 6)"
  by (auto simp: entry_lo_def PTE_SOFT_SHIFT_def bit_word_rotr_iff bit_simps pte_flag_bits)

lemma even_page_id: "\<not> bit v 14 \<Longrightarrow> even_page v = v"
  by (rule bit_word_eqI) (auto simp: even_page_def bit_simps PGSIZE_bit)

lemma odd_page_id: "bit v 14 \<Longrightarrow> odd_page v = v"
  by (rule bit_word_eqI) (auto simp: odd_page_def bit_simps PGSIZE_bit)

lemma frame_bits:
  assumes "frames_ok s" "p < nr_pages s"
  shows "push_bit 12 (take_bit 36 (drop_bit 6 (entry_lo (new_pte s (Pg p) perm)))) = PAGE_TO_PADDR s (Pg p)"
proof (rule bit_word_eqI)
  fix n assume n: "n < LENGTH(64)"
  have "unat (PAGE_TO_PADDR s (Pg p)) < 2 ^ 48" using unat_paddr [OF assms] by simp
  then have hi: "\<not> bit (PAGE_TO_PADDR s (Pg p)) n" if "48 \<le> n" using that not_bit_ge by blast
  have pa: "bit (PAGE_TO_PADDR s (Pg p)) n \<longleftrightarrow> 14 \<le> n \<and> n < 64 \<and> bit (PAGE_TO_PFN s (Pg p)) (n - 14)"
    by (auto simp: PAGE_TO_PADDR_def bit_simps)
  consider "n < 12" | "12 \<le> n" "n < 48" | "48 \<le> n" by linarith
  then show "bit (push_bit 12 (take_bit 36 (drop_bit 6 (entry_lo (new_pte s (Pg p) perm))))) n =
      bit (PAGE_TO_PADDR s (Pg p)) n"
  proof cases
    case 1
    then show ?thesis by (simp add: pa bit_push_bit_iff)
  next
    case 2
    then have "n - 12 < 36" by linarith
    with 2 have "bit (push_bit 12 (take_bit 36 (drop_bit 6 (entry_lo (new_pte s (Pg p) perm))))) n \<longleftrightarrow>
        bit (entry_lo (new_pte s (Pg p) perm)) (n - 6)"
      by (simp add: bit_push_bit_iff bit_take_bit_iff bit_drop_bit_eq)
    also have "\<dots> \<longleftrightarrow> bit (new_pte s (Pg p) perm) n" using 2 by (simp add: bit_entry_lo)
    finally show ?thesis using 2 by (auto simp: pa bit_new_pte simp del: PAGE_TO_PFN.simps)
  next
    case 3
    then show ?thesis using hi by (simp add: bit_push_bit_iff bit_take_bit_iff)
  qed
qed

text \<open>A mapping of the table, a miss, and the handler.\<close>

definition tlb_miss :: "u64 \<Rightarrow> addr_t \<Rightarrow> 's task_state_scheme \<Rightarrow> 's task_state_scheme" where
  "tlb_miss asid va s = s\<lparr>cp0_badvaddr := va, cp0_entryhi := push_bit 15 (drop_bit 15 va) OR asid\<rparr>"

lemma entryhi_fields:
  assumes "asid < 256"
  shows "(push_bit 15 (drop_bit 15 va) OR asid) AND ENTHI_ASID_MASK = asid"
proof (rule bit_word_eqI)
  fix n assume "n < LENGTH(64)"
  have "\<not> bit asid n" if "8 \<le> n"
    by (rule not_bit_ge [of _ 8]) (use assms that in \<open>simp_all add: word_less_nat_alt\<close>)
  moreover have m: "ENTHI_ASID_MASK = mask 8" by (simp add: ENTHI_ASID_MASK_def mask_eq_exp_minus_1)
  have "bit ENTHI_ASID_MASK n \<longleftrightarrow> n < 8" unfolding m bit_mask_iff by auto
  ultimately show "bit ((push_bit 15 (drop_bit 15 va) OR asid) AND ENTHI_ASID_MASK) n = bit asid n"
    by (cases "n < 8") (auto simp: bit_and_iff bit_or_iff bit_push_bit_iff)
qed

lemma xtlb_refill_walk:
  assumes pt: "pt_inv s As sh" and pgd: "online_hpt s ! unat asid = kv s (root sh)" and asid: "asid < 256"
    and e: "e0 = pte_at s (kv s (root sh)) (even_page va)" "e1 = pte_at s (kv s (root sh)) (odd_page va)"
  shows "xtlb_refill random (tlb_miss asid va s) =
    (if e0 \<noteq> 0 \<or> e1 \<noteq> 0
     then (True, (tlb_miss asid va s)\<lparr>cp0_entrylo0 := entry_lo e0, cp0_entrylo1 := entry_lo e1,
        tlb := (tlb s)[random := \<lparr>te_hi = push_bit 15 (drop_bit 15 va) OR asid, te_lo0 = entry_lo e0, te_lo1 = entry_lo e1\<rparr>]\<rparr>)
     else (False, tlb_miss asid va s))"
  using refill_walk_finds [OF pt, of va] pgd entryhi_fields [OF asid, of va]
  by (simp add: xtlb_refill_def tlb_miss_def tlbwr_def e Let_def)

lemma refill_translates:
  assumes pt: "pt_inv s As sh" and pgd: "online_hpt s ! unat asid = kv s (root sh)" and asid: "asid < 256"
    and miss: "probe_from 0 (push_bit 15 (drop_bit 15 va) OR asid) (tlb s) = None" "random < length (tlb s)"
    and map: "pte_at s (kv s (root sh)) va = new_pte s (Pg p) perm" "p < nr_pages s" "bit perm 7"
  obtains s' where "xtlb_refill random (tlb_miss asid va s) = (True, s')"
    "tlb_translate s' asid va = Some (PAGE_TO_PADDR s (Pg p) OR PAGE_OFF va, bit perm 8)"
proof -
  let ?ev = "pte_at s (kv s (root sh)) (even_page va)" and ?od = "pte_at s (kv s (root sh)) (odd_page va)"
  let ?e = "\<lparr>te_hi = push_bit 15 (drop_bit 15 va) OR asid, te_lo0 = entry_lo ?ev, te_lo1 = entry_lo ?od\<rparr>"
  let ?s' = "(tlb_miss asid va s)\<lparr>cp0_entrylo0 := entry_lo ?ev, cp0_entrylo1 := entry_lo ?od, tlb := (tlb s)[random := ?e]\<rparr>"
  have own: "(if bit va 14 then ?od else ?ev) = new_pte s (Pg p) perm"
    using map(1) by (simp add: even_page_id odd_page_id)
  then have "?ev \<noteq> 0 \<or> ?od \<noteq> 0" using new_pte_nonzero [of s "Pg p" perm] by (auto split: if_splits)
  then have res: "xtlb_refill random (tlb_miss asid va s) = (True, ?s')"
    using xtlb_refill_walk [OF pt pgd asid refl refl] by simp
  have "tlb_match (push_bit 15 (drop_bit 15 va) OR asid) ?e" by (simp add: tlb_match_def)
  then have pr: "probe_from 0 (push_bit 15 (drop_bit 15 va) OR asid) (tlb ?s') = Some random"
    using probe_from_write [OF miss] by simp
  have half: "tlb_half va ?e = entry_lo (new_pte s (Pg p) perm)"
    using own by (auto simp: tlb_half_def split: if_splits)
  have fr: "frames_ok s" using pt by (simp add: pt_inv_def)
  have "bit (entry_lo (new_pte s (Pg p) perm)) 1" "bit (entry_lo (new_pte s (Pg p) perm)) 2 = bit perm 8"
    using map(3) by (simp_all add: bit_entry_lo bit_new_pte)
  then have "tlb_translate ?s' asid va = Some (PAGE_TO_PADDR s (Pg p) OR PAGE_OFF va, bit perm 8)"
    using pr half miss(2) frame_bits [OF fr map(2)] by (simp add: tlb_translate_def Let_def)
  with res show ?thesis using that by blast
qed


section \<open>Properties\<close>

text \<open>What a leaf entry of the table says of an address: the physical address and the permission to write.\<close>

definition pte_translate :: "u64 \<Rightarrow> addr_t \<Rightarrow> (addr_t \<times> bool) option" where
  "pte_translate e va =
     (if bit e 7 then Some (push_bit 12 (take_bit 36 (drop_bit 12 e)) OR PAGE_OFF va, bit e 8) else None)"

lemma entry_lo_frame: "take_bit 36 (drop_bit 6 (entry_lo e)) = take_bit 36 (drop_bit 12 e)"
  by (rule bit_word_eqI) (auto simp: bit_take_bit_iff bit_drop_bit_eq bit_entry_lo algebra_simps)

lemma pair_entries:
  assumes pt: "pt_inv s As sh" and pair: "drop_bit 15 w = drop_bit 15 va"
  shows "pte_at s (kv s (root sh)) (even_page w) = pte_at s (kv s (root sh)) (even_page va)"
    "pte_at s (kv s (root sh)) (odd_page w) = pte_at s (kv s (root sh)) (odd_page va)"
proof -
  have "bit w (15 + n) = bit va (15 + n)" for n using pair by (metis bit_drop_bit_eq comp_apply)
  then have hi: "bit w n = bit va n" if "15 \<le> n" for n using that by (metis le_Suc_ex)
  have "PGX w = PGX va" "PMX w = PMX va" "PTX w AND NOT 1 = PTX va AND NOT 1" "PTX w OR 1 = PTX va OR 1"
    by (rule bit_word_eqI; auto simp: split_alt bit_simps hi)+
  then show "pte_at s (kv s (root sh)) (even_page w) = pte_at s (kv s (root sh)) (even_page va)"
    "pte_at s (kv s (root sh)) (odd_page w) = pte_at s (kv s (root sh)) (odd_page va)"
    unfolding pte_at_shape [OF pt] even_odd_split by simp_all
qed

lemma refill_pair:
  assumes pt: "pt_inv s As sh" and pgd: "online_hpt s ! unat asid = kv s (root sh)" and asid: "asid < 256"
    and miss: "probe_from 0 (push_bit 15 (drop_bit 15 va) OR asid) (tlb s) = None" "random < length (tlb s)"
    and ret: "xtlb_refill random (tlb_miss asid va s) = (True, s')" and pair: "drop_bit 15 w = drop_bit 15 va"
  shows "tlb_translate s' asid w = pte_translate (pte_at s (kv s (root sh)) w) w"
proof -
  let ?ev = "pte_at s (kv s (root sh)) (even_page va)" and ?od = "pte_at s (kv s (root sh)) (odd_page va)"
  let ?e = "\<lparr>te_hi = push_bit 15 (drop_bit 15 va) OR asid, te_lo0 = entry_lo ?ev, te_lo1 = entry_lo ?od\<rparr>"
  have s': "tlb s' = (tlb s)[random := ?e]"
    using ret xtlb_refill_walk [OF pt pgd asid refl refl, of random va] by (auto split: if_splits)
  have "tlb_match (push_bit 15 (drop_bit 15 va) OR asid) ?e" by (simp add: tlb_match_def)
  then have pr: "probe_from 0 (push_bit 15 (drop_bit 15 w) OR asid) (tlb s') = Some random"
    using probe_from_write [OF miss] s' pair by simp
  have half: "tlb_half w ?e = entry_lo (pte_at s (kv s (root sh)) w)"
    using pair_entries [OF pt pair] by (auto simp: tlb_half_def even_page_id odd_page_id)
  show ?thesis
    using pr half miss(2) s' by (simp add: tlb_translate_def pte_translate_def bit_entry_lo entry_lo_frame Let_def)
qed

lemma online_of_frame: "page_frame s s' \<Longrightarrow> online_hpt (s' :: 's task_state_scheme) = online_hpt s"
  by (cases s; cases s') (simp add: page_frame_def)

lemma online_more: "kstate.more s' = kstate.more s \<Longrightarrow> online_hpt (s' :: 's task_state_scheme) = online_hpt s"
  by (cases s; cases s') simp

text \<open>An address space with the page 1 mapped, registered for every identifier, and an empty TLB.\<close>

definition refill_example :: "task_state" where
  "refill_example = task_example\<lparr>online_hpt := replicate 256 (kv task_example 2)\<rparr>"

lemma refill_example_simps [simp]:
  "highmem_base_pfn refill_example = 0x24000" "tlb refill_example = tlb boot_mach"
  "online_hpt refill_example = replicate 256 (kv task_example 2)" "highmem_base_pfn task_example = 0x24000"
  by (simp_all add: refill_example_def task_example_def vm_with_def boot_mach_def boot_kmem_def kmem_state.defs
      vm_state.defs mach_state.defs kstate.defs)

lemma refill_example_kv: "highmem_base_pfn s = 0x24000 \<Longrightarrow> kv s g = kv task_example g"
  by (rule page_to_kvaddr_cong) simp

text \<open>
  Property C12. The refill handler agrees with the page table. When it returns, the processor
  translates every address of the pair of pages the handler loaded as the entry \<^verbatim>\<open>pgtable_lookup\<close>
  finds says: to the frame of the entry if it is valid, with its permission to write, and not at
  all if it is not. When it jumps to the general handler neither page of the pair has an entry, and
  nothing has changed.
\<close>
theorem xtlb_refill_agrees:
  assumes "pt_inv s As sh" "online_hpt s ! unat asid = kv s (root sh)" "asid < 256"
    and "probe_from 0 (push_bit 15 (drop_bit 15 va) OR asid) (tlb s) = None" "random < length (tlb s)"
    and "drop_bit 15 w = drop_bit 15 va"
  shows "case xtlb_refill random (tlb_miss asid va s) of
      (True, s') \<Rightarrow> tlb_translate s' asid w = pte_translate (pte_at s (kv s (root sh)) w) w
    | (False, s') \<Rightarrow> pte_at s (kv s (root sh)) w = 0 \<and> s' = tlb_miss asid va s"
proof (cases "fst (xtlb_refill random (tlb_miss asid va s))")
  case True
  then obtain s' where r: "xtlb_refill random (tlb_miss asid va s) = (True, s')" by (metis (full_types) prod.collapse)
  with refill_pair [OF assms(1-5) r assms(6)] show ?thesis by simp
next
  case False
  note walk = xtlb_refill_walk [OF assms(1-3) refl refl, of random va]
  have e: "pte_at s (kv s (root sh)) (even_page va) = 0" "pte_at s (kv s (root sh)) (odd_page va) = 0"
    using False walk by (auto split: if_splits)
  moreover have "pte_at s (kv s (root sh)) w = 0"
    using e pair_entries [OF assms(1,6)] even_page_id odd_page_id by metis
  ultimately show ?thesis using walk by simp
qed

theorem xtlb_refill_agrees_witness:
  "\<exists>s s' :: task_state. xtlb_refill 1 (tlb_miss 2 0x10008 s) = (True, s') \<and>
     tlb_translate s' 2 0x14008 = pte_translate (new_pte s (Pg 1) 0x180) 0x14008"
proof -
  obtain s :: task_state and F As sh where s: "page_inv s F As" "pt_inv s As sh"
    "pte_at s (kv s (root sh)) 0x14000 = new_pte s (Pg 1) 0x180" "nr_pages s = 10" "kstate.more s = kstate.more refill_example"
    "[1] \<in> set As" "1 \<notin> dirs sh" "root sh = 2" "highmem_base_pfn s = 0x24000"
    "\<And>w. \<not> same_page 0x14000 w \<Longrightarrow> pte_at s (kv s (root sh)) w = 0"
    by (rule boot_mapped [OF refill_example_simps(1)]) (rule that)
  have h: "online_hpt s ! unat 2 = kv s (root sh)"
    using online_more [OF s(5)] s(8) refill_example_kv [OF s(9)] by simp
  have t: "tlb s = tlb boot_mach" using tlb_more [OF s(5)] by simp
  have miss: "probe_from 0 (push_bit 15 (drop_bit 15 0x10008) OR 2) (tlb s) = None" "1 < length (tlb s)"
    unfolding t by code_simp+
  have p: "pte_at s (kv s (root sh)) 0x14008 = new_pte s (Pg 1) 0x180"
    using s(3) unfolding pte_at_shape [OF s(2)] by (simp add: split_alt)
  then have "pte_at s (kv s (root sh)) 0x14008 \<noteq> 0" by simp
  then show ?thesis
    using xtlb_refill_agrees [OF s(2) h _ miss, of "0x14008"] p
    by (cases "xtlb_refill 1 (tlb_miss 2 0x10008 s)") (force split: bool.splits)
qed

text \<open>
  Property C3. A page mapped by \<^verbatim>\<open>pgtable_insert\<close> is reached by the processor. After the insertion,
  an access to the page by a task with the identifier of the page table, which misses the TLB,
  makes the refill handler return, and the access is then translated to that offset of the physical
  page, writable exactly when the permissions say so.
\<close>
theorem mapped_page_translates:
  assumes "pt_inv s As sh" "page_inv s F As" "pt_pages_needed sh v \<le> length F" "PGROUNDDOWN v \<noteq> 0"
    and "p < nr_pages s" "pte_at s (kv s (root sh)) v = 0" "bit perm 7"
    and "online_hpt s ! unat asid = kv s (root sh)" "asid < 256" "same_page v w"
    and "probe_from 0 (push_bit 15 (drop_bit 15 w) OR asid) (tlb s) = None" "random < length (tlb s)"
  shows "\<exists>s' s''. pgtable_insert (kv s (root sh)) v (Pg p) perm False s = Inr (0, None, s') \<and>
    xtlb_refill random (tlb_miss asid w s') = (True, s'') \<and>
    tlb_translate s'' asid w = Some (PAGE_TO_PADDR s (Pg p) OR PAGE_OFF w, bit perm 8)"
proof -
  have om: "old_mapping s (kv s (root sh)) v None" "None \<noteq> None \<longrightarrow> False \<and> None \<noteq> Some (Pg p)"
    using assms(6) by (simp_all add: old_mapping_def)
  obtain s' F' As' sh' where s': "pgtable_insert (kv s (root sh)) v (Pg p) perm False s = Inr (0, None, s')"
    "page_inv s' F' As'" "pt_inv s' As' sh'" "page_frame s s'" "root sh' = root sh"
    "\<exists>ns. F = ns @ F' \<and> As' = rev (map (\<lambda>n. [n]) ns) @ As"
    "\<And>w. pte_at s' (kv s (root sh)) w = (if same_page v w then new_pte s (Pg p) perm else pte_at s (kv s (root sh)) w)"
    "dirs sh' \<subseteq> dirs sh \<union> set F"
    by (rule pgtable_insert_maps [OF assms(1-4) om]) (rule that)
  have b: "highmem_base_pfn s' = highmem_base_pfn s" "nr_pages s' = nr_pages s" using s'(4) by (simp_all add: page_frame_def)
  note same = page_to_kvaddr_cong [OF b(1)] PAGE_TO_PADDR_cong [OF b(1)]
  have m: "pte_at s' (kv s' (root sh')) w = new_pte s' (Pg p) perm" "p < nr_pages s'"
    using s'(5,7) assms(5,10) b(2) by (simp_all add: same new_pte_def)
  have h: "online_hpt s' ! unat asid = kv s' (root sh')" "tlb s' = tlb s"
    using assms(8) s'(5) online_of_frame [OF s'(4)] tlb_of_frame [OF s'(4)] by (simp_all add: same)
  obtain s'' where "xtlb_refill random (tlb_miss asid w s') = (True, s'')"
    "tlb_translate s'' asid w = Some (PAGE_TO_PADDR s' (Pg p) OR PAGE_OFF w, bit perm 8)"
    by (rule refill_translates [OF s'(3) h(1) assms(9) _ _ m assms(7)]) (use assms(11,12) h(2) in simp_all)
  then show ?thesis using s'(1) same(2) by metis
qed

theorem mapped_page_translates_witness:
  "\<exists>s s' s'' :: task_state. pgtable_insert (kv s 2) 0x14000 (Pg 1) 0x180 False s = Inr (0, None, s') \<and>
     xtlb_refill 1 (tlb_miss 2 0x14008 s') = (True, s'') \<and>
     tlb_translate s'' 2 0x14008 = Some (PAGE_TO_PADDR s (Pg 1) OR 8, True)"
proof -
  obtain s :: task_state where s: "page_inv s [3, 4, 5, 6, 7, 8, 9] [[2], [1]]" "pt_inv s [[2], [1]] (empty_shape 2)"
    "nr_pages s = 10" "kstate.more s = kstate.more refill_example" "highmem_base_pfn s = 0x24000"
    by (rule boot_table [OF refill_example_simps(1)]) (rule that)
  have h: "online_hpt s ! unat 2 = kv s (root (empty_shape 2))"
    using online_more [OF s(4)] refill_example_kv [OF s(5)] by simp
  have t: "tlb s = tlb boot_mach" using tlb_more [OF s(4)] by simp
  have miss: "probe_from 0 (push_bit 15 (drop_bit 15 0x14008) OR 2) (tlb s) = None" "1 < length (tlb s)"
    unfolding t by code_simp+
  have room: "pt_pages_needed (empty_shape 2) 0x14000 \<le> length [3, 4, 5, 6, 7, 8, 9 :: nat]"
    by (simp add: pt_pages_needed_def pt_need_def)
  have z: "pte_at s (kv s (root (empty_shape 2))) 0x14000 = 0" using pte_at_empty [OF s(2)] by simp
  have one: "1 < nr_pages s" using s(3) by simp
  have near: "same_page 0x14000 0x14008" by (simp add: same_page_def split_alt)
  have off: "PAGE_OFF 0x14008 = 8" by code_simp
  have bits: "bit (0x180 :: u32) 7" "bit (0x180 :: u32) 8" by simp_all
  from mapped_page_translates [OF s(2,1) room va_page one z bits(1) h _ near miss] off bits(2)
  show ?thesis by auto
qed

end
