(* ===== verification/Slab_Inv.thy ===== *)
theory Slab_Inv
  imports Slab Page_Memory
begin

text \<open>
  The invariant of the slab allocator and what its operations do to it: the two queues of slabs of
  every cache, the list of free chunks in the memory of a slab, and the chunks that are handed out.
\<close>

section \<open>Queues without a head node\<close>

text \<open>
  A queue is named by one of its nodes, or is empty. The slab queues take a node out wherever it is,
  moving the name on when it names the node, and put a node in front of the named one, at the end.
\<close>

definition queue :: "page_ptr list_heap \<Rightarrow> page_ptr option \<Rightarrow> nat list \<Rightarrow> bool" where
  "queue h q xs = (case q of None \<Rightarrow> xs = [] | Some a \<Rightarrow> xs \<noteq> [] \<and> a = Pg (hd xs) \<and> ring h (map Pg xs))"

lemma queue_simps [simp]:
  "queue h None xs \<longleftrightarrow> xs = []" "queue h q [] \<longleftrightarrow> q = None"
  "queue h (Some a) (x # xs) \<longleftrightarrow> a = Pg x \<and> ring h (Pg x # map Pg xs)"
  by (auto simp: queue_def split: option.splits)

lemma queue_Cons: "queue h q (x # xs) \<longleftrightarrow> q = Some (Pg x) \<and> ring h (Pg x # map Pg xs)"
  by (cases q) auto

lemma slab_queue_distinct: "queue h q xs \<Longrightarrow> distinct xs"
  using ll.rep_distinct [of h "map Pg xs"] by (cases xs) (auto simp: queue_Cons distinct_map)

lemma queue_same: "queue h q xs \<Longrightarrow> same_links (Pg ` set xs) h h' \<Longrightarrow> queue h' q xs"
  using ll.rep_same [of "map Pg xs" h h'] by (cases xs) (auto simp: queue_Cons)

definition next_head :: "page_ptr option \<Rightarrow> page_ptr \<Rightarrow> page_ptr \<Rightarrow> page_ptr option" where
  "next_head q p nxt = (if q = Some p then if p = nxt then None else Some nxt else q)"

lemma queue_remove:
  assumes "queue h q xs" "p \<in> set xs"
  shows "queue (list_del_init (Pg p) h) (next_head q (Pg p) (list_next h (Pg p))) (remove1 p xs)"
    and "ring (list_del_init (Pg p) h) [Pg p]"
    and "A \<inter> Pg ` set xs = {} \<Longrightarrow> same_links A h (list_del_init (Pg p) h)"
proof -
  obtain ys zs where xs: "xs = ys @ p # zs" "p \<notin> set ys" using split_list_first [OF assms(2)] by blast
  have q: "q = Some (Pg (hd xs))" and r: "ring h (map Pg ys @ Pg p # map Pg zs)"
    using assms(1) xs by (auto simp: queue_def split: option.splits)
  have d: "p \<notin> set zs" using ll.rep_distinct [OF r] by auto
  show "ring (list_del_init (Pg p) h) [Pg p]" by (rule ll.delete_middle_self [OF r])
  show "same_links A h (list_del_init (Pg p) h)" if "A \<inter> Pg ` set xs = {}"
    by (rule ll.delete_middle_same [OF r]) (use that xs in auto)
  have n: "list_next h (Pg p) = hd (map Pg zs @ map Pg ys @ [Pg p])" by (rule ll.nxt_middle [OF r])
  have rm: "remove1 p xs = ys @ zs" using xs by (simp add: remove1_append)
  show "queue (list_del_init (Pg p) h) (next_head q (Pg p) (list_next h (Pg p))) (remove1 p xs)"
  proof (cases "ys @ zs = []")
    case True
    then show ?thesis using n q rm xs by (simp add: next_head_def)
  next
    case False
    then have "ring (list_del_init (Pg p) h) (map Pg ys @ map Pg zs)" by (intro ll.delete_middle [OF r]) simp
    moreover have "next_head q (Pg p) (list_next h (Pg p)) = Some (Pg (hd (ys @ zs)))"
      using n q xs d False by (cases ys; cases zs) (auto simp: next_head_def)
    ultimately show ?thesis using False rm by (simp add: queue_def)
  qed
qed

definition queue_add :: "page_ptr option \<Rightarrow> page_ptr \<Rightarrow> page_ptr list_heap \<Rightarrow> page_ptr list_heap" where
  "queue_add q p h = (case q of None \<Rightarrow> h | Some a \<Rightarrow> list_add_before a p h)"

lemma queue_insert:
  assumes "queue h q xs" "ring h [Pg p]" "p \<notin> set xs"
  shows "queue (queue_add q (Pg p) h) (case q of None \<Rightarrow> Some (Pg p) | Some a \<Rightarrow> Some a) (xs @ [p])"
    and "A \<inter> Pg ` set (xs @ [p]) = {} \<Longrightarrow> same_links A h (queue_add q (Pg p) h)"
proof -
  show "queue (queue_add q (Pg p) h) (case q of None \<Rightarrow> Some (Pg p) | Some a \<Rightarrow> Some a) (xs @ [p])"
  proof (cases xs)
    case Nil
    then show ?thesis using assms by (simp add: queue_add_def)
  next
    case (Cons x ys)
    then have "q = Some (Pg x)" "ring h (Pg x # map Pg ys)" using assms(1) by (simp_all add: queue_Cons)
    then show ?thesis using ll.rep_add_before [of h "Pg x" "map Pg ys" "Pg p"] assms(3) Cons
      by (auto simp: queue_add_def)
  qed
  show "same_links A h (queue_add q (Pg p) h)" if "A \<inter> Pg ` set (xs @ [p]) = {}"
  proof (cases xs)
    case Nil
    then show ?thesis using assms(1) by (simp add: queue_add_def)
  next
    case (Cons x ys)
    then have "q = Some (Pg x)" "ring h (Pg x # map Pg ys)" using assms(1) by (simp_all add: queue_Cons)
    then show ?thesis using ll.same_add_before [of h "Pg x" "map Pg ys" A "Pg p"] that Cons
      by (auto simp: queue_add_def)
  qed
qed


text \<open>A node that is in no queue may be taken out as well: nothing changes.\<close>

lemma queue_remove_any:
  assumes q: "queue h q xs" and p: "p \<in> set xs \<or> ring h [Pg p]"
  shows "queue (list_del_init (Pg p) h) (next_head q (Pg p) (list_next h (Pg p))) (remove1 p xs)"
    and "ring (list_del_init (Pg p) h) [Pg p]"
    and "A \<inter> Pg ` insert p (set xs) = {} \<Longrightarrow> same_links A h (list_del_init (Pg p) h)"
proof -
  have *: "queue (list_del_init (Pg p) h) (next_head q (Pg p) (list_next h (Pg p))) (remove1 p xs) \<and>
    ring (list_del_init (Pg p) h) [Pg p] \<and>
    (A \<inter> Pg ` insert p (set xs) = {} \<longrightarrow> same_links A h (list_del_init (Pg p) h))"
  proof (cases "p \<in> set xs")
    case True
    then show ?thesis using queue_remove [OF q True] by (simp add: insert_absorb)
  next
    case False
    then have r: "ring h [Pg p]" using p by simp
    have f: "same_links A h (list_del_init (Pg p) h)" if "Pg p \<notin> A" for A
      using ll.same_del_init [of h "Pg p" "[]" A] r that by simp
    have "next_head q (Pg p) n = q" for n using q False by (cases xs) (auto simp: next_head_def queue_Cons)
    moreover have "queue (list_del_init (Pg p) h) q xs" by (rule queue_same [OF q f]) (use False in auto)
    ultimately show ?thesis using False f ll.rep_del_init_self [OF r] by (simp add: remove1_idem)
  qed
  then show "queue (list_del_init (Pg p) h) (next_head q (Pg p) (list_next h (Pg p))) (remove1 p xs)"
    "ring (list_del_init (Pg p) h) [Pg p]"
    "A \<inter> Pg ` insert p (set xs) = {} \<Longrightarrow> same_links A h (list_del_init (Pg p) h)" by blast+
qed

section \<open>Moving a slab between the queues of its cache\<close>

lemma page_ok_kmem [simp]:
  "page_ok (s\<lparr>slab_links := l\<rparr>) p = page_ok s p" "page_ok (s\<lparr>kmcache := k\<rparr>) p = page_ok s p"
  "page_ok (s\<lparr>kmcache_last_accessed := a\<rparr>) p = page_ok s p"
  by (cases p; simp)+

lemma slab_access [simp]:
  "page_ok s p \<Longrightarrow> read_slab s p = Inr (pg_slab (pages s p))"
  "page_ok s p \<Longrightarrow> slab_cache_of s p = deref (slab_cache (pg_slab (pages s p)))"
  "c < length (kmcache s) \<Longrightarrow> get_cache s c = Inr (kmcache s ! c)"
  "c < length (kmcache s) \<Longrightarrow> set_cache c f s = Inr (s\<lparr>kmcache := (kmcache s)[c := f (kmcache s ! c)]\<rparr>)"
  by (simp_all add: read_slab_def slab_cache_of_def get_cache_def set_cache_def)

lemma cache_update_same [simp]:
  "cache_avail k = q \<Longrightarrow> k\<lparr>cache_avail := q\<rparr> = k" "cache_full k = q \<Longrightarrow> k\<lparr>cache_full := q\<rparr> = k"
  by auto

lemma kmem_update_simps [simp]:
  "kmcache s = k \<Longrightarrow> s\<lparr>slab_links := l, kmcache := k\<rparr> = s\<lparr>slab_links := l\<rparr>"
  "s\<lparr>kmcache := k, slab_links := l\<rparr> = s\<lparr>slab_links := l, kmcache := k\<rparr>"
  "s\<lparr>slab_links := l, pages := P\<rparr> = s\<lparr>pages := P, slab_links := l\<rparr>" "s\<lparr>kmcache := k, pages := P\<rparr> = s\<lparr>pages := P, kmcache := k\<rparr>"
  "s\<lparr>slab_links := l, mem := m\<rparr> = s\<lparr>mem := m, slab_links := l\<rparr>" "s\<lparr>kmcache := k, mem := m\<rparr> = s\<lparr>mem := m, kmcache := k\<rparr>"
  by (auto intro!: kmem_state.equality)

text \<open>What the two moves have in common: the queue the slab leaves and the one it joins.\<close>

lemma queue_move:
  assumes qx: "queue h q xs" and ry: "queue h r ys" and p: "p \<in> set xs \<or> ring h [Pg p]" "p \<notin> set ys"
    and d: "set xs \<inter> set ys = {}"
    and h': "h' = queue_add r (Pg p) (list_del_init (Pg p) h)"
  shows "queue h' (next_head q (Pg p) (list_next h (Pg p))) (remove1 p xs)"
    "queue h' (case r of None \<Rightarrow> Some (Pg p) | Some a \<Rightarrow> Some a) (ys @ [p])"
    "A \<inter> Pg ` insert p (set xs \<union> set ys) = {} \<Longrightarrow> same_links A h h'"
proof -
  let ?h = "list_del_init (Pg p) h"
  note rm = queue_remove_any [OF qx p(1)]
  have "queue ?h r ys" by (rule queue_same [OF ry rm(3)]) (use p(2) d in auto)
  note ins = queue_insert [OF this rm(2) p(2)]
  show "queue h' (case r of None \<Rightarrow> Some (Pg p) | Some a \<Rightarrow> Some a) (ys @ [p])" using ins(1) h' by simp
  have "p \<notin> set (remove1 p xs)" using slab_queue_distinct [OF qx] by simp
  then have "Pg ` set (remove1 p xs) \<inter> Pg ` set (ys @ [p]) = {}" using d set_remove1_subset [of p xs] by auto
  from queue_same [OF rm(1) ins(2) [OF this]]
  show "queue h' (next_head q (Pg p) (list_next h (Pg p))) (remove1 p xs)" by (simp add: h')
  assume A: "A \<inter> Pg ` insert p (set xs \<union> set ys) = {}"
  then have "same_links A h ?h" by (intro rm(3)) auto
  moreover have "same_links A ?h h'" unfolding h' by (rule ins(2)) (use A in auto)
  ultimately show "same_links A h h'" by (rule same_links_trans)
qed

lemma set_slab_full_ok:
  assumes "page_ok s (Pg p)" "slab_cache (pg_slab (pages s (Pg p))) = Some c" "c < length (kmcache s)"
    and "queue (slab_links s) (cache_avail (kmcache s ! c)) xs" "queue (slab_links s) (cache_full (kmcache s ! c)) ys"
    and "p \<in> set xs" "set xs \<inter> set ys = {}"
  obtains L k where "set_slab_full (Pg p) s = Inr (s\<lparr>slab_links := L, kmcache := (kmcache s)[c := k]\<rparr>)"
    "cache_size k = cache_size (kmcache s ! c)" "queue L (cache_avail k) (remove1 p xs)" "queue L (cache_full k) (ys @ [p])"
    "same_links (- Pg ` insert p (set xs \<union> set ys)) (slab_links s) L"
proof -
  let ?h = "slab_links s" and ?k = "kmcache s ! c"
  let ?L = "queue_add (cache_full ?k) (Pg p) (list_del_init (Pg p) ?h)"
  let ?k' = "?k\<lparr>cache_avail := next_head (cache_avail ?k) (Pg p) (list_next ?h (Pg p)),
    cache_full := case cache_full ?k of None \<Rightarrow> Some (Pg p) | Some a \<Rightarrow> Some a\<rparr>"
  have p: "p \<in> set xs \<or> ring ?h [Pg p]" "p \<notin> set ys" using assms(6,7) by auto
  note mv = queue_move [OF assms(4,5) p assms(7) refl]
  have "set_slab_full (Pg p) s = Inr (s\<lparr>slab_links := ?L, kmcache := (kmcache s)[c := ?k']\<rparr>)"
    using assms(1-3)
    by (auto simp: set_slab_full_def Let_def next_slab_def next_head_def queue_add_def split: option.split)
  moreover have "same_links (- Pg ` insert p (set xs \<union> set ys)) ?h ?L" by (rule mv(3)) auto
  ultimately show ?thesis using that mv(1,2) by simp
qed

lemma set_slab_available_ok:
  assumes "page_ok s (Pg p)" "slab_cache (pg_slab (pages s (Pg p))) = Some c" "c < length (kmcache s)"
    and "queue (slab_links s) (cache_avail (kmcache s ! c)) xs" "queue (slab_links s) (cache_full (kmcache s ! c)) ys"
    and "p \<in> set ys \<or> ring (slab_links s) [Pg p]" "p \<notin> set xs" "set xs \<inter> set ys = {}"
  obtains L k where "set_slab_available (Pg p) s = Inr (s\<lparr>slab_links := L, kmcache := (kmcache s)[c := k]\<rparr>)"
    "cache_size k = cache_size (kmcache s ! c)" "queue L (cache_avail k) (xs @ [p])" "queue L (cache_full k) (remove1 p ys)"
    "same_links (- Pg ` insert p (set xs \<union> set ys)) (slab_links s) L"
proof -
  let ?h = "slab_links s" and ?k = "kmcache s ! c"
  let ?L = "queue_add (cache_avail ?k) (Pg p) (list_del_init (Pg p) ?h)"
  let ?k' = "?k\<lparr>cache_full := next_head (cache_full ?k) (Pg p) (list_next ?h (Pg p)),
    cache_avail := case cache_avail ?k of None \<Rightarrow> Some (Pg p) | Some a \<Rightarrow> Some a\<rparr>"
  have d: "set ys \<inter> set xs = {}" using assms(8) by auto
  note mv = queue_move [OF assms(5,4,6,7) d refl]
  have "set_slab_available (Pg p) s = Inr (s\<lparr>slab_links := ?L, kmcache := (kmcache s)[c := ?k']\<rparr>)"
    using assms(1-3)
    by (auto simp: set_slab_available_def Let_def next_slab_def next_head_def queue_add_def split: option.split)
  moreover have "same_links (- Pg ` insert p (set xs \<union> set ys)) ?h ?L" by (rule mv(3)) auto
  ultimately show ?thesis using that mv(1,2) by simp
qed

lemma set_slab_empty_ok:
  assumes "page_ok s (Pg p)" "slab_cache (pg_slab (pages s (Pg p))) = Some c" "c < length (kmcache s)"
    and "queue (slab_links s) (cache_avail (kmcache s ! c)) xs" "queue (slab_links s) (cache_full (kmcache s ! c)) ys"
    and "p \<in> set xs" "p \<notin> set ys" "set xs \<inter> set ys = {}"
  obtains L k where "set_slab_empty (Pg p) s = Inr (s\<lparr>slab_links := L, kmcache := (kmcache s)[c := k]\<rparr>)"
    "cache_size k = cache_size (kmcache s ! c)" "queue L (cache_avail k) (remove1 p xs)" "queue L (cache_full k) ys"
    "same_links (- Pg ` set xs) (slab_links s) L"
proof -
  let ?h = "slab_links s" and ?k = "kmcache s ! c"
  let ?L = "list_del_init (Pg p) ?h"
  let ?k' = "?k\<lparr>cache_avail := next_head (cache_avail ?k) (Pg p) (list_next ?h (Pg p))\<rparr>"
  note rm = queue_remove [OF assms(4,6)]
  have "cache_full ?k \<noteq> Some (Pg p)" using assms(5,7) by (cases ys) (auto simp: queue_Cons)
  then have "set_slab_empty (Pg p) s = Inr (s\<lparr>slab_links := ?L, kmcache := (kmcache s)[c := ?k']\<rparr>)"
    using assms(1-3) by (auto simp: set_slab_empty_def Let_def next_slab_def next_head_def)
  moreover have "same_links (- Pg ` set xs) ?h ?L" by (rule rm(3)) auto
  moreover have "queue ?L (cache_full ?k) ys" by (rule queue_same [OF assms(5) rm(3)]) (use assms(8) in auto)
  ultimately show ?thesis using that rm(1) by simp
qed


section \<open>The chunks of a slab\<close>

definition slab_sizes :: "nat list" where
  "slab_sizes = [8, 16, 32, 64, 96, 128, 192, 256, 512, 1024, 2048, 4096, 8192]"

definition csize :: "nat \<Rightarrow> nat" where "csize c = slab_sizes ! c"

definition cap :: "nat \<Rightarrow> nat" where "cap c = 2 ^ 14 div csize c"

definition chunk :: "'s kstate_scheme \<Rightarrow> nat \<Rightarrow> nat \<Rightarrow> nat \<Rightarrow> addr_t" where
  "chunk s c p i = kv s p + of_nat (i * csize c)"

lemma below_13:
  assumes "(c :: nat) < 13"
  obtains "c = 0" | "c = 1" | "c = 2" | "c = 3" | "c = 4" | "c = 5" | "c = 6" | "c = 7" | "c = 8" | "c = 9"
    | "c = 10" | "c = 11" | "c = 12"
proof -
  have "c = 0 \<or> c = 1 \<or> c = 2 \<or> c = 3 \<or> c = 4 \<or> c = 5 \<or> c = 6 \<or> c = 7 \<or> c = 8 \<or> c = 9 \<or> c = 10 \<or> c = 11 \<or> c = 12"
    using assms by presburger
  then show thesis using that by blast
qed

lemma slab_sizes_facts: "\<forall>c<13. 8 \<le> slab_sizes ! c \<and> slab_sizes ! c \<le> 2 ^ 13 \<and> 2 \<le> 2 ^ 14 div slab_sizes ! c \<and>
    2 ^ 14 div slab_sizes ! c \<le> 2048 \<and> 2 ^ 14 div slab_sizes ! c * slab_sizes ! c \<le> 2 ^ 14"
  by (auto simp: slab_sizes_def elim!: below_13)

lemma csize_bounds:
  assumes "c < 13"
  shows "8 \<le> csize c" "csize c \<le> 2 ^ 13" "2 \<le> cap c" "cap c \<le> 2048" "cap c * csize c \<le> 2 ^ 14"
  using slab_sizes_facts assms unfolding csize_def cap_def by blast+

lemma chunk_end: 
  assumes "c < 13" "i < cap c"
  shows "i * csize c + csize c \<le> 2 ^ 14"
proof -
  have "(i + 1) * csize c \<le> cap c * csize c" using assms(2) by (intro mult_right_mono) simp_all
  then show ?thesis using csize_bounds(5) [OF assms(1)] by simp
qed

lemma chunks_apart:
  assumes "frames_ok s" "p < nr_pages s" "q < nr_pages s" "c < 13" "i < cap c" "d < 13" "j < cap d"
    and "p \<noteq> q \<or> c = d \<and> i \<noteq> j" "0 < n" "n \<le> csize c" "0 < k" "k \<le> csize d"
  shows "apart (chunk s c p i) n (chunk s d q j) k"
  unfolding chunk_def
proof (rule kv_apart [OF assms(1-3)])
  have less: "a * csize c + csize c \<le> b * csize c" if "a < b" for a b
  proof -
    have "(a + 1) * csize c \<le> b * csize c" using that by (intro mult_right_mono) simp_all
    then show ?thesis by simp
  qed
  show "p \<noteq> q \<or> i * csize c + n \<le> j * csize d \<or> j * csize d + k \<le> i * csize c"
    using assms(8,10,12) less [of i j] less [of j i] by (cases i j rule: linorder_cases) auto
  show "i * csize c + n \<le> 2 ^ 14" using chunk_end [OF assms(4,5)] assms(10) by linarith
  show "j * csize d + k \<le> 2 ^ 14" using chunk_end [OF assms(6,7)] assms(12) by linarith
qed (rule assms)+

text \<open>The list of free chunks: each holds the index of the next one, the last an invalid index.\<close>

fun free_chain :: "(nat \<Rightarrow> u32) \<Rightarrow> nat \<Rightarrow> u32 \<Rightarrow> nat list \<Rightarrow> bool" where
  "free_chain nx n x [] = (x = INDEX_INVALID)"
| "free_chain nx n x (i # is) = (x = of_nat i \<and> i < n \<and> free_chain nx n (nx i) is)"

lemma free_chain_cong: "(\<And>i. i \<in> set is \<Longrightarrow> nx' i = nx i) \<Longrightarrow> free_chain nx' n x is = free_chain nx n x is"
  by (induction "is" arbitrary: x) auto

lemma free_chain_bound: "free_chain nx n x is \<Longrightarrow> i \<in> set is \<Longrightarrow> i < n"
  by (induction "is" arbitrary: x) auto

lemma free_chain_upt:
  assumes "\<And>i. a \<le> i \<Longrightarrow> i < n \<Longrightarrow> nx i = (if i = n - 1 then INDEX_INVALID else of_nat i + 1)" "a < n"
  shows "free_chain nx n (of_nat a) [a..<n]"
  using assms
proof (induction "n - a" arbitrary: a)
  case (Suc k)
  show ?case
  proof (cases "Suc a = n")
    case True
    then have "a = n - 1" "[a..<n] = [a]" by auto
    then show ?thesis using Suc.prems by simp
  next
    case False
    then have "free_chain nx n (of_nat (Suc a)) [Suc a..<n]" using Suc by (intro Suc.hyps(1)) auto
    then show ?thesis using Suc.prems(1) [of a] Suc.prems(2) False by (simp add: upt_conv_Cons add.commute)
  qed
qed simp

definition link :: "'s kstate_scheme \<Rightarrow> nat \<Rightarrow> nat \<Rightarrow> nat \<Rightarrow> u32" where
  "link s c p i = load32 (chunk s c p i) (mem s)"

text \<open>A slab \<open>p\<close> of the cache \<open>c\<close> with the free chunks \<open>fl\<close>.\<close>

definition slab_ok :: "'s kstate_scheme \<Rightarrow> nat \<Rightarrow> nat \<Rightarrow> nat list \<Rightarrow> bool" where
  "slab_ok s c p fl \<longleftrightarrow>
     p < nr_pages s \<and> pg_type (pages s (Pg p)) = PGTYPE_SLAB \<and>
     slab_cache (pg_slab (pages s (Pg p))) = Some c \<and>
     slab_capacity (pg_slab (pages s (Pg p))) = of_nat (cap c) \<and>
     slab_count (pg_slab (pages s (Pg p))) = of_nat (length fl) \<and> distinct fl \<and>
     free_chain (link s c p) (cap c) (slab_index (pg_slab (pages s (Pg p)))) fl"

lemma chunk_cong: "highmem_base_pfn s' = highmem_base_pfn s \<Longrightarrow> chunk s' c p i = chunk s c p i"
  using page_to_kvaddr_cong [of s' s] by (simp add: chunk_def)

lemma slab_ok_cong:
  assumes "slab_ok s c p fl" "pages s' (Pg p) = pages s (Pg p)" "nr_pages s' = nr_pages s" 
    and "\<And>i. i \<in> set fl \<Longrightarrow> i < cap c \<Longrightarrow> link s' c p i = link s c p i"
  shows "slab_ok s' c p fl"
proof -
  have fc: "free_chain (link s c p) (cap c) (slab_index (pg_slab (pages s (Pg p)))) fl" using assms(1) by (simp add: slab_ok_def)
  have "link s' c p i = link s c p i" if "i \<in> set fl" for i
    by (rule assms(4) [OF that free_chain_bound [OF fc that]])
  then show ?thesis using assms(1-3) free_chain_cong [of fl "link s' c p" "link s c p"] by (simp add: slab_ok_def)
qed

lemma slab_ok_facts:
  assumes "slab_ok s c p fl"
  shows "p < nr_pages s" "slab_cache (pg_slab (pages s (Pg p))) = Some c" "distinct fl" "i \<in> set fl \<Longrightarrow> i < cap c" "length fl \<le> cap c"
proof -
  show "p < nr_pages s" "slab_cache (pg_slab (pages s (Pg p))) = Some c" "distinct fl" using assms by (simp_all add: slab_ok_def)
  show b: "i < cap c" if "i \<in> set fl" for i
    using assms that free_chain_bound by (auto simp: slab_ok_def)
  have "set fl \<subseteq> {..<cap c}" using b by auto
  then have "card (set fl) \<le> cap c" using card_mono [of "{..<cap c}"] by simp
  then show "length fl \<le> cap c" using \<open>distinct fl\<close> by (simp add: distinct_card)
qed


section \<open>The invariant\<close>

record slab_shape =
  sh_avail :: "nat \<Rightarrow> nat list"
  sh_full :: "nat \<Rightarrow> nat list"
  sh_free :: "nat \<Rightarrow> nat list"

definition slabs :: "slab_shape \<Rightarrow> nat \<Rightarrow> nat set" where
  "slabs sh c = set (sh_avail sh c) \<union> set (sh_full sh c)"

definition caches_ok :: "'s kmem_state_scheme \<Rightarrow> slab_shape \<Rightarrow> bool" where
  "caches_ok s sh \<longleftrightarrow> length (kmcache s) = 13 \<and> (\<forall>c. kmcache_last_accessed s = Some c \<longrightarrow> c < 13) \<and>
     (\<forall>c<13. cache_size (kmcache s ! c) = of_nat (csize c) \<and>
        queue (slab_links s) (cache_avail (kmcache s ! c)) (sh_avail sh c) \<and>
        queue (slab_links s) (cache_full (kmcache s ! c)) (sh_full sh c))"

definition slab_inv :: "'s kmem_state_scheme \<Rightarrow> nat list list \<Rightarrow> slab_shape \<Rightarrow> bool" where
  "slab_inv s As sh \<longleftrightarrow> frames_ok s \<and> caches_ok s sh \<and>
     (\<forall>c<13. \<forall>p\<in>slabs sh c. [p] \<in> set As \<and> slab_ok s c p (sh_free sh p) \<and> 
       (p \<in> set (sh_avail sh c) \<longleftrightarrow> sh_free sh p \<noteq> []) \<and> (p \<in> set (sh_full sh c) \<longleftrightarrow> sh_free sh p = []))"

text \<open>The chunks that are handed out: cache, page and index.\<close>

definition live :: "slab_shape \<Rightarrow> (nat \<times> nat \<times> nat) set" where
  "live sh = {(c, p, i). c < 13 \<and> p \<in> slabs sh c \<and> i < cap c \<and> i \<notin> set (sh_free sh p)}"

lemma slab_inv_cache:
  assumes "slab_inv s As sh" "c < 13"
  shows "length (kmcache s) = 13" "cache_size (kmcache s ! c) = of_nat (csize c)"
    "queue (slab_links s) (cache_avail (kmcache s ! c)) (sh_avail sh c)"
    "queue (slab_links s) (cache_full (kmcache s ! c)) (sh_full sh c)" "set (sh_avail sh c) \<inter> set (sh_full sh c) = {}"
  using assms by (auto simp: slab_inv_def caches_ok_def slabs_def)

lemma slab_inv_slab:
  assumes "slab_inv s As sh" "c < 13" "p \<in> slabs sh c"
  shows "[p] \<in> set As" "slab_ok s c p (sh_free sh p)" "p \<in> set (sh_avail sh c) \<longleftrightarrow> sh_free sh p \<noteq> []"
    "p \<in> set (sh_full sh c) \<longleftrightarrow> sh_free sh p = []"
  using assms by (auto simp: slab_inv_def)

lemma slab_not_free:
  assumes "page_inv s F As" "slab_inv s As sh" "f \<in> set F" "d < 13"
  shows "f \<notin> slabs sh d"
proof
  assume "f \<in> slabs sh d"
  then have "[f] \<in> set As" by (rule slab_inv_slab(1) [OF assms(2,4)])
  then have "f \<in> set (concat As)" by (auto intro!: bexI [of _ "[f]"])
  then show False using assms(1,3) by (auto simp: page_inv_def)
qed

section \<open>Finding the cache\<close>

definition slab_lower :: "nat list" where
  "slab_lower = [8, 16, 24, 40, 72, 104, 136, 200, 264, 520, 1032, 2056, 4104]"

lemma LBOUND_size: "c < 13 \<Longrightarrow> LBOUND (of_nat (csize c)) = Inr (of_nat (slab_lower ! c))"
proof -
  have "fls (mask (Suc n)) = Suc n" if "n < 32" for n
    by (rule fls_eq) (use that in \<open>simp_all add: bit_mask_iff\<close>)
  from this [of 8] this [of 9] this [of 10] this [of 11] this [of 12]
  have f: "fls 511 = 9" "fls 1023 = 10" "fls 2047 = 11" "fls 4095 = 12" "fls 8191 = 13"
    by (simp_all add: mask_eq_exp_minus_1)
  assume "c < 13"
  then show ?thesis
    by (elim below_13; simp add: LBOUND_def table_at_def lbound_def csize_def slab_sizes_def slab_lower_def f)
qed

lemma slab_lower_facts: "c < 13 \<Longrightarrow> slab_lower ! c = (if c = 0 then 8 else csize (c - 1) + 8) \<and> 8 dvd csize c"
  by (elim below_13; simp add: slab_lower_def csize_def slab_sizes_def)

lemma cache_for:
  assumes "8 dvd n" "0 < n" "n \<le> 2 ^ 13"
  obtains c where "c < 13" "slab_lower ! c \<le> n" "n \<le> csize c"
proof -
  define c where "c = (LEAST c. n \<le> csize c)"
  have top: "n \<le> csize 12" using assms(3) by (simp add: csize_def slab_sizes_def)
  have c: "n \<le> csize c" unfolding c_def by (rule LeastI [of _ 12]) (rule top)
  have "c \<le> 12" unfolding c_def by (rule Least_le) (rule top)
  then have c13: "c < 13" by simp
  have "slab_lower ! c \<le> n"
  proof (cases "c = 0")
    case True
    then show ?thesis using slab_lower_facts [OF c13] dvd_imp_le [OF assms(1,2)] by simp
  next
    case False
    then have "\<not> n \<le> csize (c - 1)" unfolding c_def by (intro not_less_Least) simp
    moreover have "8 dvd csize (c - 1)" using slab_lower_facts [of "c - 1"] c13 by simp
    ultimately have "csize (c - 1) + 8 \<le> n" using assms(1) by (elim dvdE) auto
    then show ?thesis using slab_lower_facts [OF c13] False by simp
  qed
  then show ?thesis using that c c13 by blast
qed

lemma almost_fit:
  assumes "caches_ok s sh" "c < 13" 
  shows "kmcache_almost_fit bytes (Some c) s = Inr (slab_lower ! c \<le> unat bytes \<and> unat bytes \<le> csize c)"
proof -
  have b: "slab_lower ! c < 2 ^ 64" "csize c < 2 ^ 64"
  proof -
    have "c - 1 < 13" using assms(2) by simp
    then have "csize (c - 1) \<le> 2 ^ 13" "csize c \<le> 2 ^ 13" using csize_bounds(2) assms(2) by blast+
    then show "slab_lower ! c < 2 ^ 64" "csize c < 2 ^ 64" using slab_lower_facts [OF assms(2)] by simp_all
  qed
  have "cache_size (kmcache s ! c) = of_nat (csize c)" "c < length (kmcache s)" using assms by (simp_all add: caches_ok_def)
  then show ?thesis using LBOUND_size [OF assms(2)] b
    by (simp add: kmcache_almost_fit_def word_le_nat_alt unat_of_nat_u64)
qed

lemma search_finds:
  assumes "caches_ok s sh" "set is \<subseteq> {..<13}" "c \<in> set is" "slab_lower ! c \<le> unat bytes" "unat bytes \<le> csize c"
  shows "\<exists>d\<in>set is. search_kmcache is bytes s = Inr (d, s\<lparr>kmcache_last_accessed := Some d\<rparr>) \<and> unat bytes \<le> csize d"
  using assms(2,3)
proof (induction "is")
  case (Cons i "is")
  then have i: "i < 13" by simp
  show ?case
  proof (cases "slab_lower ! i \<le> unat bytes \<and> unat bytes \<le> csize i")
    case True
    then show ?thesis using almost_fit [OF assms(1) i, of bytes] by simp
  next
    case False
    then have "c \<in> set is" using Cons.prems assms(4,5) by auto
    then show ?thesis using Cons almost_fit [OF assms(1) i, of bytes] False by simp
  qed
qed simp

lemma kmcache_last_same: "kmcache_last_accessed s = a \<Longrightarrow> s\<lparr>kmcache_last_accessed := a\<rparr> = s"
  by auto

lemma find_kmcache_ok:
  assumes ok: "caches_ok s sh" and n: "8 dvd unat bytes" "0 < unat bytes" "unat bytes \<le> 2 ^ 13"
  obtains c where "find_kmcache bytes s = Inr (c, s\<lparr>kmcache_last_accessed := Some c\<rparr>)" "c < 13" "unat bytes \<le> csize c"
proof -
  obtain c where c: "c < 13" "slab_lower ! c \<le> unat bytes" "unat bytes \<le> csize c" using cache_for [OF n] by blast
  have "\<exists>d\<in>set [0..<13]. search_kmcache [0..<13] bytes s = Inr (d, s\<lparr>kmcache_last_accessed := Some d\<rparr>) \<and> unat bytes \<le> csize d"
    by (rule search_finds [OF ok _ _ c(2,3)]) (use c(1) in auto)
  then obtain d where d: "d < 13" "search_kmcache [0..<13] bytes s = Inr (d, s\<lparr>kmcache_last_accessed := Some d\<rparr>)" "unat bytes \<le> csize d"
    by auto
  show ?thesis
  proof (cases "kmcache_last_accessed s")
    case None
    then show ?thesis using d that [of d] by (simp add: find_kmcache_def kmcache_almost_fit_def)
  next
    case (Some e)
    then have e: "e < 13" using ok by (simp add: caches_ok_def)
    show ?thesis
    proof (cases "slab_lower ! e \<le> unat bytes \<and> unat bytes \<le> csize e")
      case True
      then show ?thesis using almost_fit [OF ok e, of bytes] Some e that [of e] kmcache_last_same [OF Some]
        by (simp add: find_kmcache_def)
    next
      case False
      then have "find_kmcache bytes s = Inr (d, s\<lparr>kmcache_last_accessed := Some d\<rparr>)"
        using almost_fit [OF ok e, of bytes] Some d(2) by (auto simp: find_kmcache_def)
      then show ?thesis using that d(1,3) by blast
    qed
  qed
qed


section \<open>Frames\<close>

lemma kmem_of_frame:
  assumes "page_frame s s'"
  shows "slab_links (s' :: 's kmem_state_scheme) = slab_links s" "kmcache s' = kmcache s"
    "kmcache_last_accessed s' = kmcache_last_accessed s"
  using assms by (cases s; cases s'; simp add: page_frame_def)+

lemma slabs_apart: "slab_inv s As sh \<Longrightarrow> c < 13 \<Longrightarrow> d < 13 \<Longrightarrow> c \<noteq> d \<Longrightarrow> slabs sh c \<inter> slabs sh d = {}"
  by (simp add: slab_inv_def slab_ok_def) (metis disjoint_iff option.inject)

lemma queues_apart: "slab_inv s As sh \<Longrightarrow> c < 13 \<Longrightarrow> set (sh_avail sh c) \<subseteq> slabs sh c \<and> set (sh_full sh c) \<subseteq> slabs sh c"
  by (auto simp: slabs_def)

lemma caches_ok_update:
  assumes ok: "caches_ok s sh" and c: "c < 13"
    and s': "kmcache s' = (kmcache s)[c := k]" "cache_size k = cache_size (kmcache s ! c)"
      "kmcache_last_accessed s' = kmcache_last_accessed s"
    and q: "queue (slab_links s') (cache_avail k) (sh_avail sh' c)" "queue (slab_links s') (cache_full k) (sh_full sh' c)"
    and links: "same_links (- Pg ` A) (slab_links s) (slab_links s')" "\<And>d. d < 13 \<Longrightarrow> d \<noteq> c \<Longrightarrow> slabs sh d \<inter> A = {}"
    and sh': "\<And>d. d \<noteq> c \<Longrightarrow> sh_avail sh' d = sh_avail sh d \<and> sh_full sh' d = sh_full sh d"
  shows "caches_ok s' sh'"
proof -
  have "queue (slab_links s') (cache_avail (kmcache s ! d)) (sh_avail sh d) \<and> queue (slab_links s') (cache_full (kmcache s ! d)) (sh_full sh d)"
    if d: "d < 13" "d \<noteq> c" for d
  proof -
    have "same_links (Pg ` slabs sh d) (slab_links s) (slab_links s')"
      by (rule same_links_subset [OF links(1)]) (use links(2) [OF d] in auto)
    moreover have "queue (slab_links s) (cache_avail (kmcache s ! d)) (sh_avail sh d)"
      "queue (slab_links s) (cache_full (kmcache s ! d)) (sh_full sh d)" using ok d by (simp_all add: caches_ok_def)
    ultimately show ?thesis by (auto simp: slabs_def image_Un intro: queue_same same_links_subset)
  qed
  then show ?thesis using ok c s' q sh' by (simp add: caches_ok_def nth_list_update)
qed

text \<open>Two memories that differ in the page \<open>p\<close> only.\<close>

definition same_but :: "'s kstate_scheme \<Rightarrow> nat \<Rightarrow> memory \<Rightarrow> memory \<Rightarrow> bool" where
  "same_but s p m m' \<longleftrightarrow> (\<forall>q x k. q < nr_pages s \<longrightarrow> q \<noteq> p \<longrightarrow> x + k \<le> 2 ^ 14 \<longrightarrow> 0 < k \<longrightarrow>
     load_bytes (kv s q + of_nat x) k m' = load_bytes (kv s q + of_nat x) k m)"

lemma same_but_chunk:
  assumes "same_but s p m m'" "q < nr_pages s" "q \<noteq> p" "d < 13" "j < cap d" "0 < k" "k \<le> csize d"
  shows "load_bytes (chunk s d q j) k m' = load_bytes (chunk s d q j) k m"
proof -
  have "j * csize d + k \<le> 2 ^ 14" using chunk_end [OF assms(4,5)] assms(7) by linarith
  then show ?thesis using assms(1-3,6) unfolding same_but_def chunk_def by blast
qed

lemma same_but_memset:
  assumes "frames_ok s" "p < nr_pages s"
  shows "same_but s p m (memset (kv s p) c PGSIZE m)"
proof -
  have "load_bytes (kv s q + of_nat x) k (memset (kv s p) c PGSIZE m) = load_bytes (kv s q + of_nat x) k m"
    if "q < nr_pages s" "q \<noteq> p" "x + k \<le> 2 ^ 14" "0 < k" for q x k
    using kv_apart [OF assms that(1), of 0 "2 ^ 14" x k] that by (simp add: load_bytes_memset_apart PGSIZE_def)
  then show ?thesis by (simp add: same_but_def)
qed

lemma slab_ok_other:
  assumes "slab_ok s d q fl" "same_but s p (mem s) (mem s')" "q \<noteq> p" "d < 13" "pages s' (Pg q) = pages s (Pg q)"
    and base: "nr_pages s' = nr_pages s" "highmem_base_pfn s' = highmem_base_pfn s"
  shows "slab_ok s' d q fl"
proof (rule slab_ok_cong [OF assms(1,5) base(1)])
  fix j assume "j < cap d"
  then have "load_bytes (chunk s d q j) 4 (mem s') = load_bytes (chunk s d q j) 4 (mem s)"
    using same_but_chunk [OF assms(2) slab_ok_facts(1) [OF assms(1)] assms(3,4)] csize_bounds(1) [OF assms(4)] by simp
  then show "link s' d q j = link s d q j" by (simp add: link_def load32_def chunk_cong [OF base(2)])
qed

text \<open>The chunks of a set keep their contents.\<close>

definition kept :: "'s kstate_scheme \<Rightarrow> 's kstate_scheme \<Rightarrow> (nat \<times> nat \<times> nat) set \<Rightarrow> bool" where
  "kept s s' L \<longleftrightarrow> (\<forall>(c, p, i) \<in> L.
     load_bytes (chunk s c p i) (csize c) (mem s') = load_bytes (chunk s c p i) (csize c) (mem s))"

lemma keptD: "kept s s' L \<Longrightarrow> (c, p, i) \<in> L \<Longrightarrow>
    load_bytes (chunk s c p i) (csize c) (mem s') = load_bytes (chunk s c p i) (csize c) (mem s)"
  unfolding kept_def by (drule (1) bspec) simp

lemma kept_trans: "kept s s1 L \<Longrightarrow> kept s1 s2 L' \<Longrightarrow> L \<subseteq> L' \<Longrightarrow> highmem_base_pfn s1 = highmem_base_pfn s \<Longrightarrow> kept s s2 L"
  using chunk_cong [of s1 s] by (force simp: kept_def)

lemma live_facts: "slab_inv s As sh \<Longrightarrow> (c, p, i) \<in> live sh \<Longrightarrow> c < 13 \<and> p \<in> slabs sh c \<and> i < cap c \<and> p < nr_pages s"
  by (auto simp: live_def slab_inv_def slab_ok_def)

lemma kept_same_but:
  assumes "slab_inv s As sh" "same_but s p (mem s) (mem s')" "\<And>c i. (c, p, i) \<notin> L" "L \<subseteq> live sh"
  shows "kept s s' L"
proof -
  have "load_bytes (chunk s c q i) (csize c) (mem s') = load_bytes (chunk s c q i) (csize c) (mem s)" if "(c, q, i) \<in> L" for c q i
  proof -
    have l: "c < 13" "i < cap c" "q < nr_pages s" using live_facts [OF assms(1)] assms(4) that by blast+
    have "q \<noteq> p" using that assms(3) by auto
    then show ?thesis using same_but_chunk [OF assms(2) l(3) _ l(1,2)] csize_bounds(1) [OF l(1)] by simp
  qed
  then show ?thesis by (auto simp: kept_def)
qed


section \<open>A new slab\<close>

lemma chunk_Suc: "chunk s c p i + of_nat (csize c) = chunk s c p (Suc i)"
  by (simp add: chunk_def algebra_simps)

lemma fill_slab_loop_links:
  assumes "frames_ok s" "p < nr_pages s" "c < 13" "i + n = cap c"
    and "m' = fill_slab_loop n (of_nat i) (chunk s c p i) (of_nat (csize c)) (of_nat (cap c)) m"
  shows "(\<forall>j<cap c. load32 (chunk s c p j) m' =
        (if i \<le> j then if j = cap c - 1 then INDEX_INVALID else of_nat j + 1 else load32 (chunk s c p j) m)) \<and> same_but s p m m'"
  using assms(4,5)
proof (induction n arbitrary: i m)
  case 0
  then show ?case by (simp add: same_but_def)
next
  case (Suc n)
  let ?v = "if (of_nat i :: u32) = of_nat (cap c) - 1 then INDEX_INVALID else of_nat i + 1"
  let ?m = "store32 (chunk s c p i) ?v m"
  let ?r = "fill_slab_loop n (of_nat (Suc i)) (chunk s c p (Suc i)) (of_nat (csize c)) (of_nat (cap c)) ?m"
  have step: "fill_slab_loop (Suc n) (of_nat i) (chunk s c p i) (of_nat (csize c)) (of_nat (cap c)) m = ?r"
    unfolding fill_slab_loop.simps chunk_Suc by (simp add: add.commute)
  have i: "i < cap c" "Suc i + n = cap c" using Suc.prems by simp_all
  have c: "8 \<le> csize c" "2 \<le> cap c" "cap c \<le> 2048" using csize_bounds [OF assms(3)] by simp_all
  have "(of_nat (cap c) :: u32) - 1 = of_nat (cap c - 1)" using c by (simp add: of_nat_diff)
  moreover have "unat (of_nat i :: u32) = i" "unat (of_nat (cap c - 1) :: u32) = cap c - 1"
    using i(1) c by (intro unat_of_nat_u32; simp)+
  then have "(of_nat i :: u32) = of_nat (cap c - 1) \<longleftrightarrow> i = cap c - 1" by metis
  ultimately have v: "?v = (if i = cap c - 1 then INDEX_INVALID else of_nat i + 1)" by simp
  have ap: "apart (chunk s c p i) 4 (chunk s c p j) 4" if "j \<noteq> i" "j < cap c" for j
    by (rule chunks_apart) (use assms(1-3) i that c in auto)
  have first: "load32 (chunk s c p j) ?m = (if j = i then ?v else load32 (chunk s c p j) m)" if "j < cap c" for j
    using ap [OF _ that] by (simp add: load32_store32_apart)
  have m': "m' = ?r" using Suc.prems(2) step by simp
  note IH = Suc.IH [OF i(2) m']
  have sb: "same_but s p m ?m"
    unfolding same_but_def
  proof (intro allI impI)
      fix q x k :: nat assume q: "q < nr_pages s" "q \<noteq> p" "x + k \<le> 2 ^ 14" "0 < k"
      have "apart (kv s p + of_nat (i * csize c)) 4 (kv s q + of_nat x) k"
        by (rule kv_apart) (use assms(1,2) q chunk_end [OF assms(3) i(1)] c in auto)
      then show "load_bytes (kv s q + of_nat x) k ?m = load_bytes (kv s q + of_nat x) k m"
        by (simp only: load_bytes_store32_apart chunk_def)
  qed
  have "load32 (chunk s c p j) m' = (if i \<le> j then if j = cap c - 1 then INDEX_INVALID else of_nat j + 1 else load32 (chunk s c p j) m)"
    if "j < cap c" for j
    using IH first [OF that] that v by (cases i j rule: linorder_cases) auto
  moreover have "same_but s p m m'" using IH sb by (simp add: same_but_def)
  ultimately show ?case by blast
qed


lemma page_inv_kmem [simp]:
  "page_inv (s\<lparr>slab_links := l\<rparr>) F As = page_inv s F As" "page_inv (s\<lparr>kmcache := k\<rparr>) F As = page_inv s F As"
  "page_inv (s\<lparr>kmcache_last_accessed := a\<rparr>) F As = page_inv s F As"
  by (simp_all add: page_inv_def free_list_def alloc_set_def)

lemma page_to_kvaddr_kmem [simp]:
  "page_to_kvaddr (s\<lparr>slab_links := l\<rparr>) p = page_to_kvaddr s p" "page_to_kvaddr (s\<lparr>kmcache := k\<rparr>) p = page_to_kvaddr s p"
  "page_to_kvaddr (s\<lparr>kmcache_last_accessed := a\<rparr>) p = page_to_kvaddr s p"
  by (rule page_to_kvaddr_cong, simp)+

lemma page_count_one:
  assumes "page_inv s F As" "[f] \<in> set As"
  shows "page_count s (Pg f) = Inr 1" "f < nr_pages s"
proof -
  have "alloc_set s [f]" using assms by (simp add: page_inv_def)
  then show "page_count s (Pg f) = Inr 1" "f < nr_pages s"
    using alloc_set_first_page(2) [of s "[f]" f] by (simp_all add: alloc_set_def)
qed

lemma capacity:
  assumes "c < 13"
  shows "ucast (PGSIZE * 1 div of_nat (csize c)) = (of_nat (cap c) :: u32)"
proof -
  have "unat (of_nat (csize c) :: u64) = csize c" using csize_bounds(2) [OF assms] by (intro unat_of_nat_u64) simp
  then have "unat (PGSIZE div of_nat (csize c)) = cap c" by (simp add: unat_div PGSIZE_def cap_def)
  moreover have "cap c < 2 ^ 64" "cap c < 2 ^ 32" using csize_bounds(4) [OF assms] by simp_all
  ultimately have "PGSIZE div of_nat (csize c) = of_nat (cap c)" by (metis of_nat_unat ucast_id)
  then show ?thesis using \<open>cap c < 2 ^ 64\<close> by (simp add: unsigned_of_nat take_bit_nat_eq_self)
qed

definition add_slab :: "nat \<Rightarrow> nat \<Rightarrow> slab_shape \<Rightarrow> slab_shape" where
  "add_slab c f sh = sh\<lparr>sh_avail := (sh_avail sh)(c := sh_avail sh c @ [f]), sh_free := (sh_free sh)(f := [0..<cap c])\<rparr>"

lemma add_slab_simps [simp]:
  "sh_avail (add_slab c f sh) d = (if d = c then sh_avail sh c @ [f] else sh_avail sh d)"
  "sh_full (add_slab c f sh) = sh_full sh"
  "sh_free (add_slab c f sh) p = (if p = f then [0..<cap c] else sh_free sh p)"
  "slabs (add_slab c f sh) d = (if d = c then insert f (slabs sh c) else slabs sh d)"
  by (auto simp: add_slab_def slabs_def)

lemma live_add_slab: "\<forall>d<13. f \<notin> slabs sh d \<Longrightarrow> live (add_slab c f sh) = live sh"
  by (auto simp: live_def split: if_splits)

lemma slab_new_run:
  assumes inv: "page_inv s F As" and ok: "slab_inv s As sh" and F: "F \<noteq> []" and c: "c < 13"
  obtains s1 g L k where "slab_new c s = Inr (Some (Pg (hd F)), fill_slab (Pg (hd F)) (of_nat (csize c)) (of_nat (cap c))
      (s1\<lparr>pages := (pages s1)(Pg (hd F) := g), slab_links := L, kmcache := (kmcache s)[c := k]\<rparr>))"
    "page_inv s1 (tl F) ([hd F] # As)" "page_frame s s1" "mem s1 = mem s" "\<And>q. q \<noteq> Pg (hd F) \<Longrightarrow> pages s1 q = pages s q"
    "g = (pages s1 (Pg (hd F)))\<lparr>pg_type := PGTYPE_SLAB, pg_slab := (pg_slab (pages s1 (Pg (hd F))))\<lparr>slab_cache := Some c,
       slab_index := 0, slab_capacity := of_nat (cap c), slab_count := of_nat (cap c)\<rparr>\<rparr>"
    "pg_type (pages s1 (Pg (hd F))) = PGTYPE_GENERIC"
    "cache_size k = of_nat (csize c)" "queue L (cache_avail k) (sh_avail sh c @ [hd F])" "queue L (cache_full k) (sh_full sh c)"
    "same_links (- Pg ` insert (hd F) (slabs sh c)) (slab_links s) L"
proof -
  let ?f = "hd F"
  obtain s1 where s1: "pgalloc s = Inr (Some (Pg ?f), s1)" "page_inv s1 (tl F) ([?f] # As)" "page_frame s s1" "mem s1 = mem s"
    "pg_type (pages s1 (Pg ?f)) = PGTYPE_GENERIC" "\<And>q. q \<noteq> Pg ?f \<Longrightarrow> pages s1 q = pages s q" "?f < nr_pages s"
    by (rule pgalloc_inv [OF inv F]) (rule that)
  note km = kmem_of_frame [OF s1(3)]
  have nr: "nr_pages s1 = nr_pages s" using s1(3) by (simp add: page_frame_def)
  have "?f \<in> set F" using F by simp
  note fresh = slab_not_free [OF inv ok this c]
  note cs = slab_inv_cache [OF ok c]
  let ?g = "(pages s1 (Pg ?f))\<lparr>pg_type := PGTYPE_SLAB, pg_slab := (pg_slab (pages s1 (Pg ?f)))\<lparr>slab_cache := Some c,
       slab_index := 0, slab_capacity := of_nat (cap c), slab_count := of_nat (cap c)\<rparr>\<rparr>"
  let ?s2 = "s1\<lparr>pages := (pages s1)(Pg ?f := (pages s1 (Pg ?f))\<lparr>pg_type := PGTYPE_SLAB\<rparr>), slab_links := list_init (Pg ?f) (slab_links s)\<rparr>"
  let ?s3 = "s1\<lparr>pages := (pages s1)(Pg ?f := ?g), slab_links := list_init (Pg ?f) (slab_links s)\<rparr>"
  have "page_inv (s1\<lparr>pages := (pages s1)(Pg ?f := (pages s1 (Pg ?f))\<lparr>pg_type := PGTYPE_SLAB\<rparr>)\<rparr>) (tl F) ([?f] # As)"
    by (rule page_inv_pages_update [OF s1(2)]) (simp_all add: s1(5))
  then have pc: "page_count ?s2 (Pg ?f) = Inr 1" by (intro page_count_one(1) [of _ "tl F" "[?f] # As"]) simp_all
  have init: "same_links A (slab_links s) (list_init (Pg ?f) (slab_links s))" if "Pg ?f \<notin> A" for A
    by (rule ll.same_init [OF that])
  have nf: "Pg ?f \<notin> Pg ` set (sh_avail sh c)" "Pg ?f \<notin> Pg ` set (sh_full sh c)" using fresh by (auto simp: slabs_def)
  have a: "page_ok ?s3 (Pg ?f)" "slab_cache (pg_slab (pages ?s3 (Pg ?f))) = Some c" "c < length (kmcache ?s3)"
    "queue (slab_links ?s3) (cache_avail (kmcache ?s3 ! c)) (sh_avail sh c)"
    "queue (slab_links ?s3) (cache_full (kmcache ?s3 ! c)) (sh_full sh c)"
    "?f \<in> set (sh_full sh c) \<or> ring (slab_links ?s3) [Pg ?f]" "?f \<notin> set (sh_avail sh c)"
    using s1(7) nr c cs(1) km queue_same [OF cs(3) init [OF nf(1)]] queue_same [OF cs(4) init [OF nf(2)]]
      ll.rep_init [of "Pg ?f" "slab_links s"] nf by auto
  obtain L k where L: "set_slab_available (Pg ?f) ?s3 = Inr (?s3\<lparr>slab_links := L, kmcache := (kmcache ?s3)[c := k]\<rparr>)"
    "cache_size k = cache_size (kmcache ?s3 ! c)" "queue L (cache_avail k) (sh_avail sh c @ [?f])" "queue L (cache_full k) (remove1 ?f (sh_full sh c))"
    "same_links (- Pg ` insert ?f (set (sh_avail sh c) \<union> set (sh_full sh c))) (slab_links ?s3) L"
    by (rule set_slab_available_ok [OF a cs(5)]) (rule that)
  have "slab_new c s = Inr (Some (Pg ?f), fill_slab (Pg ?f) (of_nat (csize c)) (of_nat (cap c))
      (s1\<lparr>pages := (pages s1)(Pg ?f := ?g), slab_links := L, kmcache := (kmcache s)[c := k]\<rparr>))"
    using s1(1,7) nr pc L(1) km cs(1,2) c capacity [OF c] by (simp add: slab_new_def write_slab_def Let_def)
  moreover have "same_links (- Pg ` insert ?f (slabs sh c)) (slab_links s) L"
  proof (rule same_links_trans [OF init])
    show "same_links (- Pg ` insert ?f (slabs sh c)) (list_init (Pg ?f) (slab_links s)) L"
      using L(5) by (simp add: slabs_def)
  qed simp
  moreover have "queue L (cache_full k) (sh_full sh c)" using L(4) nf(2) by (simp add: remove1_idem image_iff)
  ultimately show ?thesis using that s1(2-6) L(2,3) km cs(2) by auto
qed


lemma slab_new_ok:
  assumes inv: "page_inv s F As" and ok: "slab_inv s As sh" and F: "F \<noteq> []" and c: "c < 13"
  obtains s' where "slab_new c s = Inr (Some (Pg (hd F)), s')" "page_inv s' (tl F) ([hd F] # As)"
    "slab_inv s' ([hd F] # As) (add_slab c (hd F) sh)" "live (add_slab c (hd F) sh) = live sh" "kept s s' (live sh)"
    "nr_pages s' = nr_pages s" "highmem_base_pfn s' = highmem_base_pfn s"
proof -
  let ?f = "hd F" and ?sh = "add_slab c (hd F) sh"
  obtain s1 g L k where r: "slab_new c s = Inr (Some (Pg ?f), fill_slab (Pg ?f) (of_nat (csize c)) (of_nat (cap c))
      (s1\<lparr>pages := (pages s1)(Pg ?f := g), slab_links := L, kmcache := (kmcache s)[c := k]\<rparr>))"
    "page_inv s1 (tl F) ([?f] # As)" "page_frame s s1" "mem s1 = mem s" "\<And>q. q \<noteq> Pg ?f \<Longrightarrow> pages s1 q = pages s q"
    "g = (pages s1 (Pg ?f))\<lparr>pg_type := PGTYPE_SLAB, pg_slab := (pg_slab (pages s1 (Pg ?f)))\<lparr>slab_cache := Some c,
       slab_index := 0, slab_capacity := of_nat (cap c), slab_count := of_nat (cap c)\<rparr>\<rparr>"
    "pg_type (pages s1 (Pg ?f)) = PGTYPE_GENERIC"
    "cache_size k = of_nat (csize c)" "queue L (cache_avail k) (sh_avail sh c @ [?f])" "queue L (cache_full k) (sh_full sh c)"
    "same_links (- Pg ` insert ?f (slabs sh c)) (slab_links s) L"
    by (rule slab_new_run [OF assms]) (rule that)
  note km = kmem_of_frame [OF r(3)]
  have base: "nr_pages s1 = nr_pages s" "highmem_base_pfn s1 = highmem_base_pfn s" using r(3) by (simp_all add: page_frame_def)
  have fr: "frames_ok s" using ok by (simp add: slab_inv_def)
  have f: "?f < nr_pages s" using inv F by (simp add: page_inv_def free_list_def)
  have cb: "2 \<le> cap c" "cap c \<le> 2048" "unat (of_nat (cap c) :: u32) = cap c" using csize_bounds [OF c] by (simp_all add: unat_of_nat_u32)
  have fresh: "?f \<notin> slabs sh d" if "d < 13" for d by (rule slab_not_free [OF inv ok _ that]) (use F in simp)
  let ?s5 = "s1\<lparr>pages := (pages s1)(Pg ?f := g), slab_links := L, kmcache := (kmcache s)[c := k]\<rparr>"
  let ?m = "fill_slab_loop (cap c) (of_nat 0) (chunk s c ?f 0) (of_nat (csize c)) (of_nat (cap c)) (mem s)"
  let ?s = "?s5\<lparr>mem := ?m\<rparr>"
  have kv5: "page_to_kvaddr ?s5 p = page_to_kvaddr s p" for p using page_to_kvaddr_cong [of ?s5 s p] base by simp
  have res: "slab_new c s = Inr (Some (Pg ?f), ?s)"
    using r(1) kv5 [of "Some (Pg ?f)"] cb(3) r(4) by (simp add: fill_slab_def chunk_def)
  have links: "\<forall>j<cap c. load32 (chunk s c ?f j) ?m = (if j = cap c - 1 then INDEX_INVALID else of_nat j + 1)"
    and but: "same_but s ?f (mem s) (mem ?s)"
    using fill_slab_loop_links [OF fr f c _ refl, of 0 "cap c" "mem s"] by simp_all
  have baseS: "nr_pages ?s = nr_pages s" "highmem_base_pfn ?s = highmem_base_pfn s" using base by simp_all
  have "page_inv (s1\<lparr>pages := (pages s1)(Pg ?f := g)\<rparr>) (tl F) ([?f] # As)"
    by (rule page_inv_pages_update [OF r(2)]) (simp_all add: r(6,7))
  then have inv': "page_inv ?s (tl F) ([?f] # As)" by simp
  have new: "slab_ok ?s c ?f [0..<cap c]"
  proof -
    have "free_chain (link ?s c ?f) (cap c) (of_nat 0) [0..<cap c]"
    proof (rule free_chain_upt)
      show "link ?s c ?f i = (if i = cap c - 1 then INDEX_INVALID else of_nat i + 1)" if "i < cap c" for i
        unfolding link_def chunk_cong [OF baseS(2)] using links that by simp
    qed (use cb in simp)
    then show ?thesis using f base r(6) by (simp add: slab_ok_def)
  qed
  have caches: "caches_ok ?s ?sh"
  proof (rule caches_ok_update [where s = s and sh = sh and c = c and k = k and A = "insert ?f (slabs sh c)"])
    show "same_links (- Pg ` insert ?f (slabs sh c)) (slab_links s) (slab_links ?s)" using r(11) by simp
    show "slabs sh d \<inter> insert ?f (slabs sh c) = {}" if "d < 13" "d \<noteq> c" for d
      using slabs_apart [OF ok that(1) c that(2)] fresh [OF that(1)] by auto
  qed (use ok c km r(8-10) slab_inv_cache(2) [OF ok c] in \<open>simp_all add: slab_inv_def\<close>)
  have "[p] \<in> set ([?f] # As) \<and> slab_ok ?s d p (sh_free ?sh p) \<and> (p \<in> set (sh_avail ?sh d) \<longleftrightarrow> sh_free ?sh p \<noteq> []) \<and>
      (p \<in> set (sh_full ?sh d) \<longleftrightarrow> sh_free ?sh p = [])" if d: "d < 13" "p \<in> slabs ?sh d" for d p
  proof (cases "p = ?f")
    case True
    then have "d = c" using d fresh by (auto split: if_splits)
    then show ?thesis using True new cb fresh [OF c] by (simp add: slabs_def)
  next
    case False
    then have p: "p \<in> slabs sh d" using d(2) by (simp split: if_splits)
    note old = slab_inv_slab [OF ok d(1) p]
    have "slab_ok ?s d p (sh_free sh p)" by (rule slab_ok_other [OF old(2) but False d(1) _ baseS]) (use r(5) False in simp)
    then show ?thesis using old(1,3,4) False by (cases "d = c") simp_all
  qed
  then have "slab_inv ?s ([?f] # As) ?sh" using caches fr base by (simp add: slab_inv_def frames_ok_def)
  moreover have "live ?sh = live sh" using live_add_slab fresh by blast
  moreover have "kept s ?s (live sh)"
    by (rule kept_same_but [OF ok but]) (use fresh in \<open>auto simp: live_def\<close>)
  ultimately show ?thesis using that [OF res inv'] baseS by blast
qed


section \<open>Taking a chunk\<close>

lemma small_index:
  assumes "i < 2 ^ 31"
  shows "sint (of_nat i :: u32) = int i" "scast (of_nat i :: u32) = (of_nat i :: u64)"
proof -
  have u: "uint (of_nat i :: u32) = int i" using assms by (simp add: unsigned_of_nat take_bit_nat_eq_self)
  have "sint (of_nat i :: u32) = signed_take_bit 31 (uint (of_nat i :: u32))" by (simp only: sint_uint) simp
  also have "\<dots> = int i" unfolding u using assms by (intro signed_take_bit_int_eq_self) simp_all
  finally show s: "sint (of_nat i :: u32) = int i" .
  show "scast (of_nat i :: u32) = (of_nat i :: u64)" by (simp only: scast_eq s) simp
qed

lemma of_nat_zero_u32: "n < 2 ^ 32 \<Longrightarrow> (of_nat n :: u32) = 0 \<longleftrightarrow> n = 0"
proof
  assume n: "n < 2 ^ 32" and "(of_nat n :: u32) = 0"
  then have "unat (of_nat n :: u32) = 0" by (simp only: unsigned_0)
  then show "n = 0" unfolding unat_of_nat_u32 [OF n] .
qed simp

text \<open>The rest of \<^verbatim>\<open>slab_alloc\<close> once the slab is found.\<close>

definition slab_take :: "size_t \<Rightarrow> nat \<Rightarrow> page_ptr \<Rightarrow> 's kmem_state_scheme \<Rightarrow> (addr_t \<times> 's kmem_state_scheme) result" where
  "slab_take bytes c p s =
     rbind (read_slab s p) (\<lambda>l.
     rbind (assert_that ''slab->index >= 0'' (0 \<le> sint (slab_index l))) (\<lambda>_.
     rbind (get_cache s c) (\<lambda>k.
     let result = page_to_kvaddr s (Some p) + scast (slab_index l) * cache_size k in
     rbind (write_slab p (\<lambda>l. l\<lparr>slab_index := load32 result (mem s)\<rparr>) s) (\<lambda>s.
     rbind (write_slab p (\<lambda>l. l\<lparr>slab_count := slab_count l - 1\<rparr>) s) (\<lambda>s.
     rbind (slab_full s p) (\<lambda>full.
     rbind (if full then set_slab_full p s else Inr s) (\<lambda>s.
     Inr (result, s\<lparr>mem := memset result 0x02 bytes (mem s)\<rparr>))))))))"

lemma slab_alloc_take:
  "slab_alloc bytes s =
     rbind (find_kmcache bytes s) (\<lambda>(c, s).
     rbind (find_available_slab s c) (\<lambda>slab.
     rbind (case slab of None \<Rightarrow> slab_new c s | Some p \<Rightarrow> Inr (Some p, s)) (\<lambda>(slab, s).
     case slab of None \<Rightarrow> Inr (0, s) | Some p \<Rightarrow> slab_take bytes c p s)))"
  unfolding slab_alloc_def slab_take_def by (rule refl)

definition take_chunk :: "nat \<Rightarrow> nat \<Rightarrow> slab_shape \<Rightarrow> slab_shape" where
  "take_chunk c p sh =
     (if tl (sh_free sh p) = []
      then sh\<lparr>sh_avail := (sh_avail sh)(c := remove1 p (sh_avail sh c)), sh_full := (sh_full sh)(c := sh_full sh c @ [p]),
              sh_free := (sh_free sh)(p := [])\<rparr>
      else sh\<lparr>sh_free := (sh_free sh)(p := tl (sh_free sh p))\<rparr>)"

lemma take_chunk_simps [simp]:
  "sh_free (take_chunk c p sh) q = (if q = p then tl (sh_free sh p) else sh_free sh q)"
  "d \<noteq> c \<Longrightarrow> sh_avail (take_chunk c p sh) d = sh_avail sh d" "d \<noteq> c \<Longrightarrow> sh_full (take_chunk c p sh) d = sh_full sh d"
  "q \<noteq> p \<Longrightarrow> q \<in> set (sh_avail (take_chunk c p sh) d) \<longleftrightarrow> q \<in> set (sh_avail sh d)"
  "q \<noteq> p \<Longrightarrow> q \<in> set (sh_full (take_chunk c p sh) d) \<longleftrightarrow> q \<in> set (sh_full sh d)"
  by (auto simp: take_chunk_def)

lemma slabs_take_chunk: "p \<in> slabs sh c \<Longrightarrow> slabs (take_chunk c p sh) d = slabs sh d"
proof (rule set_eqI)
  fix x assume "p \<in> slabs sh c"
  then show "x \<in> slabs (take_chunk c p sh) d \<longleftrightarrow> x \<in> slabs sh d"
    by (cases "x = p"; cases "d = c") (auto simp: take_chunk_def slabs_def)
qed

lemma live_take_chunk:
  assumes "slab_inv s As sh" "c < 13" "p \<in> slabs sh c" "sh_free sh p = i # fl"
  shows "live (take_chunk c p sh) = insert (c, p, i) (live sh)" "(c, p, i) \<notin> live sh"
proof -
  have d: "distinct (i # fl)" "i < cap c"
    using slab_ok_facts(3,4) [OF slab_inv_slab(2) [OF assms(1-3)]] assms(4) by auto
  have only: "p \<in> slabs sh e \<longleftrightarrow> e = c" if "e < 13" for e
    using slabs_apart [OF assms(1,2) that] assms(3) by auto
  have "(e, q, j) \<in> live (take_chunk c p sh) \<longleftrightarrow> (e, q, j) \<in> insert (c, p, i) (live sh)" for e q j
  proof (cases "q = p \<and> e < 13")
    case True
    then show ?thesis using only [of e] assms(2,4) d by (auto simp: live_def slabs_take_chunk [OF assms(3)])
  next
    case False
    then show ?thesis using assms(2) by (auto simp: live_def slabs_take_chunk [OF assms(3)])
  qed
  then show "live (take_chunk c p sh) = insert (c, p, i) (live sh)" by auto
  show "(c, p, i) \<notin> live sh" using assms(4) by (simp add: live_def)
qed


text \<open>A write inside one chunk leaves every other chunk alone.\<close>

definition same_but_chunk_at :: "'s kstate_scheme \<Rightarrow> nat \<Rightarrow> nat \<Rightarrow> nat \<Rightarrow> memory \<Rightarrow> memory \<Rightarrow> bool" where
  "same_but_chunk_at s c p i m m' \<longleftrightarrow> (\<forall>d q j k. q < nr_pages s \<longrightarrow> d < 13 \<longrightarrow> j < cap d \<longrightarrow> q \<noteq> p \<or> d = c \<and> j \<noteq> i \<longrightarrow>
     0 < k \<longrightarrow> k \<le> csize d \<longrightarrow> load_bytes (chunk s d q j) k m' = load_bytes (chunk s d q j) k m)"

lemma write_chunk_apart:
  assumes "frames_ok s" "p < nr_pages s" "c < 13" "i < cap c"
  shows "0 < unat n \<Longrightarrow> unat n \<le> csize c \<Longrightarrow> same_but_chunk_at s c p i m (memset (chunk s c p i) b n m)"
    "same_but_chunk_at s c p i m (store32 (chunk s c p i) w m)"
proof -
  have a: "apart (chunk s c p i) x (chunk s d q j) k"
    if "q < nr_pages s" "d < 13" "j < cap d" "q \<noteq> p \<or> d = c \<and> j \<noteq> i" "0 < k" "k \<le> csize d" "0 < x" "x \<le> csize c" for d q j k x
    by (rule chunks_apart) (use assms that in auto)
  have "4 \<le> csize c" using csize_bounds(1) [OF assms(3)] by simp
  then show "same_but_chunk_at s c p i m (store32 (chunk s c p i) w m)"
    using a unfolding same_but_chunk_at_def by (auto intro!: load_bytes_store32_apart)
  show "same_but_chunk_at s c p i m (memset (chunk s c p i) b n m)" if "0 < unat n" "unat n \<le> csize c"
    using a that unfolding same_but_chunk_at_def by (auto intro!: load_bytes_memset_apart)
qed

lemma same_but_chunk_link:
  assumes "same_but_chunk_at s c p i (mem s) (mem s')" "highmem_base_pfn s' = highmem_base_pfn s"
    and "q < nr_pages s" "d < 13" "j < cap d" "q \<noteq> p \<or> d = c \<and> j \<noteq> i"
  shows "link s' d q j = link s d q j"
proof -
  have "load_bytes (chunk s d q j) 4 (mem s') = load_bytes (chunk s d q j) 4 (mem s)"
    using assms(1,3-6) csize_bounds(1) [OF assms(4)] unfolding same_but_chunk_at_def by simp
  then show ?thesis by (simp add: link_def load32_def chunk_cong [OF assms(2)])
qed

lemma same_but_chunk_kept:
  assumes "slab_inv s As sh" "same_but_chunk_at s c p i (mem s) (mem s')" "L \<subseteq> live sh" "(c, p, i) \<notin> L" "c < 13" "p \<in> slabs sh c"
  shows "kept s s' L"
proof -
  have "load_bytes (chunk s d q j) (csize d) (mem s') = load_bytes (chunk s d q j) (csize d) (mem s)" if "(d, q, j) \<in> L" for d q j
  proof -
    have l: "d < 13" "q \<in> slabs sh d" "j < cap d" "q < nr_pages s" using live_facts [OF assms(1)] assms(3) that by blast+
    have "q \<noteq> p \<or> d = c \<and> j \<noteq> i" using slabs_apart [OF assms(1) l(1) assms(5)] l(2) assms(4,6) that by auto
    then show ?thesis using assms(2) l csize_bounds(1) [OF l(1)] unfolding same_but_chunk_at_def by simp
  qed
  then show ?thesis by (auto simp: kept_def)
qed

lemma slab_ok_chunk_other:
  assumes "slab_ok s d q fl" "same_but_chunk_at s c p i (mem s) (mem s')" "q \<noteq> p" "d < 13" "pages s' (Pg q) = pages s (Pg q)"
    and base: "nr_pages s' = nr_pages s" "highmem_base_pfn s' = highmem_base_pfn s"
  shows "slab_ok s' d q fl"
  by (rule slab_ok_cong [OF assms(1,5) base(1)])
    (rule same_but_chunk_link [OF assms(2) base(2) slab_ok_facts(1) [OF assms(1)] assms(4)], simp_all add: assms(3))

text \<open>A state in which the chunk is off the list of its slab, the caches being in order.\<close>

lemma slab_take_mid:
  assumes ok: "slab_inv s As sh" and c: "c < 13" and p: "p \<in> set (sh_avail sh c)"
    and fl: "sh_free sh p = i # fl" and bytes: "0 < unat bytes" "unat bytes \<le> csize c"
    and s': "pages s' = (pages s)(Pg p := (pages s (Pg p))\<lparr>pg_slab := (pg_slab (pages s (Pg p)))\<lparr>slab_index := link s c p i,
        slab_count := of_nat (length fl)\<rparr>\<rparr>)"
      "mem s' = memset (chunk s c p i) 2 bytes (mem s)"
      "nr_pages s' = nr_pages s" "highmem_base_pfn s' = highmem_base_pfn s" "caches_ok s' (take_chunk c p sh)"
  shows "slab_inv s' As (take_chunk c p sh)" "kept s s' (live sh)"
proof -
  have ps: "p \<in> slabs sh c" using p by (simp add: slabs_def)
  note sl = slab_inv_slab [OF ok c ps]
  have sok: "slab_ok s c p (i # fl)" using sl(2) fl by simp
  have i: "i < cap c" "distinct (i # fl)" "p < nr_pages s" using slab_ok_facts [OF sok] by auto
  have fr: "frames_ok s" using ok by (simp add: slab_inv_def)
  have l: "free_chain (link s c p) (cap c) (link s c p i) fl" using sok by (simp add: slab_ok_def)
  have same: "same_but_chunk_at s c p i (mem s) (mem s')" unfolding s'(2) by (rule write_chunk_apart(1) [OF fr i(3) c i(1) bytes])
  have slabs': "[q] \<in> set As \<and> slab_ok s' d q (sh_free (take_chunk c p sh) q)"
    if q: "d < 13" "q \<in> slabs sh d" for d q
  proof (cases "q = p")
    case True
    then have "d = c" using slabs_apart [OF ok q(1) c] ps q(2) by auto
    have "link s' c p j = link s c p j" if "j \<in> set fl" for j
      by (rule same_but_chunk_link [where p = p and i = i and c = c])
        (use same s'(4) i c that slab_ok_facts(4) [OF sok, of j] in auto)
    then have "free_chain (link s' c p) (cap c) (link s c p i) fl" using l free_chain_cong [of fl "link s' c p"] by simp
    then have "slab_ok s' c p fl" using sok s' i(2) by (simp add: slab_ok_def)
    then show ?thesis using True \<open>d = c\<close> fl sl(1) by simp
  next
    case False
    have "slab_ok s' d q (sh_free sh q)"
      by (rule slab_ok_chunk_other [OF slab_inv_slab(2) [OF ok q] _ False q(1) _ s'(3,4)]) (use same s' False in simp_all)
    then show ?thesis using False slab_inv_slab(1) [OF ok q] by simp
  qed
  have queues: "(q \<in> set (sh_avail (take_chunk c p sh) d) \<longleftrightarrow> sh_free (take_chunk c p sh) q \<noteq> []) \<and>
      (q \<in> set (sh_full (take_chunk c p sh) d) \<longleftrightarrow> sh_free (take_chunk c p sh) q = [])" if q: "d < 13" "q \<in> slabs sh d" for d q
  proof (cases "q = p")
    case True
    then have "d = c" using slabs_apart [OF ok q(1) c] ps q(2) by auto
    moreover have "distinct (sh_avail sh c)" by (rule slab_queue_distinct [OF slab_inv_cache(3) [OF ok c]])
    ultimately show ?thesis using True sl(3,4) fl p by (auto simp: take_chunk_def)
  next
    case False
    then show ?thesis using slab_inv_slab(3,4) [OF ok q] by simp
  qed
  show "slab_inv s' As (take_chunk c p sh)"
    using slabs' queues s'(3-5) fr by (simp add: slab_inv_def slabs_take_chunk [OF ps] frames_ok_def)
  show "kept s s' (live sh)" by (rule same_but_chunk_kept [OF ok same order_refl live_take_chunk(2) [OF ok c ps fl] c ps])
qed

lemma slab_take_ok:
  assumes inv: "page_inv s F As" and ok: "slab_inv s As sh" and c: "c < 13" and p: "p \<in> set (sh_avail sh c)"
    and fl: "sh_free sh p = i # fl" and bytes: "0 < unat bytes" "unat bytes \<le> csize c"
  obtains s' where "slab_take bytes c (Pg p) s = Inr (chunk s c p i, s')" "page_inv s' F As" "slab_inv s' As (take_chunk c p sh)"
    "kept s s' (live sh)" "load_bytes (chunk s c p i) (unat bytes) (mem s') = replicate (unat bytes) 2"
    "nr_pages s' = nr_pages s" "highmem_base_pfn s' = highmem_base_pfn s"
proof -
  note result = that
  have ps: "p \<in> slabs sh c" using p by (simp add: slabs_def)
  note cs = slab_inv_cache [OF ok c] and sl = slab_inv_slab [OF ok c ps]
  have sok: "slab_ok s c p (i # fl)" using sl(2) fl by simp
  have i: "i < cap c" "distinct (i # fl)" "p < nr_pages s" using slab_ok_facts [OF sok] by auto
  have cb: "cap c \<le> 2048" using csize_bounds(4) [OF c] by simp
  have fr: "frames_ok s" using ok by (simp add: slab_inv_def)
  let ?l = "pg_slab (pages s (Pg p))"
  have l: "slab_index ?l = of_nat i" "slab_cache ?l = Some c" "slab_count ?l = of_nat (Suc (length fl))"
    "free_chain (link s c p) (cap c) (link s c p i) fl" using sok by (simp_all add: slab_ok_def)
  have i31: "i < 2 ^ 31" using i(1) cb by simp
  let ?g = "(pages s (Pg p))\<lparr>pg_slab := ?l\<lparr>slab_index := link s c p i, slab_count := of_nat (length fl)\<rparr>\<rparr>"
  let ?s1 = "s\<lparr>pages := (pages s)(Pg p := ?g)\<rparr>" and ?m = "memset (chunk s c p i) 2 bytes (mem s)"
  have res: "page_to_kvaddr s (Some (Pg p)) + scast (of_nat i :: u32) * of_nat (csize c) = chunk s c p i"
    by (simp add: small_index(2) [OF i31] chunk_def)
  have cnt: "(of_nat (Suc (length fl)) :: u32) - 1 = of_nat (length fl)" by simp
  have "length fl < 2 ^ 32" using slab_ok_facts(5) [OF sok] cb by simp
  then have z: "(of_nat (length fl) :: u32) = 0 \<longleftrightarrow> fl = []" by (simp add: of_nat_zero_u32)
  have tail: "slab_take bytes c (Pg p) s = rbind (if fl = [] then set_slab_full (Pg p) ?s1 else Inr ?s1)
      (\<lambda>s'. Inr (chunk s c p i, s'\<lparr>mem := memset (chunk s c p i) 2 bytes (mem s')\<rparr>))"
    using i(3) c cs(1,2) l(1,3) res z cnt
    by (simp add: slab_take_def write_slab_def slab_full_def Let_def small_index(1) [OF i31] link_def [symmetric])
  have inv1: "page_inv ?s1 F As" by (rule page_inv_pages_update [OF inv]) simp_all
  have fin: thesis
    if s': "slab_take bytes c (Pg p) s = Inr (chunk s c p i, s')" "pages s' = (pages s)(Pg p := ?g)" "mem s' = ?m"
      "nr_pages s' = nr_pages s" "highmem_base_pfn s' = highmem_base_pfn s" "page_inv s' F As" "caches_ok s' (take_chunk c p sh)" for s'
  proof -
    have "load_bytes (chunk s c p i) (unat bytes) (mem s') = replicate (unat bytes) 2"
      unfolding s'(3) by (simp add: load_bytes_memset)
    then show thesis using result [OF s'(1,6)] slab_take_mid [OF ok c p fl bytes s'(2-5,7)] s'(4,5) by blast
  qed
  show ?thesis
  proof (cases "fl = []")
    case True
    have pre: "page_ok ?s1 (Pg p)" "slab_cache (pg_slab (pages ?s1 (Pg p))) = Some c" "c < length (kmcache ?s1)"
      "queue (slab_links ?s1) (cache_avail (kmcache ?s1 ! c)) (sh_avail sh c)"
      "queue (slab_links ?s1) (cache_full (kmcache ?s1 ! c)) (sh_full sh c)"
      using i(3) l(2) c cs(1,3,4) by simp_all
    obtain L k where L: "set_slab_full (Pg p) ?s1 = Inr (?s1\<lparr>slab_links := L, kmcache := (kmcache ?s1)[c := k]\<rparr>)"
      "cache_size k = cache_size (kmcache ?s1 ! c)" "queue L (cache_avail k) (remove1 p (sh_avail sh c))"
      "queue L (cache_full k) (sh_full sh c @ [p])"
      "same_links (- Pg ` insert p (set (sh_avail sh c) \<union> set (sh_full sh c))) (slab_links ?s1) L"
      by (rule set_slab_full_ok [OF pre p cs(5)]) (rule that)
    have sh': "sh_avail (take_chunk c p sh) c = remove1 p (sh_avail sh c)" "sh_full (take_chunk c p sh) c = sh_full sh c @ [p]"
      using fl True by (simp_all add: take_chunk_def)
    let ?s2 = "?s1\<lparr>slab_links := L, kmcache := (kmcache s)[c := k], mem := ?m\<rparr>"
    have "caches_ok ?s2 (take_chunk c p sh)"
    proof (rule caches_ok_update [where s = s and sh = sh and c = c and k = k and A = "slabs sh c"])
      show "same_links (- Pg ` slabs sh c) (slab_links s) (slab_links ?s2)" using L(5) ps by (simp add: slabs_def insert_absorb)
      show "slabs sh d \<inter> slabs sh c = {}" if "d < 13" "d \<noteq> c" for d by (rule slabs_apart [OF ok that(1) c that(2)])
    qed (use ok c L sh' in \<open>simp_all add: slab_inv_def\<close>)
    moreover have "slab_take bytes c (Pg p) s = Inr (chunk s c p i, ?s2)" using tail True L(1) by simp
    ultimately show ?thesis by (intro fin [of ?s2]) (use inv1 in simp_all)
  next
    case False
    let ?s2 = "?s1\<lparr>mem := ?m\<rparr>"
    have sh': "sh_avail (take_chunk c p sh) = sh_avail sh" "sh_full (take_chunk c p sh) = sh_full sh"
      using fl False by (simp_all add: take_chunk_def)
    have "caches_ok ?s2 (take_chunk c p sh)" using ok sh' by (simp add: slab_inv_def caches_ok_def)
    moreover have "slab_take bytes c (Pg p) s = Inr (chunk s c p i, ?s2)" using tail False by simp
    ultimately show ?thesis by (intro fin [of ?s2]) (use inv1 in simp_all)
  qed
qed


section \<open>slab\_alloc\<close>

lemma kmem_last_frame [simp]:
  "slab_ok (s\<lparr>kmcache_last_accessed := a\<rparr>) c p fl = slab_ok s c p fl" "frames_ok (s\<lparr>kmcache_last_accessed := a\<rparr>) = frames_ok s"
  "chunk (s\<lparr>kmcache_last_accessed := a\<rparr>) c p i = chunk s c p i" "kept (s\<lparr>kmcache_last_accessed := a\<rparr>) s' L = kept s s' L"
proof -
  have k: "kv (s\<lparr>kmcache_last_accessed := a\<rparr>) q = kv s q" for q by simp
  then show c: "chunk (s\<lparr>kmcache_last_accessed := a\<rparr>) c p i = chunk s c p i" for c p i by (simp add: chunk_def)
  have "link (s\<lparr>kmcache_last_accessed := a\<rparr>) c p = link s c p" by (simp add: link_def c fun_eq_iff)
  then show "slab_ok (s\<lparr>kmcache_last_accessed := a\<rparr>) c p fl = slab_ok s c p fl" by (simp add: slab_ok_def)
  show "frames_ok (s\<lparr>kmcache_last_accessed := a\<rparr>) = frames_ok s" by (simp add: frames_ok_def)
  show "kept (s\<lparr>kmcache_last_accessed := a\<rparr>) s' L = kept s s' L" by (simp add: kept_def c)
qed

lemma slab_inv_last: "slab_inv s As sh \<Longrightarrow> c < 13 \<Longrightarrow> slab_inv (s\<lparr>kmcache_last_accessed := Some c\<rparr>) As sh"
  by (simp add: slab_inv_def caches_ok_def)

text \<open>What an allocation does: the new chunk, the invariants and the contents of the chunks in use.\<close>

definition allocates :: "'s kmem_state_scheme \<Rightarrow> nat list list \<Rightarrow> slab_shape \<Rightarrow> size_t \<Rightarrow> nat \<times> nat \<times> nat \<Rightarrow>
    's kmem_state_scheme \<Rightarrow> nat list \<Rightarrow> nat list list \<Rightarrow> slab_shape \<Rightarrow> bool" where
  "allocates s As sh bytes x s' F' As' sh' \<longleftrightarrow>
     page_inv s' F' As' \<and> slab_inv s' As' sh' \<and> x \<notin> live sh \<and> live sh' = insert x (live sh) \<and> kept s s' (live sh) \<and>
     nr_pages s' = nr_pages s \<and> highmem_base_pfn s' = highmem_base_pfn s \<and>
     (case x of (c, p, i) \<Rightarrow> unat bytes \<le> csize c \<and>
        load_bytes (chunk s c p i) (unat bytes) (mem s') = replicate (unat bytes) 2)"

lemma slab_take_allocates:
  assumes inv: "page_inv s F As" "slab_inv s As sh" and c: "c < 13" and p: "p \<in> set (sh_avail sh c)"
    and bytes: "0 < unat bytes" "unat bytes \<le> csize c"
  obtains i s' where "slab_take bytes c (Pg p) s = Inr (chunk s c p i, s')"
    "allocates s As sh bytes (c, p, i) s' F As (take_chunk c p sh)"
proof -
  have ps: "p \<in> slabs sh c" using p by (simp add: slabs_def)
  obtain i fl where fl: "sh_free sh p = i # fl" using slab_inv_slab(3) [OF inv(2) c ps] p by (cases "sh_free sh p") auto
  obtain s' where "slab_take bytes c (Pg p) s = Inr (chunk s c p i, s')" "page_inv s' F As" "slab_inv s' As (take_chunk c p sh)"
    "kept s s' (live sh)" "load_bytes (chunk s c p i) (unat bytes) (mem s') = replicate (unat bytes) 2"
    "nr_pages s' = nr_pages s" "highmem_base_pfn s' = highmem_base_pfn s"
    by (rule slab_take_ok [OF inv c p fl bytes]) (rule that)
  then show ?thesis using that live_take_chunk [OF inv(2) c ps fl] bytes(2) by (simp add: allocates_def)
qed

lemma allocates_after:
  assumes "allocates s1 As1 sh1 bytes x s' F' As' sh'" "live sh1 = live sh" "kept s s1 (live sh)"
    "nr_pages s1 = nr_pages s" "highmem_base_pfn s1 = highmem_base_pfn s"
  shows "allocates s As sh bytes x s' F' As' sh'"
  using assms kept_trans [OF assms(3), of s' "live sh"] chunk_cong [OF assms(5)] by (auto simp: allocates_def split: prod.splits)

lemma slab_alloc_ok:
  assumes inv: "page_inv s F As" and ok: "slab_inv s As sh" and n: "8 dvd unat bytes" "0 < unat bytes" "unat bytes \<le> 2 ^ 13"
  shows "(\<exists>c p i s' F' As' sh'. slab_alloc bytes s = Inr (chunk s c p i, s') \<and> c < 13 \<and> p < nr_pages s \<and>
      allocates s As sh bytes (c, p, i) s' F' As' sh' \<and> (F' = F \<or> F' = tl F)) \<or>
    F = [] \<and> (\<exists>c<13. slab_alloc bytes s = Inr (0, s\<lparr>kmcache_last_accessed := Some c\<rparr>))"
proof -
  have cok: "caches_ok s sh" using ok by (simp add: slab_inv_def)
  obtain c where c: "find_kmcache bytes s = Inr (c, s\<lparr>kmcache_last_accessed := Some c\<rparr>)" "c < 13" "unat bytes \<le> csize c"
    by (rule find_kmcache_ok [OF cok n]) (rule that)
  let ?s = "s\<lparr>kmcache_last_accessed := Some c\<rparr>"
  have inv1: "page_inv ?s F As" and ok1: "slab_inv ?s As sh" using inv slab_inv_last [OF ok c(2)] by simp_all
  note cs = slab_inv_cache [OF ok c(2)]
  have self: "allocates s As sh bytes x s' F' As' sh'" if "allocates ?s As sh bytes x s' F' As' sh'" for x s' F' As' sh'
    using that by (simp add: allocates_def)
  show ?thesis
  proof (cases "sh_avail sh c")
    case (Cons p ps)
    then have av: "cache_avail (kmcache s ! c) = Some (Pg p)" using cs(3) by (simp add: queue_Cons)
    have pin: "p \<in> set (sh_avail sh c)" using Cons by simp
    obtain i s' where t: "slab_take bytes c (Pg p) ?s = Inr (chunk ?s c p i, s')"
      "allocates ?s As sh bytes (c, p, i) s' F As (take_chunk c p sh)"
      by (rule slab_take_allocates [OF inv1 ok1 c(2) pin n(2) c(3)]) (rule that)
    have "p < nr_pages s" using slab_ok_facts(1) slab_inv_slab(2) [OF ok c(2), of p] Cons by (auto simp: slabs_def)
    moreover have "slab_alloc bytes s = Inr (chunk s c p i, s')"
      using c cs(1) av t(1) by (simp add: slab_alloc_take find_available_slab_def)
    ultimately show ?thesis using self [OF t(2)] c(2) by blast
  next
    case Nil
    then have av: "cache_avail (kmcache s ! c) = None" using cs(3) by simp
    show ?thesis
    proof (cases "F = []")
      case True
      then have "nr_free_pages ?s < 1"
        using inv1 by (simp add: page_inv_def free_list_def word_less_nat_alt)
      then have "slab_new c ?s = Inr (None, ?s)" by (simp add: slab_new_def pgalloc_def alloc_pages_def)
      then have "slab_alloc bytes s = Inr (0, ?s)"
        using c cs(1) av by (simp add: slab_alloc_take find_available_slab_def)
      then show ?thesis using True c(2) by blast
    next
      case False
      obtain s1 where s1: "slab_new c ?s = Inr (Some (Pg (hd F)), s1)" "page_inv s1 (tl F) ([hd F] # As)"
        "slab_inv s1 ([hd F] # As) (add_slab c (hd F) sh)" "live (add_slab c (hd F) sh) = live sh" "kept ?s s1 (live sh)"
        "nr_pages s1 = nr_pages ?s" "highmem_base_pfn s1 = highmem_base_pfn ?s"
        by (rule slab_new_ok [OF inv1 ok1 False c(2)]) (rule that)
      have fin: "hd F \<in> set (sh_avail (add_slab c (hd F) sh) c)" by simp
      obtain i s' where t: "slab_take bytes c (Pg (hd F)) s1 = Inr (chunk s1 c (hd F) i, s')"
        "allocates s1 ([hd F] # As) (add_slab c (hd F) sh) bytes (c, hd F, i) s' (tl F) ([hd F] # As) (take_chunk c (hd F) (add_slab c (hd F) sh))"
        by (rule slab_take_allocates [OF s1(2,3) c(2) fin n(2) c(3)]) (rule that)
      have base: "nr_pages s1 = nr_pages s" "highmem_base_pfn s1 = highmem_base_pfn s" using s1(6,7) by simp_all
      have "hd F < nr_pages s" using inv False by (simp add: page_inv_def free_list_def)
      moreover have "slab_alloc bytes s = Inr (chunk s c (hd F) i, s')"
        using c cs(1) av s1(1) t(1) chunk_cong [OF base(2)] by (simp add: slab_alloc_take find_available_slab_def)
      moreover have "allocates s As sh bytes (c, hd F, i) s' (tl F) ([hd F] # As) (take_chunk c (hd F) (add_slab c (hd F) sh))"
        by (rule allocates_after [OF t(2) s1(4) _ base]) (use s1(5) in simp)
      ultimately show ?thesis using c(2) by blast
    qed
  qed
qed


section \<open>slab\_free\<close>

definition put_chunk :: "nat \<Rightarrow> nat \<Rightarrow> nat \<Rightarrow> slab_shape \<Rightarrow> slab_shape" where
  "put_chunk c p i sh =
     (if sh_free sh p = []
      then sh\<lparr>sh_avail := (sh_avail sh)(c := sh_avail sh c @ [p]), sh_full := (sh_full sh)(c := remove1 p (sh_full sh c)),
              sh_free := (sh_free sh)(p := [i])\<rparr>
      else if Suc (length (sh_free sh p)) = cap c
      then sh\<lparr>sh_avail := (sh_avail sh)(c := remove1 p (sh_avail sh c))\<rparr>
      else sh\<lparr>sh_free := (sh_free sh)(p := i # sh_free sh p)\<rparr>)"

lemma put_chunk_simps [simp]:
  "q \<noteq> p \<Longrightarrow> sh_free (put_chunk c p i sh) q = sh_free sh q"
  "d \<noteq> c \<Longrightarrow> sh_avail (put_chunk c p i sh) d = sh_avail sh d" "d \<noteq> c \<Longrightarrow> sh_full (put_chunk c p i sh) d = sh_full sh d"
  "q \<noteq> p \<Longrightarrow> q \<in> set (sh_avail (put_chunk c p i sh) d) \<longleftrightarrow> q \<in> set (sh_avail sh d)"
  "q \<noteq> p \<Longrightarrow> q \<in> set (sh_full (put_chunk c p i sh) d) \<longleftrightarrow> q \<in> set (sh_full sh d)"
  "q \<noteq> p \<Longrightarrow> q \<in> slabs (put_chunk c p i sh) d \<longleftrightarrow> q \<in> slabs sh d"
  by (auto simp: put_chunk_def slabs_def)

lemma all_but_one:
  assumes "distinct fl" "\<And>j. j \<in> set fl \<Longrightarrow> j < n" "i \<notin> set fl" "i < n" "Suc (length fl) = n" "j < n" "j \<notin> set fl"
  shows "j = i"
proof (rule ccontr)
  assume "j \<noteq> i"
  then have "card (insert j (insert i (set fl))) = Suc (Suc (length fl))" using assms(1,3,7) by (simp add: distinct_card)
  moreover have "card (insert j (insert i (set fl))) \<le> card {..<n}" by (rule card_mono) (use assms in auto)
  ultimately show False using assms(5) by simp
qed

lemma put_chunk_self:
  assumes "slab_inv s As sh" "c < 13" "p \<in> slabs sh c" "i < cap c" "i \<notin> set (sh_free sh p)"
  shows "p \<in> slabs (put_chunk c p i sh) c \<longleftrightarrow> sh_free sh p = [] \<or> Suc (length (sh_free sh p)) \<noteq> cap c"
    and "p \<in> slabs (put_chunk c p i sh) c \<Longrightarrow> sh_free (put_chunk c p i sh) p = i # sh_free sh p \<and>
      p \<in> set (sh_avail (put_chunk c p i sh) c) \<and> p \<notin> set (sh_full (put_chunk c p i sh) c)"
proof -
  note cs = slab_inv_cache [OF assms(1,2)] and sl = slab_inv_slab [OF assms(1-3)]
  have d: "distinct (sh_avail sh c)" "distinct (sh_full sh c)" using slab_queue_distinct cs(3,4) by blast+
  show "p \<in> slabs (put_chunk c p i sh) c \<longleftrightarrow> sh_free sh p = [] \<or> Suc (length (sh_free sh p)) \<noteq> cap c"
    using d sl(3,4) assms(3) by (auto simp: put_chunk_def slabs_def)
  show "p \<in> slabs (put_chunk c p i sh) c \<Longrightarrow> sh_free (put_chunk c p i sh) p = i # sh_free sh p \<and>
      p \<in> set (sh_avail (put_chunk c p i sh) c) \<and> p \<notin> set (sh_full (put_chunk c p i sh) c)"
    using d sl(3,4) assms(3) by (auto simp: put_chunk_def slabs_def)
qed

lemma live_put_chunk:
  assumes ok: "slab_inv s As sh" and l: "(c, p, i) \<in> live sh"
  shows "live (put_chunk c p i sh) = live sh - {(c, p, i)}"
proof -
  have c: "c < 13" and ps: "p \<in> slabs sh c" and i: "i < cap c" "i \<notin> set (sh_free sh p)" using l by (simp_all add: live_def)
  note self = put_chunk_self [OF ok c ps i]
  have sok: "slab_ok s c p (sh_free sh p)" by (rule slab_inv_slab(2) [OF ok c ps])
  have "(e, q, j) \<in> live (put_chunk c p i sh) \<longleftrightarrow> (e, q, j) \<in> live sh - {(c, p, i)}" for e q j
  proof (cases "q = p \<and> e < 13")
    case False
    then show ?thesis using c by (cases "q = p") (auto simp: live_def)
  next
    case True
    show ?thesis
    proof (cases "e = c")
      case e: False
      have "p \<notin> slabs sh e" using slabs_apart [OF ok _ c e] True ps by auto
      moreover have "slabs (put_chunk c p i sh) e = slabs sh e" using e by (simp add: slabs_def)
      ultimately show ?thesis using True by (simp add: live_def)
    next
      case e: True
      show ?thesis
      proof (cases "p \<in> slabs (put_chunk c p i sh) c")
        case in': True
        then show ?thesis using self(2) True e ps by (auto simp: live_def)
      next
        case False
        then have "Suc (length (sh_free sh p)) = cap c" using self(1) by simp
        then have "j < cap c \<Longrightarrow> j \<notin> set (sh_free sh p) \<Longrightarrow> j = i"
          using all_but_one [of "sh_free sh p" "cap c" i j] slab_ok_facts(3,4) [OF sok] i by blast
        then show ?thesis using True e False by (auto simp: live_def)
      qed
    qed
  qed
  then show ?thesis by auto
qed

text \<open>The rest of \<^verbatim>\<open>slab_free\<close> once the slab is found.\<close>

definition slab_put :: "addr_t \<Rightarrow> page_ptr \<Rightarrow> 's kmem_state_scheme \<Rightarrow> 's kmem_state_scheme result" where
  "slab_put ptr p s =
     (let slab_start = page_to_kvaddr s (Some p) in
     rbind (slab_cache_of s p) (\<lambda>c.
     rbind (get_cache s c) (\<lambda>k.
     let index = ucast ((ptr - slab_start) div cache_size k) :: u32 in
     rbind (read_slab s p) (\<lambda>l.
     let s = s\<lparr>mem := store32 (slab_start + cache_size k * scast index) (slab_index l) (mem s)\<rparr> in
     rbind (write_slab p (\<lambda>l. l\<lparr>slab_index := index\<rparr>) s) (\<lambda>s.
     rbind (slab_full s p) (\<lambda>full.
     rbind (if full then set_slab_available p s else Inr s) (\<lambda>s.
     rbind (write_slab p (\<lambda>l. l\<lparr>slab_count := slab_count l + 1\<rparr>) s) (\<lambda>s.
     rbind (slab_empty s p) (\<lambda>emp.
     if emp then rbind (set_slab_empty p s) (\<lambda>s. slab_delete p s) else Inr s)))))))))"

lemma slab_free_put:
  "slab_free ptr s =
     rbind (kvaddr_to_page s ptr) (\<lambda>p0.
     rbind (deref p0) (\<lambda>p0.
     rbind (is_slab s p0) (\<lambda>isl.
     rbind (assert_that ''is_slab(KVADDR_TO_PAGE((addr_t)ptr))'' isl) (\<lambda>_.
     rbind (first_page s p0) (\<lambda>p.
     rbind (deref p) (\<lambda>p. slab_put ptr p s))))))"
  unfolding slab_free_def slab_put_def by (rule refl)

lemma chunk_offset:
  assumes "frames_ok s" "p < nr_pages s" "c < 13" "i < cap c"
  shows "kvaddr_to_page s (chunk s c p i) = Inr (Some (Pg p))"
    "ucast ((chunk s c p i - kv s p) div of_nat (csize c)) = (of_nat i :: u32)"
proof -
  have e: "i * csize c < 2 ^ 14" using chunk_end [OF assms(3,4)] csize_bounds(1) [OF assms(3)] by linarith
  then show "kvaddr_to_page s (chunk s c p i) = Inr (Some (Pg p))"
    unfolding chunk_def by (rule kvaddr_to_page_inside [OF assms(1,2)])
  have u: "unat (of_nat (i * csize c) :: u64) = i * csize c" "unat (of_nat (csize c) :: u64) = csize c"
    using e csize_bounds(2) [OF assms(3)] by (intro unat_of_nat_u64; simp)+
  have "unat ((of_nat (i * csize c) :: u64) div of_nat (csize c)) = i"
    unfolding unat_div u using csize_bounds(1) [OF assms(3)] by simp
  then have "(of_nat (i * csize c) :: u64) div of_nat (csize c) = of_nat i" by (metis of_nat_unat ucast_id)
  moreover have "ucast (of_nat i :: u64) = (of_nat i :: u32)"
    using csize_bounds(4) [OF assms(3)] assms(4) by (simp add: unsigned_of_nat take_bit_nat_eq_self)
  moreover have "chunk s c p i - kv s p = of_nat (i * csize c)" by (simp add: chunk_def)
  ultimately show "ucast ((chunk s c p i - kv s p) div of_nat (csize c)) = (of_nat i :: u32)" by simp
qed


text \<open>Freeing a page that is no slab.\<close>

lemma slab_inv_pgfree:
  assumes inv: "page_inv s F As" and ok: "slab_inv s As sh" and p: "[p] \<in> set As" "\<And>d. d < 13 \<Longrightarrow> p \<notin> slabs sh d"
  obtains s' F' As' where "pgfree (Some (Pg p)) s = Inr s'" "page_inv s' F' As'" "slab_inv s' As' sh" "kept s s' (live sh)"
    "set F' = insert p (set F)" "nr_pages s' = nr_pages s" "highmem_base_pfn s' = highmem_base_pfn s"
proof -
  have pn: "p < nr_pages s" by (rule page_count_one(2) [OF inv p(1)])
  have fr: "frames_ok s" using ok by (simp add: slab_inv_def)
  obtain s' As' where s': "pgfree (Some (Pg p)) s = Inr s'" "page_inv s' (sorted_list_of_set (insert p (set F))) As'"
    "page_frame s s'" "mem s' = memset (kv s p) 1 PGSIZE (mem s)" "\<And>d. d \<noteq> p \<Longrightarrow> pages s' (Pg d) = pages s (Pg d)"
    "set As = insert [p] (set As')" "[p] \<notin> set As'"
    by (rule pgfree_inv [OF inv p(1)]) (rule that)
  note km = kmem_of_frame [OF s'(3)]
  have base: "nr_pages s' = nr_pages s" "highmem_base_pfn s' = highmem_base_pfn s" using s'(3) by (simp_all add: page_frame_def)
  have but: "same_but s p (mem s) (mem s')" unfolding s'(4) by (rule same_but_memset [OF fr pn])
  have "[q] \<in> set As' \<and> slab_ok s' d q (sh_free sh q)" if q: "d < 13" "q \<in> slabs sh d" for d q
  proof -
    have n: "q \<noteq> p" using p(2) q by auto
    then have "slab_ok s' d q (sh_free sh q)"
      by (intro slab_ok_other [OF slab_inv_slab(2) [OF ok q] but _ q(1) s'(5) base])
    then show ?thesis using slab_inv_slab(1) [OF ok q] s'(6) n by simp
  qed
  then have "slab_inv s' As' sh" using ok base km by (auto simp: slab_inv_def frames_ok_def caches_ok_def)
  moreover have "kept s s' (live sh)"
    by (rule kept_same_but [OF ok but]) (use p(2) in \<open>auto simp: live_def\<close>)
  moreover have "set (sorted_list_of_set (insert p (set F))) = insert p (set F)" by (subst set_sorted_list_of_set) auto
  ultimately show ?thesis using that [OF s'(1,2)] base by blast
qed

lemma slab_put_tail:
  assumes "p < nr_pages s" "slab_ok s c p fl" "c < 13" "i < cap c" "frames_ok s" "length (kmcache s) = 13" "cache_size (kmcache s ! c) = of_nat (csize c)"
    and g: "g = (pages s (Pg p))\<lparr>pg_slab := (pg_slab (pages s (Pg p)))\<lparr>slab_index := of_nat i\<rparr>\<rparr>"
    and s1: "s1 = s\<lparr>pages := (pages s)(Pg p := g), mem := store32 (chunk s c p i) (slab_index (pg_slab (pages s (Pg p)))) (mem s)\<rparr>"
    and less: "length fl < cap c"
  shows "slab_put (chunk s c p i) (Pg p) s =
    rbind (if fl = [] then set_slab_available (Pg p) s1 else Inr s1) (\<lambda>s2.
    rbind (write_slab (Pg p) (\<lambda>l. l\<lparr>slab_count := slab_count l + 1\<rparr>) s2) (\<lambda>s3.
    rbind (slab_empty s3 (Pg p)) (\<lambda>emp. if emp then rbind (set_slab_empty (Pg p) s3) (\<lambda>s. slab_delete (Pg p) s) else Inr s3)))"
proof -
  note off = chunk_offset [OF assms(5,1,3,4)]
  have cb: "cap c \<le> 2048" by (rule csize_bounds(4) [OF assms(3)])
  have "i < 2 ^ 31" using assms(4) cb by simp
  note si = small_index(2) [OF this]
  have "length fl < 2 ^ 32" using less cb by simp
  then have z: "(of_nat (length fl) :: u32) = 0 \<longleftrightarrow> fl = []" by (simp add: of_nat_zero_u32)
  have a: "kv s p + of_nat (csize c) * of_nat i = chunk s c p i" by (simp add: chunk_def algebra_simps)
  have l: "slab_cache (pg_slab (pages s (Pg p))) = Some c" "slab_count (pg_slab (pages s (Pg p))) = of_nat (length fl)"
    using assms(2) by (simp_all add: slab_ok_def)
  show ?thesis
    unfolding slab_put_def s1 g
    using assms(1,3,6,7) l z
    by (simp add: off a si Let_def write_slab_def slab_full_def)
qed


text \<open>A state in which the chunk is back on the list of its slab, the caches being in order.\<close>

lemma slab_put_mid:
  assumes ok: "slab_inv s As sh" and live: "(c, p, i) \<in> live sh"
    and s': "pages s' = (pages s)(Pg p := (pages s (Pg p))\<lparr>pg_slab := (pg_slab (pages s (Pg p)))\<lparr>slab_index := of_nat i,
        slab_count := of_nat (Suc (length (sh_free sh p)))\<rparr>\<rparr>)"
      "mem s' = store32 (chunk s c p i) (slab_index (pg_slab (pages s (Pg p)))) (mem s)"
      "nr_pages s' = nr_pages s" "highmem_base_pfn s' = highmem_base_pfn s" "caches_ok s' (put_chunk c p i sh)"
  shows "slab_inv s' As (put_chunk c p i sh)" "kept s s' (live sh - {(c, p, i)})"
proof -
  have c: "c < 13" and ps: "p \<in> slabs sh c" and i: "i < cap c" "i \<notin> set (sh_free sh p)" and pn: "p < nr_pages s"
    using live live_facts [OF ok live] by (simp_all add: live_def)
  note sl = slab_inv_slab [OF ok c ps] and self = put_chunk_self [OF ok c ps i]
  let ?fl = "sh_free sh p" and ?sh = "put_chunk c p i sh" and ?l = "pg_slab (pages s (Pg p))"
  have fr: "frames_ok s" using ok by (simp add: slab_inv_def)
  have dl: "distinct (i # ?fl)" using slab_ok_facts(3) [OF sl(2)] i by auto
  have l: "free_chain (link s c p) (cap c) (slab_index ?l) ?fl" using sl(2) by (simp add: slab_ok_def)
  have same: "same_but_chunk_at s c p i (mem s) (mem s')" unfolding s'(2) by (rule write_chunk_apart(2) [OF fr pn c i(1)])
  have slabs': "[q] \<in> set As \<and> slab_ok s' d q (sh_free ?sh q) \<and> (q \<in> set (sh_avail ?sh d) \<longleftrightarrow> sh_free ?sh q \<noteq> []) \<and>
      (q \<in> set (sh_full ?sh d) \<longleftrightarrow> sh_free ?sh q = [])"
    if q: "d < 13" "q \<in> slabs ?sh d" for d q
  proof (cases "q = p")
    case True
    then have "d = c" using q slabs_apart [OF ok q(1) c] ps by (cases "d = c") (auto simp: slabs_def)
    then have f: "sh_free ?sh p = i # ?fl" "p \<in> set (sh_avail ?sh c)" "p \<notin> set (sh_full ?sh c)" using self(2) q(2) True by auto
    have "link s' c p j = link s c p j" if "j \<in> set ?fl" for j
      by (rule same_but_chunk_link [where p = p and i = i and c = c])
        (use same s'(4) i c pn that slab_ok_facts(4) [OF sl(2), of j] in auto)
    then have "free_chain (link s' c p) (cap c) (slab_index ?l) ?fl" using l free_chain_cong [of ?fl "link s' c p"] by simp
    moreover have "link s' c p i = slab_index ?l" by (simp add: link_def s'(2) chunk_cong [OF s'(4)])
    ultimately have "slab_ok s' c p (i # ?fl)" using sl(2) s' dl i(1) by (simp add: slab_ok_def)
    then show ?thesis using True \<open>d = c\<close> f sl(1) by simp
  next
    case False
    then have qs: "q \<in> slabs sh d" using q(2) by simp
    have "slab_ok s' d q (sh_free sh q)"
      by (rule slab_ok_chunk_other [OF slab_inv_slab(2) [OF ok q(1) qs] _ False q(1) _ s'(3,4)]) (use same s' False in simp_all)
    then show ?thesis using False slab_inv_slab [OF ok q(1) qs] by simp
  qed
  then show "slab_inv s' As ?sh" using s'(3-5) fr by (simp add: slab_inv_def frames_ok_def)
  show "kept s s' (live sh - {(c, p, i)})" by (rule same_but_chunk_kept [OF ok same _ _ c ps]) auto
qed

lemma slab_put_ok:
  assumes inv: "page_inv s F As" and ok: "slab_inv s As sh" and live: "(c, p, i) \<in> live sh"
  obtains s' F' As' where "slab_put (chunk s c p i) (Pg p) s = Inr s'" "page_inv s' F' As'"
    "slab_inv s' As' (put_chunk c p i sh)" "kept s s' (live sh - {(c, p, i)})"
    "nr_pages s' = nr_pages s" "highmem_base_pfn s' = highmem_base_pfn s"
proof -
  note result = that
  have c: "c < 13" and ps: "p \<in> slabs sh c" and i: "i < cap c" "i \<notin> set (sh_free sh p)" and pn: "p < nr_pages s"
    using live live_facts [OF ok live] by (simp_all add: live_def)
  note cs = slab_inv_cache [OF ok c] and sl = slab_inv_slab [OF ok c ps] and self = put_chunk_self [OF ok c ps i]
  let ?fl = "sh_free sh p" and ?sh = "put_chunk c p i sh"
  have fr: "frames_ok s" using ok by (simp add: slab_inv_def)
  have cb: "2 \<le> cap c" "cap c \<le> 2048" using csize_bounds [OF c] by simp_all
  have dl: "distinct (i # ?fl)" "\<And>j. j \<in> set (i # ?fl) \<Longrightarrow> j < cap c" using slab_ok_facts(3,4) [OF sl(2)] i by auto
  have "card (set (i # ?fl)) \<le> card {..<cap c}" by (rule card_mono) (use dl in auto)
  then have less: "length ?fl < cap c" using dl(1) by (simp add: distinct_card)
  let ?l = "pg_slab (pages s (Pg p))" and ?m = "store32 (chunk s c p i) (slab_index (pg_slab (pages s (Pg p)))) (mem s)"
  let ?g1 = "(pages s (Pg p))\<lparr>pg_slab := ?l\<lparr>slab_index := of_nat i\<rparr>\<rparr>"
  let ?g2 = "(pages s (Pg p))\<lparr>pg_slab := ?l\<lparr>slab_index := of_nat i, slab_count := of_nat (Suc (length ?fl))\<rparr>\<rparr>"
  let ?s1 = "s\<lparr>pages := (pages s)(Pg p := ?g1), mem := ?m\<rparr>" and ?s2 = "s\<lparr>pages := (pages s)(Pg p := ?g2), mem := ?m\<rparr>"
  note tail = slab_put_tail [OF pn sl(2) c i(1) fr cs(1,2) refl refl less]
  have l: "slab_cache ?l = Some c" "slab_count ?l = of_nat (length ?fl)" "slab_capacity ?l = of_nat (cap c)"
    "free_chain (link s c p) (cap c) (slab_index ?l) ?fl" using sl(2) by (simp_all add: slab_ok_def)
  have "unat (of_nat (Suc (length ?fl)) :: u32) = Suc (length ?fl)" "unat (of_nat (cap c) :: u32) = cap c"
    using less cb(2) by (intro unat_of_nat_u32; simp)+
  then have full: "(of_nat (Suc (length ?fl)) :: u32) = of_nat (cap c) \<longleftrightarrow> Suc (length ?fl) = cap c" by metis
  note mid = slab_put_mid [OF ok live]
  have "page_inv (s\<lparr>pages := (pages s)(Pg p := ?g2)\<rparr>) F As" by (rule page_inv_pages_update [OF inv]) simp_all
  then have inv2: "page_inv ?s2 F As" by simp
  have others: "slabs sh d \<inter> slabs sh c = {}" if "d < 13" "d \<noteq> c" for d by (rule slabs_apart [OF ok that(1) c that(2)])
  consider (was_full) "?fl = []" | (stays) "?fl \<noteq> []" "Suc (length ?fl) \<noteq> cap c" | (empties) "?fl \<noteq> []" "Suc (length ?fl) = cap c" by blast
  then show ?thesis
  proof cases
    case was_full
    have pre: "page_ok ?s1 (Pg p)" "slab_cache (pg_slab (pages ?s1 (Pg p))) = Some c" "c < length (kmcache ?s1)"
      "queue (slab_links ?s1) (cache_avail (kmcache ?s1 ! c)) (sh_avail sh c)"
      "queue (slab_links ?s1) (cache_full (kmcache ?s1 ! c)) (sh_full sh c)"
      "p \<in> set (sh_full sh c) \<or> ring (slab_links ?s1) [Pg p]" "p \<notin> set (sh_avail sh c)"
      using pn l(1) c cs(1,3,4) sl(3,4) was_full by simp_all
    obtain L k where L: "set_slab_available (Pg p) ?s1 = Inr (?s1\<lparr>slab_links := L, kmcache := (kmcache ?s1)[c := k]\<rparr>)"
      "cache_size k = cache_size (kmcache ?s1 ! c)" "queue L (cache_avail k) (sh_avail sh c @ [p])" "queue L (cache_full k) (remove1 p (sh_full sh c))"
      "same_links (- Pg ` insert p (set (sh_avail sh c) \<union> set (sh_full sh c))) (slab_links ?s1) L"
      by (rule set_slab_available_ok [OF pre cs(5)]) (rule that)
    let ?s3 = "?s2\<lparr>slab_links := L, kmcache := (kmcache s)[c := k]\<rparr>"
    have "caches_ok ?s3 ?sh"
    proof (rule caches_ok_update [where s = s and sh = sh and c = c and k = k and A = "slabs sh c"])
      show "same_links (- Pg ` slabs sh c) (slab_links s) (slab_links ?s3)" using L(5) ps by (simp add: slabs_def insert_absorb)
    qed (use ok c L was_full others in \<open>simp_all add: slab_inv_def put_chunk_def\<close>)
    moreover have "slab_put (chunk s c p i) (Pg p) s = Inr ?s3"
      unfolding tail using was_full L(1) pn l full cb by (simp add: write_slab_def slab_empty_def)
    ultimately show ?thesis using result [of ?s3 F As] mid [of ?s3] inv2 by simp
  next
    case stays
    have "caches_ok ?s2 ?sh" using ok stays by (simp add: slab_inv_def caches_ok_def put_chunk_def)
    moreover have "slab_put (chunk s c p i) (Pg p) s = Inr ?s2"
      unfolding tail using stays pn l full by (simp add: write_slab_def slab_empty_def add.commute)
    ultimately show ?thesis using result [of ?s2 F As] mid [of ?s2] inv2 by simp
  next
    case empties
    have pre: "page_ok ?s2 (Pg p)" "slab_cache (pg_slab (pages ?s2 (Pg p))) = Some c" "c < length (kmcache ?s2)"
      "queue (slab_links ?s2) (cache_avail (kmcache ?s2 ! c)) (sh_avail sh c)"
      "queue (slab_links ?s2) (cache_full (kmcache ?s2 ! c)) (sh_full sh c)" "p \<in> set (sh_avail sh c)" "p \<notin> set (sh_full sh c)"
      using pn l(1) c cs(1,3,4) sl(3,4) empties by simp_all
    obtain L k where L: "set_slab_empty (Pg p) ?s2 = Inr (?s2\<lparr>slab_links := L, kmcache := (kmcache ?s2)[c := k]\<rparr>)"
      "cache_size k = cache_size (kmcache ?s2 ! c)" "queue L (cache_avail k) (remove1 p (sh_avail sh c))" "queue L (cache_full k) (sh_full sh c)"
      "same_links (- Pg ` set (sh_avail sh c)) (slab_links ?s2) L"
      by (rule set_slab_empty_ok [OF pre cs(5)]) (rule that)
    let ?s3 = "?s2\<lparr>slab_links := L, kmcache := (kmcache s)[c := k]\<rparr>"
    have "caches_ok ?s3 ?sh"
    proof (rule caches_ok_update [where s = s and sh = sh and c = c and k = k and A = "slabs sh c"])
      show "same_links (- Pg ` slabs sh c) (slab_links s) (slab_links ?s3)"
        using L(5) by (auto simp: slabs_def intro: same_links_subset)
    qed (use ok c L empties others in \<open>simp_all add: slab_inv_def put_chunk_def\<close>)
    then have m: "slab_inv ?s3 As ?sh" "kept s ?s3 (live sh - {(c, p, i)})" using mid [of ?s3] by simp_all
    have inv3: "page_inv ?s3 F As" using inv2 by simp
    have np: "p \<notin> slabs ?sh d" if "d < 13" for d
      using self(1) empties that others [OF that] ps by (cases "d = c") (auto simp: slabs_def)
    obtain s4 F' As' where s4: "pgfree (Some (Pg p)) ?s3 = Inr s4" "page_inv s4 F' As'" "slab_inv s4 As' ?sh" "kept ?s3 s4 (live ?sh)"
      "set F' = insert p (set F)" "nr_pages s4 = nr_pages ?s3" "highmem_base_pfn s4 = highmem_base_pfn ?s3"
      by (rule slab_inv_pgfree [OF inv3 m(1) sl(1)]) (erule np, rule that)
    have e: "of_nat (length ?fl) + (1 :: u32) = of_nat (cap c)" using empties(2) by (metis of_nat_Suc add.commute)
    have "slab_put (chunk s c p i) (Pg p) s = Inr s4"
      unfolding tail using empties(1) e L(1) pn l s4(1) by (simp add: write_slab_def slab_empty_def slab_delete_def add.commute)
    moreover have "kept s s4 (live sh - {(c, p, i)})"
      by (rule kept_trans [OF m(2) s4(4)]) (simp_all add: live_put_chunk [OF ok live])
    ultimately show ?thesis using result [OF _ s4(2,3)] s4(6,7) by simp
  qed
qed

end
