(* ===== verification/Slab_Props.thy ===== *)
theory Slab_Props
  imports Slab_Inv Tlb
begin

text \<open>
  What \<^verbatim>\<open>kmalloc\<close> and \<^verbatim>\<open>kfree\<close> promise their callers, for the sizes the slab allocator serves:
  the blocks in use are apart from each other, no call touches the contents of a block that is not
  its own, and whatever the callers write into their blocks the allocator works on.
\<close>

section \<open>kmalloc and kfree on slabs\<close>

lemma ROUNDUP_8:
  assumes "0 < unat n" "unat n \<le> 2 ^ 13"
  shows "8 dvd unat (ROUNDUP n ALIGN)" "unat n \<le> unat (ROUNDUP n ALIGN)" "unat (ROUNDUP n ALIGN) \<le> 2 ^ 13"
proof -
  have "unat (n + 8 - 1) = unat n + 7" using unat_add_offset [of n 7] assms(2) by (simp add: algebra_simps)
  then have d: "unat ((n + 8 - 1) div 8) = (unat n + 7) div 8" by (simp add: unat_div)
  have le: "(unat n + 7) div 8 * 8 \<le> 2 ^ 13" using assms by simp
  have "unat ((n + 8 - 1) div 8 * 8) = unat ((n + 8 - 1) div 8) * unat (8 :: u64) mod 2 ^ 64"
    by (simp only: unat_word_ariths) simp
  also have "\<dots> = (unat n + 7) div 8 * 8" unfolding d using le by simp
  finally have r: "unat (ROUNDUP n ALIGN) = (unat n + 7) div 8 * 8"
    by (simp only: ROUNDUP_def DIV_ROUNDUP_def DIV_ROUNDDOWN_def)
  show "8 dvd unat (ROUNDUP n ALIGN)" "unat n \<le> unat (ROUNDUP n ALIGN)" "unat (ROUNDUP n ALIGN) \<le> 2 ^ 13"
    unfolding r using assms by simp_all
qed

lemma LARGE_CHUNK_unat: "unat LARGE_CHUNK = 2 ^ 13"
  by (simp add: LARGE_CHUNK_def PGSIZE_def)

lemma kmalloc_slab:
  assumes "0 < unat n" "unat n \<le> 2 ^ 13"
  shows "kmalloc fuel n s = slab_alloc (ROUNDUP n ALIGN) s"
  using ROUNDUP_8(3) [OF assms] by (simp add: kmalloc_def Let_def word_less_nat_alt LARGE_CHUNK_unat)

lemma load_bytes_prefix: "k \<le> n \<Longrightarrow> load_bytes a k m = take k (load_bytes a n m)"
  by (simp add: load_bytes_def take_map)

lemma allocates_smaller:
  assumes "allocates s As sh m x s' F' As' sh'" "unat n \<le> unat m"
  shows "allocates s As sh n x s' F' As' sh'"
  using assms load_bytes_prefix [OF assms(2)] by (auto simp: allocates_def min_def split: prod.splits)

lemma kmalloc_ok:
  assumes inv: "page_inv s F As" and ok: "slab_inv s As sh" and n: "0 < unat n" "unat n \<le> 2 ^ 13"
  shows "(\<exists>c p i s' F' As' sh'. kmalloc fuel n s = Inr (chunk s c p i, s') \<and> c < 13 \<and> p < nr_pages s \<and>
      allocates s As sh n (c, p, i) s' F' As' sh' \<and> (F' = F \<or> F' = tl F)) \<or>
    F = [] \<and> (\<exists>s'. kmalloc fuel n s = Inr (0, s') \<and> page_inv s' F As \<and> slab_inv s' As sh \<and> kept s s' (live sh) \<and>
      nr_pages s' = nr_pages s \<and> highmem_base_pfn s' = highmem_base_pfn s)"
proof -
  note r = ROUNDUP_8 [OF n]
  have "0 < unat (ROUNDUP n ALIGN)" using n(1) r(2) by simp
  from slab_alloc_ok [OF inv ok r(1) this r(3)] show ?thesis
  proof (rule disjE; elim exE conjE)
    fix c p i s' F' As' sh'
    assume "slab_alloc (ROUNDUP n ALIGN) s = Inr (chunk s c p i, s')" "c < 13" "p < nr_pages s"
      and al: "allocates s As sh (ROUNDUP n ALIGN) (c, p, i) s' F' As' sh'" and "F' = F \<or> F' = tl F"
    moreover have "allocates s As sh n (c, p, i) s' F' As' sh'" by (rule allocates_smaller [OF al r(2)])
    ultimately show ?thesis using kmalloc_slab [OF n] by metis
  next
    fix c assume "F = []" "c < 13" "slab_alloc (ROUNDUP n ALIGN) s = Inr (0, s\<lparr>kmcache_last_accessed := Some c\<rparr>)"
    moreover from this have "slab_inv (s\<lparr>kmcache_last_accessed := Some c\<rparr>) As sh" by (intro slab_inv_last [OF ok])
    moreover have "kept s (s\<lparr>kmcache_last_accessed := Some c\<rparr>) (live sh)" by (simp add: kept_def)
    ultimately show ?thesis
      using inv kmalloc_slab [OF n, of fuel s]
      by (intro disjI2 conjI exI [of _ "s\<lparr>kmcache_last_accessed := Some c\<rparr>"]) simp_all
  qed
qed

lemma live_chunk_address:
  assumes "page_inv s F As" "slab_inv s As sh" "(c, p, i) \<in> live sh"
  shows "kvaddr_to_page s (chunk s c p i) = Inr (Some (Pg p))" "chunk s c p i \<noteq> 0" "first_page s (Pg p) = Inr (Some (Pg p))"
    "is_slab s (Pg p) = Inr True"
proof -
  have l: "c < 13" "p \<in> slabs sh c" "i < cap c" "p < nr_pages s" using live_facts [OF assms(2,3)] by blast+
  have "frames_ok s" using assms(2) by (simp add: slab_inv_def)
  then show k: "kvaddr_to_page s (chunk s c p i) = Inr (Some (Pg p))" by (rule chunk_offset(1) [OF _ l(4,1,3)])
  show "chunk s c p i \<noteq> 0"
  proof
    assume "chunk s c p i = 0"
    then show False using k by (simp add: kvaddr_to_page_def)
  qed
  note sl = slab_inv_slab [OF assms(2) l(1,2)]
  have "alloc_set s [p]" using assms(1) sl(1) by (simp add: page_inv_def)
  then show f: "first_page s (Pg p) = Inr (Some (Pg p))" using alloc_set_first_page(1) [of s "[p]" p] by simp
  have "pg_type (pages s (Pg p)) = PGTYPE_SLAB" using sl(2) by (simp add: slab_ok_def)
  then show "is_slab s (Pg p) = Inr True" using f l(4) by (simp add: is_slab_def)
qed

lemma kfree_ok:
  assumes inv: "page_inv s F As" and ok: "slab_inv s As sh" and l: "(c, p, i) \<in> live sh"
  obtains s' F' As' sh' where "kfree (chunk s c p i) s = Inr s'" "page_inv s' F' As'" "slab_inv s' As' sh'"
    "live sh' = live sh - {(c, p, i)}" "kept s s' (live sh - {(c, p, i)})"
    "nr_pages s' = nr_pages s" "highmem_base_pfn s' = highmem_base_pfn s"
proof -
  obtain s' F' As' where s': "slab_put (chunk s c p i) (Pg p) s = Inr s'" "page_inv s' F' As'"
    "slab_inv s' As' (put_chunk c p i sh)" "kept s s' (live sh - {(c, p, i)})"
    "nr_pages s' = nr_pages s" "highmem_base_pfn s' = highmem_base_pfn s"
    by (rule slab_put_ok [OF inv ok l]) (rule that)
  have "kfree (chunk s c p i) s = Inr s'"
    using live_chunk_address [OF inv ok l] s'(1) by (simp add: kfree_def slab_free_put)
  then show ?thesis using that s'(2-6) live_put_chunk [OF ok l] by blast
qed

section \<open>Setting the caches up\<close>

definition no_slabs :: slab_shape where
  "no_slabs = \<lparr>sh_avail = (\<lambda>_. []), sh_full = (\<lambda>_. []), sh_free = (\<lambda>_. [])\<rparr>"

definition boot_caches :: "kmem_cache list" where
  "boot_caches = map (\<lambda>c. \<lparr>cache_avail = None, cache_full = None, cache_size = of_nat (csize c)\<rparr>) [0..<13]"

lemma live_no_slabs [simp]: "live no_slabs = {}"
  by (simp add: live_def slabs_def no_slabs_def)

lemma slab_bootstrap_ok:
  assumes "length (kmcache s) = 13"
  shows "slab_bootstrap s = Inr (s\<lparr>kmcache := boot_caches\<rparr>)"
proof -
  obtain a0 a1 a2 a3 a4 a5 a6 a7 a8 a9 a10 a11 a12 where k: "kmcache s = [a0, a1, a2, a3, a4, a5, a6, a7, a8, a9, a10, a11, a12]"
    using assms by (auto simp: numeral_eq_Suc length_Suc_conv)
  have u: "[0..<8] = [0, 1, 2, 3, 4, 5, 6, 7::nat]" "[8..<13] = [8, 9, 10, 11, 12::nat]" by (simp_all add: upt_rec)
  show ?thesis
    by (simp add: slab_bootstrap_def u table_at_def tiny_sizes_def set_cache_def get_cache_def k LARGE_CHUNK_def PGSIZE_def
        boot_caches_def csize_def slab_sizes_def upt_rec)
qed

lemma slab_bootstrap_inv:
  assumes "frames_ok s" "kmcache_last_accessed s = None"
  shows "slab_inv (s\<lparr>kmcache := boot_caches\<rparr>) As no_slabs"
  using assms by (simp add: slab_inv_def caches_ok_def boot_caches_def no_slabs_def slabs_def frames_ok_def)


section \<open>The callers' view\<close>

text \<open>
  A block is an address and the size that was asked for. The callers allocate, free blocks they
  have, and write what they like into them.
\<close>

inductive heap_reach :: "'s kmem_state_scheme \<Rightarrow> 's kmem_state_scheme \<times> (addr_t \<times> nat) set \<Rightarrow> bool" for s0 where
  h_boot: "slab_bootstrap s0 = Inr s \<Longrightarrow> heap_reach s0 (s, {})"
| h_alloc: "heap_reach s0 (s, B) \<Longrightarrow> 0 < unat n \<Longrightarrow> unat n \<le> 2 ^ 13 \<Longrightarrow> kmalloc fuel n s = Inr (a, s') \<Longrightarrow>
    heap_reach s0 (s', if a = 0 then B else insert (a, unat n) B)"
| h_free: "heap_reach s0 (s, B) \<Longrightarrow> (a, n) \<in> B \<Longrightarrow> kfree a s = Inr s' \<Longrightarrow> heap_reach s0 (s', B - {(a, n)})"
| h_store: "heap_reach s0 (s, B) \<Longrightarrow> (a, n) \<in> B \<Longrightarrow> k < n \<Longrightarrow> heap_reach s0 (s\<lparr>mem := (mem s)(a + of_nat k := v)\<rparr>, B)"

definition block :: "'s kstate_scheme \<Rightarrow> (nat \<times> nat \<times> nat \<Rightarrow> nat) \<Rightarrow> nat \<times> nat \<times> nat \<Rightarrow> addr_t \<times> nat" where
  "block s N x = (case x of (c, p, i) \<Rightarrow> (chunk s c p i, N x))"

definition heap_inv :: "'s kmem_state_scheme \<Rightarrow> (addr_t \<times> nat) set \<Rightarrow> nat list \<Rightarrow> nat list list \<Rightarrow> slab_shape \<Rightarrow>
    (nat \<times> nat \<times> nat \<Rightarrow> nat) \<Rightarrow> bool" where
  "heap_inv s B F As sh N \<longleftrightarrow> page_inv s F As \<and> slab_inv s As sh \<and> B = block s N ` live sh \<and>
     (\<forall>(c, p, i)\<in>live sh. 0 < N (c, p, i) \<and> N (c, p, i) \<le> csize c)"

lemma block_cong: "highmem_base_pfn s' = highmem_base_pfn s \<Longrightarrow> block s' N = block s N"
  using chunk_cong [of s' s] by (auto simp: block_def)

lemma live_apart:
  assumes ok: "slab_inv s As sh" and l: "(c, p, i) \<in> live sh" "(d, q, j) \<in> live sh" "(c, p, i) \<noteq> (d, q, j)"
    and n: "0 < n" "n \<le> csize c" "0 < k" "k \<le> csize d"
  shows "apart (chunk s c p i) n (chunk s d q j) k"
proof (rule chunks_apart [OF _ _ _ _ _ _ _ _ n])
  note a = live_facts [OF ok l(1)] and b = live_facts [OF ok l(2)]
  show "frames_ok s" using ok by (simp add: slab_inv_def)
  show "p < nr_pages s" "q < nr_pages s" "c < 13" "i < cap c" "d < 13" "j < cap d" using a b by blast+
  show "p \<noteq> q \<or> c = d \<and> i \<noteq> j" using slabs_apart [OF ok, of c d] a b l(3) by auto
qed

lemma apart_neq: "apart a n b k \<Longrightarrow> 0 < n \<Longrightarrow> a \<noteq> b"
  by (auto simp: apart_def)

lemma live_inj: "slab_inv s As sh \<Longrightarrow> x \<in> live sh \<Longrightarrow> y \<in> live sh \<Longrightarrow> fst (block s N x) = fst (block s M y) \<Longrightarrow> x = y"
proof (rule ccontr)
  assume ok: "slab_inv s As sh" and l: "x \<in> live sh" "y \<in> live sh" "fst (block s N x) = fst (block s M y)" and n: "x \<noteq> y"
  obtain c p i d q j where xy: "x = (c, p, i)" "y = (d, q, j)" by (cases x; cases y) auto
  have b: "1 \<le> csize c" "1 \<le> csize d" using live_facts [OF ok] l xy csize_bounds(1) by fastforce+
  have "apart (chunk s c p i) 1 (chunk s d q j) 1" by (rule live_apart [OF ok]) (use l n xy b in auto)
  then show False using apart_neq l(3) xy by (force simp: block_def)
qed

lemma heap_alloc:
  assumes h: "heap_inv s B F As sh N" and n: "0 < unat n" "unat n \<le> 2 ^ 13"
  obtains a s' F' As' sh' N' where "kmalloc fuel n s = Inr (a, s')" "heap_inv s' (if a = 0 then B else insert (a, unat n) B) F' As' sh' N'"
    "a = 0 \<Longrightarrow> F = []" "\<And>b m. (b, m) \<in> B \<Longrightarrow> load_bytes b m (mem s') = load_bytes b m (mem s)"
    "a \<noteq> 0 \<Longrightarrow> load_bytes a (unat n) (mem s') = replicate (unat n) 2" "a \<noteq> 0 \<Longrightarrow> a \<notin> fst ` B"
proof -
  note result = that
  have inv: "page_inv s F As" and ok: "slab_inv s As sh" and B: "B = block s N ` live sh"
    and N: "\<And>c p i. (c, p, i) \<in> live sh \<Longrightarrow> 0 < N (c, p, i) \<and> N (c, p, i) \<le> csize c" using h by (auto simp: heap_inv_def)
  have keep: "load_bytes b m (mem s') = load_bytes b m (mem s)" if k: "kept s s' (live sh)" and b: "(b, m) \<in> B" for s' b m
  proof -
    obtain c p i where x: "(c, p, i) \<in> live sh" "b = chunk s c p i" "m = N (c, p, i)" using b B by (auto simp: block_def)
    then have "load_bytes b (csize c) (mem s') = load_bytes b (csize c) (mem s)" using k by (auto simp: kept_def)
    then show ?thesis using load_bytes_prefix [of m "csize c"] N [OF x(1)] x(3) by simp
  qed
  from kmalloc_ok [OF inv ok n, of fuel] show ?thesis
  proof (rule disjE; elim exE conjE)
    fix c p i s' F' As' sh'
    assume r: "kmalloc fuel n s = Inr (chunk s c p i, s')" and c: "c < 13" and al: "allocates s As sh n (c, p, i) s' F' As' sh'"
    let ?x = "(c, p, i)"
    have a: "page_inv s' F' As'" "slab_inv s' As' sh'" "?x \<notin> live sh" "live sh' = insert ?x (live sh)" "kept s s' (live sh)"
      "highmem_base_pfn s' = highmem_base_pfn s" "unat n \<le> csize c" "load_bytes (chunk s c p i) (unat n) (mem s') = replicate (unat n) 2"
      using al by (auto simp: allocates_def)
    have nz: "chunk s c p i \<noteq> 0" using live_chunk_address(2) [OF a(1,2), of c p i] a(4) chunk_cong [OF a(6)] by auto
    have "block s (N(?x := unat n)) y = block s N y" if "y \<in> live sh" for y
      using that a(3) by (auto simp: block_def split: prod.splits)
    then have "block s (N(?x := unat n)) ` live sh = B" unfolding B by (rule image_cong [OF refl])
    then have "insert (chunk s c p i, unat n) B = block s' (N(?x := unat n)) ` live sh'"
      using a(4) by (simp add: block_cong [OF a(6)]) (simp add: block_def)
    then have "heap_inv s' (insert (chunk s c p i, unat n) B) F' As' sh' (N(?x := unat n))"
      using a(1,2,4,7) n(1) N by (auto simp: heap_inv_def)
    moreover have "chunk s c p i \<notin> fst ` B"
    proof
      assume "chunk s c p i \<in> fst ` B"
      then obtain y where y: "y \<in> live sh" "fst (block s' N y) = chunk s c p i" by (auto simp: B block_cong [OF a(6)])
      then have "y = ?x" using live_inj [OF a(2), of y ?x N N] a(4) chunk_cong [OF a(6)] by (simp add: block_def)
      then show False using y(1) a(3) by simp
    qed
    ultimately show ?thesis by (intro result [OF r, of F' As' sh' "N(?x := unat n)"]) (use nz a(8) keep [OF a(5)] in simp_all)
  next
    fix s' assume F: "F = []" and r: "kmalloc fuel n s = Inr (0, s')" "page_inv s' F As" "slab_inv s' As sh" "kept s s' (live sh)"
      "highmem_base_pfn s' = highmem_base_pfn s"
    then have "heap_inv s' B F As sh N" using B N by (auto simp: heap_inv_def block_cong [OF r(5)])
    then show ?thesis by (intro result [OF r(1), of F As sh N]) (use F keep [OF r(4)] in simp_all)
  qed
qed


lemma heap_free:
  assumes h: "heap_inv s B F As sh N" and b: "(a, n) \<in> B"
  obtains s' F' As' sh' where "kfree a s = Inr s'" "heap_inv s' (B - {(a, n)}) F' As' sh' N"
    "\<And>b m. (b, m) \<in> B \<Longrightarrow> b \<noteq> a \<Longrightarrow> load_bytes b m (mem s') = load_bytes b m (mem s)"
proof -
  note result = that
  have inv: "page_inv s F As" and ok: "slab_inv s As sh" and B: "B = block s N ` live sh"
    and N: "\<And>c p i. (c, p, i) \<in> live sh \<Longrightarrow> 0 < N (c, p, i) \<and> N (c, p, i) \<le> csize c" using h by (auto simp: heap_inv_def)
  obtain c p i where x: "(c, p, i) \<in> live sh" "a = chunk s c p i" "n = N (c, p, i)" using b B by (auto simp: block_def)
  let ?x = "(c, p, i)"
  obtain s' F' As' sh' where s': "kfree (chunk s c p i) s = Inr s'" "page_inv s' F' As'" "slab_inv s' As' sh'"
    "live sh' = live sh - {?x}" "kept s s' (live sh - {?x})" "nr_pages s' = nr_pages s" "highmem_base_pfn s' = highmem_base_pfn s"
    by (rule kfree_ok [OF inv ok x(1)]) (rule that)
  have "inj_on (block s N) (live sh)"
  proof (rule inj_onI)
    fix x y assume "x \<in> live sh" "y \<in> live sh" "block s N x = block s N y"
    then show "x = y" using live_inj [OF ok, where x = x and y = y and N = N and M = N] by simp
  qed
  then have "block s N ` (live sh - {?x}) = B - block s N ` {?x}" unfolding B by (rule inj_on_image_set_diff) (use x(1) in auto)
  then have "B - {(a, n)} = block s' N ` live sh'"
    using s'(4) x(2,3) by (simp add: block_cong [OF s'(7)]) (simp add: block_def)
  then have "heap_inv s' (B - {(a, n)}) F' As' sh' N" using s'(2-4) by (auto simp: heap_inv_def dest: N)
  moreover have "load_bytes b m (mem s') = load_bytes b m (mem s)" if bm: "(b, m) \<in> B" "b \<noteq> a" for b m
  proof -
    obtain d q j where y: "(d, q, j) \<in> live sh" "b = chunk s d q j" "m = N (d, q, j)" using bm(1) B by (auto simp: block_def)
    then have "(d, q, j) \<in> live sh - {?x}" using bm(2) x(2) by auto
    then have "load_bytes b (csize d) (mem s') = load_bytes b (csize d) (mem s)"
      unfolding y(2) by (rule keptD [OF s'(5)])
    then show ?thesis using load_bytes_prefix [of m "csize d"] N [OF y(1)] y(3) by simp
  qed
  ultimately show ?thesis using result [of s'] s'(1) x(2) by blast
qed

lemma heap_store:
  assumes h: "heap_inv s B F As sh N" and b: "(a, n) \<in> B" and k: "k < n"
  shows "heap_inv (s\<lparr>mem := (mem s)(a + of_nat k := v)\<rparr>) B F As sh N"
proof -
  have inv: "page_inv s F As" and ok: "slab_inv s As sh" and B: "B = block s N ` live sh"
    and N: "\<And>c p i. (c, p, i) \<in> live sh \<Longrightarrow> 0 < N (c, p, i) \<and> N (c, p, i) \<le> csize c" using h by (auto simp: heap_inv_def)
  obtain c p i where x: "(c, p, i) \<in> live sh" "a = chunk s c p i" "n = N (c, p, i)" using b B by (auto simp: block_def)
  have l: "c < 13" "p \<in> slabs sh c" "i < cap c" "p < nr_pages s" using live_facts [OF ok x(1)] by blast+
  have fr: "frames_ok s" using ok by (simp add: slab_inv_def)
  have kc: "k < csize c" using k x N by fastforce
  let ?m = "(mem s)(a + of_nat k := v)" let ?s = "s\<lparr>mem := ?m\<rparr>"
  have a: "a + of_nat k = kv s p + of_nat (i * csize c + k)" by (simp add: x(2) chunk_def)
  have same: "same_but_chunk_at s c p i (mem s) ?m"
    unfolding same_but_chunk_at_def
  proof (intro allI impI)
    fix d q j m assume q: "q < nr_pages s" "d < 13" "j < cap d" "q \<noteq> p \<or> d = c \<and> j \<noteq> i" "0 < m" "m \<le> csize d"
    have e: "y * csize c + csize c \<le> z * csize c" if "y < z" for y z
    proof -
      have "(y + 1) * csize c \<le> z * csize c" using that by (intro mult_right_mono) simp_all
      then show ?thesis by simp
    qed
    have "apart (kv s p + of_nat (i * csize c + k)) 1 (kv s q + of_nat (j * csize d)) m"
    proof (rule kv_apart [OF fr l(4) q(1)])
      show "i * csize c + k + 1 \<le> 2 ^ 14" using chunk_end [OF l(1,3)] kc by linarith
      show "j * csize d + m \<le> 2 ^ 14" using chunk_end [OF q(2,3)] q(6) by linarith
      show "p \<noteq> q \<or> i * csize c + k + 1 \<le> j * csize d \<or> j * csize d + m \<le> i * csize c + k"
        using q(4,6) e [of i j] e [of j i] kc by (cases i j rule: linorder_cases) auto
    qed (use q in simp_all)
    then have "load_bytes (chunk s d q j) m (store_bytes (a + of_nat k) [v] (mem s)) = load_bytes (chunk s d q j) m (mem s)"
      unfolding a chunk_def by (intro load_bytes_store_bytes_apart) simp_all
    then show "load_bytes (chunk s d q j) m ?m = load_bytes (chunk s d q j) m (mem s)" by simp
  qed
  have "slab_ok ?s d q (sh_free sh q)" if q: "d < 13" "q \<in> slabs sh d" for d q
  proof (rule slab_ok_cong [OF slab_inv_slab(2) [OF ok q]])
    fix j assume j: "j \<in> set (sh_free sh q)" "j < cap d"
    have "q \<noteq> p \<or> d = c \<and> j \<noteq> i" using slabs_apart [OF ok q(1) l(1)] q(2) l(2) j(1) x(1) by (auto simp: live_def)
    then show "link ?s d q j = link s d q j"
      by (intro same_but_chunk_link [OF _ _ slab_ok_facts(1) [OF slab_inv_slab(2) [OF ok q]] q(1) j(2)]) (use same in simp_all)
  qed simp_all
  then have "slab_inv ?s As sh" using ok by (auto simp: slab_inv_def caches_ok_def)
  then show ?thesis using inv B N block_cong [of ?s s] by (auto simp: heap_inv_def)
qed

lemma heap_reach_inv:
  assumes "heap_reach s0 (s, B)"
    and s0: "page_inv s0 F0 As0" "frames_ok s0" "length (kmcache s0) = 13" "kmcache_last_accessed s0 = None"
  shows "\<exists>F As sh N. heap_inv s B F As sh N"
  using assms(1)
proof (induction "(s, B)" arbitrary: s B)
  case (h_boot s)
  then have "s = s0\<lparr>kmcache := boot_caches\<rparr>" using slab_bootstrap_ok [OF s0(3)] by simp
  then have "heap_inv s {} F0 As0 no_slabs (\<lambda>_. 0)"
    using s0(1) slab_bootstrap_inv [OF s0(2,4)] by (simp add: heap_inv_def)
  then show ?case by blast
next
  case (h_alloc s B n fuel a s')
  then obtain F As sh N where h: "heap_inv s B F As sh N" by blast
  obtain b t F' As' sh' N' where "kmalloc fuel n s = Inr (b, t)" "heap_inv t (if b = 0 then B else insert (b, unat n) B) F' As' sh' N'"
    by (rule heap_alloc [OF h h_alloc.hyps(3,4), of fuel]) blast
  moreover have "b = a" "t = s'" using calculation(1) h_alloc.hyps(5) by simp_all
  ultimately show ?case by blast
next
  case (h_free s B a n s')
  then obtain F As sh N where h: "heap_inv s B F As sh N" by blast
  obtain t F' As' sh' where "kfree a s = Inr t" "heap_inv t (B - {(a, n)}) F' As' sh' N"
    by (rule heap_free [OF h h_free.hyps(3)]) blast
  moreover have "t = s'" using calculation(1) h_free.hyps(4) by simp
  ultimately show ?case by blast
next
  case (h_store s B a n k v)
  then show ?case using heap_store by blast
qed

text \<open>A machine with ten pages and its caches.\<close>

lemma boot_heap:
  obtains s0 s :: kmem_state where "page_inv s0 [1, 2, 3, 4, 5, 6, 7, 8, 9] []" "frames_ok s0" "length (kmcache s0) = 13"
    "kmcache_last_accessed s0 = None" "heap_reach s0 (s, {})" "nr_free_pages s \<noteq> 0"
proof -
  have k: "1 = unat (NR_PAGES_NEEDED (of_nat 10 * sizeof_page))" using array_pages_bound(2) [of 10] by simp
  have e: "[1..<10] = [1::nat, 2, 3, 4, 5, 6, 7, 8, 9]" by (simp add: upt_rec)
  obtain s0 :: kmem_state where s0: "page_inv s0 [1, 2, 3, 4, 5, 6, 7, 8, 9] []" "nr_pages s0 = 10"
    "highmem_base_pfn s0 = 0x24000" "kstate.more s0 = kstate.more boot_kmem"
    using init_page_array_inv [of 10 1 boot_kmem, OF _ k] unfolding e by (auto simp: boot_kmem_def)
  have km: "kmcache s0 = kmcache boot_kmem" "kmcache_last_accessed s0 = None"
    using s0(4) by (cases s0; simp add: boot_kmem_def)+
  have len: "length (kmcache s0) = 13" by (simp add: km boot_kmem_def)
  have "unat (nr_free_pages s0) = 9" using s0(1) by (simp add: page_inv_def free_list_def)
  then have "nr_free_pages (s0\<lparr>kmcache := boot_caches\<rparr>) \<noteq> 0" by auto
  moreover have "heap_reach s0 (s0\<lparr>kmcache := boot_caches\<rparr>, {})" by (rule h_boot [OF slab_bootstrap_ok [OF len]])
  ultimately show ?thesis using that s0(1-3) km(2) len by (simp add: frames_ok_def)
qed


section \<open>Properties\<close>

text \<open>
  Property C2. After the caches have been set up, whatever sequence of allocations of up to 8192
  bytes, frees and writes into the blocks in use the callers perform: the blocks in use are not NULL
  and do not overlap, every further allocation returns, and every block can be freed.
\<close>
theorem kmalloc_blocks_apart:
  assumes "page_inv s0 F0 As0" "frames_ok s0" "length (kmcache s0) = 13" "kmcache_last_accessed s0 = None"
    and "heap_reach s0 (s, B)"
  shows "(\<forall>(a, n)\<in>B. a \<noteq> 0 \<and> 0 < n \<and> (\<exists>s'. kfree a s = Inr s')) \<and>
    (\<forall>(a, n)\<in>B. \<forall>(b, m)\<in>B. (a, n) \<noteq> (b, m) \<longrightarrow> apart a n b m) \<and>
    (\<forall>n fuel. 0 < unat n \<and> unat n \<le> 2 ^ 13 \<longrightarrow> (\<exists>a s'. kmalloc fuel n s = Inr (a, s')))"
proof -
  obtain F As sh N where h: "heap_inv s B F As sh N" using heap_reach_inv [OF assms(5,1-4)] by blast
  then have inv: "page_inv s F As" and ok: "slab_inv s As sh" and B: "B = block s N ` live sh"
    and N: "\<And>c p i. (c, p, i) \<in> live sh \<Longrightarrow> 0 < N (c, p, i) \<and> N (c, p, i) \<le> csize c" by (auto simp: heap_inv_def)
  have 1: "a \<noteq> 0 \<and> 0 < n \<and> (\<exists>s'. kfree a s = Inr s')" if b: "(a, n) \<in> B" for a n
  proof -
    obtain s' where "kfree a s = Inr s'" by (rule heap_free [OF h b])
    then show ?thesis using b B N live_chunk_address(2) [OF inv ok] by (auto simp: block_def)
  qed
  have 2: "apart a n b m" if "(a, n) \<in> B" "(b, m) \<in> B" "(a, n) \<noteq> (b, m)" for a n b m
    using that N unfolding B block_def by (auto intro!: live_apart [OF ok])
  have 3: "\<exists>a s'. kmalloc fuel n s = Inr (a, s')" if n: "0 < unat n" "unat n \<le> 2 ^ 13" for n fuel
    by (rule heap_alloc [OF h n, of fuel]) blast
  show ?thesis using 1 2 3 by blast
qed

theorem kmalloc_blocks_apart_witness:
  "\<exists>(s0 :: kmem_state) s B. heap_reach s0 (s, B) \<and> B \<noteq> {} \<and> (\<forall>(a, n)\<in>B. a \<noteq> 0 \<and> n = 100 \<and> (\<exists>s'. kfree a s = Inr s'))"
proof -
  obtain s0 s :: kmem_state where s: "page_inv s0 [1, 2, 3, 4, 5, 6, 7, 8, 9] []" "frames_ok s0" "length (kmcache s0) = 13"
    "kmcache_last_accessed s0 = None" "heap_reach s0 (s, {})" "nr_free_pages s \<noteq> 0" by (rule boot_heap)
  have n: "0 < unat (100 :: u64)" "unat (100 :: u64) \<le> 2 ^ 13" by simp_all
  obtain F As sh N where h: "heap_inv s {} F As sh N" using heap_reach_inv [OF s(5,1-4)] by blast
  then have "F \<noteq> []" using s(6) by (auto simp: heap_inv_def page_inv_def free_list_def unat_eq_0)
  moreover obtain a s' where a: "kmalloc 0 100 s = Inr (a, s')" "a = 0 \<Longrightarrow> F = []"
    by (rule heap_alloc [OF h n, of 0]) blast
  ultimately have nz: "a \<noteq> 0" by blast
  have "heap_reach s0 (s', {(a, 100)})" using h_alloc [OF s(5) n a(1)] nz by simp
  moreover from kmalloc_blocks_apart [OF s(1-4) this] have "a \<noteq> 0 \<and> (\<exists>s''. kfree a s' = Inr s'')" by simp
  ultimately show ?thesis by (intro exI [of _ s0] exI [of _ s'] exI [of _ "{(a, 100)}"]) simp
qed

text \<open>
  Property C14. While a page is free, an allocation of 1 to 8192 bytes succeeds: it returns a new
  block filled with 0x02 and leaves the contents of every block in use as they were.
\<close>
theorem kmalloc_correct:
  assumes "page_inv s0 F0 As0" "frames_ok s0" "length (kmcache s0) = 13" "kmcache_last_accessed s0 = None"
    and "heap_reach s0 (s, B)" "0 < unat n" "unat n \<le> 2 ^ 13" "nr_free_pages s \<noteq> 0"
  shows "\<exists>a s'. kmalloc fuel n s = Inr (a, s') \<and> a \<noteq> 0 \<and> a \<notin> fst ` B \<and>
    load_bytes a (unat n) (mem s') = replicate (unat n) 2 \<and> (\<forall>(b, m)\<in>B. load_bytes b m (mem s') = load_bytes b m (mem s))"
proof -
  obtain F As sh N where h: "heap_inv s B F As sh N" using heap_reach_inv [OF assms(5,1-4)] by blast
  then have F: "F \<noteq> []" using assms(8) by (auto simp: heap_inv_def page_inv_def free_list_def unat_eq_0)
  show ?thesis by (rule heap_alloc [OF h assms(6,7), of fuel]) (use F in blast)
qed

theorem kmalloc_correct_witness:
  "\<exists>(s :: kmem_state) a s'. kmalloc 0 100 s = Inr (a, s') \<and> a \<noteq> 0 \<and> load_bytes a 100 (mem s') = replicate 100 2"
proof -
  obtain s0 s :: kmem_state where s: "page_inv s0 [1, 2, 3, 4, 5, 6, 7, 8, 9] []" "frames_ok s0" "length (kmcache s0) = 13"
    "kmcache_last_accessed s0 = None" "heap_reach s0 (s, {})" "nr_free_pages s \<noteq> 0" by (rule boot_heap)
  have n: "0 < unat (100 :: u64)" "unat (100 :: u64) \<le> 2 ^ 13" by simp_all
  from kmalloc_correct [OF s(1-5) n s(6), of 0] show ?thesis by auto
qed

text \<open>
  Property C15. Freeing a block in use succeeds and leaves the contents of every other block as they
  were.
\<close>
theorem kfree_correct:
  assumes "page_inv s0 F0 As0" "frames_ok s0" "length (kmcache s0) = 13" "kmcache_last_accessed s0 = None"
    and "heap_reach s0 (s, B)" "(a, n) \<in> B"
  shows "\<exists>s'. kfree a s = Inr s' \<and> heap_reach s0 (s', B - {(a, n)}) \<and>
    (\<forall>(b, m)\<in>B - {(a, n)}. load_bytes b m (mem s') = load_bytes b m (mem s))"
proof -
  obtain F As sh N where h: "heap_inv s B F As sh N" using heap_reach_inv [OF assms(5,1-4)] by blast
  obtain s' where s': "kfree a s = Inr s'"
    "\<And>b m. (b, m) \<in> B \<Longrightarrow> b \<noteq> a \<Longrightarrow> load_bytes b m (mem s') = load_bytes b m (mem s)"
    by (rule heap_free [OF h assms(6)]) blast
  have "b \<noteq> a" if bm: "(b, m) \<in> B" "(b, m) \<noteq> (a, n)" for b m
  proof
    assume "b = a"
    moreover obtain x where "x \<in> live sh" "(b, m) = block s N x" using bm(1) h by (auto simp: heap_inv_def)
    moreover obtain y where "y \<in> live sh" "(a, n) = block s N y" using assms(6) h by (auto simp: heap_inv_def)
    moreover have "slab_inv s As sh" using h by (simp add: heap_inv_def)
    ultimately show False using live_inj [of s As sh x y N N] bm(2) by (metis fst_conv)
  qed
  then show ?thesis using s' h_free [OF assms(5,6) s'(1)] by blast
qed

theorem kfree_correct_witness:
  "\<exists>(s :: kmem_state) s' s'' a. kmalloc 0 100 s = Inr (a, s') \<and> a \<noteq> 0 \<and> kfree a s' = Inr s''"
proof -
  obtain s0 s :: kmem_state where s: "page_inv s0 [1, 2, 3, 4, 5, 6, 7, 8, 9] []" "frames_ok s0" "length (kmcache s0) = 13"
    "kmcache_last_accessed s0 = None" "heap_reach s0 (s, {})" "nr_free_pages s \<noteq> 0" by (rule boot_heap)
  have n: "0 < unat (100 :: u64)" "unat (100 :: u64) \<le> 2 ^ 13" by simp_all
  obtain F As sh N where h: "heap_inv s {} F As sh N" using heap_reach_inv [OF s(5,1-4)] by blast
  then have "F \<noteq> []" using s(6) by (auto simp: heap_inv_def page_inv_def free_list_def unat_eq_0)
  moreover obtain a s' where a: "kmalloc 0 100 s = Inr (a, s')" "a = 0 \<Longrightarrow> F = []"
    by (rule heap_alloc [OF h n, of 0]) blast
  ultimately have nz: "a \<noteq> 0" by blast
  have "heap_reach s0 (s', {(a, 100)})" using h_alloc [OF s(5) n a(1)] nz by simp
  from kfree_correct [OF s(1-4) this, of a 100] show ?thesis using a(1) nz by auto
qed

text \<open>
  Property C38. \<^verbatim>\<open>kmalloc(0)\<close> does not return NULL or a block: no cache fits a size of 0, and the
  kernel panics.
\<close>
theorem kmalloc_zero_panics:
  assumes "page_inv s0 F0 As0" "frames_ok s0" "length (kmcache s0) = 13" "kmcache_last_accessed s0 = None"
    and "heap_reach s0 (s, B)"
  shows "kmalloc fuel 0 s = Inl (Panic ''Failed to find kmem_cache'')"
proof -
  obtain F As sh N where h: "heap_inv s B F As sh N" using heap_reach_inv [OF assms(5,1-4)] by blast
  then have ok: "caches_ok s sh" by (simp add: heap_inv_def slab_inv_def)
  have none: "kmcache_almost_fit 0 (Some c) s = Inr False" if "c < 13" for c
    using almost_fit [OF ok that, of 0] slab_lower_facts [OF that] by simp
  have "search_kmcache is 0 s = Inl (Panic ''Failed to find kmem_cache'')" if "set is \<subseteq> {..<13}" for "is"
    using that by (induction "is") (simp_all add: none)
  moreover have "kmcache_almost_fit 0 (kmcache_last_accessed s) s = Inr False"
    using ok none by (cases "kmcache_last_accessed s") (simp_all add: caches_ok_def kmcache_almost_fit_def [of 0 None])
  ultimately have "find_kmcache 0 s = Inl (Panic ''Failed to find kmem_cache'')"
    by (simp add: find_kmcache_def lessThan_atLeast0)
  moreover have "ROUNDUP 0 ALIGN = 0" by (simp add: ROUNDUP_def DIV_ROUNDUP_def DIV_ROUNDDOWN_def)
  ultimately show ?thesis by (simp add: kmalloc_def slab_alloc_take)
qed

theorem kmalloc_zero_panics_witness:
  "\<exists>s :: kmem_state. nr_free_pages s \<noteq> 0 \<and> kmalloc 0 0 s = Inl (Panic ''Failed to find kmem_cache'')"
proof -
  obtain s0 s :: kmem_state where s: "page_inv s0 [1, 2, 3, 4, 5, 6, 7, 8, 9] []" "frames_ok s0" "length (kmcache s0) = 13"
    "kmcache_last_accessed s0 = None" "heap_reach s0 (s, {})" "nr_free_pages s \<noteq> 0" by (rule boot_heap)
  then show ?thesis using kmalloc_zero_panics [OF s(1-5), of 0] by blast
qed

end
