(* ===== verification/Spec2Isabelle.thy ===== *)
theory Spec2Isabelle
  imports Vm_Props Trap_Props Rbtree_Props Refill Slab_Props
begin

text \<open>
  A teaching kernel for the Loongson 3A (\<^verbatim>\<open>mips64el\<close>), modelled function by function
  from its C source: memory management, tasks and scheduling, exceptions and system calls, the
  console, and the library routines they are written with.

  \<^bold>\<open>The program and how its parts fit.\<close> The boot code leaves an array of
  \<^verbatim>\<open>struct page\<close> and a page allocator (\<^verbatim>\<open>kern/mm/pgalloc.c\<close>), whose free
  list is sorted by address. On pages stand the slab allocator with \<^verbatim>\<open>kmalloc\<close>
  (\<^verbatim>\<open>kern/mm/slab.c\<close>, \<^verbatim>\<open>kern/mm/kmalloc.c\<close>) and the page directories of the
  three-level page table (\<^verbatim>\<open>arch/mips/mm/hier\<close>), which the TLB routines
  (\<^verbatim>\<open>arch/mips/mm/tlbops.c\<close>) keep the hardware consistent with. Address spaces are lists
  of areas over a page table (\<^verbatim>\<open>kern/mm/vm.c\<close>). Tasks live in \<^verbatim>\<open>kmalloc\<close>ed
  memory with a kernel stack of pages; they are on the run queues of
  \<^verbatim>\<open>kern/sched/o1.c\<close> and in the process list, hash table and tree of
  \<^verbatim>\<open>kern/sched/tasklist.c\<close>. The clock interrupt drives the scheduler, page faults assign
  address space identifiers, break points report where a task stopped, and system calls reach
  \<^verbatim>\<open>fs/write.c\<close>, which prints through \<^verbatim>\<open>printk\<close> on the serial console. The ELF
  loader (\<^verbatim>\<open>kern/syscall/execve.c\<close>) fills the address space of the first process.

  \<^bold>\<open>State.\<close> One record grows along the import order, each component extending the record
  of the one below: \<open>kstate\<close> (page array, links of the page list, byte memory, boot
  parameters), \<open>kmem_state\<close> (caches), \<open>mach_state\<close> (TLB and coprocessor 0
  registers), \<open>vm_state\<close> (areas and address spaces), \<open>task_state\<close> (task structures,
  run queues, process list, hash table, identifier counters, the interrupted context of every
  processor) and \<open>sys_state\<close> (serial output). Operations take a record of any extension, so that
  a caller higher up uses them unchanged. Heap objects are maps from pointers, \<open>None\<close> for what has
  been freed or never existed: an access to it is the value \<open>BadPointer\<close>, through a null
  pointer \<open>NullPointer\<close>. \<^verbatim>\<open>panic\<close> and failed assertions are values too; every function
  that can stop returns \<open>'a result\<close>, the sum of a fault and a value. Memory is one function from
  64-bit addresses to bytes, little-endian; all C integers keep their width.

  \<^bold>\<open>Theories.\<close>
  \<^item> \<^verbatim>\<open>Kernel_Prelude\<close>: C types, faults and sequencing, byte memory.
    \<^verbatim>\<open>C_Macros\<close>: rounding, bit operations, page and address arithmetic
    (\<^verbatim>\<open>include/mathop.h\<close>, \<^verbatim>\<open>asm/bitops.h\<close>, \<^verbatim>\<open>asm/mm/page.h\<close>,
    \<^verbatim>\<open>asm/addrspace.h\<close>) with their meaning by division.
  \<^item> \<^verbatim>\<open>Linked_List\<close>: \<^verbatim>\<open>include/ds/list.h\<close> over a link map. \<open>ring\<close> says that a head and
    a list of nodes form a cycle; the locale \<open>cyclic_list\<close> is the interface the clients use, the
    list operations interpret it.
  \<^item> \<^verbatim>\<open>Libc_Memory\<close>, \<^verbatim>\<open>Libc_String\<close>, \<^verbatim>\<open>Libc_String_Props\<close>, \<^verbatim>\<open>Printf\<close>:
    \<^verbatim>\<open>lib/libc\<close>. The word-wise \<^verbatim>\<open>memcpy\<close> equals a byte copy; the bounded copies stay
    in their buffers; a printed number is read back by \<^verbatim>\<open>strtoul\<close>.
  \<^item> \<^verbatim>\<open>Rbtree\<close>, \<^verbatim>\<open>Rbtree_Props\<close>: \<^verbatim>\<open>lib/rbtree.c\<close> on linked nodes; insertion is a
    refinement of tree transformations in a zipper and keeps order, colours and black height.
  \<^item> \<^verbatim>\<open>Page_Alloc\<close>, \<^verbatim>\<open>Page_Alloc_Lemmas\<close>, \<^verbatim>\<open>Page_Alloc_Props\<close>: page structures, the
    allocator and \<^verbatim>\<open>init_page_array\<close>. \<open>page_reach\<close> is what any sequence of
    \<^verbatim>\<open>alloc_pages\<close>, \<^verbatim>\<open>alloc_cont_pages\<close>, \<^verbatim>\<open>free_all_pages\<close> and
    \<^verbatim>\<open>free_pages\<close> reaches; in it no page is lost and no page is both free and handed out.
  \<^item> \<^verbatim>\<open>Slab\<close>, \<^verbatim>\<open>Slab_Inv\<close>, \<^verbatim>\<open>Slab_Props\<close>: caches, slabs,
    \<^verbatim>\<open>kmalloc\<close> and \<^verbatim>\<open>kfree\<close>; the invariant of queues and chunk lists, and the heap as
    its callers see it (\<open>heap_reach\<close>): blocks in use never overlap and keep their contents.
    \<^verbatim>\<open>Frames\<close>: what the lower components leave alone in the state of the higher ones.
  \<^item> \<^verbatim>\<open>Tlb\<close>, \<^verbatim>\<open>Page_Table\<close>, \<^verbatim>\<open>Asid\<close>: TLB entries and instructions, page directories and
    walks, address space identifiers and the page fault handler. \<^verbatim>\<open>Page_Memory\<close> says which
    bytes a page is, \<^verbatim>\<open>Page_Table_Inv\<close> what a well-formed table is (a shape of directories
    over pages in memory, \<open>pt_inv\<close>), and \<^verbatim>\<open>Page_Table_Props\<close> what inserting and removing do to
    the map from addresses to entries and to the directories.
  \<^item> \<^verbatim>\<open>Refill\<close>: the TLB refill vector of \<^verbatim>\<open>tlbex.S\<close> agrees with that map, so a page
    inserted in C is the page the processor reaches.
  \<^item> \<^verbatim>\<open>Vm\<close>, \<^verbatim>\<open>Vm_Props\<close>: areas and address spaces, mapping and unmapping, copies between
    address spaces.
  \<^item> \<^verbatim>\<open>Task_State\<close>, \<^verbatim>\<open>Switch\<close>, \<^verbatim>\<open>Sched_O1\<close>, \<^verbatim>\<open>Sched_Props\<close>: tasks, the
    instructions of \<^verbatim>\<open>switch.S\<close> and their execution, run queues, \<^verbatim>\<open>kern/sched\<close> and the
    clock tick. A call of \<^verbatim>\<open>sched()\<close> refines a pair of FIFO queues per processor; the locale \<open>run_queue_ops\<close> is the interface the scheduler uses.
  \<^item> \<^verbatim>\<open>Task_List\<close>, \<^verbatim>\<open>Task_List_Props\<close>: \<^verbatim>\<open>kern/sched/tasklist.c\<close>; the hash table agrees
    with the process list in every reachable state (\<open>table_reach\<close>).
  \<^item> \<^verbatim>\<open>Task_Setup\<close>, \<^verbatim>\<open>Task_Props\<close>, \<^verbatim>\<open>Execve\<close>: creating tasks and loading a program.
  \<^item> \<^verbatim>\<open>Decode\<close>, \<^verbatim>\<open>Traps\<close>, \<^verbatim>\<open>Trap_Props\<close>, \<^verbatim>\<open>Console\<close>: branch emulation,
    \<^verbatim>\<open>stackframe.h\<close>, exceptions, system calls, the UART and \<^verbatim>\<open>printk\<close>.

  \<^bold>\<open>Loops and fuel.\<close> A loop over a C counter is a recursion on the counter. A loop that follows
  pointers takes fuel and returns \<open>Hang\<close> without it. The list walks of the page allocator use
  \<open>walk_fuel\<close>, the number of pages and two: a walk visits every page of a ring at most once, and the
  correctness theorems show that the bound is enough; the search of \<open>alloc_cont_pages\<close> takes its fuel
  as an argument, and \<open>alloc_cont_pages_hangs\<close> says that there are lists it never leaves. Walks over area lists,
  process lists, trees and strings take the fuel as an argument, and the theorems name how much is enough
  (the length of the list, the height of the tree, the length of the format and the size of the buffer).

  \<^bold>\<open>Parameters.\<close> The contents of memory at boot, the size of the page array, the values of
  coprocessor registers that the hardware sets (\<^verbatim>\<open>Count\<close>, \<^verbatim>\<open>Cause\<close>,
  \<^verbatim>\<open>BadVAddr\<close>) and the UART status are part of the state or arguments. Where the code
  takes the address of an object (\<^verbatim>\<open>&init\<close>, the kernel stack) it is an argument.

  \<^bold>\<open>Not modelled.\<close> The early boot code (\<^verbatim>\<open>entry.S\<close>, \<^verbatim>\<open>arch/mips/setup.c\<close>,
  \<^verbatim>\<open>cpu.c\<close>, \<^verbatim>\<open>cache.c\<close>, the \<^verbatim>\<open>mach\<close> directory and \<^verbatim>\<open>kern/init.c\<close>) talks to
  firmware and device registers and runs once; cache instructions have no effect on the memory
  model. Of the assembly, the context switch, the refill vector and the macros that
  save and load the registers are modelled, the other vectors of \<^verbatim>\<open>except.S\<close> are not. \<^verbatim>\<open>kern/mm/test.c\<close> is a self test,
  \<^verbatim>\<open>lib/libc/arch\<close> and \<^verbatim>\<open>ramdisk\<close> are the user program the kernel is tried with. The
  headers that only name registers and instruction encodings have no behaviour of their own; what
  the code uses of them is written out where it is used.
\<close>

end
